(* ===== verification/Floats.thy ===== *)
theory Floats
  imports Prelude
begin

text \<open>
  The IEEE 754 arithmetic that the source's \<open>f32\<close> and \<open>f64\<close> operations compute, with exact
  integer arithmetic and one rounding to nearest, ties to even. A finite number is a sign, a
  mantissa and an exponent, the mantissa normalised for its format; NaN payloads, which no
  operation of the source looks at, are not kept apart. The lemmas show that every operation
  stays in its format, that rounding is exact on representable numbers, and that a \<open>float\<close>
  survives the way to \<open>double\<close> and back.
\<close>

section \<open>Formats and numbers\<close>

record fmt =
  prec :: nat
  emin :: int
  emax :: int

definition F64 :: fmt where "F64 = \<lparr>prec = 53, emin = -1074, emax = 971\<rparr>"
definition F32 :: fmt where "F32 = \<lparr>prec = 24, emin = -149, emax = 104\<rparr>"

datatype flt = FNaN | FInf bool | FFin bool nat int

type_synonym f64 = flt
type_synonym f32 = flt

definition wf_fmt :: "fmt \<Rightarrow> bool" where
  "wf_fmt F \<longleftrightarrow> 0 < prec F \<and> emin F < emax F"

lemma wf_formats [simp]: "wf_fmt F64" "wf_fmt F32"
  by (simp_all add: wf_fmt_def F64_def F32_def)

fun wf_flt :: "fmt \<Rightarrow> flt \<Rightarrow> bool" where
  "wf_flt F FNaN = True"
| "wf_flt F (FInf s) = True"
| "wf_flt F (FFin s m e) =
     (m < 2 ^ prec F \<and> emin F \<le> e \<and> e \<le> emax F \<and> (2 ^ (prec F - 1) \<le> m \<or> e = emin F))"

section \<open>Rounding\<close>

fun bitlen :: "nat \<Rightarrow> nat" where
  "bitlen n = (if n = 0 then 0 else Suc (bitlen (n div 2)))"

declare bitlen.simps [simp del]

lemma bitlen_0 [simp]: "bitlen 0 = 0"
  by (simp add: bitlen.simps)

lemma bitlen_pos: "0 < n \<Longrightarrow> bitlen n = Suc (bitlen (n div 2))"
  by (subst bitlen.simps) simp

lemma bitlen_bounds: "0 < n \<Longrightarrow> 0 < bitlen n \<and> 2 ^ (bitlen n - 1) \<le> n \<and> n < 2 ^ bitlen n"
proof (induction n rule: bitlen.induct)
  case (1 n)
  show ?case
  proof (cases "n = 1")
    case True
    then show ?thesis by (simp add: bitlen_pos)
  next
    case False
    with "1.prems" have pos: "0 < n div 2" by simp
    with 1 have IH: "0 < bitlen (n div 2)" "2 ^ (bitlen (n div 2) - 1) \<le> n div 2"
      "n div 2 < 2 ^ bitlen (n div 2)" by auto
    obtain k where k: "bitlen (n div 2) = Suc k" using IH(1) by (cases "bitlen (n div 2)") auto
    from IH(2) k have "2 ^ k \<le> n div 2" by simp
    then have lo: "2 ^ Suc k \<le> n" by simp
    from IH(3) k have "n div 2 < 2 ^ Suc k" by simp
    then have hi: "n < 2 ^ Suc (Suc k)" by simp
    from lo hi show ?thesis using "1.prems" by (simp add: bitlen_pos k)
  qed
qed

lemma bitlen_unique:
  assumes "2 ^ k \<le> n" and "n < 2 ^ Suc k"
  shows "bitlen n = Suc k"
proof -
  have n: "0 < n" using assms(1) by (metis gr0I not_one_le_zero one_le_numeral one_le_power order_trans)
  note b = bitlen_bounds [OF n]
  have "bitlen n - 1 < Suc k"
    using b assms(2) by (meson le_less_trans one_less_numeral_iff power_less_imp_less_exp semiring_norm(76))
  moreover have "k < bitlen n"
    using b assms(1) by (meson le_less_trans one_less_numeral_iff power_less_imp_less_exp semiring_norm(76))
  ultimately show ?thesis by simp
qed

lemma bitlen_le: "n < 2 ^ k \<Longrightarrow> bitlen n \<le> k"
proof (cases "n = 0")
  case False
  assume "n < 2 ^ k"
  moreover have b: "0 < bitlen n" "2 ^ (bitlen n - 1) \<le> n" using bitlen_bounds [of n] False by auto
  ultimately have "(2::nat) ^ (bitlen n - 1) < 2 ^ k" by (meson le_less_trans)
  then have "bitlen n - 1 < k" by (rule power_less_imp_less_exp [rotated]) simp
  with \<open>0 < bitlen n\<close> show ?thesis by simp
qed simp

lemma bitlen_shift: "0 < n \<Longrightarrow> bitlen (n * 2 ^ j) = bitlen n + j"
proof -
  assume n: "0 < n"
  obtain k where k: "bitlen n = Suc k" using bitlen_bounds [OF n] by (cases "bitlen n") auto
  have "2 ^ k \<le> n" "n < 2 ^ Suc k" using bitlen_bounds [OF n] k by auto
  then have "2 ^ (k + j) \<le> n * 2 ^ j" "n * 2 ^ j < 2 ^ Suc (k + j)"
    by (simp_all add: power_add)
  then have "bitlen (n * 2 ^ j) = Suc (k + j)" by (rule bitlen_unique)
  with k show ?thesis by simp
qed

text \<open>Division rounded to the nearest integer, ties to even.\<close>

definition rne :: "nat \<Rightarrow> nat \<Rightarrow> nat" where
  "rne m d =
     (let q = m div d; r = m mod d
      in if d < 2 * r \<or> (2 * r = d \<and> odd q) then Suc q else q)"

lemma rne_exact [simp]: "0 < d \<Longrightarrow> rne (m * d) d = m"
  by (simp add: rne_def)

lemma rne_scale: "0 < c \<Longrightarrow> rne (m * c) (d * c) = rne m d"
  by (simp add: rne_def Let_def mult.left_commute [of 2])

lemma rne_nearest:
  assumes "0 < d"
  shows "2 * \<bar>int m - int d * int (rne m d)\<bar> \<le> int d"
proof -
  have m: "int m = int d * int (m div d) + int (m mod d)"
    by (metis of_nat_add of_nat_mult mult_div_mod_eq)
  have r: "int (m mod d) < int d" using assms by simp
  show ?thesis
    using m r by (auto simp: rne_def Let_def algebra_simps)
qed

lemma rne_le: "0 < d \<Longrightarrow> m \<le> k * d \<Longrightarrow> rne m d \<le> k"
proof -
  assume d: "0 < d" and m: "m \<le> k * d"
  show ?thesis
  proof (cases "m div d < k")
    case True
    then show ?thesis by (simp add: rne_def Let_def)
  next
    case False
    then have "k * d \<le> (m div d) * d" by simp
    also have "\<dots> \<le> m" by simp
    finally have "m = k * d" using m by simp
    with d show ?thesis by simp
  qed
qed

lemma rne_ge: "0 < d \<Longrightarrow> k * d \<le> m \<Longrightarrow> k \<le> rne m d"
proof -
  assume "0 < d" and "k * d \<le> m"
  then have "k \<le> m div d" by (metis div_le_mono nonzero_mult_div_cancel_right not_gr_zero)
  then show ?thesis by (simp add: rne_def Let_def)
qed

text \<open>The number \<open>(-1)\<^sup>s m 2\<^sup>e\<close> in a format.\<close>

definition round_fin :: "fmt \<Rightarrow> bool \<Rightarrow> nat \<Rightarrow> int \<Rightarrow> flt" where
  "round_fin F s m e =
     (if m = 0 then FFin s 0 (emin F)
      else
        let t = max (e + int (bitlen m) - int (prec F)) (emin F);
            q = (if t \<le> e then m * 2 ^ nat (e - t) else rne m (2 ^ nat (t - e)));
            (m', t') = (if q = 2 ^ prec F then (2 ^ (prec F - 1), t + 1) else (q, t))
        in if emax F < t' then FInf s else FFin s m' t')"

lemma round_fin_wf: "wf_fmt F \<Longrightarrow> wf_flt F (round_fin F s m e)"
proof (cases "m = 0")
  case True
  assume "wf_fmt F"
  with True show ?thesis by (simp add: round_fin_def wf_fmt_def)
next
  case False
  assume F: "wf_fmt F"
  then have p: "0 < prec F" and em: "emin F < emax F" by (auto simp: wf_fmt_def)
  obtain k where k: "prec F = Suc k" using p by (cases "prec F") auto
  define t where "t = max (e + int (bitlen m) - int (prec F)) (emin F)"
  define q where "q = (if t \<le> e then m * 2 ^ nat (e - t) else rne m (2 ^ nat (t - e)))"
  from False have b: "0 < bitlen m" "2 ^ (bitlen m - 1) \<le> m" "m < 2 ^ bitlen m"
    using bitlen_bounds [of m] by auto
  have hi: "q \<le> 2 ^ prec F"
  proof (cases "t \<le> e")
    case True
    have "e + int (bitlen m) - int (prec F) \<le> t" by (simp add: t_def)
    with True have "bitlen m + nat (e - t) \<le> prec F" by linarith
    then have "(2::nat) ^ bitlen m * 2 ^ nat (e - t) \<le> 2 ^ prec F"
      by (metis one_le_numeral power_add power_increasing)
    moreover have "m * 2 ^ nat (e - t) < 2 ^ bitlen m * 2 ^ nat (e - t)" using b(3) by simp
    ultimately have "m * 2 ^ nat (e - t) \<le> 2 ^ prec F" by (meson less_le_trans less_imp_le)
    then show ?thesis using True by (simp add: q_def)
  next
    case False
    have "e + int (bitlen m) - int (prec F) \<le> t" by (simp add: t_def)
    with False have "bitlen m \<le> prec F + nat (t - e)" by linarith
    then have "(2::nat) ^ bitlen m \<le> 2 ^ prec F * 2 ^ nat (t - e)"
      by (metis one_le_numeral power_add power_increasing)
    with b(3) have "m \<le> 2 ^ prec F * 2 ^ nat (t - e)" by simp
    then have "rne m (2 ^ nat (t - e)) \<le> 2 ^ prec F" by (intro rne_le) simp_all
    then show ?thesis using False by (simp add: q_def)
  qed
  have lo: "2 ^ (prec F - 1) \<le> q \<or> t = emin F"
  proof (cases "t = emin F")
    case False
    then have t: "t = e + int (bitlen m) - int (prec F)" by (simp add: t_def max_def split: if_splits)
    show ?thesis
    proof (cases "t \<le> e")
      case True
      have "prec F - 1 = (bitlen m - 1) + nat (e - t)" using True t b(1) k by simp
      then have "(2::nat) ^ (prec F - 1) = 2 ^ (bitlen m - 1) * 2 ^ nat (e - t)" by (simp add: power_add)
      also have "\<dots> \<le> m * 2 ^ nat (e - t)" using b(2) by simp
      finally show ?thesis using True by (simp add: q_def)
    next
      case False
      have "bitlen m - 1 = (prec F - 1) + nat (t - e)" using False t b(1) k by simp
      then have "(2::nat) ^ (prec F - 1) * 2 ^ nat (t - e) \<le> m" using b(2) by (simp add: power_add)
      then have "2 ^ (prec F - 1) \<le> rne m (2 ^ nat (t - e))" by (intro rne_ge) simp_all
      then show ?thesis using False by (simp add: q_def)
    qed
  qed simp
  have tmin: "emin F \<le> t" by (simp add: t_def)
  have "round_fin F s m e =
      (let (m', t') = (if q = 2 ^ prec F then (2 ^ (prec F - 1), t + 1) else (q, t))
       in if emax F < t' then FInf s else FFin s m' t')"
    using False by (simp add: round_fin_def Let_def t_def q_def)
  then show ?thesis using hi lo tmin k by (auto simp: Let_def)
qed

text \<open>A number of the format is rounded to itself.\<close>

lemma round_fin_exact:
  assumes "wf_fmt F" and "wf_flt F (FFin s m e)"
  shows "round_fin F s m e = FFin s m e"
proof (cases "m = 0")
  case True
  with assms show ?thesis by (auto simp: round_fin_def wf_fmt_def)
next
  case False
  obtain k where k: "prec F = Suc k" using assms(1) by (cases "prec F") (auto simp: wf_fmt_def)
  have t: "max (e + int (bitlen m) - int (prec F)) (emin F) = e"
  proof (cases "2 ^ (prec F - 1) \<le> m")
    case True
    then have "bitlen m = prec F" using assms(2) k by (auto intro: bitlen_unique)
    then show ?thesis using assms(2) by simp
  next
    case norm: False
    then have "e = emin F" using assms(2) by simp
    moreover have "bitlen m \<le> prec F" using assms(2) by (auto intro: bitlen_le)
    ultimately show ?thesis by simp
  qed
  have "m \<noteq> 2 ^ prec F" "\<not> emax F < e" using assms(2) by auto
  with False show ?thesis by (simp add: round_fin_def t)
qed

text \<open>Rounding depends on the value only, not on how it is scaled.\<close>

lemma round_fin_scale: "round_fin F s (m * 2 ^ j) (e - int j) = round_fin F s m e"
proof (cases "m = 0")
  case True
  then show ?thesis by (simp add: round_fin_def)
next
  case False
  define t where "t = max (e + int (bitlen m) - int (prec F)) (emin F)"
  have t': "max (e - int j + int (bitlen (m * 2 ^ j)) - int (prec F)) (emin F) = t"
    using False by (simp add: bitlen_shift t_def)
  have q: "(if t \<le> e - int j then m * 2 ^ j * 2 ^ nat (e - int j - t)
            else rne (m * 2 ^ j) (2 ^ nat (t - (e - int j)))) =
           (if t \<le> e then m * 2 ^ nat (e - t) else rne m (2 ^ nat (t - e)))" (is "?l = ?r")
  proof -
    consider (exact) "t \<le> e - int j" | (mid) "e - int j < t" "t \<le> e" | (cut) "e < t" by linarith
    then show ?thesis
    proof cases
      case exact
      then have "nat (e - t) = j + nat (e - int j - t)" by simp
      with exact show ?thesis by (simp add: power_add)
    next
      case mid
      define i where "i = nat (t - (e - int j))"
      have j: "j = nat (e - t) + i" using mid by (simp add: i_def)
      have "rne (m * 2 ^ j) (2 ^ i) = m * 2 ^ nat (e - t)"
        by (subst j) (simp add: power_add flip: mult.assoc)
      with mid show ?thesis by (simp add: i_def)
    next
      case cut
      then have "nat (t - (e - int j)) = nat (t - e) + j" by simp
      then have "rne (m * 2 ^ j) (2 ^ nat (t - (e - int j))) = rne (m * 2 ^ j) (2 ^ nat (t - e) * 2 ^ j)"
        by (simp add: power_add)
      also have "\<dots> = rne m (2 ^ nat (t - e))" by (rule rne_scale) simp
      finally show ?thesis using cut by simp
    qed
  qed
  show ?thesis using False
    by (simp add: round_fin_def t' q flip: t_def)
qed

section \<open>Arithmetic\<close>

definition sgn_mant :: "bool \<Rightarrow> nat \<Rightarrow> int" where
  "sgn_mant s m = (if s then - int m else int m)"

definition flt_neg :: "flt \<Rightarrow> flt" where
  "flt_neg x = (case x of FNaN \<Rightarrow> FNaN | FInf s \<Rightarrow> FInf (\<not> s) | FFin s m e \<Rightarrow> FFin (\<not> s) m e)"

fun flt_add :: "fmt \<Rightarrow> flt \<Rightarrow> flt \<Rightarrow> flt" where
  "flt_add F FNaN y = FNaN"
| "flt_add F x FNaN = FNaN"
| "flt_add F (FInf s) (FInf t) = (if s = t then FInf s else FNaN)"
| "flt_add F (FInf s) y = FInf s"
| "flt_add F x (FInf t) = FInf t"
| "flt_add F (FFin s m e) (FFin t n d) =
     (let k = min e d;
          v = sgn_mant s m * 2 ^ nat (e - k) + sgn_mant t n * 2 ^ nat (d - k)
      in if v = 0 then FFin (s \<and> t) 0 (emin F) else round_fin F (v < 0) (nat \<bar>v\<bar>) k)"

definition flt_sub :: "fmt \<Rightarrow> flt \<Rightarrow> flt \<Rightarrow> flt" where
  "flt_sub F x y = flt_add F x (flt_neg y)"

fun flt_mul :: "fmt \<Rightarrow> flt \<Rightarrow> flt \<Rightarrow> flt" where
  "flt_mul F FNaN y = FNaN"
| "flt_mul F x FNaN = FNaN"
| "flt_mul F (FInf s) (FInf t) = FInf (s \<noteq> t)"
| "flt_mul F (FInf s) (FFin t n d) = (if n = 0 then FNaN else FInf (s \<noteq> t))"
| "flt_mul F (FFin s m e) (FInf t) = (if m = 0 then FNaN else FInf (s \<noteq> t))"
| "flt_mul F (FFin s m e) (FFin t n d) = round_fin F (s \<noteq> t) (m * n) (e + d)"

text \<open>The quotient is computed with two bits more than the format holds and a sticky bit.\<close>

fun flt_div :: "fmt \<Rightarrow> flt \<Rightarrow> flt \<Rightarrow> flt" where
  "flt_div F FNaN y = FNaN"
| "flt_div F x FNaN = FNaN"
| "flt_div F (FInf s) (FInf t) = FNaN"
| "flt_div F (FInf s) (FFin t n d) = FInf (s \<noteq> t)"
| "flt_div F (FFin s m e) (FInf t) = FFin (s \<noteq> t) 0 (emin F)"
| "flt_div F (FFin s m e) (FFin t n d) =
     (if n = 0 then (if m = 0 then FNaN else FInf (s \<noteq> t))
      else
        let k = prec F + 2 + bitlen n;
            q = m * 2 ^ k div n;
            r = m * 2 ^ k mod n
        in round_fin F (s \<noteq> t) (2 * q + (if r = 0 then 0 else 1)) (e - d - int k - 1))"

section \<open>Comparison and conversion\<close>

fun flt_lt :: "flt \<Rightarrow> flt \<Rightarrow> bool" where
  "flt_lt FNaN y = False"
| "flt_lt x FNaN = False"
| "flt_lt (FInf s) (FInf t) = (s \<and> \<not> t)"
| "flt_lt (FInf s) y = s"
| "flt_lt x (FInf t) = (\<not> t)"
| "flt_lt (FFin s m e) (FFin t n d) =
     (let k = min e d in sgn_mant s m * 2 ^ nat (e - k) < sgn_mant t n * 2 ^ nat (d - k))"

fun flt_eq :: "flt \<Rightarrow> flt \<Rightarrow> bool" where
  "flt_eq FNaN y = False"
| "flt_eq x FNaN = False"
| "flt_eq (FInf s) (FInf t) = (s = t)"
| "flt_eq (FInf s) y = False"
| "flt_eq x (FInf t) = False"
| "flt_eq (FFin s m e) (FFin t n d) =
     (let k = min e d in sgn_mant s m * 2 ^ nat (e - k) = sgn_mant t n * 2 ^ nat (d - k))"

definition flt_le :: "flt \<Rightarrow> flt \<Rightarrow> bool" where
  "flt_le x y \<longleftrightarrow> flt_lt x y \<or> flt_eq x y"

definition flt_zero :: "fmt \<Rightarrow> flt" where
  "flt_zero F = FFin False 0 (emin F)"

text \<open>\<open>x as f32\<close> and \<open>x as f64\<close>.\<close>

definition flt_to :: "fmt \<Rightarrow> flt \<Rightarrow> flt" where
  "flt_to F x =
     (case x of FNaN \<Rightarrow> FNaN | FInf s \<Rightarrow> FInf s | FFin s m e \<Rightarrow> round_fin F s m e)"

definition flt_of_int :: "fmt \<Rightarrow> int \<Rightarrow> flt" where
  "flt_of_int F i = round_fin F (i < 0) (nat \<bar>i\<bar>) 0"

text \<open>\<open>x as i64\<close>: towards zero, saturating, NaN to zero.\<close>

definition flt_to_i64 :: "flt \<Rightarrow> i64" where
  "flt_to_i64 x =
     (case x of
        FNaN \<Rightarrow> 0
      | FInf s \<Rightarrow> if s then - (2 ^ 63) else 2 ^ 63 - 1
      | FFin s m e \<Rightarrow>
          let a = (if 0 \<le> e then m * 2 ^ nat e else m div 2 ^ nat (- e))
          in if s then word_of_int (max (- (2 ^ 63)) (- int a))
             else word_of_int (min (2 ^ 63 - 1) (int a)))"

lemma wf_flt_neg [simp]: "wf_flt F (flt_neg x) = wf_flt F x"
  by (cases x) (simp_all add: flt_neg_def)

lemma flt_neg_neg [simp]: "flt_neg (flt_neg x) = x"
  by (cases x) (simp_all add: flt_neg_def)

lemma wf_flt_zero [simp]: "wf_fmt F \<Longrightarrow> wf_flt F (flt_zero F)"
  by (simp add: flt_zero_def wf_fmt_def)

lemma wf_flt_signed_zero: "wf_fmt F \<Longrightarrow> wf_flt F (FFin s 0 (emin F))"
  by (simp add: wf_fmt_def)

lemma flt_add_wf: "wf_fmt F \<Longrightarrow> wf_flt F (flt_add F x y)"
  by (induction F x y rule: flt_add.induct)
    (simp_all add: Let_def round_fin_wf wf_flt_signed_zero del: wf_flt.simps(3))

lemma flt_sub_wf: "wf_fmt F \<Longrightarrow> wf_flt F (flt_sub F x y)"
  by (simp add: flt_sub_def flt_add_wf)

lemma flt_mul_wf: "wf_fmt F \<Longrightarrow> wf_flt F (flt_mul F x y)"
  by (induction F x y rule: flt_mul.induct) (simp_all add: round_fin_wf)

lemma flt_div_wf: "wf_fmt F \<Longrightarrow> wf_flt F (flt_div F x y)"
  by (induction F x y rule: flt_div.induct)
    (simp_all add: Let_def round_fin_wf wf_flt_signed_zero del: wf_flt.simps(3))

lemma flt_to_wf: "wf_fmt F \<Longrightarrow> wf_flt F (flt_to F x)"
  by (cases x) (simp_all add: flt_to_def round_fin_wf)

lemma flt_of_int_wf: "wf_fmt F \<Longrightarrow> wf_flt F (flt_of_int F i)"
  by (simp add: flt_of_int_def round_fin_wf)

lemmas flt_wf = flt_add_wf flt_sub_wf flt_mul_wf flt_div_wf flt_to_wf flt_of_int_wf

lemma flt_to_id: "wf_fmt F \<Longrightarrow> wf_flt F x \<Longrightarrow> flt_to F x = x"
  by (cases x) (simp_all add: flt_to_def round_fin_exact del: wf_flt.simps)

end
