(* ===== verification/IR_Expr.thy ===== *)
theory IR_Expr
  imports Floats
begin

text \<open>
  The expression language of the IR (\<open>ol_ir/src/types.rs\<close> and \<open>ol_ir/src/expr.rs\<close>): types,
  literals, operators, expressions, the traversals \<open>visit\<close>, \<open>walk_mut\<close>, \<open>walk_mut_post\<close>, the
  renaming of a variable and the free variables. The lemmas show what each traversal reaches,
  and give the induction over subexpressions that the component theories use.
\<close>

section \<open>Types\<close>

datatype ty =
    TBool | TInt8 | TInt16 | TInt32 | TInt64
  | TUint8 | TUint16 | TUint32 | TUint64
  | TFloat32 | TFloat64 | TChar
  | TArray ty u32
  | TNamed string

fun is_integer :: "ty \<Rightarrow> bool" where
  "is_integer TInt8 = True" | "is_integer TInt16 = True"
| "is_integer TInt32 = True" | "is_integer TInt64 = True"
| "is_integer TUint8 = True" | "is_integer TUint16 = True"
| "is_integer TUint32 = True" | "is_integer TUint64 = True"
| "is_integer _ = False"

fun is_float :: "ty \<Rightarrow> bool" where
  "is_float TFloat32 = True"
| "is_float TFloat64 = True"
| "is_float _ = False"

fun is_numeric :: "ty \<Rightarrow> bool" where
  "is_numeric TInt8 = True" | "is_numeric TInt16 = True"
| "is_numeric TInt32 = True" | "is_numeric TInt64 = True"
| "is_numeric TUint8 = True" | "is_numeric TUint16 = True"
| "is_numeric TUint32 = True" | "is_numeric TUint64 = True"
| "is_numeric TFloat32 = True" | "is_numeric TFloat64 = True"
| "is_numeric _ = False"

fun is_bool :: "ty \<Rightarrow> bool" where
  "is_bool TBool = True"
| "is_bool _ = False"

lemma is_numeric_iff: "is_numeric t \<longleftrightarrow> is_integer t \<or> is_float t"
  by (cases t) auto

fun lustre_name :: "ty \<Rightarrow> string" where
  "lustre_name TBool = ''bool''"
| "lustre_name (TArray elem len) = lustre_name elem @ ''^'' @ nat_digits (unat len)"
| "lustre_name (TNamed name) = name"
| "lustre_name TFloat32 = ''real''"
| "lustre_name TFloat64 = ''real''"
| "lustre_name _ = ''int''"

fun c_name :: "ty \<Rightarrow> string" where
  "c_name TBool = ''bool''"
| "c_name TInt8 = ''int8_t''"
| "c_name TInt16 = ''int16_t''"
| "c_name TInt32 = ''int32_t''"
| "c_name TInt64 = ''int64_t''"
| "c_name TUint8 = ''uint8_t''"
| "c_name TUint16 = ''uint16_t''"
| "c_name TUint32 = ''uint32_t''"
| "c_name TUint64 = ''uint64_t''"
| "c_name TFloat32 = ''float''"
| "c_name TFloat64 = ''double''"
| "c_name TChar = ''char''"
| "c_name (TArray elem len) = c_name elem"
| "c_name (TNamed name) = name"

section \<open>Expressions\<close>

datatype unary_op = UNot | UNeg

datatype bin_op =
    BAnd | BOr | BXor | BImplies
  | BEq | BNeq | BLt | BLe | BGt | BGe
  | BAdd | BSub | BMul | BDiv | BMod
  | BBitAnd | BBitOr | BBitXor | BShl | BShr

datatype literal = LBool bool | LInt i64 | LFloat f64 | LChar u8

datatype iter_kind = MapIter | FoldIter

datatype expr =
    Const literal
  | Var string
  | Unary unary_op expr
  | Binary bin_op expr expr
  | IfThenElse expr expr expr
  | Pre expr
  | Arrow expr expr
  | Call string "expr list"
  | Field expr string
  | Index expr expr
  | Tuple "expr list"
  | Array "expr list"
  | Struct string "(string \<times> expr) list"
  | Cast ty expr
  | When expr string bool
  | Merge string expr expr
  | Iterate iter_kind string "expr option" "expr list"

type_synonym field_init = "string \<times> expr"

subsection \<open>Smart constructors\<close>

definition bool_lit :: "bool \<Rightarrow> expr" where "bool_lit v = Const (LBool v)"
definition int_lit :: "i64 \<Rightarrow> expr" where "int_lit v = Const (LInt v)"
definition e_not :: "expr \<Rightarrow> expr" where "e_not a = Unary UNot a"
definition e_neg :: "expr \<Rightarrow> expr" where "e_neg a = Unary UNeg a"
definition e_and :: "expr \<Rightarrow> expr \<Rightarrow> expr" where "e_and a b = Binary BAnd a b"
definition e_or :: "expr \<Rightarrow> expr \<Rightarrow> expr" where "e_or a b = Binary BOr a b"
definition e_implies :: "expr \<Rightarrow> expr \<Rightarrow> expr" where "e_implies a b = Binary BImplies a b"

definition pre_with_init :: "expr \<Rightarrow> expr \<Rightarrow> expr" where
  "pre_with_init i b = Arrow i (Pre b)"

definition string_lit :: "u8 list \<Rightarrow> expr" where
  "string_lit bytes = Array (map (\<lambda>b. Const (LChar b)) bytes)"

lemmas expr_constructors =
  bool_lit_def int_lit_def e_not_def e_neg_def e_and_def e_or_def e_implies_def pre_with_init_def

subsection \<open>Direct subexpressions\<close>

text \<open>The direct subexpressions in evaluation order, the order every traversal follows.\<close>

fun children :: "expr \<Rightarrow> expr list" where
  "children (Const lit) = []"
| "children (Var name) = []"
| "children (Unary op a) = [a]"
| "children (Binary op l r) = [l, r]"
| "children (IfThenElse c t e) = [c, t, e]"
| "children (Pre a) = [a]"
| "children (Arrow i b) = [i, b]"
| "children (Call node args) = args"
| "children (Field b f) = [b]"
| "children (Index b i) = [b, i]"
| "children (Tuple items) = items"
| "children (Array items) = items"
| "children (Struct t fis) = map snd fis"
| "children (Cast t a) = [a]"
| "children (When a clock on) = [a]"
| "children (Merge clock a b) = [a, b]"
| "children (Iterate kind node init arrays) =
     (case init of None \<Rightarrow> [] | Some i \<Rightarrow> [i]) @ arrays"

lemma size_field_init [termination_simp]:
  "(f, e) \<in> set fs \<Longrightarrow> size e < Suc (size_list (size_prod (\<lambda>_. 0) size) fs)"
  by (induction fs) auto

lemma size_snd_field_init [termination_simp]:
  "p \<in> set fs \<Longrightarrow> size (snd p) < Suc (size_list (size_prod (\<lambda>_. 0) size) fs)"
  by (cases p) (auto intro: size_field_init)

lemma size_child_list: "c \<in> set cs \<Longrightarrow> size c < Suc (size_list size cs)"
  by (induction cs) auto

lemma size_children [termination_simp]: "c \<in> set (children e) \<Longrightarrow> size c < size e"
proof (cases e)
  case (Struct t fs)
  then show "c \<in> set (children e) \<Longrightarrow> size c < size e"
    using size_snd_field_init by auto
next
  case (Iterate k n i as)
  then show "c \<in> set (children e) \<Longrightarrow> size c < size e"
    using size_child_list [of c as] by (auto split: option.splits)
qed (auto dest: size_child_list)

lemma expr_children_induct [case_names step]:
  assumes "\<And>e. (\<And>c. c \<in> set (children e) \<Longrightarrow> P c) \<Longrightarrow> P e"
  shows "P e"
  by (induction e rule: measure_induct_rule [where f = size]) (blast intro: assms size_children)

subsection \<open>Visiting subexpressions\<close>

text \<open>
  \<open>Expr::visit\<close> applies a closure to every subexpression in evaluation order; the model is the
  list of the subexpressions it is applied to, and a closure with state is a fold over it.
\<close>

fun visit :: "expr \<Rightarrow> expr list" where
  "visit (Const lit) = [Const lit]"
| "visit (Var name) = [Var name]"
| "visit (Unary op a) = Unary op a # visit a"
| "visit (Binary op l r) = Binary op l r # visit l @ visit r"
| "visit (IfThenElse c t e) = IfThenElse c t e # visit c @ visit t @ visit e"
| "visit (Pre a) = Pre a # visit a"
| "visit (Arrow i b) = Arrow i b # visit i @ visit b"
| "visit (Call node args) = Call node args # concat (map visit args)"
| "visit (Field b f) = Field b f # visit b"
| "visit (Index b i) = Index b i # visit b @ visit i"
| "visit (Tuple items) = Tuple items # concat (map visit items)"
| "visit (Array items) = Array items # concat (map visit items)"
| "visit (Struct t fis) = Struct t fis # concat (map (\<lambda>fi. visit (snd fi)) fis)"
| "visit (Cast t a) = Cast t a # visit a"
| "visit (When a clock on) = When a clock on # visit a"
| "visit (Merge clock a b) = Merge clock a b # visit a @ visit b"
| "visit (Iterate kind node init arrays) =
     Iterate kind node init arrays #
       (case init of None \<Rightarrow> [] | Some i \<Rightarrow> visit i) @ concat (map visit arrays)"

lemma visit_children: "visit e = e # concat (map visit (children e))"
  by (cases e) (auto simp: comp_def split: option.splits)

lemma set_visit: "set (visit e) = insert e (\<Union>c\<in>set (children e). set (visit c))"
  by (subst visit_children) auto

lemma visit_self [simp, intro]: "e \<in> set (visit e)"
  by (subst set_visit) simp

lemma visit_child: "c \<in> set (children e) \<Longrightarrow> x \<in> set (visit c) \<Longrightarrow> x \<in> set (visit e)"
  by (subst set_visit) auto

lemma visit_trans: "x \<in> set (visit y) \<Longrightarrow> y \<in> set (visit e) \<Longrightarrow> x \<in> set (visit e)"
proof (induction e rule: expr_children_induct)
  case (step e)
  then show ?case by (subst set_visit) (auto simp: set_visit [of e] intro: visit_child)
qed

fun is_temporal :: "expr \<Rightarrow> bool" where
  "is_temporal (Pre a) = True"
| "is_temporal (Arrow i b) = True"
| "is_temporal _ = False"

definition contains_temporal :: "expr \<Rightarrow> bool" where
  "contains_temporal e \<longleftrightarrow> list_ex is_temporal (visit e)"

lemma contains_temporal_children:
  "contains_temporal e \<longleftrightarrow> is_temporal e \<or> (\<exists>c\<in>set (children e). contains_temporal c)"
  by (auto simp: contains_temporal_def list_ex_iff set_visit [of e])

subsection \<open>Free variables\<close>

definition push_unique :: "'a \<Rightarrow> 'a list \<Rightarrow> 'a list" where
  "push_unique x out = (if x \<in> set out then out else out @ [x])"

fun free_var_of :: "expr \<Rightarrow> string option" where
  "free_var_of (Var name) = Some name"
| "free_var_of (When a clock on) = Some clock"
| "free_var_of (Merge clock a b) = Some clock"
| "free_var_of _ = None"

definition free_vars :: "expr \<Rightarrow> string list" where
  "free_vars e =
     fold (\<lambda>x out. case free_var_of x of None \<Rightarrow> out | Some v \<Rightarrow> push_unique v out) (visit e) []"

lemma set_push_unique [simp]: "set (push_unique x out) = insert x (set out)"
  by (auto simp: push_unique_def)

lemma distinct_push_unique [simp]: "distinct out \<Longrightarrow> distinct (push_unique x out)"
  by (auto simp: push_unique_def)

lemma set_fold_push:
  "set (fold (\<lambda>x out. case f x of None \<Rightarrow> out | Some v \<Rightarrow> push_unique v out) xs out) =
     set out \<union> {v. \<exists>x\<in>set xs. f x = Some v}"
  by (induction xs arbitrary: out) (auto split: option.splits)

lemma set_free_vars: "set (free_vars e) = {v. \<exists>x\<in>set (visit e). free_var_of x = Some v}"
  by (simp add: free_vars_def set_fold_push)

lemma free_vars_children:
  "set (free_vars e) =
     set_option (free_var_of e) \<union> (\<Union>c\<in>set (children e). set (free_vars c))"
  by (auto simp: set_free_vars set_visit [of e])

lemma distinct_free_vars: "distinct (free_vars e)"
proof -
  have "distinct out \<Longrightarrow>
      distinct (fold (\<lambda>x out. case f x of None \<Rightarrow> out | Some v \<Rightarrow> push_unique v out) xs out)"
    for f :: "expr \<Rightarrow> string option" and xs out
    by (induction xs arbitrary: out) (auto split: option.splits)
  then show ?thesis by (simp add: free_vars_def)
qed


subsection \<open>Rewriting in place\<close>

text \<open>
  \<open>for_each_child_mut\<close> applies a closure to each direct subexpression. The closure mutates its
  argument and captured variables: it takes and returns the captured state.
\<close>

fun thread :: "('a \<Rightarrow> 's \<Rightarrow> 'b \<times> 's) \<Rightarrow> 'a list \<Rightarrow> 's \<Rightarrow> 'b list \<times> 's" where
  "thread g [] s = ([], s)"
| "thread g (x # xs) s =
     (let (y, s1) = g x s; (ys, s2) = thread g xs s1 in (y # ys, s2))"

lemma thread_cong [fundef_cong]:
  "xs = ys \<Longrightarrow> s = t \<Longrightarrow> (\<And>x s. x \<in> set ys \<Longrightarrow> f x s = g x s) \<Longrightarrow> thread f xs s = thread g ys t"
proof (induction ys arbitrary: xs s t)
  case (Cons y ys)
  then have "f y t = g y t" "\<And>u. thread f ys u = thread g ys u" by auto
  with Cons.prems(1,2) show ?case by (simp split: prod.split)
qed simp

lemma length_thread: "length (fst (thread g xs s)) = length xs"
  by (induction xs arbitrary: s) (simp_all add: Let_def split_beta)

fun for_each_child_mut :: "(expr \<Rightarrow> 's \<Rightarrow> expr \<times> 's) \<Rightarrow> expr \<Rightarrow> 's \<Rightarrow> expr \<times> 's" where
  "for_each_child_mut g (Const lit) s = (Const lit, s)"
| "for_each_child_mut g (Var name) s = (Var name, s)"
| "for_each_child_mut g (Unary op a) s = (let (a', s1) = g a s in (Unary op a', s1))"
| "for_each_child_mut g (Pre a) s = (let (a', s1) = g a s in (Pre a', s1))"
| "for_each_child_mut g (Cast t a) s = (let (a', s1) = g a s in (Cast t a', s1))"
| "for_each_child_mut g (When a clock on) s = (let (a', s1) = g a s in (When a' clock on, s1))"
| "for_each_child_mut g (Field b f) s = (let (b', s1) = g b s in (Field b' f, s1))"
| "for_each_child_mut g (Binary op l r) s =
     (let (l', s1) = g l s; (r', s2) = g r s1 in (Binary op l' r', s2))"
| "for_each_child_mut g (Arrow i b) s =
     (let (i', s1) = g i s; (b', s2) = g b s1 in (Arrow i' b', s2))"
| "for_each_child_mut g (Index b i) s =
     (let (b', s1) = g b s; (i', s2) = g i s1 in (Index b' i', s2))"
| "for_each_child_mut g (IfThenElse c t e) s =
     (let (c', s1) = g c s; (t', s2) = g t s1; (e', s3) = g e s2 in (IfThenElse c' t' e', s3))"
| "for_each_child_mut g (Merge clock a b) s =
     (let (a', s1) = g a s; (b', s2) = g b s1 in (Merge clock a' b', s2))"
| "for_each_child_mut g (Call node args) s =
     (let (args', s1) = thread g args s in (Call node args', s1))"
| "for_each_child_mut g (Tuple items) s =
     (let (items', s1) = thread g items s in (Tuple items', s1))"
| "for_each_child_mut g (Array items) s =
     (let (items', s1) = thread g items s in (Array items', s1))"
| "for_each_child_mut g (Struct t fis) s =
     (let (fis', s1) = thread (\<lambda>fi u. let (v, u') = g (snd fi) u in ((fst fi, v), u')) fis s
      in (Struct t fis', s1))"
| "for_each_child_mut g (Iterate kind node init arrays) s =
     (let (init', s1) = (case init of None \<Rightarrow> (None, s)
                         | Some i \<Rightarrow> let (i', u) = g i s in (Some i', u));
          (arrays', s2) = thread g arrays s1
      in (Iterate kind node init' arrays', s2))"

lemma for_each_child_mut_cong [fundef_cong]:
  assumes "e = e'" and "s = s'"
    and g: "\<And>c u. c \<in> set (children e') \<Longrightarrow> g c u = g' c u"
  shows "for_each_child_mut g e s = for_each_child_mut g' e' s'"
proof (cases e')
  case (Struct t fis)
  then have "\<And>fi u. fi \<in> set fis \<Longrightarrow> g (snd fi) u = g' (snd fi) u" using g by auto
  then have "thread (\<lambda>fi u. let (v, u') = g (snd fi) u in ((fst fi, v), u')) fis s' =
      thread (\<lambda>fi u. let (v, u') = g' (snd fi) u in ((fst fi, v), u')) fis s'"
    by (intro thread_cong) simp_all
  with Struct assms(1,2) show ?thesis by simp
next
  case (Iterate k n i as)
  then have "\<And>u. thread g as u = thread g' as u" by (intro thread_cong) (auto intro: g)
  moreover have "\<And>x u. i = Some x \<Longrightarrow> g x u = g' x u" using Iterate g by auto
  ultimately show ?thesis using Iterate assms(1,2) by (auto split: option.split)
next
  case (Call n as)
  then have "\<And>u. thread g as u = thread g' as u" by (intro thread_cong) (auto intro: g)
  with Call assms(1,2) show ?thesis by simp
next
  case (Tuple as)
  then have "\<And>u. thread g as u = thread g' as u" by (intro thread_cong) (auto intro: g)
  with Tuple assms(1,2) show ?thesis by simp
next
  case (Array as)
  then have "\<And>u. thread g as u = thread g' as u" by (intro thread_cong) (auto intro: g)
  with Array assms(1,2) show ?thesis by simp
qed (use assms in \<open>simp_all add: Let_def split: prod.split\<close>)

text \<open>
  Top-down: the closure sees an expression before its children, and the children it puts in
  place are walked too. A closure that keeps growing what it is given never stops, so the walk
  takes fuel and ends in the state \<open>None\<close> when it runs out.
\<close>

fun walk_mut :: "nat \<Rightarrow> (expr \<Rightarrow> 's \<Rightarrow> expr \<times> 's) \<Rightarrow> expr \<Rightarrow> 's option \<Rightarrow> expr \<times> 's option" where
  "walk_mut n f e None = (e, None)"
| "walk_mut 0 f e (Some s) = (e, None)"
| "walk_mut (Suc n) f e (Some s) =
     (let (e', s') = f e s in for_each_child_mut (walk_mut n f) e' (Some s'))"

text \<open>Bottom-up: what the closure puts in place is not walked again.\<close>

function walk_mut_post :: "(expr \<Rightarrow> 's \<Rightarrow> expr \<times> 's) \<Rightarrow> expr \<Rightarrow> 's \<Rightarrow> expr \<times> 's" where
  "walk_mut_post f e s =
     (let (e', s') = for_each_child_mut (walk_mut_post f) e s in f e' s')"
  by pat_completeness auto
termination
  by (relation "measure (\<lambda>(f, e, s). size e)") (auto intro: size_children)

declare walk_mut_post.simps [simp del]

subsection \<open>Renaming a variable\<close>

fun rename_var :: "string \<Rightarrow> string \<Rightarrow> expr \<Rightarrow> expr" where
  "rename_var from to (Var name) = Var (if name = from then to else name)"
| "rename_var from to (Const lit) = Const lit"
| "rename_var from to (Unary op a) = Unary op (rename_var from to a)"
| "rename_var from to (Pre a) = Pre (rename_var from to a)"
| "rename_var from to (Cast t a) = Cast t (rename_var from to a)"
| "rename_var from to (Binary op l r) = Binary op (rename_var from to l) (rename_var from to r)"
| "rename_var from to (IfThenElse c t e) =
     IfThenElse (rename_var from to c) (rename_var from to t) (rename_var from to e)"
| "rename_var from to (Arrow i b) = Arrow (rename_var from to i) (rename_var from to b)"
| "rename_var from to (Call node args) = Call node (map (rename_var from to) args)"
| "rename_var from to (Field b f) = Field (rename_var from to b) f"
| "rename_var from to (Index b i) = Index (rename_var from to b) (rename_var from to i)"
| "rename_var from to (Tuple items) = Tuple (map (rename_var from to) items)"
| "rename_var from to (Array items) = Array (map (rename_var from to) items)"
| "rename_var from to (Struct t fis) =
     Struct t (map (\<lambda>fi. (fst fi, rename_var from to (snd fi))) fis)"
| "rename_var from to (When a clock on) =
     When (rename_var from to a) (if clock = from then to else clock) on"
| "rename_var from to (Merge clock a b) =
     Merge (if clock = from then to else clock) (rename_var from to a) (rename_var from to b)"
| "rename_var from to (Iterate kind node init arrays) =
     Iterate kind node (map_option (rename_var from to) init) (map (rename_var from to) arrays)"

lemma children_rename_var: "children (rename_var a b e) = map (rename_var a b) (children e)"
  by (cases e) (auto split: option.split)

lemma free_var_of_rename_var:
  "free_var_of (rename_var a b e) = map_option (\<lambda>v. if v = a then b else v) (free_var_of e)"
  by (cases e) auto

lemma set_free_vars_rename_var:
  "set (free_vars (rename_var a b e)) = (\<lambda>v. if v = a then b else v) ` set (free_vars e)"
proof (induction e rule: expr_children_induct)
  case (step e)
  have "set (free_vars (rename_var a b e)) =
      set_option (free_var_of (rename_var a b e)) \<union>
      (\<Union>c\<in>set (children e). set (free_vars (rename_var a b c)))"
    by (subst free_vars_children) (simp add: children_rename_var)
  also have "\<dots> = (\<lambda>v. if v = a then b else v) `
      (set_option (free_var_of e) \<union> (\<Union>c\<in>set (children e). set (free_vars c)))"
    using step.IH by (auto simp: free_var_of_rename_var option.set_map)
  finally show ?case by (simp add: free_vars_children [of e])
qed

lemma rename_var_fresh: "a \<notin> set (free_vars e) \<Longrightarrow> rename_var a b e = e"
proof (induction e rule: expr_children_induct)
  case (step e)
  have kids: "rename_var a b c = c" if "c \<in> set (children e)" for c
    using that step by (auto simp: free_vars_children [of e])
  have own: "free_var_of e \<noteq> Some a" using step.prems by (auto simp: free_vars_children [of e])
  show ?case
  proof (cases e)
    case (Struct t fis)
    then have "\<forall>fi\<in>set fis. rename_var a b (snd fi) = snd fi" using kids by auto
    with Struct show ?thesis by (auto intro!: map_idI simp: prod_eq_iff)
  next
    case (Iterate k n i as)
    then show ?thesis using kids by (cases i) (auto intro: map_idI)
  qed (use kids own in \<open>auto intro: map_idI\<close>)
qed

text \<open>A renaming to a fresh name is undone by the opposite renaming.\<close>

lemma rename_var_inverse:
  "b \<notin> set (free_vars e) \<Longrightarrow> rename_var b a (rename_var a b e) = e"
proof (induction e rule: expr_children_induct)
  case (step e)
  have kids: "rename_var b a (rename_var a b c) = c" if "c \<in> set (children e)" for c
    using that step by (auto simp: free_vars_children [of e])
  have own: "free_var_of e \<noteq> Some b" using step.prems by (auto simp: free_vars_children [of e])
  show ?case
  proof (cases e)
    case (Struct t fis)
    then have "\<forall>fi\<in>set fis. rename_var b a (rename_var a b (snd fi)) = snd fi" using kids by auto
    with Struct show ?thesis by (auto intro!: map_idI simp: prod_eq_iff)
  next
    case (Iterate k n i as)
    then show ?thesis using kids by (cases i) (auto intro: map_idI)
  qed (use kids own in \<open>auto intro: map_idI\<close>)
qed

lemma contains_temporal_rename_var [simp]:
  "contains_temporal (rename_var a b e) = contains_temporal e"
proof (induction e rule: expr_children_induct)
  case (step e)
  have "is_temporal (rename_var a b e) = is_temporal e" by (cases e) auto
  with step.IH show ?case
    by (simp add: contains_temporal_children [of e] contains_temporal_children [of "rename_var a b e"]
        children_rename_var)
qed

end
