(* ===== verification/IR_Project.thy ===== *)
theory IR_Project
  imports IR_Expr
begin

text \<open>
  Nodes, packages and projects (\<open>ol_ir/src/node.rs\<close>, \<open>project.rs\<close>, the data of
  \<open>state_machine.rs\<close>, \<open>activation.rs\<close> and \<open>native_project.rs\<close>): the data model, the lookup of
  nodes and types, the resolution of qualified names and the merge of two projects. The lemmas
  show that lookups find what is declared and that a merge keeps every declaration.
\<close>

section \<open>Nodes\<close>

datatype node_kind = Function | Operator | Imported

record port =
  p_name :: string
  p_ty :: ty

record local_var =
  l_name :: string
  l_ty :: ty

record equation =
  eq_lhs :: "string list"
  eq_rhs :: expr

record probe =
  pr_label :: string
  pr_var :: string

record node_pos =
  np_x :: f64
  np_y :: f64
  np_w :: "f64 option"
  np_h :: "f64 option"
  np_wrap :: bool

record wire_route =
  wr_pts :: "(f64 \<times> f64) list"

record diagram_layout =
  dl_notes :: "string option"
  dl_positions :: "(string, node_pos) btree"
  dl_grid :: "u32 option"
  dl_wires :: "(string, wire_route) btree"

definition default_diagram :: diagram_layout where
  "default_diagram = \<lparr>dl_notes = None, dl_positions = [], dl_grid = None, dl_wires = []\<rparr>"

record node_def =
  nd_name :: string
  nd_kind :: node_kind
  nd_inputs :: "port list"
  nd_outputs :: "port list"
  nd_locals :: "local_var list"
  nd_equations :: "equation list"
  nd_contract :: "string option"
  nd_diagram :: diagram_layout
  nd_probes :: "probe list"

definition is_function :: "node_def \<Rightarrow> bool" where
  "is_function n \<longleftrightarrow> nd_kind n = Function"

definition is_imported :: "node_def \<Rightarrow> bool" where
  "is_imported n \<longleftrightarrow> nd_kind n = Imported"

record node_signature =
  ns_name :: string
  ns_inputs :: "port list"
  ns_outputs :: "port list"

definition signature :: "node_def \<Rightarrow> node_signature" where
  "signature n = \<lparr>ns_name = nd_name n, ns_inputs = nd_inputs n, ns_outputs = nd_outputs n\<rparr>"

text \<open>The names of a node's ports and locals, in declaration order.\<close>

definition declared_names :: "node_def \<Rightarrow> string list" where
  "declared_names n = map p_name (nd_inputs n) @ map p_name (nd_outputs n) @ map l_name (nd_locals n)"

section \<open>State machines and activations\<close>

record transition =
  tr_guard :: expr
  tr_target :: string

datatype state_def =
  StateDef (st_name: string) (st_equations: "equation list") (st_transitions: "transition list")
    (st_regions: "region list") (st_refines: "string option")
and region =
  Region (rg_initial: string) (rg_states: "state_def list") (rg_history: bool)

record state_pos =
  sp_x :: f64
  sp_y :: f64

record state_machine_def =
  sm_name :: string
  sm_inputs :: "port list"
  sm_outputs :: "port list"
  sm_locals :: "local_var list"
  sm_initial_state :: string
  sm_states :: "state_def list"
  sm_contract :: "string option"
  sm_owner :: "string option"
  sm_layout :: "(string, state_pos) btree"

record activation_branch =
  ab_name :: string
  ab_condition :: expr
  ab_equations :: "equation list"

record activation_def =
  act_name :: string
  act_outputs :: "port list"
  act_branches :: "activation_branch list"
  act_else_equations :: "equation list"
  act_owner :: string

section \<open>Packages and projects\<close>

record enum_def =
  en_name :: string
  en_variants :: "string list"

record record_field =
  rf_name :: string
  rf_ty :: ty

datatype type_body =
    EnumBody enum_def
  | RecordBody string "record_field list"
  | AliasBody string ty

record type_def =
  td_body :: type_body

definition td_name :: "type_def \<Rightarrow> string" where
  "td_name t =
     (case td_body t of EnumBody e \<Rightarrow> en_name e | RecordBody name _ \<Rightarrow> name | AliasBody name _ \<Rightarrow> name)"

record const_def =
  c_name_of :: string
  c_ty :: ty
  c_value :: expr

text \<open>Raw JSON values, as a package stores contracts and manifests of imported operators.\<close>

datatype json =
    JNull
  | JBool bool
  | JInt int
  | JFloat f64
  | JString string
  | JArray "json list"
  | JObject "(string \<times> json) list"

fun j_get :: "json \<Rightarrow> string \<Rightarrow> json option" where
  "j_get (JObject fs) k = map_of fs k"
| "j_get _ k = None"

fun j_as_str :: "json \<Rightarrow> string option" where
  "j_as_str (JString s) = Some s"
| "j_as_str _ = None"

fun j_as_array :: "json \<Rightarrow> json list option" where
  "j_as_array (JArray xs) = Some xs"
| "j_as_array _ = None"

definition j_name :: "json \<Rightarrow> string option" where
  "j_name raw = Option.bind (j_get raw ''name'') j_as_str"

record package =
  pk_name :: string
  pk_types :: "type_def list"
  pk_constants :: "const_def list"
  pk_nodes :: "node_def list"
  pk_contracts :: "json list"
  pk_imported_operators :: "json list"
  pk_state_machines :: "state_machine_def list"
  pk_activations :: "activation_def list"

datatype construct_kind = StateMachineKind | ActivationKind

definition id_prefix :: "construct_kind \<Rightarrow> string" where
  "id_prefix k = (case k of StateMachineKind \<Rightarrow> ''sm'' | ActivationKind \<Rightarrow> ''act'')"

record construct_origin =
  co_node :: string
  co_kind :: construct_kind
  co_name :: string
  co_first :: nat
  co_end :: nat
  co_branches :: "string list"

record native_dependency =
  dep_alias :: string
  dep_project :: string
  dep_project_id :: string
  dep_snapshot_sha256 :: string

record native_source =
  src_project_id :: string
  src_snapshot_sha256 :: string
  src_manifest_path :: string
  src_model_files :: "string list"
  src_dependencies :: "native_dependency list"

record native_symbol =
  sy_project_id :: string
  sy_kind :: string
  sy_local_name :: string
  sy_resolved_name :: string
  sy_source_path :: string
  sy_exported :: bool
  sy_artifact_basename :: "string option"

record native_resolution =
  nr_root_project_id :: string
  nr_projects :: "native_source list"
  nr_symbols :: "native_symbol list"

record project =
  pj_name :: string
  pj_packages :: "package list"
  pj_main :: "string option"
  pj_includes :: "string list"
  pj_origins :: "construct_origin list"
  pj_resolution :: "native_resolution option"

subsection \<open>Lookup\<close>

definition pk_find_node :: "package \<Rightarrow> string \<Rightarrow> node_def option" where
  "pk_find_node pkg name = find (\<lambda>n. nd_name n = name) (pk_nodes pkg)"

definition pk_find_type :: "package \<Rightarrow> string \<Rightarrow> type_def option" where
  "pk_find_type pkg name = find (\<lambda>t. td_name t = name) (pk_types pkg)"

definition all_nodes :: "project \<Rightarrow> node_def list" where
  "all_nodes p = concat (map pk_nodes (pj_packages p))"

definition all_types :: "project \<Rightarrow> type_def list" where
  "all_types p = concat (map pk_types (pj_packages p))"

definition all_constants :: "project \<Rightarrow> const_def list" where
  "all_constants p = concat (map pk_constants (pj_packages p))"

text \<open>\<open>str::split_once("::")\<close> and \<open>str::contains("::")\<close>.\<close>

fun split_path :: "string \<Rightarrow> (string \<times> string) option" where
  "split_path (a # b # s) =
     (if a = CHR '':'' \<and> b = CHR '':'' then Some ([], s)
      else map_option (\<lambda>(l, r). (a # l, r)) (split_path (b # s)))"
| "split_path _ = None"

definition contains_path :: "string \<Rightarrow> bool" where
  "contains_path s \<longleftrightarrow> split_path s \<noteq> None"

definition resolved_node_name :: "project \<Rightarrow> string \<Rightarrow> string option" where
  "resolved_node_name p name =
     (if name \<in> set (map nd_name (all_nodes p)) then Some name
      else
        (case pj_resolution p of None \<Rightarrow> None
         | Some resolution \<Rightarrow>
            (case
              (case split_path name of
                 Some (alias, loc) \<Rightarrow>
                   (if contains_path loc then None
                    else
                      (case find (\<lambda>q. src_project_id q = nr_root_project_id resolution) (nr_projects resolution) of
                         None \<Rightarrow> None
                       | Some root \<Rightarrow>
                          (case find (\<lambda>d. dep_alias d = alias) (src_dependencies root) of
                             None \<Rightarrow> None
                           | Some d \<Rightarrow> Some (dep_project_id d, loc, True))))
               | None \<Rightarrow> Some (nr_root_project_id resolution, name, False))
             of None \<Rightarrow> None
              | Some (own, loc, external) \<Rightarrow>
                 (case find (\<lambda>s. sy_project_id s = own \<and> sy_kind s = ''node'' \<and> sy_local_name s = loc
                              \<and> (\<not> external \<or> sy_exported s)) (nr_symbols resolution) of
                    None \<Rightarrow> None
                  | Some s \<Rightarrow>
                     (if sy_resolved_name s \<in> set (map nd_name (all_nodes p))
                      then Some (sy_resolved_name s) else None)))))"

definition find_node :: "project \<Rightarrow> string \<Rightarrow> node_def option" where
  "find_node p name =
     Option.bind (resolved_node_name p name)
       (\<lambda>resolved. find_map (\<lambda>pkg. pk_find_node pkg resolved) (pj_packages p))"

definition selected_node_name :: "project \<Rightarrow> string \<Rightarrow> string option" where
  "selected_node_name p name =
     (case resolved_node_name p name of None \<Rightarrow> None
      | Some resolved \<Rightarrow>
        (case pj_resolution p of None \<Rightarrow> Some resolved
         | Some metadata \<Rightarrow>
           (case find (\<lambda>s. sy_kind s = ''node'' \<and> sy_resolved_name s = resolved) (nr_symbols metadata) of
              None \<Rightarrow> None
            | Some symbol \<Rightarrow>
               (if sy_project_id symbol = nr_root_project_id metadata then Some resolved
                else
                  (case find (\<lambda>q. src_project_id q = nr_root_project_id metadata) (nr_projects metadata) of
                     None \<Rightarrow> None
                   | Some root \<Rightarrow>
                      (if sy_exported symbol
                         \<and> (\<exists>d\<in>set (src_dependencies root). dep_project_id d = sy_project_id symbol)
                       then Some resolved else None))))))"

definition find_type :: "project \<Rightarrow> string \<Rightarrow> type_def option" where
  "find_type p name = find_map (\<lambda>pkg. pk_find_type pkg name) (pj_packages p)"

definition origin_of :: "project \<Rightarrow> string \<Rightarrow> nat \<Rightarrow> construct_origin option" where
  "origin_of p node index =
     find (\<lambda>r. co_node r = node \<and> co_first r \<le> index \<and> index < co_end r) (pj_origins p)"

lemma find_map_find: "find_map (\<lambda>x. find P (f x)) xs = find P (concat (map f xs))"
proof (induction xs)
  case (Cons x xs)
  have "find P (ys @ zs) = (case find P ys of None \<Rightarrow> find P zs | Some y \<Rightarrow> Some y)" for ys zs
    by (induction ys) auto
  with Cons show ?case by (simp split: option.split)
qed simp

lemma find_node_eq:
  "find_node p name =
     Option.bind (resolved_node_name p name) (\<lambda>r. find (\<lambda>n. nd_name n = r) (all_nodes p))"
  by (simp add: find_node_def pk_find_node_def all_nodes_def find_map_find)

lemma find_type_eq: "find_type p name = find (\<lambda>t. td_name t = name) (all_types p)"
  by (simp add: find_type_def pk_find_type_def all_types_def find_map_find)

lemma resolved_node_name_declared:
  "resolved_node_name p name = Some r \<Longrightarrow> r \<in> set (map nd_name (all_nodes p))"
  by (auto simp: resolved_node_name_def split: if_splits option.splits prod.splits)

lemma resolved_node_name_own:
  "name \<in> set (map nd_name (all_nodes p)) \<Longrightarrow> resolved_node_name p name = Some name"
  by (simp add: resolved_node_name_def)

lemma find_node_Some:
  assumes "find_node p name = Some n"
  shows "n \<in> set (all_nodes p)" and "resolved_node_name p name = Some (nd_name n)"
  using assms by (auto simp: find_node_eq bind_eq_Some_conv dest: find_SomeD)

lemma find_node_None_iff: "find_node p name = None \<longleftrightarrow> resolved_node_name p name = None"
proof
  assume "find_node p name = None"
  then show "resolved_node_name p name = None"
    using resolved_node_name_declared [of p name]
    by (cases "resolved_node_name p name") (auto simp: find_node_eq find_eq_None)
qed (simp add: find_node_eq)

lemma find_node_own: "n \<in> set (all_nodes p) \<Longrightarrow> \<exists>m. find_node p (nd_name n) = Some m \<and> nd_name m = nd_name n"
proof -
  assume n: "n \<in> set (all_nodes p)"
  then have r: "resolved_node_name p (nd_name n) = Some (nd_name n)"
    by (intro resolved_node_name_own) auto
  then obtain m where m: "find_node p (nd_name n) = Some m"
    using find_node_None_iff [of p "nd_name n"] by (cases "find_node p (nd_name n)") auto
  with find_node_Some [OF m] r show ?thesis by auto
qed

subsection \<open>Addresses of expressions\<close>

text \<open>
  The code keys tables by the address of an expression in the IR. An address stands for one
  occurrence of an expression: the equation, constant or condition it is part of, and the path
  of child positions (innermost first) that leads to it.
\<close>

datatype root =
    EquationRoot string nat
  | ObserverRoot nat
  | ConstantRoot string
  | ConditionRoot

type_synonym addr = "root \<times> nat list"

definition child :: "addr \<Rightarrow> nat \<Rightarrow> addr" where
  "child a i = (fst a, i # snd a)"

definition root_addr :: "root \<Rightarrow> addr" where
  "root_addr r = (r, [])"

lemma child_eq [simp]: "child a i = child b j \<longleftrightarrow> a = b \<and> i = j"
  by (auto simp: child_def prod_eq_iff)

lemma size_enumerate [termination_simp]:
  "(i, e) \<in> set (enumerate n es) \<Longrightarrow> size e < Suc (size_list size es)"
  by (auto simp: in_set_enumerate_eq intro: size_child_list)

lemma size_enumerate_fields [termination_simp]:
  "(i, e) \<in> set (enumerate n (map snd fis)) \<Longrightarrow>
     size (e :: expr) < Suc (size_list (size_prod (\<lambda>_. 0) size) fis)"
  by (auto simp: in_set_enumerate_eq intro!: size_snd_field_init)

subsection \<open>Merging projects\<close>

definition extend_package :: "package \<Rightarrow> package \<Rightarrow> package" where
  "extend_package dst src = dst\<lparr>
     pk_types := pk_types dst @ pk_types src,
     pk_constants := pk_constants dst @ pk_constants src,
     pk_nodes := pk_nodes dst @ pk_nodes src,
     pk_contracts := pk_contracts dst @ pk_contracts src,
     pk_imported_operators := pk_imported_operators dst @ pk_imported_operators src,
     pk_state_machines := pk_state_machines dst @ pk_state_machines src,
     pk_activations := pk_activations dst @ pk_activations src\<rparr>"

fun merge_package :: "package list \<Rightarrow> package \<Rightarrow> package list" where
  "merge_package [] src = [src]"
| "merge_package (dst # pkgs) src =
     (if pk_name dst = pk_name src then extend_package dst src # pkgs
      else dst # merge_package pkgs src)"

definition merge_project :: "project \<Rightarrow> project \<Rightarrow> project" where
  "merge_project self other = self\<lparr>
     pj_packages := foldl merge_package (pj_packages self) (pj_packages other),
     pj_main := (case pj_main self of None \<Rightarrow> pj_main other | Some m \<Rightarrow> Some m)\<rparr>"

lemma merge_package_nodes:
  "set (concat (map pk_nodes (merge_package pkgs src))) =
     set (concat (map pk_nodes pkgs)) \<union> set (pk_nodes src)"
  by (induction pkgs) (auto simp: extend_package_def)

lemma merge_package_names:
  "map pk_name (merge_package pkgs src) =
     map pk_name pkgs @ (if pk_name src \<in> set (map pk_name pkgs) then [] else [pk_name src])"
  by (induction pkgs) (auto simp: extend_package_def)

lemma foldl_merge_package_nodes:
  "set (concat (map pk_nodes (foldl merge_package pkgs srcs))) =
     set (concat (map pk_nodes pkgs)) \<union> set (concat (map pk_nodes srcs))"
  by (induction srcs arbitrary: pkgs) (auto simp: merge_package_nodes simp del: set_concat)

lemma foldl_merge_package_distinct:
  "distinct (map pk_name pkgs) \<Longrightarrow> distinct (map pk_name (foldl merge_package pkgs srcs))"
  by (induction srcs arbitrary: pkgs) (auto simp: merge_package_names)

end
