(* ===== verification/Order.thy ===== *)
theory Order
  imports IR_Project
begin

text \<open>
  The evaluation order of a node's equations (\<open>ol_ir/src/order.rs\<close>): the variables an expression
  reads in the current cycle, the dependencies between equations, and the scheduling loop. The
  lemmas show that a schedule the loop returns is a permutation of the equations in which every
  dependency comes first, that the loop fails only where no such permutation exists, and that a
  declaration order that already respects the dependencies is kept.
\<close>

section \<open>Same-cycle reads\<close>

fun same_cycle_reads :: "expr \<Rightarrow> string list \<Rightarrow> string list" where
  "same_cycle_reads (Var name) out = bs_insert name out"
| "same_cycle_reads (Const lit) out = out"
| "same_cycle_reads (Pre a) out = out"
| "same_cycle_reads (Unary op a) out = same_cycle_reads a out"
| "same_cycle_reads (Cast t a) out = same_cycle_reads a out"
| "same_cycle_reads (Field b f) out = same_cycle_reads b out"
| "same_cycle_reads (Binary op l r) out = same_cycle_reads r (same_cycle_reads l out)"
| "same_cycle_reads (Arrow i b) out = same_cycle_reads b (same_cycle_reads i out)"
| "same_cycle_reads (IfThenElse c t e) out =
     same_cycle_reads e (same_cycle_reads t (same_cycle_reads c out))"
| "same_cycle_reads (Call node args) out = fold same_cycle_reads args out"
| "same_cycle_reads (Index b i) out = same_cycle_reads i (same_cycle_reads b out)"
| "same_cycle_reads (Tuple items) out = fold same_cycle_reads items out"
| "same_cycle_reads (Array items) out = fold same_cycle_reads items out"
| "same_cycle_reads (Struct t fis) out = fold (\<lambda>fi. same_cycle_reads (snd fi)) fis out"
| "same_cycle_reads (When a clock on) out = same_cycle_reads a (bs_insert clock out)"
| "same_cycle_reads (Merge clock a b) out =
     same_cycle_reads b (same_cycle_reads a (bs_insert clock out))"
| "same_cycle_reads (Iterate kind node init arrays) out =
     fold same_cycle_reads arrays
       (case init of None \<Rightarrow> out | Some i \<Rightarrow> same_cycle_reads i out)"

text \<open>The reads as a set: the free variables of the parts that are not under a \<open>pre\<close>.\<close>

definition cycle_reads :: "expr \<Rightarrow> string set" where
  "cycle_reads e = set (same_cycle_reads e [])"

lemma set_fold_acc:
  "(\<And>x out. x \<in> set xs \<Longrightarrow> set (f x out) = set out \<union> g x) \<Longrightarrow>
   set (fold f xs out) = set out \<union> (\<Union>x\<in>set xs. g x)"
  by (induction xs arbitrary: out) auto

lemma same_cycle_reads_acc: "set (same_cycle_reads e out) = set out \<union> cycle_reads e"
proof (induction e arbitrary: out rule: expr_children_induct)
  case (step e)
  have fold_args: "set (fold same_cycle_reads es out) = set out \<union> (\<Union>x\<in>set es. cycle_reads x)"
    if "set es \<subseteq> set (children e)" for es out
    using that step.IH by (intro set_fold_acc) auto
  have fold_fields: "set (fold (\<lambda>fi. same_cycle_reads (snd fi)) fis out) =
      set out \<union> (\<Union>fi\<in>set fis. cycle_reads (snd fi))"
    if "snd ` set fis \<subseteq> set (children e)" for fis out
    using that step.IH by (intro set_fold_acc) auto
  have "set (same_cycle_reads e out) = set out \<union> set (same_cycle_reads e [])"
  proof (cases e)
    case (Struct t fis)
    then show ?thesis using fold_fields [of fis] by simp
  next
    case (Iterate k n i as)
    then have "set (fold same_cycle_reads as u) = set u \<union> (\<Union>x\<in>set as. cycle_reads x)" for u
      by (intro fold_args) auto
    with Iterate step.IH show ?thesis by (cases i) (simp_all add: Un_assoc)
  qed (use step.IH fold_args in auto)
  then show ?case by (simp add: cycle_reads_def)
qed

lemma cycle_reads_simps [simp]:
  "cycle_reads (Var name) = {name}"
  "cycle_reads (Const lit) = {}"
  "cycle_reads (Pre a) = {}"
  "cycle_reads (Unary op a) = cycle_reads a"
  "cycle_reads (Cast ct a) = cycle_reads a"
  "cycle_reads (Field b fn) = cycle_reads b"
  "cycle_reads (Binary bop l r) = cycle_reads l \<union> cycle_reads r"
  "cycle_reads (Arrow l r) = cycle_reads l \<union> cycle_reads r"
  "cycle_reads (IfThenElse c t e) = cycle_reads c \<union> cycle_reads t \<union> cycle_reads e"
  "cycle_reads (Index b i) = cycle_reads b \<union> cycle_reads i"
  "cycle_reads (When a clock on) = insert clock (cycle_reads a)"
  "cycle_reads (Merge clock a b) = insert clock (cycle_reads a \<union> cycle_reads b)"
  "cycle_reads (Call node args) = (\<Union>a\<in>set args. cycle_reads a)"
  "cycle_reads (Tuple args) = (\<Union>a\<in>set args. cycle_reads a)"
  "cycle_reads (Array args) = (\<Union>a\<in>set args. cycle_reads a)"
  "cycle_reads (Struct sn fis) = (\<Union>fi\<in>set fis. cycle_reads (snd fi))"
  "cycle_reads (Iterate k node init args) =
     (\<Union>i\<in>set_option init. cycle_reads i) \<union> (\<Union>a\<in>set args. cycle_reads a)"
proof -
  have args: "set (fold same_cycle_reads args out) = set out \<union> (\<Union>a\<in>set args. cycle_reads a)" for out
    by (intro set_fold_acc same_cycle_reads_acc)
  have fields: "set (fold (\<lambda>fi. same_cycle_reads (snd fi)) fis out) =
      set out \<union> (\<Union>fi\<in>set fis. cycle_reads (snd fi))" for out
    by (intro set_fold_acc same_cycle_reads_acc)
  show "cycle_reads (Call node args) = (\<Union>a\<in>set args. cycle_reads a)"
    "cycle_reads (Tuple args) = (\<Union>a\<in>set args. cycle_reads a)"
    "cycle_reads (Array args) = (\<Union>a\<in>set args. cycle_reads a)"
    using args by (simp_all add: cycle_reads_def [of "Call _ _"] cycle_reads_def [of "Tuple _"]
        cycle_reads_def [of "Array _"])
  show "cycle_reads (Struct sn fis) = (\<Union>fi\<in>set fis. cycle_reads (snd fi))"
    using fields by (simp add: cycle_reads_def [of "Struct _ _"])
  show "cycle_reads (Iterate k node init args) =
     (\<Union>i\<in>set_option init. cycle_reads i) \<union> (\<Union>a\<in>set args. cycle_reads a)"
    using args by (cases init) (simp_all add: cycle_reads_def [of "Iterate _ _ _ _"] same_cycle_reads_acc)
qed (simp_all add: cycle_reads_def [of "Var _"] cycle_reads_def [of "Const _"] cycle_reads_def [of "Pre _"]
  cycle_reads_def [of "Unary _ _"] cycle_reads_def [of "Cast _ _"] cycle_reads_def [of "Field _ _"]
  cycle_reads_def [of "Binary _ _ _"] cycle_reads_def [of "Arrow _ _"]
  cycle_reads_def [of "IfThenElse _ _ _"] cycle_reads_def [of "Index _ _"]
  cycle_reads_def [of "When _ _ _"] cycle_reads_def [of "Merge _ _ _"] same_cycle_reads_acc Un_assoc)

lemma cycle_reads_children:
  "cycle_reads e \<subseteq> set_option (free_var_of e) \<union> (\<Union>c\<in>set (children e). cycle_reads c)"
  by (cases e) (auto split: option.splits)

lemma cycle_reads_free: "cycle_reads e \<subseteq> set (free_vars e)"
proof (induction e rule: expr_children_induct)
  case (step e)
  then have "(\<Union>c\<in>set (children e). cycle_reads c) \<subseteq> (\<Union>c\<in>set (children e). set (free_vars c))"
    by blast
  with cycle_reads_children [of e] show ?case by (subst free_vars_children) blast
qed

section \<open>Dependencies between equations\<close>

fun def_by_from :: "nat \<Rightarrow> equation list \<Rightarrow> (string \<rightharpoonup> nat) \<Rightarrow> (string \<rightharpoonup> nat)" where
  "def_by_from i [] m = m"
| "def_by_from i (eq # eqs) m = def_by_from (Suc i) eqs (fold (\<lambda>l u. u(l \<mapsto> i)) (eq_lhs eq) m)"

text \<open>\<open>def_by\<close>: which equation defines a name, the last one where several do.\<close>

definition def_by :: "equation list \<Rightarrow> (string \<rightharpoonup> nat)" where
  "def_by eqs = def_by_from 0 eqs Map.empty"

definition eq_deps :: "(string \<rightharpoonup> nat) \<Rightarrow> equation \<Rightarrow> nat list" where
  "eq_deps db eq = fold bs_insert (List.map_filter db (same_cycle_reads (eq_rhs eq) [])) []"

definition deps_of :: "equation list \<Rightarrow> nat list list" where
  "deps_of eqs = map (eq_deps (def_by eqs)) eqs"

lemma set_fold_bs_insert: "set (fold bs_insert xs s) = set s \<union> set xs"
  by (induction xs arbitrary: s) auto

lemma set_eq_deps: "set (eq_deps db eq) = {j. \<exists>v\<in>cycle_reads (eq_rhs eq). db v = Some j}"
  by (force simp: eq_deps_def set_fold_bs_insert cycle_reads_def List.map_filter_def)

lemma length_deps_of [simp]: "length (deps_of eqs) = length eqs"
  by (simp add: deps_of_def)

lemma fold_upd_const: "fold (\<lambda>l u. u(l \<mapsto> i)) ls m = (\<lambda>v. if v \<in> set ls then Some i else m v)"
  by (induction ls arbitrary: m) (auto simp: fun_eq_iff)

lemma def_by_from_other:
  "v \<notin> (\<Union>eq\<in>set eqs. set (eq_lhs eq)) \<Longrightarrow> def_by_from i eqs m v = m v"
  by (induction eqs arbitrary: i m) (auto simp: fold_upd_const)

lemma def_by_from_Some:
  "def_by_from i eqs m v = Some j \<Longrightarrow> m v = Some j \<and> v \<notin> (\<Union>eq\<in>set eqs. set (eq_lhs eq)) \<or>
     (i \<le> j \<and> j < i + length eqs \<and> v \<in> set (eq_lhs (eqs ! (j - i))))"
proof (induction eqs arbitrary: i m)
  case (Cons eq eqs)
  define m' where "m' = fold (\<lambda>l u. u(l \<mapsto> i)) (eq_lhs eq) m"
  from Cons.IH [of "Suc i" m'] Cons.prems
  consider (old) "m' v = Some j" "v \<notin> (\<Union>eq\<in>set eqs. set (eq_lhs eq))"
    | (new) "Suc i \<le> j" "j < Suc i + length eqs" "v \<in> set (eq_lhs (eqs ! (j - Suc i)))"
    by (auto simp: m'_def)
  then show ?case
  proof cases
    case old
    then show ?thesis by (auto simp: m'_def fold_upd_const split: if_splits)
  next
    case new
    then have "(eq # eqs) ! (j - i) = eqs ! (j - Suc i)" by (simp add: nth_Cons')
    with new show ?thesis by simp
  qed
qed simp

lemma def_by_Some: "def_by eqs v = Some j \<Longrightarrow> j < length eqs \<and> v \<in> set (eq_lhs (eqs ! j))"
  using def_by_from_Some [of 0 eqs Map.empty v j] by (auto simp: def_by_def)

lemma def_by_from_Some_iff:
  "def_by_from i eqs m v = None \<longleftrightarrow> m v = None \<and> v \<notin> (\<Union>eq\<in>set eqs. set (eq_lhs eq))"
  by (induction eqs arbitrary: i m) (auto simp: fold_upd_const)

lemma def_by_None: "def_by eqs v = None \<longleftrightarrow> v \<notin> (\<Union>eq\<in>set eqs. set (eq_lhs eq))"
  by (simp add: def_by_def def_by_from_Some_iff)

lemma deps_bound: "i < length eqs \<Longrightarrow> j \<in> set (deps_of eqs ! i) \<Longrightarrow> j < length eqs"
  by (auto simp: deps_of_def set_eq_deps dest: def_by_Some)

lemma deps_closed: "\<forall>i<length eqs. set (deps_of eqs ! i) \<subseteq> {..<length eqs}"
  by (auto dest: deps_bound)

section \<open>The scheduling loop\<close>

fun order_pass ::
  "nat list list \<Rightarrow> nat list \<Rightarrow> nat list \<times> bool list \<times> bool \<Rightarrow> nat list \<times> bool list \<times> bool"
where
  "order_pass deps [] st = st"
| "order_pass deps (i # is) (order, done, progressed) =
     (if \<not> done ! i \<and> list_all (\<lambda>d. done ! d) (deps ! i)
      then order_pass deps is (order @ [i], done[i := True], True)
      else order_pass deps is (order, done, progressed))"

lemma order_pass_prefix:
  "order_pass deps is (order, done, pr) = (order', done', pr') \<Longrightarrow>
   \<exists>new. order' = order @ new \<and> pr' = (pr \<or> new \<noteq> [])"
  by (induction "is" arbitrary: order "done" pr) (fastforce split: if_splits)+

function order_loop ::
  "nat list list \<Rightarrow> nat \<Rightarrow> nat list \<times> bool list \<Rightarrow> nat list \<times> bool list \<times> bool"
where
  "order_loop deps n (order, done) =
     (if length order < n then
        (case order_pass deps [0..<n] (order, done, False) of
           (order', done', progressed) \<Rightarrow>
             if progressed then order_loop deps n (order', done')
             else (order', done', False))
      else (order, done, True))"
  by pat_completeness auto
termination
  by (relation "measure (\<lambda>(deps, n, order, done). n - length order)")
    (auto dest!: order_pass_prefix [OF sym] intro!: diff_less_mono2)

declare order_loop.simps [simp del]

definition stuck_message :: "equation list \<Rightarrow> bool list \<Rightarrow> string" where
  "stuck_message eqs done =
     ''combinational cycle among the equations defining: '' @
     join_with ''; '' (map (\<lambda>i. join_with '', '' (eq_lhs (eqs ! i)))
       (filter (\<lambda>i. \<not> done ! i) [0..<length eqs]))"

definition evaluation_order :: "node_def \<Rightarrow> (string, nat list) result" where
  "evaluation_order node =
     (let eqs = nd_equations node; n = length eqs in
      case order_loop (deps_of eqs) n ([], replicate n False) of
        (order, done, ok) \<Rightarrow> if ok then Inr order else Inl (stuck_message eqs done))"

section \<open>Correctness of the schedule\<close>

definition deps_first :: "(nat \<Rightarrow> nat set) \<Rightarrow> nat list \<Rightarrow> bool" where
  "deps_first dep order \<longleftrightarrow> (\<forall>k<length order. dep (order ! k) \<subseteq> set (take k order))"

definition schedule :: "(nat \<Rightarrow> nat set) \<Rightarrow> nat \<Rightarrow> nat list \<Rightarrow> bool" where
  "schedule dep n order \<longleftrightarrow> distinct order \<and> set order = {..<n} \<and> deps_first dep order"

lemma deps_first_Nil [simp]: "deps_first dep []"
  by (simp add: deps_first_def)

lemma deps_first_snoc [simp]: "deps_first dep (order @ [i]) \<longleftrightarrow> deps_first dep order \<and> dep i \<subseteq> set order"
proof -
  have "(\<forall>k<length order. dep ((order @ [i]) ! k) \<subseteq> set (take k (order @ [i]))) =
      (\<forall>k<length order. dep (order ! k) \<subseteq> set (take k order))"
    by (intro all_cong) (simp add: nth_append)
  then show ?thesis by (simp add: deps_first_def less_Suc_eq all_conj_distrib)
qed

lemma schedule_length: "schedule dep n order \<Longrightarrow> length order = n"
  by (metis card_lessThan distinct_card schedule_def)

text \<open>The loop invariant: the marks are the scheduled equations, in a respectful order.\<close>

definition order_inv :: "(nat \<Rightarrow> nat set) \<Rightarrow> nat \<Rightarrow> nat list \<times> bool list \<Rightarrow> bool" where
  "order_inv dep n st \<longleftrightarrow>
     (case st of (order, done) \<Rightarrow>
        length done = n \<and> distinct order \<and> set order = {i. i < n \<and> done ! i} \<and> deps_first dep order)"

lemma order_inv_step:
  assumes inv: "order_inv dep n (order, done)" and i: "i < n" "\<not> done ! i"
    and d: "dep i \<subseteq> {d. d < n \<and> done ! d}"
  shows "order_inv dep n (order @ [i], done[i := True])"
proof -
  have "{j. j < n \<and> done[i := True] ! j} = insert i {j. j < n \<and> done ! j}"
    using i inv by (auto simp: order_inv_def nth_list_update)
  with assms show ?thesis by (auto simp: order_inv_def)
qed

lemma order_pass_inv:
  assumes "order_inv (\<lambda>i. set (deps ! i)) n (order, done)" and "set is \<subseteq> {..<n}"
    and "\<forall>i<n. set (deps ! i) \<subseteq> {..<n}"
    and "order_pass deps is (order, done, pr) = (order', done', pr')"
  shows "order_inv (\<lambda>i. set (deps ! i)) n (order', done')"
  using assms
proof (induction "is" arbitrary: order "done" pr)
  case (Cons i "is")
  show ?case
  proof (cases "\<not> done ! i \<and> list_all (\<lambda>d. done ! d) (deps ! i)")
    case True
    then have "order_inv (\<lambda>i. set (deps ! i)) n (order @ [i], done[i := True])"
      using Cons.prems by (intro order_inv_step) (auto simp: list_all_iff)
    with True Cons show ?thesis by (auto simp: list_all_iff)
  next
    case False
    then have "order_pass deps is (order, done, pr) = (order', done', pr')"
      using Cons.prems(4) by (simp only: order_pass.simps if_False)
    with Cons show ?thesis by simp
  qed
qed simp

text \<open>A pass that schedules nothing leaves only equations with a dependency not yet scheduled.\<close>

lemma order_pass_stuck:
  "order_pass deps is (order, done, pr) = (order', done', False) \<Longrightarrow>
   order' = order \<and> done' = done \<and>
   (\<forall>i\<in>set is. done ! i \<or> (\<exists>d\<in>set (deps ! i). \<not> done ! d))"
proof (induction "is" arbitrary: order "done" pr)
  case (Cons i "is")
  show ?case
  proof (cases "\<not> done ! i \<and> list_all (\<lambda>d. done ! d) (deps ! i)")
    case True
    then have "order_pass deps is (order @ [i], done[i := True], True) = (order', done', False)"
      using Cons.prems by simp
    from order_pass_prefix [OF this] show ?thesis by simp
  next
    case False
    then have "order_pass deps is (order, done, pr) = (order', done', False)"
      using Cons.prems by (simp only: order_pass.simps if_False)
    from Cons.IH [OF this] False show ?thesis by (auto simp: list_all_iff)
  qed
qed simp

lemma order_loop_inv:
  assumes "order_inv (\<lambda>i. set (deps ! i)) n (order, done)"
    and "\<forall>i<n. set (deps ! i) \<subseteq> {..<n}"
    and "order_loop deps n (order, done) = (order', done', ok)"
  shows "order_inv (\<lambda>i. set (deps ! i)) n (order', done') \<and>
    (if ok then n \<le> length order'
     else length order' < n \<and> (\<forall>i<n. done' ! i \<or> (\<exists>d\<in>set (deps ! i). \<not> done' ! d)))"
  using assms
proof (induction deps n "(order, done)" arbitrary: order "done" rule: order_loop.induct)
  case (1 deps n order "done")
  show ?case
  proof (cases "length order < n")
    case False
    with "1.prems" show ?thesis by (auto simp: order_loop.simps [of deps n order "done"])
  next
    case True
    obtain o1 d1 p1 where pass: "order_pass deps [0..<n] (order, done, False) = (o1, d1, p1)"
      by (cases "order_pass deps [0..<n] (order, done, False)") auto
    have inv1: "order_inv (\<lambda>i. set (deps ! i)) n (o1, d1)"
      by (rule order_pass_inv [OF "1.prems"(1) _ "1.prems"(2) pass]) auto
    show ?thesis
    proof (cases p1)
      case True
      with \<open>length order < n\<close> pass "1.prems"(3) have "order_loop deps n (o1, d1) = (order', done', ok)"
        by (simp add: order_loop.simps [of deps n order "done"])
      with "1.hyps" [OF \<open>length order < n\<close> pass [symmetric] _ True inv1 "1.prems"(2)] show ?thesis by auto
    next
      case False
      with \<open>length order < n\<close> pass "1.prems"(3) have r: "order' = o1" "done' = d1" "\<not> ok"
        by (simp_all add: order_loop.simps [of deps n order "done"])
      from False pass have "order_pass deps [0..<n] (order, done, False) = (o1, d1, False)" by simp
      from order_pass_stuck [OF this] r inv1 \<open>length order < n\<close> show ?thesis by auto
    qed
  qed
qed

lemma order_inv_init: "order_inv dep n ([], replicate n False)"
  by (auto simp: order_inv_def)

abbreviation node_deps :: "node_def \<Rightarrow> nat \<Rightarrow> nat set" where
  "node_deps node i \<equiv> set (deps_of (nd_equations node) ! i)"

lemma evaluation_order_schedule:
  assumes "evaluation_order node = Inr order"
  shows "schedule (node_deps node) (length (nd_equations node)) order"
proof -
  let ?eqs = "nd_equations node"
  let ?n = "length ?eqs"
  obtain o1 d1 ok where loop: "order_loop (deps_of ?eqs) ?n ([], replicate ?n False) = (o1, d1, ok)"
    by (cases "order_loop (deps_of ?eqs) ?n ([], replicate ?n False)") auto
  with assms have ok: "ok" "order = o1"
    by (auto simp: evaluation_order_def Let_def split: if_splits)
  have inv: "order_inv (node_deps node) ?n (order, d1)" and len: "?n \<le> length order"
    using order_loop_inv [OF order_inv_init deps_closed loop] unfolding ok(2) if_P [OF ok(1)] by simp_all
  from inv have o: "distinct order" "set order = {i. i < ?n \<and> d1 ! i}" by (simp_all add: order_inv_def)
  from distinct_card [OF o(1)] have "card (set order) = length order" .
  moreover from o(2) have "set order \<subseteq> {..<?n}" by blast
  ultimately have "set order = {..<?n}"
    using len by (intro card_seteq) auto
  with inv o show ?thesis by (auto simp: schedule_def order_inv_def)
qed

lemma schedule_no_stuck_set:
  assumes "schedule dep n order" and "S \<subseteq> {..<n}" and "S \<noteq> {}"
  shows "\<exists>i\<in>S. dep i \<inter> S = {}"
proof (rule ccontr)
  assume *: "\<not> ?thesis"
  have "\<forall>i\<in>S. i \<notin> set (take k order)" for k
  proof (induction k)
    case (Suc k)
    show ?case
    proof (cases "k < length order")
      case True
      have "order ! k \<notin> S"
      proof
        assume "order ! k \<in> S"
        with * obtain j where "j \<in> dep (order ! k)" "j \<in> S" by auto
        with assms(1) True Suc show False by (auto simp: schedule_def deps_first_def)
      qed
      with Suc True show ?thesis by (auto simp: take_Suc_conv_app_nth)
    qed (use Suc in simp)
  qed simp
  from this [of "length order"] have "S \<inter> set order = {}" by auto
  with assms show False by (auto simp: schedule_def)
qed

lemma evaluation_order_error:
  assumes "evaluation_order node = Inl msg"
  shows "\<exists>S. S \<subseteq> {..<length (nd_equations node)} \<and> S \<noteq> {} \<and> (\<forall>i\<in>S. node_deps node i \<inter> S \<noteq> {})"
proof -
  let ?eqs = "nd_equations node"
  let ?n = "length ?eqs"
  obtain o1 d1 ok where loop: "order_loop (deps_of ?eqs) ?n ([], replicate ?n False) = (o1, d1, ok)"
    by (cases "order_loop (deps_of ?eqs) ?n ([], replicate ?n False)") auto
  with assms have ok: "\<not> ok" by (auto simp: evaluation_order_def Let_def split: if_splits)
  define S where "S = {i. i < ?n \<and> \<not> d1 ! i}"
  have inv: "order_inv (node_deps node) ?n (o1, d1)" and len: "length o1 < ?n"
    and stuck: "\<forall>i<?n. d1 ! i \<or> (\<exists>d\<in>node_deps node i. \<not> d1 ! d)"
    using order_loop_inv [OF order_inv_init deps_closed loop] ok by simp_all
  have "S \<noteq> {}"
  proof
    assume "S = {}"
    from inv have o: "distinct o1" "set o1 = {i. i < ?n \<and> d1 ! i}" by (simp_all add: order_inv_def)
    from o(2) \<open>S = {}\<close> have "set o1 = {..<?n}" by (auto simp: S_def)
    with distinct_card [OF o(1)] len show False by simp
  qed
  moreover have "\<forall>i\<in>S. node_deps node i \<inter> S \<noteq> {}"
  proof
    fix i assume "i \<in> S"
    then have i: "i < ?n" "\<not> d1 ! i" by (auto simp: S_def)
    with stuck obtain d where "d \<in> node_deps node i" "\<not> d1 ! d" by auto
    moreover from this(1) i have "d < ?n" by (simp add: deps_bound)
    ultimately show "node_deps node i \<inter> S \<noteq> {}" by (auto simp: S_def)
  qed
  ultimately show ?thesis by (intro exI [of _ S]) (auto simp: S_def)
qed

text \<open>One pass over a declaration order that already respects the dependencies keeps it.\<close>

lemma order_pass_identity:
  assumes "deps_first (\<lambda>i. set (deps ! i)) [0..<n]" and "k \<le> n"
  shows "order_pass deps [k..<n]
      ([0..<k], map (\<lambda>i. i < k) [0..<n], pr) = ([0..<n], replicate n True, pr \<or> k < n)"
  using assms(2)
proof (induction "n - k" arbitrary: k pr)
  case 0
  then have "k = n" by simp
  moreover have "map (\<lambda>i. i < n) [0..<n] = replicate n True"
    by (intro nth_equalityI) auto
  ultimately show ?case by simp
next
  case (Suc x)
  then have k: "k < n" by simp
  with assms(1) have "set (deps ! k) \<subseteq> set (take k [0..<n])"
    by (auto simp: deps_first_def)
  with k have "set (deps ! k) \<subseteq> {..<k}" by (auto simp: take_upt)
  then have deps: "list_all (\<lambda>d. map (\<lambda>i. i < k) [0..<n] ! d) (deps ! k)"
    using k by (fastforce simp: list_all_iff)
  have upd: "(map (\<lambda>i. i < k) [0..<n])[k := True] = map (\<lambda>i. i < Suc k) [0..<n]"
    using k by (intro nth_equalityI) (auto simp: nth_list_update)
  have "order_pass deps (k # [Suc k..<n]) ([0..<k], map (\<lambda>i. i < k) [0..<n], pr) =
      order_pass deps [Suc k..<n] ([0..<Suc k], map (\<lambda>i. i < Suc k) [0..<n], True)"
    using k deps upd by simp
  also have "\<dots> = ([0..<n], replicate n True, True)"
    using Suc.hyps(1) [of "Suc k" True] Suc.hyps(2) k by simp
  finally show ?case using k by (simp add: upt_conv_Cons)
qed

lemma evaluation_order_identity:
  assumes "deps_first (node_deps node) [0..<length (nd_equations node)]"
  shows "evaluation_order node = Inr [0..<length (nd_equations node)]"
proof -
  let ?n = "length (nd_equations node)"
  let ?deps = "deps_of (nd_equations node)"
  have pass: "order_pass ?deps [0..<?n] ([], replicate ?n False, False) = ([0..<?n], replicate ?n True, 0 < ?n)"
    using order_pass_identity [OF assms, of 0 False] by (simp add: map_replicate_const)
  have "order_loop ?deps ?n ([], replicate ?n False) = ([0..<?n], replicate ?n (0 < ?n), True)"
    by (cases "?n = 0")
      (simp_all add: order_loop.simps [of ?deps ?n "[]"] order_loop.simps [of _ 0] pass
        order_loop.simps [of ?deps ?n "[0..<?n]"])
  then show ?thesis by (simp add: evaluation_order_def Let_def)
qed

end
