(* ===== verification/Clocks.thy ===== *)
theory Clocks
  imports Order
begin

text \<open>
  Clock inference (\<open>ol_ir/src/clocks.rs\<close>): clocks, the natural clock of an expression, the
  top-down check that records the clock of every temporal operator and call, and the inference
  over a node. The declarative clock calculus \<open>on_clock\<close> is the specification: the check reports
  no error exactly for the expressions of the calculus.
\<close>

section \<open>Clocks\<close>

datatype clock = Base | On string bool clock

fun is_base :: "clock \<Rightarrow> bool" where
  "is_base Base = True"
| "is_base (On c p parent) = False"

fun clock_key :: "clock \<Rightarrow> string" where
  "clock_key Base = ''base''"
| "clock_key (On c p parent) = clock_key parent @ ''/'' @ c @ (if p then ''+'' else ''-'')"

fun conditions :: "clock \<Rightarrow> (string \<times> bool) list" where
  "conditions Base = []"
| "conditions (On c p parent) = conditions parent @ [(c, p)]"

definition describe_clock :: "clock \<Rightarrow> string" where
  "describe_clock ck =
     (if conditions ck = [] then ''the base clock''
      else ''clock `'' @
        join_with '' '' (map (\<lambda>(v, p). if p then ''when '' @ v else ''when not '' @ v) (conditions ck)) @
        ''`'')"

lemma is_base_iff: "is_base ck \<longleftrightarrow> ck = Base"
  by (cases ck) auto

lemma conditions_eq_Nil [simp]: "conditions ck = [] \<longleftrightarrow> ck = Base"
  by (cases ck) auto

lemma conditions_inj: "conditions a = conditions b \<Longrightarrow> a = b"
  by (induction a arbitrary: b) (case_tac b; auto)+

text \<open>The key of a parent clock is a proper prefix of the key of its children, hence smaller.\<close>

lemma list_less_append: "ys \<noteq> [] \<Longrightarrow> (xs :: 'a::linorder list) < xs @ ys"
  by (induction xs) (auto simp: neq_Nil_conv)

lemma clock_key_parent_less: "clock_key parent < clock_key (On c p parent)"
  by (simp add: list_less_append)

fun clock_vars :: "clock \<Rightarrow> string set" where
  "clock_vars Base = {}"
| "clock_vars (On c p parent) = insert c (clock_vars parent)"

lemma last_segment_unique:
  "xs @ x # ys = us @ x # vs \<Longrightarrow> x \<notin> set ys \<Longrightarrow> x \<notin> set vs \<Longrightarrow> xs = us \<and> ys = vs"
proof (induction xs arbitrary: us)
  case Nil
  then show ?case by (cases us) auto
next
  case (Cons a xs)
  then show ?case by (cases us) auto
qed

lemma clock_key_inj:
  assumes "\<forall>v\<in>clock_vars a \<union> clock_vars b. CHR ''/'' \<notin> set v" and "clock_key a = clock_key b"
  shows "a = b"
  using assms
proof (induction a arbitrary: b)
  case Base
  show ?case
  proof (cases b)
    case (On c p parent)
    with Base.prems(2) have "CHR ''/'' \<in> set ''base''"
      by (metis append_Cons clock_key.simps in_set_conv_decomp)
    then show ?thesis by simp
  qed simp
next
  case (On c p parent)
  show ?case
  proof (cases b)
    case Base
    with On.prems(2) have "CHR ''/'' \<in> set ''base''"
      by (metis append_Cons clock_key.simps in_set_conv_decomp)
    then show ?thesis by simp
  next
    case (On d q parent')
    let ?s = "c @ (if p then ''+'' else ''-'')"
    let ?t = "d @ (if q then ''+'' else ''-'')"
    from On.prems(2) On have "clock_key parent @ CHR ''/'' # ?s = clock_key parent' @ CHR ''/'' # ?t"
      by simp
    moreover have "CHR ''/'' \<notin> set ?s" "CHR ''/'' \<notin> set ?t" using On.prems(1) On by auto
    ultimately have eq: "clock_key parent = clock_key parent'" "?s = ?t"
      using last_segment_unique by metis+
    from eq(2) have "c = d" "p = q" by (auto split: if_splits)
    moreover have "parent = parent'" using On.prems(1) On eq(1) by (intro On.IH) auto
    ultimately show ?thesis using On by simp
  qed
qed

section \<open>Natural clocks\<close>

type_synonym var_clocks = "string \<rightharpoonup> clock"

fun natural_clock :: "expr \<Rightarrow> var_clocks \<Rightarrow> clock option" where
  "natural_clock (Var name) vc = vc name"
| "natural_clock (Const lit) vc = None"
| "natural_clock (When a clock on) vc =
     (let parent = (case or_else (natural_clock a vc) (vc clock) of None \<Rightarrow> Base | Some ck \<Rightarrow> ck)
      in Some (On clock on parent))"
| "natural_clock (Merge clock a b) vc =
     (case vc clock of
        Some ck \<Rightarrow> Some ck
      | None \<Rightarrow>
         (case natural_clock a vc of
            Some (On _ _ parent) \<Rightarrow> Some parent
          | _ \<Rightarrow>
             (case natural_clock b vc of
                Some (On _ _ parent) \<Rightarrow> Some parent
              | _ \<Rightarrow> None)))"
| "natural_clock (Unary op a) vc = natural_clock a vc"
| "natural_clock (Pre a) vc = natural_clock a vc"
| "natural_clock (Cast t a) vc = natural_clock a vc"
| "natural_clock (Field b f) vc = natural_clock b vc"
| "natural_clock (Binary op l r) vc = or_else (natural_clock l vc) (natural_clock r vc)"
| "natural_clock (Arrow i b) vc = or_else (natural_clock i vc) (natural_clock b vc)"
| "natural_clock (IfThenElse c t e) vc =
     or_else (or_else (natural_clock c vc) (natural_clock t vc)) (natural_clock e vc)"
| "natural_clock (Index b i) vc = or_else (natural_clock b vc) (natural_clock i vc)"
| "natural_clock (Call node args) vc = find_map (\<lambda>a. natural_clock a vc) args"
| "natural_clock (Tuple items) vc = find_map (\<lambda>i. natural_clock i vc) items"
| "natural_clock (Array items) vc = find_map (\<lambda>i. natural_clock i vc) items"
| "natural_clock (Struct t fis) vc = find_map (\<lambda>fi. natural_clock (snd fi) vc) fis"
| "natural_clock (Iterate kind node init arrays) vc =
     or_else (case init of None \<Rightarrow> None | Some i \<Rightarrow> natural_clock i vc)
       (find_map (\<lambda>a. natural_clock a vc) arrays)"

section \<open>Checking\<close>

text \<open>A violation of the clock discipline; the text of each message is its constructor.\<close>

datatype clock_message =
    LhsOffClock string clock clock bool
  | VarOffClock string clock clock
  | WhenUnexpected string bool clock
  | ClockVarOffParent string clock clock

record clock_error =
  ce_equation :: "nat option"
  ce_message :: clock_message

record clock_info =
  equation_clocks :: "clock list"
  site_clocks :: "(addr \<times> clock) list"
  call_clocks :: "(addr \<times> clock) list"
  chains :: "clock list"
  clock_errors :: "clock_error list"

definition default_clock_info :: clock_info where
  "default_clock_info =
     \<lparr>equation_clocks = [], site_clocks = [], call_clocks = [], chains = [], clock_errors = []\<rparr>"

definition push_error :: "nat \<Rightarrow> clock_message \<Rightarrow> clock_info \<Rightarrow> clock_info" where
  "push_error eq msg info =
     info\<lparr>clock_errors := clock_errors info @ [\<lparr>ce_equation = Some eq, ce_message = msg\<rparr>]\<rparr>"

definition note_site :: "addr \<Rightarrow> clock \<Rightarrow> clock_info \<Rightarrow> clock_info" where
  "note_site a ck info = info\<lparr>site_clocks := hm_insert a ck (site_clocks info)\<rparr>"

definition note_call :: "addr \<Rightarrow> clock \<Rightarrow> clock_info \<Rightarrow> clock_info" where
  "note_call a ck info = info\<lparr>call_clocks := hm_insert a ck (call_clocks info)\<rparr>"

definition check_clock_var :: "string \<Rightarrow> clock \<Rightarrow> var_clocks \<Rightarrow> nat \<Rightarrow> clock_info \<Rightarrow> clock_info" where
  "check_clock_var clock parent vc eq info =
     (case vc clock of
        Some ck \<Rightarrow> if ck \<noteq> parent then push_error eq (ClockVarOffParent clock ck parent) info else info
      | None \<Rightarrow> info)"

lemma size_nth_item [termination_simp]:
  "i < length xs \<Longrightarrow> size (xs ! i :: expr) < Suc (size_list size xs)"
  "i < length xs \<Longrightarrow> size (xs ! i :: expr) < Suc (Suc (size_list size xs))"
  "Suc 0 \<le> i \<Longrightarrow> i < Suc (length xs) \<Longrightarrow>
     size (xs ! (i - Suc 0) :: expr) < Suc (Suc (k + size_list size xs))"
proof -
  have "size x < Suc (size_list size xs)" if "x \<in> set xs" for x :: expr
    using that by (rule size_child_list)
  then have *: "size (xs ! j) < Suc (size_list size xs)" if "j < length xs" for j
    using that by simp
  show "i < length xs \<Longrightarrow> size (xs ! i) < Suc (size_list size xs)" by (rule *)
  then show "i < length xs \<Longrightarrow> size (xs ! i) < Suc (Suc (size_list size xs))" by simp
  show "Suc 0 \<le> i \<Longrightarrow> i < Suc (length xs) \<Longrightarrow>
      size (xs ! (i - Suc 0)) < Suc (Suc (k + size_list size xs))"
    using * [of "i - Suc 0"] by (cases i) auto
qed

lemma size_nth_field [termination_simp]:
  "i < length fis \<Longrightarrow> size (snd (fis ! i)) < Suc (size_list (\<lambda>x. Suc (size (snd x))) fis)"
proof (induction fis arbitrary: i)
  case (Cons fi fis)
  then show ?case
  proof (cases i)
    case (Suc j)
    with Cons have "size (snd (fis ! j)) < Suc (size_list (\<lambda>x. Suc (size (snd x))) fis)" by simp
    with Suc show ?thesis by simp
  qed simp
qed simp

function check_expr :: "expr \<Rightarrow> addr \<Rightarrow> clock \<Rightarrow> var_clocks \<Rightarrow> nat \<Rightarrow> clock_info \<Rightarrow> clock_info" where
  "check_expr (Const lit) a ex vc eq info = info"
| "check_expr (Var name) a ex vc eq info =
     (case vc name of
        Some ck \<Rightarrow> if ck \<noteq> ex then push_error eq (VarOffClock name ck ex) info else info
      | None \<Rightarrow> info)"
| "check_expr (When e clock on) a ex vc eq info =
     (case ex of
        On c p parent \<Rightarrow>
          if c = clock \<and> p = on
          then check_expr e (child a 0) parent vc eq (check_clock_var clock parent vc eq info)
          else check_expr e (child a 0) (case natural_clock e vc of None \<Rightarrow> Base | Some p \<Rightarrow> p) vc eq
                 (push_error eq (WhenUnexpected clock on ex) info)
      | Base \<Rightarrow>
          check_expr e (child a 0) (case natural_clock e vc of None \<Rightarrow> Base | Some p \<Rightarrow> p) vc eq
            (push_error eq (WhenUnexpected clock on ex) info))"
| "check_expr (Merge clock t f) a ex vc eq info =
     check_expr f (child a 1) (On clock False ex) vc eq
       (check_expr t (child a 0) (On clock True ex) vc eq
         (check_clock_var clock ex vc eq info))"
| "check_expr (Pre e) a ex vc eq info = check_expr e (child a 0) ex vc eq (note_site a ex info)"
| "check_expr (Arrow i b) a ex vc eq info =
     check_expr b (child a 1) ex vc eq (check_expr i (child a 0) ex vc eq (note_site a ex info))"
| "check_expr (Call node args) a ex vc eq info =
     fold (\<lambda>(i, x). check_expr x (child a i) ex vc eq) (enumerate 0 args) (note_call a ex info)"
| "check_expr (Unary op e) a ex vc eq info = check_expr e (child a 0) ex vc eq info"
| "check_expr (Cast t e) a ex vc eq info = check_expr e (child a 0) ex vc eq info"
| "check_expr (Field e f) a ex vc eq info = check_expr e (child a 0) ex vc eq info"
| "check_expr (Binary op l r) a ex vc eq info =
     check_expr r (child a 1) ex vc eq (check_expr l (child a 0) ex vc eq info)"
| "check_expr (IfThenElse c t e) a ex vc eq info =
     check_expr e (child a 2) ex vc eq
       (check_expr t (child a 1) ex vc eq (check_expr c (child a 0) ex vc eq info))"
| "check_expr (Index b i) a ex vc eq info =
     check_expr i (child a 1) ex vc eq (check_expr b (child a 0) ex vc eq info)"
| "check_expr (Tuple items) a ex vc eq info =
     fold (\<lambda>(i, x). check_expr x (child a i) ex vc eq) (enumerate 0 items) info"
| "check_expr (Array items) a ex vc eq info =
     fold (\<lambda>(i, x). check_expr x (child a i) ex vc eq) (enumerate 0 items) info"
| "check_expr (Struct t fis) a ex vc eq info =
     fold (\<lambda>(i, x). check_expr x (child a i) ex vc eq) (enumerate 0 (map snd fis)) info"
| "check_expr (Iterate kind node init arrays) a ex vc eq info =
     (case init of
        None \<Rightarrow> fold (\<lambda>(i, x). check_expr x (child a i) ex vc eq) (enumerate 0 arrays) info
      | Some e \<Rightarrow>
          fold (\<lambda>(i, x). check_expr x (child a i) ex vc eq) (enumerate 1 arrays)
            (check_expr e (child a 0) ex vc eq info))"
  by pat_completeness auto
termination
  by (relation "measure (\<lambda>(e, _). size e)")
    (auto simp: in_set_enumerate_eq termination_simp)

section \<open>Inference over a node\<close>

definition node_uses_clocks :: "node_def \<Rightarrow> bool" where
  "node_uses_clocks node \<longleftrightarrow>
     (\<exists>eq\<in>set (nd_equations node). \<exists>e\<in>set (visit (eq_rhs eq)).
        case e of When _ _ _ \<Rightarrow> True | Merge _ _ _ \<Rightarrow> True | _ \<Rightarrow> False)"

definition io_names :: "node_def \<Rightarrow> string list" where
  "io_names node = map p_name (nd_inputs node) @ map p_name (nd_outputs node)"

fun infer_lhs :: "string list \<Rightarrow> clock \<Rightarrow> string list \<Rightarrow> var_clocks \<times> bool \<Rightarrow> var_clocks \<times> bool" where
  "infer_lhs io ck [] st = st"
| "infer_lhs io ck (l # ls) (vc, changed) =
     (if l \<notin> set io \<and> vc l \<noteq> Some ck then infer_lhs io ck ls (vc(l \<mapsto> ck), True)
      else infer_lhs io ck ls (vc, changed))"

fun infer_pass :: "string list \<Rightarrow> equation list \<Rightarrow> var_clocks \<times> bool \<Rightarrow> var_clocks \<times> bool" where
  "infer_pass io [] st = st"
| "infer_pass io (eq # eqs) (vc, changed) =
     infer_pass io eqs
       (case natural_clock (eq_rhs eq) vc of
          None \<Rightarrow> (vc, changed)
        | Some ck \<Rightarrow> infer_lhs io ck (eq_lhs eq) (vc, changed))"

text \<open>\<open>for _ in 0..=n\<close>, with the early exit of a pass that changes nothing.\<close>

fun infer_vars :: "nat \<Rightarrow> string list \<Rightarrow> equation list \<Rightarrow> var_clocks \<Rightarrow> var_clocks" where
  "infer_vars 0 io eqs vc = vc"
| "infer_vars (Suc k) io eqs vc =
     (case infer_pass io eqs (vc, False) of
        (vc', changed) \<Rightarrow> if changed then infer_vars k io eqs vc' else vc')"

definition infer_var_clocks :: "node_def \<Rightarrow> var_clocks" where
  "infer_var_clocks node =
     infer_vars (Suc (length (nd_equations node))) (io_names node) (nd_equations node)
       (fold (\<lambda>name vc. vc(name \<mapsto> Base)) (io_names node) Map.empty)"

definition check_lhs :: "string list \<Rightarrow> var_clocks \<Rightarrow> nat \<Rightarrow> clock \<Rightarrow> string \<Rightarrow> clock_info \<Rightarrow> clock_info" where
  "check_lhs io vc i eq_clock l info =
     (case vc l of
        Some lck \<Rightarrow>
          if lck \<noteq> eq_clock then push_error i (LhsOffClock l lck eq_clock (l \<in> set io)) info else info
      | None \<Rightarrow> info)"

definition check_equation ::
  "string list \<Rightarrow> var_clocks \<Rightarrow> (nat \<Rightarrow> root) \<Rightarrow> nat \<Rightarrow> equation \<Rightarrow> clock_info \<Rightarrow> clock_info" where
  "check_equation io vc mk i eq info =
     (let eq_clock = (case natural_clock (eq_rhs eq) vc of None \<Rightarrow> Base | Some ck \<Rightarrow> ck);
          info1 = fold (check_lhs io vc i eq_clock) (eq_lhs eq) info;
          info2 = check_expr (eq_rhs eq) (root_addr (mk i)) eq_clock vc i info1
      in info2\<lparr>equation_clocks := equation_clocks info2 @ [eq_clock]\<rparr>)"

text \<open>\<open>mk i\<close> is the root under which the \<open>i\<close>-th equation's expressions have their addresses.\<close>

definition infer_clocks :: "(nat \<Rightarrow> root) \<Rightarrow> node_def \<Rightarrow> clock_info" where
  "infer_clocks mk node =
     (let io = io_names node;
          vc = infer_var_clocks node;
          info = fold (\<lambda>(i, eq). check_equation io vc mk i eq) (enumerate 0 (nd_equations node))
                   default_clock_info;
          chs = fold (\<lambda>ck acc. if \<not> is_base ck \<and> ck \<notin> set acc then acc @ [ck] else acc)
                  (map snd (site_clocks info)) []
      in info\<lparr>chains := sort_key clock_key chs\<rparr>)"

section \<open>The clock calculus\<close>

text \<open>
  The discipline itself: an operand is on the clock of its position, \<open>when\<close> takes its operand
  from the parent clock, \<open>merge\<close> takes two complementary samples, and a clock variable is on the
  clock it samples. Names without a declared clock fit everywhere.
\<close>

fun clock_plain :: "expr \<Rightarrow> bool" where
  "clock_plain (Var name) = False"
| "clock_plain (When e clock on) = False"
| "clock_plain (Merge clock a b) = False"
| "clock_plain _ = True"

definition fits :: "var_clocks \<Rightarrow> string \<Rightarrow> clock \<Rightarrow> bool" where
  "fits vc name ck \<longleftrightarrow> vc name = None \<or> vc name = Some ck"

inductive on_clock :: "var_clocks \<Rightarrow> clock \<Rightarrow> expr \<Rightarrow> bool" for vc where
  OnVar: "fits vc name ck \<Longrightarrow> on_clock vc ck (Var name)"
| OnWhen: "fits vc clock parent \<Longrightarrow> on_clock vc parent e \<Longrightarrow>
     on_clock vc (On clock on parent) (When e clock on)"
| OnMerge: "fits vc clock ck \<Longrightarrow> on_clock vc (On clock True ck) t \<Longrightarrow>
     on_clock vc (On clock False ck) f \<Longrightarrow> on_clock vc ck (Merge clock t f)"
| OnPlain: "clock_plain e \<Longrightarrow> (\<And>c. c \<in> set (children e) \<Longrightarrow> on_clock vc ck c) \<Longrightarrow> on_clock vc ck e"

inductive_simps on_clock_var [simp]: "on_clock vc ck (Var name)"
inductive_simps on_clock_when: "on_clock vc ck (When e clock on)"
inductive_simps on_clock_merge [simp]: "on_clock vc ck (Merge clock t f)"
inductive_cases on_clockE: "on_clock vc ck e"

lemma on_clock_plain: "clock_plain e \<Longrightarrow> on_clock vc ck e \<longleftrightarrow> (\<forall>c\<in>set (children e). on_clock vc ck c)"
  by (auto intro: OnPlain elim: on_clockE)

lemma on_clock_when_On [simp]:
  "on_clock vc (On c p parent) (When e clock on) \<longleftrightarrow>
     c = clock \<and> p = on \<and> fits vc clock parent \<and> on_clock vc parent e"
  by (auto simp: on_clock_when)

lemma on_clock_when_Base [simp]: "\<not> on_clock vc Base (When e clock on)"
  by (simp add: on_clock_when)

subsection \<open>What a step adds to the error list\<close>

definition reports :: "(clock_info \<Rightarrow> clock_info) \<Rightarrow> bool \<Rightarrow> bool" where
  "reports g ok \<longleftrightarrow>
     (\<forall>info. \<exists>errs. clock_errors (g info) = clock_errors info @ errs \<and> (errs = [] \<longleftrightarrow> ok))"

lemma reportsI:
  "(\<And>info. clock_errors (g info) = clock_errors info @ (if ok then [] else [err])) \<Longrightarrow> reports g ok"
  by (simp add: reports_def)

lemma reports_id [simp, intro]: "reports (\<lambda>info. info) True"
  by (simp add: reports_def)

lemma reports_comp:
  assumes "reports g ok1" and "reports h ok2"
  shows "reports (\<lambda>info. h (g info)) (ok1 \<and> ok2)"
  unfolding reports_def
proof
  fix info
  obtain e1 where e1: "clock_errors (g info) = clock_errors info @ e1" "e1 = [] \<longleftrightarrow> ok1"
    using assms(1) by (auto simp: reports_def)
  obtain e2 where e2: "clock_errors (h (g info)) = clock_errors (g info) @ e2" "e2 = [] \<longleftrightarrow> ok2"
    using assms(2) by (auto simp: reports_def)
  show "\<exists>errs. clock_errors (h (g info)) = clock_errors info @ errs \<and> (errs = [] \<longleftrightarrow> ok1 \<and> ok2)"
    using e1 e2 by (intro exI [of _ "e1 @ e2"]) auto
qed

lemma reports_fold:
  "(\<And>x. x \<in> set xs \<Longrightarrow> reports (f x) (ok x)) \<Longrightarrow> reports (fold f xs) (\<forall>x\<in>set xs. ok x)"
proof (induction xs)
  case Nil
  then show ?case by (simp add: reports_def)
next
  case (Cons x xs)
  then have "reports (\<lambda>info. fold f xs (f x info)) (ok x \<and> (\<forall>y\<in>set xs. ok y))"
    by (intro reports_comp) auto
  then show ?case by (simp add: comp_def)
qed

lemma reports_note_site [simp, intro]: "reports (note_site a ck) True"
  by (simp add: reports_def note_site_def)

lemma reports_note_call [simp, intro]: "reports (note_call a ck) True"
  by (simp add: reports_def note_call_def)

lemma reports_push_error [simp, intro]: "reports (push_error eq msg) False"
  by (simp add: reports_def push_error_def)

lemma reports_clock_var [simp, intro]:
  "reports (check_clock_var clock parent vc eq) (fits vc clock parent)"
  by (cases "vc clock") (auto simp: reports_def check_clock_var_def fits_def push_error_def)

lemma reports_cong: "reports g ok \<Longrightarrow> (\<And>info. g' info = g info) \<Longrightarrow> ok' = ok \<Longrightarrow> reports g' ok'"
  by (simp add: reports_def)

lemma all_enumerate: "(\<forall>p\<in>set (enumerate n xs). P (snd p)) \<longleftrightarrow> (\<forall>x\<in>set xs. P x)"
  by (metis (no_types, lifting) in_set_conv_nth in_set_enumerate_eq length_enumerate
      nth_enumerate_eq nth_mem snd_conv)

lemma reports_fold_enumerate:
  assumes "\<And>i x. x \<in> set xs \<Longrightarrow> reports (f i x) (ok x)"
  shows "reports (fold (\<lambda>(i, x). f i x) (enumerate n xs)) (\<forall>x\<in>set xs. ok x)"
proof -
  have "reports (fold (\<lambda>(i, x). f i x) (enumerate n xs)) (\<forall>p\<in>set (enumerate n xs). ok (snd p))"
    by (intro reports_fold) (auto simp: in_set_enumerate_eq intro!: assms)
  then show ?thesis by (simp only: all_enumerate [of n xs ok])
qed

lemma check_expr_reports: "reports (check_expr e a ex vc eq) (on_clock vc ex e)"
proof (induction e arbitrary: a ex rule: expr_children_induct)
  case (step e)
  note IH = step.IH
  have items: "reports (fold (\<lambda>(i, x). check_expr x (child a i) ex vc eq) (enumerate n xs))
      (\<forall>x\<in>set xs. on_clock vc ex x)" if "set xs \<subseteq> set (children e)" for n xs
    by (rule reports_fold_enumerate) (use that in \<open>auto intro: IH\<close>)
  show ?case
  proof (cases e)
    case (Const lit)
    then show ?thesis by (intro reports_cong [OF reports_id]) (simp_all add: on_clock_plain)
  next
    case (Var name)
    then show ?thesis by (cases "vc name") (auto simp: reports_def fits_def push_error_def)
  next
    case (Unary op x)
    then show ?thesis using IH [of x "child a 0" ex] by (simp add: on_clock_plain)
  next
    case (Binary op l r)
    then show ?thesis
      using reports_comp [OF IH [of l "child a 0" ex] IH [of r "child a 1" ex]]
      by (simp add: on_clock_plain)
  next
    case (IfThenElse c t f)
    then show ?thesis
      using reports_comp [OF reports_comp [OF IH [of c "child a 0" ex] IH [of t "child a 1" ex]]
          IH [of f "child a 2" ex]]
      by (simp add: on_clock_plain)
  next
    case (Pre x)
    then show ?thesis
      using reports_comp [OF reports_note_site [of a ex] IH [of x "child a 0" ex]]
      by (simp add: on_clock_plain)
  next
    case (Arrow l r)
    then show ?thesis
      using reports_comp [OF reports_comp [OF reports_note_site [of a ex] IH [of l "child a 0" ex]]
          IH [of r "child a 1" ex]]
      by (simp add: on_clock_plain)
  next
    case (Call node args)
    then show ?thesis
      using reports_comp [OF reports_note_call [of a ex] items [of args 0]] by (simp add: on_clock_plain)
  next
    case (Field b f)
    then show ?thesis using IH [of b "child a 0" ex] by (simp add: on_clock_plain)
  next
    case (Index l r)
    then show ?thesis
      using reports_comp [OF IH [of l "child a 0" ex] IH [of r "child a 1" ex]]
      by (simp add: on_clock_plain)
  next
    case (Tuple args)
    then show ?thesis using items [of args 0] by (simp add: on_clock_plain)
  next
    case (Array args)
    then show ?thesis using items [of args 0] by (simp add: on_clock_plain)
  next
    case (Struct t fis)
    then show ?thesis using items [of "map snd fis" 0] by (simp add: on_clock_plain)
  next
    case (Cast t x)
    then show ?thesis using IH [of x "child a 0" ex] by (simp add: on_clock_plain)
  next
    case (When x clock on)
    let ?p = "case natural_clock x vc of None \<Rightarrow> Base | Some p \<Rightarrow> p"
    have bad: "reports (\<lambda>info. check_expr x (child a 0) ?p vc eq
        (push_error eq (WhenUnexpected clock on ex) info)) False"
      using reports_comp [OF reports_push_error [of eq "WhenUnexpected clock on ex"]
          IH [of x "child a 0" ?p]] When
      by simp
    show ?thesis
    proof (cases ex)
      case Base
      with bad When show ?thesis by (simp cong: option.case_cong)
    next
      case (On c p parent)
      have good: "reports (\<lambda>info. check_expr x (child a 0) parent vc eq
          (check_clock_var clock parent vc eq info)) (fits vc clock parent \<and> on_clock vc parent x)"
        using reports_comp [OF reports_clock_var [of clock parent vc eq] IH [of x "child a 0" parent]]
          When by simp
      show ?thesis
      proof (cases "c = clock \<and> p = on")
        case True
        then show ?thesis using good When On by simp
      next
        case False
        then have "\<not> on_clock vc ex e" using When On by auto
        moreover have "check_expr e a ex vc eq = (\<lambda>info. check_expr x (child a 0) ?p vc eq
            (push_error eq (WhenUnexpected clock on ex) info))"
          using False When On by auto
        ultimately show ?thesis using bad by simp
      qed
    qed
  next
    case (Merge clock t f)
    then show ?thesis
      using reports_comp [OF reports_comp [OF reports_clock_var [of clock ex vc eq]
            IH [of t "child a 0" "On clock True ex"]] IH [of f "child a 1" "On clock False ex"]]
      by simp
  next
    case (Iterate kind node init arrays)
    show ?thesis
    proof (cases init)
      case None
      then show ?thesis using items [of arrays 0] Iterate by (simp add: on_clock_plain)
    next
      case (Some i)
      then show ?thesis
        using reports_comp [OF IH [of i "child a 0" ex] items [of arrays 1]] Iterate
        by (simp add: on_clock_plain subset_insertI)
    qed
  qed
qed

subsection \<open>The discipline of a node\<close>

text \<open>The clock of an equation and what the discipline asks of it.\<close>

definition equation_clock :: "var_clocks \<Rightarrow> equation \<Rightarrow> clock" where
  "equation_clock vc eq = (case natural_clock (eq_rhs eq) vc of None \<Rightarrow> Base | Some ck \<Rightarrow> ck)"

definition well_clocked :: "var_clocks \<Rightarrow> equation \<Rightarrow> bool" where
  "well_clocked vc eq \<longleftrightarrow>
     (\<forall>l\<in>set (eq_lhs eq). fits vc l (equation_clock vc eq)) \<and>
     on_clock vc (equation_clock vc eq) (eq_rhs eq)"

lemma reports_check_lhs: "reports (check_lhs io vc i ck l) (fits vc l ck)"
  by (cases "vc l") (auto simp: reports_def check_lhs_def fits_def push_error_def)

lemma reports_check_equation: "reports (check_equation io vc mk i eq) (well_clocked vc eq)"
proof -
  let ?ck = "equation_clock vc eq"
  let ?f = "\<lambda>info. check_expr (eq_rhs eq) (root_addr (mk i)) ?ck vc i
      (fold (check_lhs io vc i ?ck) (eq_lhs eq) info)"
  have "reports ?f (well_clocked vc eq)"
    unfolding well_clocked_def
    by (intro reports_comp reports_fold reports_check_lhs check_expr_reports)
  moreover have "clock_errors (check_equation io vc mk i eq info) = clock_errors (?f info)" for info
    by (simp add: check_equation_def equation_clock_def Let_def)
  ultimately show ?thesis by (simp add: reports_def)
qed

lemma infer_clocks_errors:
  "clock_errors (infer_clocks mk node) = [] \<longleftrightarrow>
     (\<forall>eq\<in>set (nd_equations node). well_clocked (infer_var_clocks node) eq)"
proof -
  have "reports (fold (\<lambda>(i, eq). check_equation (io_names node) (infer_var_clocks node) mk i eq)
      (enumerate 0 (nd_equations node)))
      (\<forall>eq\<in>set (nd_equations node). well_clocked (infer_var_clocks node) eq)"
    by (intro reports_fold_enumerate reports_check_equation)
  then show ?thesis
    by (auto simp: reports_def infer_clocks_def Let_def default_clock_info_def
        dest: spec [of _ default_clock_info])
qed

subsection \<open>The clock recorded for each equation\<close>

lemma check_expr_equation_clocks [simp]:
  "equation_clocks (check_expr e a ex vc eq info) = equation_clocks info"
proof (induction e arbitrary: a ex info rule: expr_children_induct)
  case (step e)
  have items: "equation_clocks (fold (\<lambda>(i, x). check_expr x (child a i) ex vc eq) (enumerate n xs) u) =
      equation_clocks u" if "set xs \<subseteq> set (children e)" for n xs u
    using that
  proof (induction xs arbitrary: n u)
    case (Cons x xs)
    then show ?case by (simp add: step.IH)
  qed simp
  note upd = push_error_def note_site_def note_call_def check_clock_var_def
  show ?case
    by (cases e) (auto simp: step.IH items upd subset_insertI split: option.splits clock.splits)
qed

lemma check_lhs_equation_clocks: 
  "equation_clocks (fold (check_lhs io vc i ck) ls info) = equation_clocks info"
  by (induction ls arbitrary: info) (auto simp: check_lhs_def push_error_def split: option.split)

lemma infer_clocks_equation_clocks:
  "equation_clocks (infer_clocks mk node) = map (equation_clock (infer_var_clocks node)) (nd_equations node)"
proof -
  have "equation_clocks (fold (\<lambda>(i, eq). check_equation io vc mk i eq) (enumerate n eqs) info) =
      equation_clocks info @ map (equation_clock vc) eqs" for io vc n eqs info
    by (induction eqs arbitrary: n info)
      (simp_all add: check_equation_def equation_clock_def check_lhs_equation_clocks Let_def)
  then show ?thesis by (simp add: infer_clocks_def default_clock_info_def Let_def)
qed

subsection \<open>The natural clock is the clock of the position\<close>

text \<open>The clock variables of the samplers and joins of an expression.\<close>

fun sampled_by :: "expr \<Rightarrow> string option" where
  "sampled_by (When e clock on) = Some clock"
| "sampled_by (Merge clock a b) = Some clock"
| "sampled_by _ = None"

definition clock_names :: "expr \<Rightarrow> string set" where
  "clock_names e = {v. \<exists>x\<in>set (visit e). sampled_by x = Some v}"

lemma clock_names_children:
  "clock_names e = set_option (sampled_by e) \<union> (\<Union>c\<in>set (children e). clock_names c)"
  by (auto simp: clock_names_def set_visit [of e])

lemma find_map_map: "find_map f (map g xs) = find_map (\<lambda>x. f (g x)) xs"
  by (induction xs) (auto split: option.split)

lemma find_map_clock:
  "find_map f xs = Some y \<Longrightarrow> (\<And>x y. x \<in> set xs \<Longrightarrow> f x = Some y \<Longrightarrow> y = ck) \<Longrightarrow> y = ck"
  by (auto dest!: find_map_SomeD)

lemma or_else_clock:
  "or_else a b = Some y \<Longrightarrow> (\<And>y. a = Some y \<Longrightarrow> y = ck) \<Longrightarrow> (\<And>y. b = Some y \<Longrightarrow> y = ck) \<Longrightarrow> y = ck"
  by (cases a) auto

lemma natural_clock_on_clock:
  "on_clock vc ck e \<Longrightarrow> clock_names e \<subseteq> dom vc \<Longrightarrow> natural_clock e vc = Some nk \<Longrightarrow> nk = ck"
proof (induction e arbitrary: ck nk rule: expr_children_induct)
  case (step e)
  have sub: "clock_names c \<subseteq> dom vc" if "c \<in> set (children e)" for c
    using step.prems(2) that by (auto simp: clock_names_children [of e])
  have kid: "y = ck" if "clock_plain e" "c \<in> set (children e)" "natural_clock c vc = Some y" for c y
    using step.IH [OF that(2)] step.prems(1) that sub by (auto simp: on_clock_plain)
  then have kids: "clock_plain e \<longrightarrow> (\<forall>c\<in>set (children e). \<forall>y. natural_clock c vc = Some y \<longrightarrow> y = ck)"
    by blast
  have here: "set_option (sampled_by e) \<subseteq> dom vc"
    using step.prems(2) by (auto simp: clock_names_children [of e])
  show ?case
  proof (cases e)
    case (When x clock on)
    then obtain parent where ck: "ck = On clock on parent" "fits vc clock parent" "on_clock vc parent x"
      using step.prems(1) by (auto simp: on_clock_when)
    moreover have "vc clock = Some parent" using ck here When by (auto simp: fits_def)
    moreover have "y = parent" if "natural_clock x vc = Some y" for y
      using step.IH [of x parent y] ck sub that When by auto
    ultimately show ?thesis
      using step.prems(3) When by (cases "natural_clock x vc") (auto simp: Let_def)
  next
    case (Merge clock t f)
    with step.prems here show ?thesis by (auto simp: fits_def)
  next
    case (Var name)
    with step.prems show ?thesis by (auto simp: fits_def)
  next
    case (Iterate k n i as)
    then show ?thesis using step.prems(3)
      by (cases i) (auto elim!: or_else_clock find_map_clock intro!: kid)
  next
    case (Struct t fis)
    then have "find_map (\<lambda>c. natural_clock c vc) (map snd fis) = Some nk"
      using step.prems(3) by (simp add: find_map_map)
    then show ?thesis by (rule find_map_clock) (use Struct in \<open>auto intro!: kid\<close>)
  qed (use step.prems(3) kids in \<open>auto elim!: or_else_clock find_map_clock\<close>)
qed

subsection \<open>The chains whose ticks are counted\<close>

lemma collect_clocks:
  "set (fold (\<lambda>ck acc. if \<not> is_base ck \<and> ck \<notin> set acc then acc @ [ck] else acc) cks acc) =
     set acc \<union> {ck \<in> set cks. \<not> is_base ck}"
  "distinct acc \<Longrightarrow>
     distinct (fold (\<lambda>ck acc. if \<not> is_base ck \<and> ck \<notin> set acc then acc @ [ck] else acc) cks acc)"
  by (induction cks arbitrary: acc) auto

lemma infer_clocks_chains:
  "set (chains (infer_clocks mk node)) = {ck \<in> snd ` set (site_clocks (infer_clocks mk node)). ck \<noteq> Base}"
  "distinct (chains (infer_clocks mk node))"
  "sorted (map clock_key (chains (infer_clocks mk node)))"
  unfolding is_base_iff [symmetric]
  by (auto simp: infer_clocks_def Let_def collect_clocks)

lemma chains_parent_first:
  assumes "i < length (chains (infer_clocks mk node))" and "j < length (chains (infer_clocks mk node))"
    and "chains (infer_clocks mk node) ! j = On c p (chains (infer_clocks mk node) ! i)"
  shows "i < j"
proof (rule ccontr)
  let ?ch = "chains (infer_clocks mk node)"
  assume "\<not> i < j"
  then have "map clock_key ?ch ! j \<le> map clock_key ?ch ! i"
    using assms infer_clocks_chains(3) [of mk node] by (intro sorted_nth_mono) auto
  with assms clock_key_parent_less [of "?ch ! i" c p] show False by simp
qed

end
