(* ===== verification/Contract.thy ===== *)
theory Contract
  imports IR_Project
begin

text \<open>
  Contracts (\<open>ol_contract_ir/src/lib.rs\<close>): the contract data, the observer node a contract is
  compiled to, and the verdict the monitors draw from one cycle of the observer's signals. The
  lemmas relate the observer's outputs, equations and signals, and show that the verdict reports
  exactly the active modes and the violated clauses.
\<close>

section \<open>Contracts\<close>

record assumption =
  as_name :: "string option"
  as_expr :: expr

record guarantee =
  gu_name :: "string option"
  gu_expr :: expr

record ghost_var =
  gh_name :: string
  gh_ty :: ty
  gh_definition :: expr

record mode =
  mo_name :: string
  mo_requires :: "expr list"
  mo_ensures :: "expr list"

record contract_import =
  ci_contract :: string
  ci_input_map :: "(string \<times> expr) list"
  ci_output_map :: "(string \<times> string) list"

record contract_def =
  ct_name :: string
  ct_inputs :: "port list"
  ct_outputs :: "port list"
  ct_ghost_vars :: "ghost_var list"
  ct_assumptions :: "assumption list"
  ct_guarantees :: "guarantee list"
  ct_modes :: "mode list"
  ct_imports :: "contract_import list"

definition find_mode :: "contract_def \<Rightarrow> string \<Rightarrow> mode option" where
  "find_mode c name = find (\<lambda>m. mo_name m = name) (ct_modes c)"

text \<open>\<open>from_value\<close> is the deserialiser of the \<open>serde_json\<close> package, with its error text.\<close>

definition parse_contracts ::
  "(json \<Rightarrow> (string, contract_def) result) \<Rightarrow> json list \<Rightarrow> contract_def list \<times> string list" where
  "parse_contracts from_value raw =
     fold (\<lambda>(i, v) (out, errors).
         case from_value v of
           Inr c \<Rightarrow> (out @ [c], errors)
         | Inl e \<Rightarrow> (out, errors @ [''contract #'' @ nat_digits i @ '': '' @ e]))
       (enumerate 0 raw) ([], [])"

lemma parse_contracts_defs:
  "fst (parse_contracts from_value raw) = [c. v \<leftarrow> raw, c \<leftarrow> (case from_value v of Inr c \<Rightarrow> [c] | Inl _ \<Rightarrow> [])]"
proof -
  have "fst (fold (\<lambda>(i, v) (out, errors).
         case from_value v of
           Inr c \<Rightarrow> (out @ [c], errors)
         | Inl e \<Rightarrow> (out, errors @ [''contract #'' @ nat_digits i @ '': '' @ e]))
       (enumerate n raw) (out, errs)) =
      out @ [c. v \<leftarrow> raw, c \<leftarrow> (case from_value v of Inr c \<Rightarrow> [c] | Inl _ \<Rightarrow> [])]" for n out errs
    by (induction raw arbitrary: n out errs) (auto split: sum.split)
  then show ?thesis by (simp add: parse_contracts_def)
qed

section \<open>Observers\<close>

datatype observer_signal =
    AssumptionSig nat string
  | GuaranteeSig nat string
  | RequireSig nat nat
  | EnsureSig nat nat

record observer =
  ob_node :: node_def
  ob_signals :: "observer_signal list"
  ob_ghost_count :: nat

definition clause_label :: "string \<Rightarrow> nat \<Rightarrow> string option \<Rightarrow> string" where
  "clause_label kind i name = (case name of Some n \<Rightarrow> n | None \<Rightarrow> kind @ ''#'' @ nat_digits i)"

text \<open>The calls of the closure \<open>signal\<close>, in order: the signal, its port and its expression.\<close>

definition assumption_clauses :: "contract_def \<Rightarrow> (observer_signal \<times> string \<times> expr) list" where
  "assumption_clauses c =
     map (\<lambda>(i, a). (AssumptionSig i (clause_label ''assumption'' i (as_name a)),
                    ''ol_a'' @ nat_digits i, as_expr a))
       (enumerate 0 (ct_assumptions c))"

definition guarantee_clauses :: "contract_def \<Rightarrow> (observer_signal \<times> string \<times> expr) list" where
  "guarantee_clauses c =
     map (\<lambda>(i, g). (GuaranteeSig i (clause_label ''guarantee'' i (gu_name g)),
                    ''ol_g'' @ nat_digits i, gu_expr g))
       (enumerate 0 (ct_guarantees c))"

definition mode_clauses :: "nat \<Rightarrow> mode \<Rightarrow> (observer_signal \<times> string \<times> expr) list" where
  "mode_clauses m mode =
     map (\<lambda>(k, r). (RequireSig m k, ''ol_m'' @ nat_digits m @ ''_r'' @ nat_digits k, r))
       (enumerate 0 (mo_requires mode)) @
     map (\<lambda>(k, e). (EnsureSig m k, ''ol_m'' @ nat_digits m @ ''_e'' @ nat_digits k, e))
       (enumerate 0 (mo_ensures mode))"

definition clauses :: "contract_def \<Rightarrow> (observer_signal \<times> string \<times> expr) list" where
  "clauses c =
     assumption_clauses c @ guarantee_clauses c @
     concat (map (\<lambda>(m, mode). mode_clauses m mode) (enumerate 0 (ct_modes c)))"

definition observer :: "contract_def \<Rightarrow> observer" where
  "observer c =
     \<lparr>ob_node =
        \<lparr>nd_name = ct_name c @ ''_observer'',
         nd_kind = Operator,
         nd_inputs = ct_inputs c @ ct_outputs c,
         nd_outputs = map (\<lambda>(sig, port, e). \<lparr>p_name = port, p_ty = TBool\<rparr>) (clauses c),
         nd_locals = map (\<lambda>g. \<lparr>l_name = gh_name g, l_ty = gh_ty g\<rparr>) (ct_ghost_vars c),
         nd_equations =
           map (\<lambda>g. \<lparr>eq_lhs = [gh_name g], eq_rhs = gh_definition g\<rparr>) (ct_ghost_vars c) @
           map (\<lambda>(sig, port, e). \<lparr>eq_lhs = [port], eq_rhs = e\<rparr>) (clauses c),
         nd_contract = None,
         nd_diagram = default_diagram,
         nd_probes = []\<rparr>,
      ob_signals = map fst (clauses c),
      ob_ghost_count = length (ct_ghost_vars c)\<rparr>"

text \<open>\<open>None\<close> stands for the panic of an index out of range.\<close>

definition describe_equation :: "observer \<Rightarrow> contract_def \<Rightarrow> nat \<Rightarrow> string option" where
  "describe_equation obs c eq =
     (if eq < ob_ghost_count obs then
        (if eq < length (ct_ghost_vars c)
         then Some (''ghost `'' @ gh_name (ct_ghost_vars c ! eq) @ ''`'') else None)
      else
        let k = eq - ob_ghost_count obs;
            hash = (\<lambda>i name. case name of Some n \<Rightarrow> n | None \<Rightarrow> ''#'' @ nat_digits i);
            mode_name = (\<lambda>m. if m < length (ct_modes c) then mo_name (ct_modes c ! m) else ''?'')
        in if length (ob_signals obs) \<le> k then Some ''interface''
           else
             (case ob_signals obs ! k of
                AssumptionSig i label \<Rightarrow>
                  (if i < length (ct_assumptions c)
                   then Some (''assumption `'' @ hash i (as_name (ct_assumptions c ! i)) @ ''`'') else None)
              | GuaranteeSig i label \<Rightarrow>
                  (if i < length (ct_guarantees c)
                   then Some (''guarantee `'' @ hash i (gu_name (ct_guarantees c ! i)) @ ''`'') else None)
              | RequireSig m i \<Rightarrow> Some (''mode `'' @ mode_name m @ ''` require #'' @ nat_digits i)
              | EnsureSig m i \<Rightarrow> Some (''mode `'' @ mode_name m @ ''` ensure #'' @ nat_digits i)))"

section \<open>The verdict of one cycle\<close>

fun clause_violation :: "observer_signal \<times> bool \<Rightarrow> string list" where
  "clause_violation (AssumptionSig i label, ok) = (if ok then [] else [label])"
| "clause_violation (GuaranteeSig i label, ok) = (if ok then [] else [label])"
| "clause_violation _ = []"

fun is_require :: "nat \<Rightarrow> observer_signal \<Rightarrow> bool" where
  "is_require m (RequireSig m' k) \<longleftrightarrow> m' = m"
| "is_require m _ \<longleftrightarrow> False"

fun ensure_violation :: "nat \<Rightarrow> mode \<Rightarrow> observer_signal \<times> bool \<Rightarrow> string list" where
  "ensure_violation m mode (EnsureSig em i, ok) =
     (if em = m \<and> \<not> ok then [mo_name mode @ ''::ensure#'' @ nat_digits i] else [])"
| "ensure_violation m mode _ = []"

definition mode_holds :: "observer_signal list \<Rightarrow> bool list \<Rightarrow> nat \<Rightarrow> bool" where
  "mode_holds signals vals m \<longleftrightarrow>
     list_all snd (filter (\<lambda>(s, _). is_require m s) (zip signals vals))"

definition verdict :: "observer \<Rightarrow> contract_def \<Rightarrow> bool list \<Rightarrow> string list \<times> string list" where
  "verdict obs c vals =
     (let pairs = zip (ob_signals obs) vals;
          violations = concat (map clause_violation pairs)
      in fold (\<lambda>(m, mode) (active, violations).
             if mode_holds (ob_signals obs) vals m
             then (active @ [mo_name mode],
                   violations @ concat (map (ensure_violation m mode) pairs))
             else (active, violations))
           (enumerate 0 (ct_modes c)) ([], violations))"

section \<open>The shape of an observer\<close>

lemma observer_outputs: "length (nd_outputs (ob_node (observer c))) = length (ob_signals (observer c))"
  by (simp add: observer_def)

lemma observer_equation:
  assumes "k < length (ob_signals (observer c))"
  shows "nd_equations (ob_node (observer c)) ! (ob_ghost_count (observer c) + k) =
      \<lparr>eq_lhs = [p_name (nd_outputs (ob_node (observer c)) ! k)], eq_rhs = snd (snd (clauses c ! k))\<rparr>"
  using assms by (simp add: observer_def nth_append split: prod.split)

section \<open>What the verdict reports\<close>

text \<open>
  The values of the clauses, by kind and index; the observer's signals carry them in output order.
\<close>

record clause_values =
  cv_assumption :: "nat \<Rightarrow> bool"
  cv_guarantee :: "nat \<Rightarrow> bool"
  cv_require :: "nat \<Rightarrow> nat \<Rightarrow> bool"
  cv_ensure :: "nat \<Rightarrow> nat \<Rightarrow> bool"

fun signal_value :: "clause_values \<Rightarrow> observer_signal \<Rightarrow> bool" where
  "signal_value v (AssumptionSig i label) = cv_assumption v i"
| "signal_value v (GuaranteeSig i label) = cv_guarantee v i"
| "signal_value v (RequireSig m k) = cv_require v m k"
| "signal_value v (EnsureSig m k) = cv_ensure v m k"

definition mode_active :: "clause_values \<Rightarrow> nat \<Rightarrow> mode \<Rightarrow> bool" where
  "mode_active v m mode \<longleftrightarrow> (\<forall>k<length (mo_requires mode). cv_require v m k)"

definition failed_assumptions :: "contract_def \<Rightarrow> clause_values \<Rightarrow> string list" where
  "failed_assumptions c v =
     [clause_label ''assumption'' i (as_name a).
        (i, a) \<leftarrow> enumerate 0 (ct_assumptions c), \<not> cv_assumption v i]"

definition failed_guarantees :: "contract_def \<Rightarrow> clause_values \<Rightarrow> string list" where
  "failed_guarantees c v =
     [clause_label ''guarantee'' i (gu_name g).
        (i, g) \<leftarrow> enumerate 0 (ct_guarantees c), \<not> cv_guarantee v i]"

definition failed_ensures :: "clause_values \<Rightarrow> nat \<Rightarrow> mode \<Rightarrow> string list" where
  "failed_ensures v m mode =
     [mo_name mode @ ''::ensure#'' @ nat_digits k.
        (k, e) \<leftarrow> enumerate 0 (mo_ensures mode), \<not> cv_ensure v m k]"

lemma zip_map_same: "zip xs (map f xs) = map (\<lambda>x. (x, f x)) xs"
  by (induction xs) auto

lemma concat_zip_map: "concat (map f (zip xs (map g xs))) = concat (map (\<lambda>x. f (x, g x)) xs)"
  by (induction xs) auto

lemma concat_map_enumerate_single:
  "(\<And>i x. (i, x) \<in> set (enumerate n xs) \<Longrightarrow> i \<noteq> m \<Longrightarrow> g i x = []) \<Longrightarrow>
   concat (map (\<lambda>(i, x). g i x) (enumerate n xs)) =
     (if n \<le> m \<and> m < n + length xs then g m (xs ! (m - n)) else [])"
proof (induction xs arbitrary: n)
  case (Cons x xs)
  have IH: "concat (map (\<lambda>(i, x). g i x) (enumerate (Suc n) xs)) =
      (if Suc n \<le> m \<and> m < Suc n + length xs then g m (xs ! (m - Suc n)) else [])"
    by (rule Cons.IH) (auto intro!: Cons.prems)
  show ?case
  proof (cases "n = m")
    case True
    with IH show ?thesis by simp
  next
    case False
    then have "g n x = []" by (intro Cons.prems) auto
    moreover have "m - n = Suc (m - Suc n)" if "n \<le> m" using False that by simp
    ultimately show ?thesis using IH False by auto
  qed
qed auto

lemma verdict_fold:
  "fold (\<lambda>(m, mode) (active, violations).
       if P m mode then (active @ [f mode], violations @ g m mode) else (active, violations))
     ms (active, violations) =
   (active @ [f mode. (m, mode) \<leftarrow> ms, P m mode],
    violations @ concat [g m mode. (m, mode) \<leftarrow> ms, P m mode])"
  by (induction ms arbitrary: active violations) auto

lemma clause_violations_modes:
  "concat (map (\<lambda>s. clause_violation (s, f s)) (map fst (mode_clauses m mode))) = []"
  by (auto simp: mode_clauses_def)

lemma clause_violations_eq:
  "concat (map (\<lambda>s. clause_violation (s, signal_value v s)) (map fst (clauses c))) =
     failed_assumptions c v @ failed_guarantees c v"
proof -
  have "concat (map (\<lambda>s. clause_violation (s, signal_value v s)) (map fst (assumption_clauses c))) =
      failed_assumptions c v"
    unfolding assumption_clauses_def failed_assumptions_def map_map
    by (intro arg_cong [where f = concat] map_cong refl) (auto split: prod.split)
  moreover have "concat (map (\<lambda>s. clause_violation (s, signal_value v s)) (map fst (guarantee_clauses c))) =
      failed_guarantees c v"
    unfolding guarantee_clauses_def failed_guarantees_def map_map
    by (intro arg_cong [where f = concat] map_cong refl) (auto split: prod.split)
  moreover have "concat (map (\<lambda>s. clause_violation (s, signal_value v s))
      (map fst (concat (map (\<lambda>(m, mode). mode_clauses m mode) ms)))) = []" for ms
    by (induction ms) (auto simp: clause_violations_modes simp del: concat_eq_Nil_conv map_map)
  ultimately show ?thesis by (simp add: clauses_def)
qed

lemma require_signals:
  "RequireSig m k \<in> fst ` set (clauses c) \<longleftrightarrow>
     m < length (ct_modes c) \<and> k < length (mo_requires (ct_modes c ! m))"
proof -
  have "RequireSig m k \<in> fst ` set (mode_clauses m' mode) \<longleftrightarrow> m' = m \<and> k < length (mo_requires mode)"
    for m' mode
    by (force simp: mode_clauses_def in_set_enumerate_eq image_iff)
  moreover have "RequireSig m k \<notin> fst ` set (assumption_clauses c)"
    "RequireSig m k \<notin> fst ` set (guarantee_clauses c)"
    by (auto simp: assumption_clauses_def guarantee_clauses_def)
  ultimately have "RequireSig m k \<in> fst ` set (clauses c) \<longleftrightarrow>
      (\<exists>p\<in>set (enumerate 0 (ct_modes c)). fst p = m \<and> k < length (mo_requires (snd p)))"
    by (auto simp: clauses_def image_Un image_UN split_beta)
  also have "\<dots> \<longleftrightarrow> m < length (ct_modes c) \<and> k < length (mo_requires (ct_modes c ! m))"
    by (auto simp: in_set_enumerate_eq intro!: bexI [of _ "(m, ct_modes c ! m)"])
  finally show ?thesis .
qed

lemma mode_holds_observer:
  assumes "m < length (ct_modes c)"
  shows "mode_holds (ob_signals (observer c)) (map (signal_value v) (ob_signals (observer c))) m \<longleftrightarrow>
     mode_active v m (ct_modes c ! m)"
proof -
  have "mode_holds (ob_signals (observer c)) (map (signal_value v) (ob_signals (observer c))) m \<longleftrightarrow>
      (\<forall>s\<in>fst ` set (clauses c). is_require m s \<longrightarrow> signal_value v s)"
    unfolding mode_holds_def zip_map_same by (auto simp: observer_def list_all_iff)
  also have "\<dots> \<longleftrightarrow> (\<forall>k. RequireSig m k \<in> fst ` set (clauses c) \<longrightarrow> cv_require v m k)"
  proof -
    have "is_require m s \<longleftrightarrow> (\<exists>k. s = RequireSig m k)" for s by (cases s) auto
    then show ?thesis by force
  qed
  finally show ?thesis using assms by (auto simp: require_signals mode_active_def)
qed

lemma ensure_violations_mode:
  "concat (map (\<lambda>s. ensure_violation m mode (s, signal_value v s)) (map fst (mode_clauses m' mode'))) =
     (if m' = m then [mo_name mode @ ''::ensure#'' @ nat_digits k.
        (k, e) \<leftarrow> enumerate 0 (mo_ensures mode'), \<not> cv_ensure v m k] else [])"
proof -
  have "concat (map (\<lambda>s. ensure_violation m mode (s, signal_value v s))
      (map fst (map (\<lambda>(k, e). (EnsureSig m' k, ''ol_m'' @ nat_digits m' @ ''_e'' @ nat_digits k, e)) xs))) =
     (if m' = m then [mo_name mode @ ''::ensure#'' @ nat_digits k.
        (k, e) \<leftarrow> xs, \<not> cv_ensure v m k] else [])" for xs :: "(nat \<times> expr) list"
    by (induction xs) auto
  moreover have "concat (map (\<lambda>s. ensure_violation m mode (s, signal_value v s))
      (map fst (map (\<lambda>(k, r). (RequireSig m' k, ''ol_m'' @ nat_digits m' @ ''_r'' @ nat_digits k, r)) xs))) =
      []" for xs :: "(nat \<times> expr) list"
    by (induction xs) auto
  ultimately show ?thesis
    by (simp only: mode_clauses_def map_append concat_append append_Nil)
qed

lemma ensure_violations_eq:
  assumes m: "m < length (ct_modes c)"
  shows "concat (map (\<lambda>s. ensure_violation m (ct_modes c ! m) (s, signal_value v s)) (map fst (clauses c))) =
     failed_ensures v m (ct_modes c ! m)"
proof -
  let ?ev = "\<lambda>s. ensure_violation m (ct_modes c ! m) (s, signal_value v s)"
  have "concat (map ?ev (map fst (assumption_clauses c))) = []"
    by (auto simp: assumption_clauses_def)
  moreover have "concat (map ?ev (map fst (guarantee_clauses c))) = []"
    by (auto simp: guarantee_clauses_def)
  moreover have "concat (map ?ev (map fst (concat (map (\<lambda>(i, mode). mode_clauses i mode) ms)))) =
      concat (map (\<lambda>(i, mode). concat (map ?ev (map fst (mode_clauses i mode)))) ms)" for ms
    by (induction ms) (auto simp del: map_map)
  moreover have "concat (map (\<lambda>(i, mode). concat (map ?ev (map fst (mode_clauses i mode))))
      (enumerate 0 (ct_modes c))) = failed_ensures v m (ct_modes c ! m)"
    using m by (subst concat_map_enumerate_single [where m = m])
      (simp_all only: ensure_violations_mode failed_ensures_def, simp_all)
  ultimately show ?thesis by (simp only: clauses_def map_append concat_append append_Nil)
qed

lemma verdict_observer:
  "verdict (observer c) c (map (signal_value v) (ob_signals (observer c))) =
     ([mo_name mode. (m, mode) \<leftarrow> enumerate 0 (ct_modes c), mode_active v m mode],
      failed_assumptions c v @ failed_guarantees c v @
      concat [failed_ensures v m mode. (m, mode) \<leftarrow> enumerate 0 (ct_modes c), mode_active v m mode])"
proof -
  let ?sig = "ob_signals (observer c)"
  let ?pairs = "zip ?sig (map (signal_value v) ?sig)"
  let ?step = "\<lambda>(m, mode) (active, violations).
      if mode_holds ?sig (map (signal_value v) ?sig) m
      then (active @ [mo_name mode], violations @ concat (map (ensure_violation m mode) ?pairs))
      else (active, violations)"
  let ?spec = "\<lambda>(m, mode) (active, violations).
      if mode_active v m mode then (active @ [mo_name mode], violations @ failed_ensures v m mode)
      else (active, violations)"
  have sig: "?sig = map fst (clauses c)" by (simp add: observer_def)
  have start: "concat (map clause_violation ?pairs) = failed_assumptions c v @ failed_guarantees c v"
    by (simp only: concat_zip_map sig clause_violations_eq)
  have step: "?step p = ?spec p" if p: "p \<in> set (enumerate 0 (ct_modes c))" for p
  proof -
    obtain m where p: "p = (m, ct_modes c ! m)" "m < length (ct_modes c)"
      using p by (cases p rule: prod.exhaust) (auto simp: in_set_enumerate_eq)
    have "concat (map (ensure_violation m (ct_modes c ! m)) ?pairs) = failed_ensures v m (ct_modes c ! m)"
      by (simp only: concat_zip_map sig ensure_violations_eq [OF p(2)])
    then show ?thesis using mode_holds_observer [OF p(2), of v] by (simp add: p(1) fun_eq_iff)
  qed
  have "verdict (observer c) c (map (signal_value v) ?sig) =
      fold ?step (enumerate 0 (ct_modes c)) ([], concat (map clause_violation ?pairs))"
    by (simp add: verdict_def Let_def)
  also have "\<dots> = fold ?spec (enumerate 0 (ct_modes c)) ([], concat (map clause_violation ?pairs))"
    by (rule fold_cong) (simp_all only: step refl)
  finally show ?thesis by (simp only: verdict_fold start append_Nil append_assoc)
qed

section \<open>The ports of an observer are distinct\<close>

lemma nat_digits_char: "c \<in> set (nat_digits n) \<Longrightarrow> (48::nat) \<le> of_char c \<and> of_char c \<le> (57::nat)"
proof (induction n rule: nat_digits.induct)
  case (1 n)
  then show ?case by (subst (asm) (2) nat_digits.simps) (auto simp: of_char_of split: if_splits)
qed

lemma digits_no_underscore: "CHR ''_'' \<notin> set (nat_digits n)"
  using nat_digits_char [of "CHR ''_''" n] by auto

lemma first_segment_unique:
  "xs @ x # ys = us @ x # vs \<Longrightarrow> x \<notin> set xs \<Longrightarrow> x \<notin> set us \<Longrightarrow> xs = us \<and> ys = vs"
proof (induction xs arbitrary: us)
  case Nil
  then show ?case by (cases us) auto
next
  case (Cons a xs)
  then show ?case by (cases us) auto
qed

text \<open>The port of a signal.\<close>

fun signal_port :: "observer_signal \<Rightarrow> string" where
  "signal_port (AssumptionSig i label) = ''ol_a'' @ nat_digits i"
| "signal_port (GuaranteeSig i label) = ''ol_g'' @ nat_digits i"
| "signal_port (RequireSig m k) = ''ol_m'' @ nat_digits m @ ''_r'' @ nat_digits k"
| "signal_port (EnsureSig m k) = ''ol_m'' @ nat_digits m @ ''_e'' @ nat_digits k"

fun signal_key :: "observer_signal \<Rightarrow> nat \<times> nat \<times> nat" where
  "signal_key (AssumptionSig i label) = (0, i, 0)"
| "signal_key (GuaranteeSig i label) = (1, i, 0)"
| "signal_key (RequireSig m k) = (2, m, k)"
| "signal_key (EnsureSig m k) = (3, m, k)"

lemma digits_segment:
  "nat_digits m @ CHR ''_'' # xs = nat_digits m' @ CHR ''_'' # ys \<longleftrightarrow> m = m' \<and> xs = ys"
  using first_segment_unique [OF _ digits_no_underscore digits_no_underscore] nat_digits_inj by blast

lemma nat_digits_eq [simp]: "nat_digits m = nat_digits n \<longleftrightarrow> m = n"
  using nat_digits_inj by auto

lemma signal_port_inj: "signal_port s = signal_port t \<Longrightarrow> signal_key s = signal_key t"
  by (cases s; cases t) (simp_all add: digits_segment)

lemma distinct_three:
  assumes "distinct A" "distinct B" "distinct C"
    and "\<forall>x\<in>set A. fst x = (0::nat)" "\<forall>x\<in>set B. fst x = 1" "\<forall>x\<in>set C. fst x \<in> {2, 3} \<and> k \<le> fst (snd x)"
  shows "distinct (A @ B @ C)"
  using assms by fastforce

lemma distinct_clause_keys: "distinct (map signal_key (map fst (clauses c)))"
proof -
  have modes: "distinct (map signal_key (map fst (mode_clauses m mode)))" for m mode
    by (auto simp: mode_clauses_def comp_def split_beta distinct_map inj_on_def
        in_set_enumerate_eq prod_eq_iff enumerate_eq_zip set_zip intro: distinct_zipI1)
  have mode_keys: "x \<in> set (map signal_key (map fst (mode_clauses m mode))) \<Longrightarrow>
      fst x \<in> {2, 3} \<and> fst (snd x) = m" for x m mode
    by (auto simp: mode_clauses_def)
  have all_modes: "distinct (concat (map (\<lambda>(m, mode). map signal_key (map fst (mode_clauses m mode)))
      (enumerate n ms))) \<and>
      (\<forall>x\<in>set (concat (map (\<lambda>(m, mode). map signal_key (map fst (mode_clauses m mode))) (enumerate n ms))).
         fst x \<in> {2, 3} \<and> n \<le> fst (snd x))" for n ms
  proof (induction ms arbitrary: n)
    case (Cons mode ms)
    let ?A = "map signal_key (map fst (mode_clauses n mode))"
    let ?B = "concat (map (\<lambda>(m, mode). map signal_key (map fst (mode_clauses m mode))) (enumerate (Suc n) ms))"
    have B: "distinct ?B" "\<And>x. x \<in> set ?B \<Longrightarrow> fst x \<in> {2, 3} \<and> Suc n \<le> fst (snd x)"
      using Cons.IH [of "Suc n"] by blast+
    have A: "distinct ?A" "\<And>x. x \<in> set ?A \<Longrightarrow> fst x \<in> {2, 3} \<and> fst (snd x) = n"
      using modes [of n mode] mode_keys [of _ n mode] by blast+
    have "set ?A \<inter> set ?B = {}" using A(2) B(2) by (metis Suc_n_not_le_n disjoint_iff)
    moreover have "\<forall>x\<in>set ?A \<union> set ?B. fst x \<in> {2, 3} \<and> n \<le> fst (snd x)"
      using A(2) B(2) Suc_leD by blast
    ultimately have "distinct (?A @ ?B) \<and> (\<forall>x\<in>set (?A @ ?B). fst x \<in> {2, 3} \<and> n \<le> fst (snd x))"
      using A(1) B(1) by (simp only: distinct_append set_append simp_thms)
    then show ?case unfolding enumerate_simps list.map concat.simps prod.case .
  qed simp
  have A: "distinct (map signal_key (map fst (assumption_clauses c)))"
    by (auto simp: assumption_clauses_def comp_def split_beta distinct_map inj_on_def
        in_set_enumerate_eq prod_eq_iff enumerate_eq_zip set_zip intro: distinct_zipI1)
  have G: "distinct (map signal_key (map fst (guarantee_clauses c)))"
    by (auto simp: guarantee_clauses_def comp_def split_beta distinct_map inj_on_def
        in_set_enumerate_eq prod_eq_iff enumerate_eq_zip set_zip intro: distinct_zipI1)
  have A0: "\<forall>x\<in>set (map signal_key (map fst (assumption_clauses c))). fst x = 0"
    by (auto simp: assumption_clauses_def)
  have G0: "\<forall>x\<in>set (map signal_key (map fst (guarantee_clauses c))). fst x = 1"
    by (auto simp: guarantee_clauses_def)
  have eq: "map signal_key (map fst (clauses c)) = map signal_key (map fst (assumption_clauses c)) @
      map signal_key (map fst (guarantee_clauses c)) @
      concat (map (\<lambda>(m, mode). map signal_key (map fst (mode_clauses m mode))) (enumerate 0 (ct_modes c)))"
    by (simp add: clauses_def map_concat comp_def case_prod_unfold)
  show ?thesis
    unfolding eq using all_modes [of 0 "ct_modes c"] by (intro distinct_three [OF A G _ A0 G0]) blast+
qed

lemma clause_port: "(s, port, e) \<in> set (clauses c) \<Longrightarrow> port = signal_port s"
  by (auto simp: clauses_def assumption_clauses_def guarantee_clauses_def mode_clauses_def)

lemma observer_ports_distinct: "distinct (map p_name (nd_outputs (ob_node (observer c))))"
proof -
  have "map p_name (nd_outputs (ob_node (observer c))) = map signal_port (map fst (clauses c))"
    by (auto simp: observer_def clause_port)
  moreover have "inj_on signal_port (set (map fst (clauses c)))"
  proof (rule inj_onI)
    fix s t assume "s \<in> set (map fst (clauses c))" "t \<in> set (map fst (clauses c))" "signal_port s = signal_port t"
    moreover have "inj_on signal_key (set (map fst (clauses c)))"
      using distinct_clause_keys [of c] by (simp only: distinct_map)
    ultimately show "s = t" using signal_port_inj by (meson inj_onD)
  qed
  moreover have "distinct (map fst (clauses c))"
    using distinct_clause_keys [of c] by (simp only: distinct_map)
  ultimately show ?thesis by (simp only: distinct_map)
qed

end
