(* ===== verification/Values.thy ===== *)
theory Values
  imports IR_Project
begin

text \<open>
  Values and errors of the simulator (\<open>ol_sim/src/lib.rs\<close>): the value type and its equality, the
  error type, the computations of the interpreter with their state, and the conversions that need
  no state: defaults, storing into a typed variable, casts, C's integer narrowing and the binary
  operators.
\<close>

unbundle bit_operations_syntax

section \<open>Values\<close>

datatype val =
    VBool bool
  | VInt i64
  | VFloat f64
  | VFloat32 f32
  | VTuple "val list"
  | VRecord "(string \<times> val) list"
  | VArray "val list"
  | VEnum string
  | VModeLabel string

fun as_bool :: "val \<Rightarrow> bool option" where
  "as_bool (VBool b) = Some b"
| "as_bool _ = None"

fun as_int :: "val \<Rightarrow> i64 option" where
  "as_int (VInt i) = Some i"
| "as_int _ = None"

fun as_float :: "val \<Rightarrow> f64 option" where
  "as_float (VFloat f) = Some f"
| "as_float (VFloat32 f) = Some (flt_to F64 f)"
| "as_float _ = None"

text \<open>
  The derived \<open>PartialEq\<close>: floating point numbers compare as IEEE numbers. A \<open>VFloat\<close> never equals
  a \<open>VFloat32\<close>; \<open>eval_binary\<close> compares those before it comes here.
\<close>

fun value_eq :: "val \<Rightarrow> val \<Rightarrow> bool" where
  "value_eq (VBool a) w = (case w of VBool b \<Rightarrow> a = b | _ \<Rightarrow> False)"
| "value_eq (VInt a) w = (case w of VInt b \<Rightarrow> a = b | _ \<Rightarrow> False)"
| "value_eq (VFloat a) w = (case w of VFloat b \<Rightarrow> flt_eq a b | _ \<Rightarrow> False)"
| "value_eq (VFloat32 a) w = (case w of VFloat32 b \<Rightarrow> flt_eq a b | _ \<Rightarrow> False)"
| "value_eq (VTuple xs) w = (case w of VTuple ys \<Rightarrow> list_all2 value_eq xs ys | _ \<Rightarrow> False)"
| "value_eq (VRecord xs) w =
     (case w of
        VRecord ys \<Rightarrow> list_all2 (\<lambda>p q. fst p = fst q \<and> value_eq (snd p) (snd q)) xs ys
      | _ \<Rightarrow> False)"
| "value_eq (VArray xs) w = (case w of VArray ys \<Rightarrow> list_all2 value_eq xs ys | _ \<Rightarrow> False)"
| "value_eq (VEnum a) w = (case w of VEnum b \<Rightarrow> a = b | _ \<Rightarrow> False)"
| "value_eq (VModeLabel a) w = (case w of VModeLabel b \<Rightarrow> a = b | _ \<Rightarrow> False)"

section \<open>Errors and computations\<close>

text \<open>The messages of \<open>EvalError\<close>, each with what the code prints into it.\<close>

datatype eval_message =
    UnboundVariable string
  | UnaryUnsupported unary_op val
  | BinaryUnsupported bin_op val val
  | IfConditionNotBool val
  | PreOnFirstTick
  | NoPreviousValue string
  | ComplexPre
  | MergeClockNotBool string val
  | MergeClockNoValue string
  | CannotCast val ty
  | CondactShape
  | CondactClockNotBool
  | UnknownCallee string
  | CallArity string nat nat
  | ImportedOperator string
  | IteratedArity string nat nat
  | NoSuchField string
  | FieldOfNonStruct string val
  | IndexNotInt val
  | IndexOutOfBounds i64 nat
  | IndexOfNonArray val
  | IterUnknownFunction string
  | IterNotFunction string
  | IterOperandNotArray val
  | IterUnequalLengths
  | FoldWithoutSeed
  | DecisionNotBool val
  | ClockNotBool string val
  | ClockNoValue string
  | NotTuple val
  | OrderError "string option" string
  | ConditionNotBool val
  | NotAnInput string string
  | ContractReads string string
  | ConstantError string eval_message

datatype sim_error =
    UnknownNode string
  | HeaderMismatch "string list" "string list"
  | InputError string
  | EvalError eval_message

text \<open>
  What ends the program instead of an error: the stack runs out, an integer operation overflows
  (always for \<open>MIN / -1\<close> and \<open>MIN % -1\<close>, otherwise in builds with overflow checks), an index is
  out of range, or \<open>unreachable!()\<close> is reached.
\<close>

datatype crash = StackOverflow | ArithOverflow | IndexPanic | Unreachable

datatype 'a outcome = Ok 'a | Err sim_error | Crash crash

text \<open>What a run of the simulator does not change: the project, the stack, the build's checks.\<close>

record config =
  cf_project :: project
  cf_stack :: nat
  cf_checks :: bool

subsection \<open>Pure computations\<close>

definition obind :: "'a outcome \<Rightarrow> ('a \<Rightarrow> 'b outcome) \<Rightarrow> 'b outcome" where
  "obind r f = (case r of Ok x \<Rightarrow> f x | Err e \<Rightarrow> Err e | Crash c \<Rightarrow> Crash c)"

lemma obind_simps [simp, result_simps]:
  "obind (Ok x) f = f x"
  "obind (Err e) f = Err e"
  "obind (Crash c) f = Crash c"
  by (simp_all add: obind_def)

lemma obind_eq_Ok: "obind r f = Ok y \<longleftrightarrow> (\<exists>x. r = Ok x \<and> f x = Ok y)"
  by (cases r) auto

definition eval_err :: "eval_message \<Rightarrow> 'a outcome" where
  "eval_err m = Err (EvalError m)"

lemma eval_err_neq [simp]: "eval_err m \<noteq> Ok x" "eval_err m \<noteq> Crash c"
  by (simp_all add: eval_err_def)

text \<open>A recursion through named types that does not end exhausts the stack.\<close>

definition or_overflow :: "'a option \<Rightarrow> 'a outcome" where
  "or_overflow v = (case v of Some x \<Rightarrow> Ok x | None \<Rightarrow> Crash StackOverflow)"

lemma or_overflow_simps [simp]: "or_overflow (Some x) = Ok x" "or_overflow None = Crash StackOverflow"
  by (simp_all add: or_overflow_def)

section \<open>Default values\<close>

text \<open>\<open>n\<close> bounds the named types unfolded inside one another; \<open>None\<close> is the exhausted stack.\<close>

fun default_record :: "(ty \<Rightarrow> val option) \<Rightarrow> record_field list \<Rightarrow> (string, val) btree \<Rightarrow> val option" where
  "default_record d [] m = Some (VRecord m)"
| "default_record d (f # fs) m =
     (case d (rf_ty f) of None \<Rightarrow> None | Some v \<Rightarrow> default_record d fs (bt_insert (rf_name f) v m))"

definition default_named :: "project \<Rightarrow> (ty \<Rightarrow> val option) \<Rightarrow> string \<Rightarrow> val option" where
  "default_named p d name =
     (case find_type p name of
        None \<Rightarrow> Some (VInt 0)
      | Some t \<Rightarrow>
          (case td_body t of
             EnumBody e \<Rightarrow> Some (VEnum (case en_variants e of [] \<Rightarrow> [] | v # vs \<Rightarrow> v))
           | RecordBody _ fs \<Rightarrow> default_record d fs []
           | AliasBody _ target \<Rightarrow> d target))"

fun default_with :: "(string \<Rightarrow> val option) \<Rightarrow> ty \<Rightarrow> val option" where
  "default_with nm TBool = Some (VBool False)"
| "default_with nm TFloat32 = Some (VFloat32 (flt_zero F32))"
| "default_with nm TFloat64 = Some (VFloat (flt_zero F64))"
| "default_with nm (TArray elem len) =
     (if len = 0 then Some (VArray [])
      else map_option (\<lambda>v. VArray (replicate (unat len) v)) (default_with nm elem))"
| "default_with nm (TNamed name) = nm name"
| "default_with nm _ = Some (VInt 0)"

fun default_at :: "nat \<Rightarrow> project \<Rightarrow> ty \<Rightarrow> val option" where
  "default_at 0 p t = default_with (\<lambda>_. None) t"
| "default_at (Suc n) p t = default_with (default_named p (default_at n p)) t"

definition default_value :: "config \<Rightarrow> ty \<Rightarrow> val option" where
  "default_value cf t = default_at (cf_stack cf) (cf_project cf) t"

text \<open>The first declared enum that has the variant gives the value of its name.\<close>

definition enum_variant_value :: "string \<Rightarrow> project \<Rightarrow> val option" where
  "enum_variant_value name p =
     (if \<exists>t\<in>set (all_types p). case td_body t of EnumBody e \<Rightarrow> name \<in> set (en_variants e) | _ \<Rightarrow> False
      then Some (VEnum name) else None)"

section \<open>Storing and casting\<close>

fun narrow_int :: "ty \<Rightarrow> i64 \<Rightarrow> i64" where
  "narrow_int TInt8 i = scast (ucast i :: 8 word)"
| "narrow_int TInt16 i = scast (ucast i :: 16 word)"
| "narrow_int TInt32 i = scast (ucast i :: 32 word)"
| "narrow_int TUint8 i = ucast (ucast i :: 8 word)"
| "narrow_int TUint16 i = ucast (ucast i :: 16 word)"
| "narrow_int TUint32 i = ucast (ucast i :: 32 word)"
| "narrow_int _ i = i"

definition cast_value :: "ty \<Rightarrow> val \<Rightarrow> val outcome" where
  "cast_value to v =
     (let refuse = eval_err (CannotCast v to)
      in if to = TFloat32 then
           (case v of
              VInt i \<Rightarrow> Ok (VFloat32 (flt_of_int F32 (sint i)))
            | VFloat f \<Rightarrow> Ok (VFloat32 (flt_to F32 f))
            | VFloat32 f \<Rightarrow> Ok (VFloat32 f)
            | _ \<Rightarrow> refuse)
         else if to = TFloat64 then
           (case v of
              VInt i \<Rightarrow> Ok (VFloat (flt_of_int F64 (sint i)))
            | VFloat f \<Rightarrow> Ok (VFloat f)
            | VFloat32 f \<Rightarrow> Ok (VFloat (flt_to F64 f))
            | _ \<Rightarrow> refuse)
         else if is_integer to then
           (case v of
              VInt i \<Rightarrow> Ok (VInt (narrow_int to i))
            | VFloat f \<Rightarrow> Ok (VInt (narrow_int to (flt_to_i64 f)))
            | VFloat32 f \<Rightarrow> Ok (VInt (narrow_int to (flt_to_i64 f)))
            | _ \<Rightarrow> refuse)
         else refuse)"

text \<open>
  A value as a variable holds it once assigned: integers wrap to their width, reals convert to the
  declared precision, arrays and records convert element by element, enums and everything else
  stay. As for the defaults, \<open>n\<close> bounds the named types unfolded inside one another.
\<close>

fun fit_fields :: "(ty \<Rightarrow> val \<Rightarrow> val option) \<Rightarrow> record_field list \<Rightarrow> (string, val) btree \<Rightarrow>
    (string, val) btree option" where
  "fit_fields g [] m = Some m"
| "fit_fields g (f # fs) m =
     (case bt_get m (rf_name f) of
        None \<Rightarrow> fit_fields g fs m
      | Some x \<Rightarrow>
          (case g (rf_ty f) x of
             None \<Rightarrow> None
           | Some y \<Rightarrow> fit_fields g fs (bt_insert (rf_name f) y (bt_remove (rf_name f) m))))"

definition fit_named :: "project \<Rightarrow> (ty \<Rightarrow> val \<Rightarrow> val option) \<Rightarrow> string \<Rightarrow> val \<Rightarrow> val option" where
  "fit_named p g name v =
     (case map_option td_body (find_type p name) of
        Some (RecordBody _ fs) \<Rightarrow>
          (case v of VRecord m \<Rightarrow> map_option VRecord (fit_fields g fs m) | _ \<Rightarrow> Some v)
      | Some (AliasBody _ target) \<Rightarrow> g target v
      | _ \<Rightarrow> Some v)"

fun fit_with :: "(string \<Rightarrow> val \<Rightarrow> val option) \<Rightarrow> ty \<Rightarrow> val \<Rightarrow> val option" where
  "fit_with nm TBool v = Some v"
| "fit_with nm TChar v = Some v"
| "fit_with nm TFloat32 v =
     Some (case v of
             VFloat f \<Rightarrow> VFloat32 (flt_to F32 f)
           | VInt i \<Rightarrow> VFloat32 (flt_of_int F32 (sint i))
           | _ \<Rightarrow> v)"
| "fit_with nm TFloat64 v =
     Some (case v of
             VFloat32 f \<Rightarrow> VFloat (flt_to F64 f)
           | VInt i \<Rightarrow> VFloat (flt_of_int F64 (sint i))
           | _ \<Rightarrow> v)"
| "fit_with nm (TArray elem len) v =
     (case v of VArray xs \<Rightarrow> map_option VArray (opt_map (fit_with nm elem) xs) | _ \<Rightarrow> Some v)"
| "fit_with nm (TNamed name) v = nm name v"
| "fit_with nm t v = Some (case v of VInt i \<Rightarrow> VInt (narrow_int t i) | _ \<Rightarrow> v)"

fun fit_at :: "nat \<Rightarrow> project \<Rightarrow> ty \<Rightarrow> val \<Rightarrow> val option" where
  "fit_at 0 p t v = fit_with (\<lambda>_ _. None) t v"
| "fit_at (Suc n) p t v = fit_with (fit_named p (fit_at n p)) t v"

definition fit_to :: "config \<Rightarrow> ty \<Rightarrow> val \<Rightarrow> val option" where
  "fit_to cf t v = fit_at (cf_stack cf) (cf_project cf) t v"

section \<open>Operators\<close>

text \<open>An integer result: in a build with overflow checks a result out of range panics.\<close>

definition arith :: "bool \<Rightarrow> int \<Rightarrow> i64 \<Rightarrow> val outcome" where
  "arith checks exact wrapped =
     (if checks \<and> sint wrapped \<noteq> exact then Crash ArithOverflow else Ok (VInt wrapped))"

definition min_i64 :: i64 where
  "min_i64 = - (2 ^ 63)"

text \<open>Rust's \<open>/\<close> and \<open>%\<close> truncate towards zero.\<close>

definition tdiv :: "int \<Rightarrow> int \<Rightarrow> int" where
  "tdiv a b = sgn a * sgn b * (\<bar>a\<bar> div \<bar>b\<bar>)"

definition tmod :: "int \<Rightarrow> int \<Rightarrow> int" where
  "tmod a b = sgn a * (\<bar>a\<bar> mod \<bar>b\<bar>)"

lemma tdiv_tmod: "tdiv a b * b + tmod a b = a"
proof -
  have "tdiv a b * b + tmod a b = sgn a * (\<bar>a\<bar> div \<bar>b\<bar> * (sgn b * b) + \<bar>a\<bar> mod \<bar>b\<bar>)"
    by (simp add: tdiv_def tmod_def algebra_simps)
  also have "sgn b * b = \<bar>b\<bar>" by (simp add: abs_sgn mult.commute)
  finally show ?thesis by (simp add: sgn_mult_abs)
qed

definition eval_unary :: "bool \<Rightarrow> unary_op \<Rightarrow> val \<Rightarrow> val outcome" where
  "eval_unary checks op v =
     (case op of
        UNot \<Rightarrow> (case v of VBool b \<Rightarrow> Ok (VBool (\<not> b)) | _ \<Rightarrow> eval_err (UnaryUnsupported op v))
      | UNeg \<Rightarrow>
          (case v of
             VInt i \<Rightarrow> arith checks (- sint i) (- i)
           | VFloat f \<Rightarrow> Ok (VFloat (flt_neg f))
           | VFloat32 f \<Rightarrow> Ok (VFloat32 (flt_neg f))
           | _ \<Rightarrow> eval_err (UnaryUnsupported op v)))"

text \<open>Two real operands as doubles, and whether the operation is \<open>float\<close>.\<close>

fun real_pair :: "val \<Rightarrow> val \<Rightarrow> (f64 \<times> f64 \<times> bool) option" where
  "real_pair (VFloat32 a) (VFloat32 b) = Some (flt_to F64 a, flt_to F64 b, True)"
| "real_pair (VFloat32 a) (VFloat b) = Some (flt_to F64 a, b, False)"
| "real_pair (VFloat a) (VFloat32 b) = Some (a, flt_to F64 b, False)"
| "real_pair (VFloat a) (VFloat b) = Some (a, b, False)"
| "real_pair _ _ = None"

definition real_binary :: "bin_op \<Rightarrow> f64 \<Rightarrow> f64 \<Rightarrow> bool \<Rightarrow> val outcome \<Rightarrow> val outcome" where
  "real_binary op a b single refuse =
     (let arithmetic = (\<lambda>f. if single then Ok (VFloat32 (f F32 (flt_to F32 a) (flt_to F32 b)))
                            else Ok (VFloat (f F64 a b)))
      in case op of
        BEq \<Rightarrow> Ok (VBool (flt_eq a b))
      | BNeq \<Rightarrow> Ok (VBool (\<not> flt_eq a b))
      | BLt \<Rightarrow> Ok (VBool (flt_lt a b))
      | BLe \<Rightarrow> Ok (VBool (flt_le a b))
      | BGt \<Rightarrow> Ok (VBool (flt_lt b a))
      | BGe \<Rightarrow> Ok (VBool (flt_le b a))
      | BAdd \<Rightarrow> arithmetic flt_add
      | BSub \<Rightarrow> arithmetic flt_sub
      | BMul \<Rightarrow> arithmetic flt_mul
      | BDiv \<Rightarrow> if flt_eq b (flt_zero F64) then refuse else arithmetic flt_div
      | _ \<Rightarrow> refuse)"

definition on_bools :: "(bool \<Rightarrow> bool \<Rightarrow> bool) \<Rightarrow> val \<Rightarrow> val \<Rightarrow> val outcome \<Rightarrow> val outcome" where
  "on_bools f l r refuse =
     (case l of
        VBool a \<Rightarrow> (case r of VBool b \<Rightarrow> Ok (VBool (f a b)) | _ \<Rightarrow> refuse)
      | _ \<Rightarrow> refuse)"

definition on_ints :: "(i64 \<Rightarrow> i64 \<Rightarrow> val outcome) \<Rightarrow> val \<Rightarrow> val \<Rightarrow> val outcome \<Rightarrow> val outcome" where
  "on_ints f l r refuse =
     (case l of
        VInt a \<Rightarrow> (case r of VInt b \<Rightarrow> f a b | _ \<Rightarrow> refuse)
      | _ \<Rightarrow> refuse)"

definition eval_binary :: "bool \<Rightarrow> bin_op \<Rightarrow> val \<Rightarrow> val \<Rightarrow> val outcome" where
  "eval_binary checks op l r =
     (let refuse = eval_err (BinaryUnsupported op l r)
      in case real_pair l r of
        Some (a, b, single) \<Rightarrow> real_binary op a b single refuse
      | None \<Rightarrow>
          (case op of
             BAnd \<Rightarrow> on_bools (\<and>) l r refuse
           | BOr \<Rightarrow> on_bools (\<or>) l r refuse
           | BXor \<Rightarrow> on_bools (\<noteq>) l r refuse
           | BImplies \<Rightarrow> on_bools (\<longrightarrow>) l r refuse
           | BEq \<Rightarrow> Ok (VBool (value_eq l r))
           | BNeq \<Rightarrow> Ok (VBool (\<not> value_eq l r))
           | BLt \<Rightarrow> on_ints (\<lambda>a b. Ok (VBool (sint a < sint b))) l r refuse
           | BLe \<Rightarrow> on_ints (\<lambda>a b. Ok (VBool (sint a \<le> sint b))) l r refuse
           | BGt \<Rightarrow> on_ints (\<lambda>a b. Ok (VBool (sint b < sint a))) l r refuse
           | BGe \<Rightarrow> on_ints (\<lambda>a b. Ok (VBool (sint b \<le> sint a))) l r refuse
           | BAdd \<Rightarrow> on_ints (\<lambda>a b. arith checks (sint a + sint b) (a + b)) l r refuse
           | BSub \<Rightarrow> on_ints (\<lambda>a b. arith checks (sint a - sint b) (a - b)) l r refuse
           | BMul \<Rightarrow> on_ints (\<lambda>a b. arith checks (sint a * sint b) (a * b)) l r refuse
           | BDiv \<Rightarrow> on_ints (\<lambda>a b. if b = 0 then refuse
                        else arith True (tdiv (sint a) (sint b)) (word_of_int (tdiv (sint a) (sint b)))) l r refuse
           | BMod \<Rightarrow> on_ints (\<lambda>a b. if b = 0 then refuse
                        else if a = min_i64 \<and> b = - 1 then Crash ArithOverflow
                        else Ok (VInt (word_of_int (tmod (sint a) (sint b))))) l r refuse
           | BBitAnd \<Rightarrow> on_ints (\<lambda>a b. Ok (VInt (a AND b))) l r refuse
           | BBitOr \<Rightarrow> on_ints (\<lambda>a b. Ok (VInt (a OR b))) l r refuse
           | BBitXor \<Rightarrow> on_ints (\<lambda>a b. Ok (VInt (a XOR b))) l r refuse
           | BShl \<Rightarrow> on_ints (\<lambda>a b. if 0 \<le> sint b \<and> sint b < 64 then Ok (VInt (push_bit (unat b) a)) else refuse) l r refuse
           | BShr \<Rightarrow> on_ints (\<lambda>a b. if 0 \<le> sint b \<and> sint b < 64 then Ok (VInt (signed_drop_bit (unat b) a)) else refuse) l r refuse))"

end
