(* ===== verification/Sim_Eval.thy ===== *)
theory Sim_Eval
  imports Clocks Contract Values
begin

text \<open>
  The interpreter (\<open>ol_sim/src/lib.rs\<close>): instance state, decision coverage, the evaluation of
  expressions, decisions and equations, and one cycle of a node instance. A computation takes the
  instance's state, the states of its calls and the coverage collector, and returns an outcome
  and their new values, also when it fails.
\<close>

section \<open>State\<close>

type_synonym env = "string \<rightharpoonup> val"

datatype inst =
  Inst (in_cycle: nat) (in_prev: "string \<rightharpoonup> val") (in_ticks: "string \<rightharpoonup> nat")
    (in_calls: "addr \<rightharpoonup> inst")

definition default_inst :: inst where
  "default_inst = Inst 0 Map.empty Map.empty Map.empty"

subsection \<open>Decision coverage\<close>

record decision_site =
  ds_node :: string
  ds_context :: string
  ds_condition :: string
  ds_seen_true :: bool
  ds_seen_false :: bool

record mcdc_trial =
  mt_values :: "bool list"
  mt_outcome :: bool

record decision_data =
  dd_node :: string
  dd_context :: string
  dd_decision_text :: string
  dd_cond_ptrs :: "addr list"
  dd_cond_texts :: "string list"
  dd_trials :: "mcdc_trial list"
  dd_seen :: "mcdc_trial list"

record coverage =
  cov_index :: "addr \<rightharpoonup> nat"
  cov_sites :: "decision_site list"
  cov_roots :: "addr \<rightharpoonup> nat"
  cov_decisions :: "decision_data list"

definition default_coverage :: coverage where
  "default_coverage = \<lparr>cov_index = Map.empty, cov_sites = [], cov_roots = Map.empty, cov_decisions = []\<rparr>"

definition cov_mark :: "addr \<Rightarrow> bool \<Rightarrow> coverage \<Rightarrow> coverage" where
  "cov_mark key outcome cov =
     (case cov_index cov key of
        None \<Rightarrow> cov
      | Some i \<Rightarrow>
          if i < length (cov_sites cov) then
            cov\<lparr>cov_sites := (cov_sites cov)
              [i := (if outcome then (cov_sites cov ! i)\<lparr>ds_seen_true := True\<rparr>
                     else (cov_sites cov ! i)\<lparr>ds_seen_false := True\<rparr>)]\<rparr>
          else cov)"

definition cov_is_root :: "coverage \<Rightarrow> addr \<Rightarrow> bool" where
  "cov_is_root cov a \<longleftrightarrow> cov_roots cov a \<noteq> None"

type_synonym observations = "addr \<rightharpoonup> bool"

definition trial_of :: "decision_data \<Rightarrow> observations \<Rightarrow> bool \<Rightarrow> mcdc_trial" where
  "trial_of d obs outcome =
     \<lparr>mt_values = map (\<lambda>p. case obs p of None \<Rightarrow> False | Some b \<Rightarrow> b) (dd_cond_ptrs d),
      mt_outcome = outcome\<rparr>"

definition add_trial :: "mcdc_trial \<Rightarrow> decision_data \<Rightarrow> decision_data" where
  "add_trial t d =
     (if t \<in> set (dd_seen d) then d
      else d\<lparr>dd_seen := t # dd_seen d, dd_trials := dd_trials d @ [t]\<rparr>)"

definition cov_record_trial :: "addr \<Rightarrow> observations \<Rightarrow> bool \<Rightarrow> coverage \<Rightarrow> coverage" where
  "cov_record_trial root obs outcome cov =
     (case cov_roots cov root of
        None \<Rightarrow> cov
      | Some di \<Rightarrow>
          if di < length (cov_decisions cov) then
            cov\<lparr>cov_decisions := (cov_decisions cov)
              [di := add_trial (trial_of (cov_decisions cov ! di) obs outcome) (cov_decisions cov ! di)]\<rparr>
          else cov)"

subsection \<open>Computations\<close>

record ctx =
  cx_state :: inst
  cx_calls :: "addr \<rightharpoonup> inst"
  cx_cov :: "coverage option"

type_synonym 'a sim = "ctx \<Rightarrow> 'a outcome \<times> ctx"

definition sreturn :: "'a \<Rightarrow> 'a sim" where
  "sreturn x = (\<lambda>c. (Ok x, c))"

definition slift :: "'a outcome \<Rightarrow> 'a sim" where
  "slift r = (\<lambda>c. (r, c))"

definition sfail :: "eval_message \<Rightarrow> 'a sim" where
  "sfail m = slift (eval_err m)"

definition sbind :: "'a sim \<Rightarrow> ('a \<Rightarrow> 'b sim) \<Rightarrow> 'b sim" where
  "sbind m f = (\<lambda>c. case m c of
      (Ok x, c') \<Rightarrow> f x c'
    | (Err e, c') \<Rightarrow> (Err e, c')
    | (Crash k, c') \<Rightarrow> (Crash k, c'))"

definition sget :: "(ctx \<Rightarrow> 'a) \<Rightarrow> 'a sim" where
  "sget f = (\<lambda>c. (Ok (f c), c))"

definition smodify :: "(ctx \<Rightarrow> ctx) \<Rightarrow> unit sim" where
  "smodify f = (\<lambda>c. (Ok (), f c))"

definition sthen :: "unit sim \<Rightarrow> 'a sim \<Rightarrow> 'a sim" where
  "sthen m n = sbind m (\<lambda>_. n)"

fun smap :: "('a \<Rightarrow> 'b sim) \<Rightarrow> 'a list \<Rightarrow> 'b list sim" where
  "smap f [] = sreturn []"
| "smap f (x # xs) = sbind (f x) (\<lambda>y. sbind (smap f xs) (\<lambda>ys. sreturn (y # ys)))"

fun sfold :: "('a \<Rightarrow> 'b \<Rightarrow> 'b sim) \<Rightarrow> 'a list \<Rightarrow> 'b \<Rightarrow> 'b sim" where
  "sfold f [] s = sreturn s"
| "sfold f (x # xs) s = sbind (f x s) (sfold f xs)"

lemma smap_cong [fundef_cong]:
  "xs = ys \<Longrightarrow> (\<And>x. x \<in> set ys \<Longrightarrow> f x = g x) \<Longrightarrow> smap f xs = smap g ys"
  by (induction ys arbitrary: xs) auto

lemma sim_simps [simp, result_simps]:
  "sreturn x c = (Ok x, c)"
  "slift r c = (r, c)"
  "sfail m c = (eval_err m, c)"
  "sget f c = (Ok (f c), c)"
  "smodify h c = (Ok (), h c)"
  by (simp_all add: sreturn_def slift_def sfail_def sget_def smodify_def)

lemma sbind_app: "sbind m f c = (case m c of
    (Ok x, c') \<Rightarrow> f x c' | (Err e, c') \<Rightarrow> (Err e, c') | (Crash k, c') \<Rightarrow> (Crash k, c'))"
  by (simp add: sbind_def)

lemma sbind_Ok: "sbind m f c = (Ok y, d) \<longleftrightarrow> (\<exists>x c'. m c = (Ok x, c') \<and> f x c' = (Ok y, d))"
  by (auto simp: sbind_app split: prod.splits outcome.splits)

text \<open>
  A computation on a state and calls of its own. The state of the caller is back afterwards; a
  stateless function shares the calls of the caller, an iterated function has none.
\<close>

definition with_fresh_state :: "'a sim \<Rightarrow> 'a sim" where
  "with_fresh_state m = (\<lambda>c.
     case m (c\<lparr>cx_state := default_inst\<rparr>) of (r, c') \<Rightarrow> (r, c'\<lparr>cx_state := cx_state c\<rparr>))"

definition isolated :: "'a sim \<Rightarrow> 'a sim" where
  "isolated m = (\<lambda>c.
     case m (c\<lparr>cx_state := default_inst, cx_calls := Map.empty\<rparr>) of
       (r, c') \<Rightarrow> (r, c\<lparr>cx_cov := cx_cov c'\<rparr>))"

text \<open>
  \<open>let _ = eval(...)\<close> with no collector: the value and the error are dropped, what the evaluation
  did to the state stays.
\<close>

definition discarded :: "'a sim \<Rightarrow> unit sim" where
  "discarded m = (\<lambda>c.
     case m (c\<lparr>cx_cov := None\<rparr>) of
       (Crash k, c') \<Rightarrow> (Crash k, c'\<lparr>cx_cov := cx_cov c\<rparr>)
     | (_, c') \<Rightarrow> (Ok (), c'\<lparr>cx_cov := cx_cov c\<rparr>))"

definition update_coverage :: "(coverage \<Rightarrow> coverage) \<Rightarrow> unit sim" where
  "update_coverage f = smodify (\<lambda>c. c\<lparr>cx_cov := map_option f (cx_cov c)\<rparr>)"

section \<open>C's real types\<close>

datatype real_type = Single | Double

definition join_real :: "real_type option \<Rightarrow> real_type option \<Rightarrow> real_type option" where
  "join_real a b =
     (if a = Some Double \<or> b = Some Double then Some Double
      else if a = Some Single \<or> b = Some Single then Some Single
      else None)"

definition real_of_type :: "ty \<Rightarrow> real_type option" where
  "real_of_type t = (case t of TFloat32 \<Rightarrow> Some Single | TFloat64 \<Rightarrow> Some Double | _ \<Rightarrow> None)"

definition real_of_value :: "val option \<Rightarrow> real_type option" where
  "real_of_value v =
     (case v of Some (VFloat32 _) \<Rightarrow> Some Single | Some (VFloat _) \<Rightarrow> Some Double | _ \<Rightarrow> None)"

fun real_kind :: "project \<Rightarrow> env \<Rightarrow> expr \<Rightarrow> real_type option" where
  "real_kind p env (Const lit) = (case lit of LFloat _ \<Rightarrow> Some Double | _ \<Rightarrow> None)"
| "real_kind p env (Var name) = real_of_value (env name)"
| "real_kind p env (Unary op a) = real_kind p env a"
| "real_kind p env (Pre a) = real_kind p env a"
| "real_kind p env (When a clock on) = real_kind p env a"
| "real_kind p env (Binary op l r) =
     (if op \<in> {BAdd, BSub, BMul, BDiv} then join_real (real_kind p env l) (real_kind p env r) else None)"
| "real_kind p env (IfThenElse c a b) = join_real (real_kind p env a) (real_kind p env b)"
| "real_kind p env (Arrow a b) = join_real (real_kind p env a) (real_kind p env b)"
| "real_kind p env (Merge clock a b) = join_real (real_kind p env a) (real_kind p env b)"
| "real_kind p env (Cast to a) = real_of_type to"
| "real_kind p env (Call node args) =
     (case find_node p node of
        None \<Rightarrow> None
      | Some n \<Rightarrow> (case nd_outputs n of [] \<Rightarrow> None | q # qs \<Rightarrow> real_of_type (p_ty q)))"
| "real_kind p env _ = None"

definition common_real :: "project \<Rightarrow> env \<Rightarrow> val \<Rightarrow> expr \<Rightarrow> val" where
  "common_real p env v other =
     (case v of
        VFloat32 x \<Rightarrow> if real_kind p env other = Some Double then VFloat (flt_to F64 x) else v
      | _ \<Rightarrow> v)"

section \<open>Environments of a node\<close>

definition declared_type :: "node_def \<Rightarrow> string \<Rightarrow> ty option" where
  "declared_type node name =
     map_option snd (find (\<lambda>d. fst d = name)
       (map (\<lambda>p. (p_name p, p_ty p)) (nd_outputs node) @ map (\<lambda>l. (l_name l, l_ty l)) (nd_locals node)))"

definition store :: "config \<Rightarrow> node_def \<Rightarrow> string \<Rightarrow> val \<Rightarrow> env \<Rightarrow> env outcome" where
  "store cf node n v env =
     (case declared_type node n of
        None \<Rightarrow> Ok (env(n \<mapsto> v))
      | Some t \<Rightarrow> obind (or_overflow (fit_to cf t v)) (\<lambda>w. Ok (env(n \<mapsto> w))))"

fun store_all :: "config \<Rightarrow> node_def \<Rightarrow> (string \<times> val) list \<Rightarrow> env \<Rightarrow> env outcome" where
  "store_all cf node [] env = Ok env"
| "store_all cf node ((n, v) # nvs) env = obind (store cf node n v env) (store_all cf node nvs)"

definition bind_lhs :: "config \<Rightarrow> equation \<Rightarrow> val \<Rightarrow> node_def \<Rightarrow> env \<Rightarrow> env outcome" where
  "bind_lhs cf eq v node env =
     (case eq_lhs eq of
        [n] \<Rightarrow> store cf node n v env
      | lhs \<Rightarrow>
          (case v of
             VTuple items \<Rightarrow> store_all cf node (zip lhs items) env
           | _ \<Rightarrow> eval_err (NotTuple v)))"

fun take_outputs :: "string list \<Rightarrow> env \<Rightarrow> val list" where
  "take_outputs [] env = []"
| "take_outputs (n # ns) env =
     (case env n of None \<Rightarrow> VBool False | Some v \<Rightarrow> v) # take_outputs ns (env(n := None))"

definition extract_output :: "node_def \<Rightarrow> env \<Rightarrow> val" where
  "extract_output callee env =
     (case take_outputs (map p_name (nd_outputs callee)) env of [v] \<Rightarrow> v | vs \<Rightarrow> VTuple vs)"

fun active_conditions :: "(string \<times> bool) list \<Rightarrow> env \<Rightarrow> bool outcome" where
  "active_conditions [] env = Ok True"
| "active_conditions ((var, on) # cs) env =
     (case env var of
        Some (VBool b) \<Rightarrow> if b \<noteq> on then Ok False else active_conditions cs env
      | Some other \<Rightarrow> eval_err (ClockNotBool var other)
      | None \<Rightarrow> eval_err (ClockNoValue var))"

definition clock_active :: "clock \<Rightarrow> env \<Rightarrow> bool outcome" where
  "clock_active ck env = active_conditions (conditions ck) env"

type_synonym sites = "(addr \<rightharpoonup> clock) option"

definition first_tick :: "addr \<Rightarrow> sites \<Rightarrow> inst \<Rightarrow> bool" where
  "first_tick a sc st =
     (case Option.bind sc (\<lambda>m. m a) of
        Some (On c p parent) \<Rightarrow>
          (case in_ticks st (clock_key (On c p parent)) of None \<Rightarrow> True | Some k \<Rightarrow> k = 0)
      | _ \<Rightarrow> in_cycle st = 0)"

definition constants_from_env :: "project \<Rightarrow> env \<Rightarrow> env" where
  "constants_from_env p env = (\<lambda>name. if name \<in> c_name_of ` set (all_constants p) then env name else None)"

section \<open>One cycle of a node\<close>

text \<open>
  \<open>ev\<close> evaluates an equation's right-hand side at an address, in an environment and under the
  clocks of the temporal sites; \<open>mk\<close> gives the address of each equation of the node.
\<close>

type_synonym evaluator = "expr \<Rightarrow> addr \<Rightarrow> env \<Rightarrow> sites \<Rightarrow> val sim"

definition run_equation ::
  "config \<Rightarrow> evaluator \<Rightarrow> (nat \<Rightarrow> root) \<Rightarrow> node_def \<Rightarrow> clock list \<Rightarrow> sites \<Rightarrow> nat \<Rightarrow> env \<Rightarrow> env sim" where
  "run_equation cf ev mk node eq_clocks sc i env =
     (let eq = nd_equations node ! i
      in sbind (slift (if i < length eq_clocks then clock_active (eq_clocks ! i) env else Ok True))
           (\<lambda>active.
              if active then
                sbind (ev (eq_rhs eq) (root_addr (mk i)) env sc) (\<lambda>v. slift (bind_lhs cf eq v node env))
              else sreturn env))"

definition run_equations ::
  "config \<Rightarrow> evaluator \<Rightarrow> (nat \<Rightarrow> root) \<Rightarrow> node_def \<Rightarrow> clock list \<Rightarrow> sites \<Rightarrow> nat list \<Rightarrow> env \<Rightarrow> env sim" where
  "run_equations cf ev mk node eq_clocks sc order env =
     sfold (run_equation cf ev mk node eq_clocks sc) order env"

definition bump_tick :: "clock \<Rightarrow> inst \<Rightarrow> inst" where
  "bump_tick ck st =
     Inst (in_cycle st) (in_prev st)
       ((in_ticks st)(clock_key ck \<mapsto> (case in_ticks st (clock_key ck) of None \<Rightarrow> 0 | Some k \<Rightarrow> k) + 1))
       (in_calls st)"

definition tick_chain :: "env \<Rightarrow> clock \<Rightarrow> unit \<Rightarrow> unit sim" where
  "tick_chain env ck u =
     sbind (slift (clock_active ck env))
       (\<lambda>active. if active then smodify (\<lambda>c. c\<lparr>cx_state := bump_tick ck (cx_state c)\<rparr>) else sreturn ())"

definition end_cycle :: "env \<Rightarrow> inst \<Rightarrow> inst" where
  "end_cycle env st = Inst (in_cycle st + 1) (in_prev st ++ env) (in_ticks st) (in_calls st)"

definition finish_cycle :: "clock list \<Rightarrow> env \<Rightarrow> unit sim" where
  "finish_cycle chs env =
     sbind (sfold (tick_chain env) chs ())
       (\<lambda>_. smodify (\<lambda>c. c\<lparr>cx_state := end_cycle env (cx_state c)\<rparr>))"

text \<open>The environment a callee starts in: constants, converted arguments, defaults.\<close>

fun seed_inputs :: "config \<Rightarrow> (port \<times> val) list \<Rightarrow> env \<Rightarrow> env outcome" where
  "seed_inputs cf [] env = Ok env"
| "seed_inputs cf ((p, v) # pvs) env =
     obind (or_overflow (fit_to cf (p_ty p) v)) (\<lambda>w. seed_inputs cf pvs (env(p_name p \<mapsto> w)))"

fun seed_defaults :: "config \<Rightarrow> (string \<times> ty) list \<Rightarrow> env \<Rightarrow> env outcome" where
  "seed_defaults cf [] env = Ok env"
| "seed_defaults cf ((n, t) # nts) env =
     obind (or_overflow (default_value cf t)) (\<lambda>v. seed_defaults cf nts (env(n \<mapsto> v)))"

definition own_vars :: "node_def \<Rightarrow> (string \<times> ty) list" where
  "own_vars node = map (\<lambda>p. (p_name p, p_ty p)) (nd_outputs node) @ map (\<lambda>l. (l_name l, l_ty l)) (nd_locals node)"

definition seed_env :: "config \<Rightarrow> node_def \<Rightarrow> val list \<Rightarrow> env \<Rightarrow> env outcome" where
  "seed_env cf callee args consts =
     obind (seed_inputs cf (zip (nd_inputs callee) args) consts) (seed_defaults cf (own_vars callee))"

definition callee_order :: "node_def \<Rightarrow> nat list outcome" where
  "callee_order callee =
     (case evaluation_order callee of
        Inl e \<Rightarrow> eval_err (OrderError (Some (nd_name callee)) e)
      | Inr order \<Rightarrow> Ok order)"

definition node_clocks :: "(nat \<Rightarrow> root) \<Rightarrow> node_def \<Rightarrow> clock_info" where
  "node_clocks mk node = (if node_uses_clocks node then infer_clocks mk node else default_clock_info)"

definition site_map :: "clock_info \<Rightarrow> sites" where
  "site_map ci = Some (map_of (site_clocks ci))"

text \<open>The operator's own state, with its variables as the last cycle left them.\<close>

definition reseed :: "node_def \<Rightarrow> inst \<Rightarrow> env \<Rightarrow> env" where
  "reseed node st env = (\<lambda>n.
     if n \<in> fst ` set (own_vars node) \<and> in_prev st n \<noteq> None then in_prev st n else env n)"

definition in_instance :: "addr \<Rightarrow> (inst \<Rightarrow> 'a sim) \<Rightarrow> 'a sim" where
  "in_instance key body = (\<lambda>c.
     let sub = (case cx_calls c key of None \<Rightarrow> default_inst | Some s \<Rightarrow> s);
         own = Inst (in_cycle sub) (in_prev sub) (in_ticks sub) Map.empty
     in case body own \<lparr>cx_state = own, cx_calls = in_calls sub, cx_cov = cx_cov c\<rparr> of
          (Ok v, d) \<Rightarrow>
            (let st = cx_state d
             in (Ok v, c\<lparr>cx_calls := (cx_calls c)
                   (key \<mapsto> Inst (in_cycle st) (in_prev st) (in_ticks st) (cx_calls d)),
                 cx_cov := cx_cov d\<rparr>))
        | (r, d) \<Rightarrow> (r, c\<lparr>cx_calls := (cx_calls c)(key := None), cx_cov := cx_cov d\<rparr>))"

definition step_instance ::
  "config \<Rightarrow> evaluator \<Rightarrow> (nat \<Rightarrow> root) \<Rightarrow> addr \<Rightarrow> node_def \<Rightarrow> val list \<Rightarrow> env \<Rightarrow> val sim" where
  "step_instance cf ev mk key callee args consts =
     sbind (slift (seed_env cf callee args consts)) (\<lambda>env.
     sbind (slift (callee_order callee)) (\<lambda>order.
       let ci = node_clocks mk callee;
           run = run_equations cf ev mk callee (equation_clocks ci) (site_map ci) order
       in case nd_kind callee of
            Function \<Rightarrow>
              with_fresh_state (sbind (run env) (\<lambda>env'. sreturn (extract_output callee env')))
          | Operator \<Rightarrow>
              in_instance key (\<lambda>st.
                sbind (run (reseed callee st env)) (\<lambda>env'.
                sbind (finish_cycle (chains ci) env') (\<lambda>_.
                sreturn (extract_output callee env'))))
          | Imported \<Rightarrow> slift (Crash Unreachable)))"

definition call_function_values ::
  "config \<Rightarrow> evaluator \<Rightarrow> (nat \<Rightarrow> root) \<Rightarrow> node_def \<Rightarrow> val list \<Rightarrow> env \<Rightarrow> val sim" where
  "call_function_values cf ev mk callee args consts =
     (if length args \<noteq> length (nd_inputs callee)
      then sfail (IteratedArity (nd_name callee) (length (nd_inputs callee)) (length args))
      else
        sbind (slift (seed_env cf callee args consts)) (\<lambda>env.
        sbind (slift (callee_order callee)) (\<lambda>order.
          isolated (sbind (run_equations cf ev mk callee [] None order env)
            (\<lambda>env'. sreturn (extract_output callee env'))))))"

section \<open>Evaluation\<close>

definition condact :: string where
  "condact = ''condact''"

fun is_call :: "expr \<Rightarrow> bool" where
  "is_call (Call node args) = True"
| "is_call _ = False"

definition literal_value :: "literal \<Rightarrow> val" where
  "literal_value lit =
     (case lit of
        LBool b \<Rightarrow> VBool b
      | LInt i \<Rightarrow> VInt i
      | LFloat f \<Rightarrow> VFloat f
      | LChar ch \<Rightarrow> VInt (ucast ch))"

definition eval_var :: "project \<Rightarrow> string \<Rightarrow> env \<Rightarrow> val outcome" where
  "eval_var p name env =
     (case env name of
        Some v \<Rightarrow> Ok v
      | None \<Rightarrow>
          (case enum_variant_value name p of
             Some v \<Rightarrow> Ok v
           | None \<Rightarrow> eval_err (UnboundVariable name)))"

definition eval_pre :: "expr \<Rightarrow> addr \<Rightarrow> sites \<Rightarrow> val sim" where
  "eval_pre arg a sc =
     sbind (sget cx_state) (\<lambda>st.
       if first_tick a sc st then sfail PreOnFirstTick
       else
         (case arg of
            Var name \<Rightarrow>
              (case in_prev st name of Some v \<Rightarrow> sreturn v | None \<Rightarrow> sfail (NoPreviousValue name))
          | _ \<Rightarrow> sfail ComplexPre))"

definition select_field :: "val \<Rightarrow> string \<Rightarrow> val outcome" where
  "select_field bv field =
     (case bv of
        VRecord m \<Rightarrow> (case bt_get m field of Some v \<Rightarrow> Ok v | None \<Rightarrow> eval_err (NoSuchField field))
      | other \<Rightarrow> eval_err (FieldOfNonStruct field other))"

definition select_index :: "val \<Rightarrow> val \<Rightarrow> val outcome" where
  "select_index bv iv =
     (case as_int iv of
        None \<Rightarrow> eval_err (IndexNotInt iv)
      | Some i \<Rightarrow>
          (case bv of
             VArray xs \<Rightarrow>
               (if sint i < 0 \<or> int (length xs) \<le> sint i then eval_err (IndexOutOfBounds i (length xs))
                else Ok (xs ! nat (sint i)))
           | other \<Rightarrow> eval_err (IndexOfNonArray other)))"

definition record_value :: "(string \<times> val) list \<Rightarrow> val" where
  "record_value fvs = VRecord (fold (\<lambda>(k, v). bt_insert k v) fvs [])"

definition as_array :: "val \<Rightarrow> val list outcome" where
  "as_array v = (case v of VArray xs \<Rightarrow> Ok xs | other \<Rightarrow> eval_err (IterOperandNotArray other))"

text \<open>\<open>arrs.iter().map(|a| a[k])\<close> for one \<open>k\<close>; the lengths have been compared before.\<close>

definition slice_at :: "val list list \<Rightarrow> nat \<Rightarrow> val list" where
  "slice_at arrs k = map (\<lambda>xs. xs ! k) arrs"

definition iter_length :: "val list list \<Rightarrow> nat" where
  "iter_length arrs = (case arrs of [] \<Rightarrow> 0 | a # as \<Rightarrow> length a)"

definition run_iterator ::
  "config \<Rightarrow> evaluator \<Rightarrow> iter_kind \<Rightarrow> node_def \<Rightarrow> val list list \<Rightarrow> val sim option \<Rightarrow> env \<Rightarrow> val sim" where
  "run_iterator cf ev kind callee arrs seed env =
     (let apply_at = (\<lambda>args. call_function_values cf ev (EquationRoot (nd_name callee)) callee args
                         (constants_from_env (cf_project cf) env))
      in if \<exists>a\<in>set arrs. length a \<noteq> iter_length arrs then sfail IterUnequalLengths
         else
           (case kind of
              MapIter \<Rightarrow>
                sbind (smap (\<lambda>k. apply_at (slice_at arrs k)) [0..<iter_length arrs]) (\<lambda>vs. sreturn (VArray vs))
            | FoldIter \<Rightarrow>
                (case seed of
                   None \<Rightarrow> sfail FoldWithoutSeed
                 | Some s \<Rightarrow>
                     sbind s (\<lambda>acc.
                       case arrs of
                         [] \<Rightarrow> slift (Crash IndexPanic)
                       | xs # _ \<Rightarrow> sfold (\<lambda>elem acc. apply_at [acc, elem]) xs acc))))"

definition iterated_callee :: "project \<Rightarrow> string \<Rightarrow> node_def outcome" where
  "iterated_callee p name =
     (case find_node p name of
        None \<Rightarrow> eval_err (IterUnknownFunction name)
      | Some callee \<Rightarrow> if nd_kind callee = Function then Ok callee else eval_err (IterNotFunction name))"

definition called_node :: "project \<Rightarrow> string \<Rightarrow> nat \<Rightarrow> node_def outcome" where
  "called_node p node n =
     (case find_node p node of
        None \<Rightarrow> eval_err (UnknownCallee node)
      | Some callee \<Rightarrow>
          if n \<noteq> length (nd_inputs callee) then eval_err (CallArity node (length (nd_inputs callee)) n)
          else if nd_kind callee = Imported then eval_err (ImportedOperator node)
          else Ok callee)"

text \<open>The boolean connectives a decision is taken apart at.\<close>

definition connective :: "bin_op \<Rightarrow> (bool \<Rightarrow> bool \<Rightarrow> bool) option" where
  "connective op =
     (case op of
        BAnd \<Rightarrow> Some (\<and>) | BOr \<Rightarrow> Some (\<or>) | BXor \<Rightarrow> Some (\<noteq>) | BImplies \<Rightarrow> Some (\<longrightarrow>) | _ \<Rightarrow> None)"

definition has_call :: "expr \<Rightarrow> bool" where
  "has_call e = list_ex is_call (visit e)"

definition cond_result :: "val \<Rightarrow> bool outcome" where
  "cond_result v = (case v of VBool b \<Rightarrow> Ok b | other \<Rightarrow> eval_err (IfConditionNotBool other))"

definition decision_result :: "val \<Rightarrow> bool outcome" where
  "decision_result v = (case v of VBool b \<Rightarrow> Ok b | other \<Rightarrow> eval_err (DecisionNotBool other))"

definition note_decision :: "addr \<Rightarrow> bool \<Rightarrow> observations \<Rightarrow> bool sim" where
  "note_decision a outcome obs =
     sbind (update_coverage (\<lambda>cov. cov_record_trial a obs outcome (cov_mark a outcome cov)))
       (\<lambda>_. sreturn outcome)"

definition condact_held :: "addr \<Rightarrow> val option sim" where
  "condact_held key = sget (\<lambda>c. Option.bind (cx_calls c key) (\<lambda>st. in_prev st []))"

definition condact_keep :: "addr \<Rightarrow> val \<Rightarrow> unit sim" where
  "condact_keep key v =
     smodify (\<lambda>c.
       let st = (case cx_calls c key of None \<Rightarrow> default_inst | Some st \<Rightarrow> st)
       in c\<lparr>cx_calls := (cx_calls c)
             (key \<mapsto> Inst (in_cycle st) ((in_prev st)([] \<mapsto> v)) (in_ticks st) (in_calls st))\<rparr>)"

lemma twice_size:
  "i < length xs \<Longrightarrow> 2 * size (xs ! i :: expr) < Suc (Suc (2 * size_list size xs))"
  "n \<le> i \<Longrightarrow> i < length xs + n \<Longrightarrow>
     2 * size (xs ! (i - n) :: expr) < Suc (Suc (k + 2 * size_list size xs))"
  "i < length fis \<Longrightarrow>
     2 * size (snd (fis ! i)) < Suc (Suc (2 * size_list (\<lambda>x. Suc (size (snd x))) fis))"
  "\<not> length xs < 2 \<Longrightarrow> 2 * size (xs ! Suc 0 :: expr) < Suc (Suc (2 * size_list size xs))"
  "\<not> length xs < 2 \<Longrightarrow> 2 * size (xs ! 0 :: expr) < Suc (Suc (2 * size_list size xs))"
proof -
  have *: "2 * size (xs ! i) < Suc (Suc (2 * size_list size xs))" if "i < length xs" for i and xs :: "expr list"
    using size_child_list [OF nth_mem [OF that]] by simp
  show "i < length xs \<Longrightarrow> 2 * size (xs ! i :: expr) < Suc (Suc (2 * size_list size xs))" by (rule *)
  show "\<not> length xs < 2 \<Longrightarrow> 2 * size (xs ! Suc 0 :: expr) < Suc (Suc (2 * size_list size xs))"
    by (rule *) simp
  show "\<not> length xs < 2 \<Longrightarrow> 2 * size (xs ! 0 :: expr) < Suc (Suc (2 * size_list size xs))"
    by (rule *) auto
  show "n \<le> i \<Longrightarrow> i < length xs + n \<Longrightarrow>
      2 * size (xs ! (i - n) :: expr) < Suc (Suc (k + 2 * size_list size xs))"
  proof -
    assume "n \<le> i" and "i < length xs + n"
    then have "i - n < length xs" by simp
    from * [OF this] show ?thesis by simp
  qed
  show "i < length fis \<Longrightarrow>
      2 * size (snd (fis ! i)) < Suc (Suc (2 * size_list (\<lambda>x. Suc (size (snd x))) fis))"
    using size_nth_field [of i fis] by simp
qed

function
  eval :: "config \<Rightarrow> evaluator \<Rightarrow> expr \<Rightarrow> addr \<Rightarrow> env \<Rightarrow> sites \<Rightarrow> val sim" and
  eval_decision :: "config \<Rightarrow> evaluator \<Rightarrow> expr \<Rightarrow> addr \<Rightarrow> env \<Rightarrow> sites \<Rightarrow> observations \<Rightarrow>
    (bool \<times> observations) sim"
where
  "eval cf ev (Const lit) a env sc = sreturn (literal_value lit)"
| "eval cf ev (Var name) a env sc = slift (eval_var (cf_project cf) name env)"
| "eval cf ev (Unary op x) a env sc =
     sbind (eval cf ev x (child a 0) env sc) (\<lambda>v. slift (eval_unary (cf_checks cf) op v))"
| "eval cf ev (Binary op l r) a env sc =
     sbind (eval cf ev l (child a 0) env sc) (\<lambda>v.
     sbind (eval cf ev r (child a 1) env sc) (\<lambda>w.
     slift (eval_binary (cf_checks cf) op v w)))"
| "eval cf ev (IfThenElse c t e) a env sc =
     sbind (sget (\<lambda>x. cx_cov x \<noteq> None)) (\<lambda>covered.
     sbind (if covered then
              sbind (eval_decision cf ev c (child a 0) env sc Map.empty)
                (\<lambda>(outcome, obs). note_decision (child a 0) outcome obs)
            else sbind (eval cf ev c (child a 0) env sc) (\<lambda>v. slift (cond_result v))) (\<lambda>cval.
     let taken = (if cval then eval cf ev t (child a 1) env sc else eval cf ev e (child a 2) env sc);
         untaken = (if cval
            then (if has_call e then discarded (eval cf ev e (child a 2) env sc) else sreturn ())
            else (if has_call t then discarded (eval cf ev t (child a 1) env sc) else sreturn ()))
     in sbind taken (\<lambda>v. sbind untaken (\<lambda>_.
          sreturn (common_real (cf_project cf) env v (if cval then e else t))))))"
| "eval cf ev (Pre x) a env sc = eval_pre x a sc"
| "eval cf ev (Arrow i b) a env sc =
     sbind (sget cx_state) (\<lambda>st.
     let first = first_tick a sc st;
         taken = (if first then eval cf ev i (child a 0) env sc else eval cf ev b (child a 1) env sc);
         untaken = (if first
            then (if has_call b then discarded (eval cf ev b (child a 1) env sc) else sreturn ())
            else (if has_call i then discarded (eval cf ev i (child a 0) env sc) else sreturn ()))
     in sbind taken (\<lambda>v. sbind untaken (\<lambda>_.
          sreturn (common_real (cf_project cf) env v (if first then b else i)))))"
| "eval cf ev (When x clock on) a env sc = eval cf ev x (child a 0) env sc"
| "eval cf ev (Merge clock t f) a env sc =
     (case env clock of
        Some (VBool b) \<Rightarrow>
          sbind (if b then eval cf ev t (child a 0) env sc else eval cf ev f (child a 1) env sc)
            (\<lambda>v. sreturn (common_real (cf_project cf) env v (if b then f else t)))
      | Some other \<Rightarrow> sfail (MergeClockNotBool clock other)
      | None \<Rightarrow> sfail (MergeClockNoValue clock))"
| "eval cf ev (Cast to x) a env sc =
     sbind (eval cf ev x (child a 0) env sc) (\<lambda>v. slift (cast_value to v))"
| "eval cf ev (Call node args) a env sc =
     (if node = condact \<and> find_node (cf_project cf) node = None then
        (if length args < 2 then sfail CondactShape
         else
           sbind (eval cf ev (args ! 0) (child a 0) env sc) (\<lambda>cv.
             case as_bool cv of
               None \<Rightarrow> sfail CondactClockNotBool
             | Some on \<Rightarrow>
                 if on then
                   sbind (eval cf ev (args ! 1) (child a 1) env sc) (\<lambda>v.
                   sbind (condact_keep a v) (\<lambda>_. sreturn v))
                 else
                   sbind (condact_held a) (\<lambda>held.
                     case held of
                       Some v \<Rightarrow> sreturn v
                     | None \<Rightarrow>
                         sbind (smap (\<lambda>(i, d). eval cf ev d (child a i) env sc) (drop 2 (enumerate 0 args)))
                           (\<lambda>ds. sreturn (case ds of [v] \<Rightarrow> v | vs \<Rightarrow> VTuple vs)))))
      else
        sbind (slift (called_node (cf_project cf) node (length args))) (\<lambda>callee.
        sbind (smap (\<lambda>(i, x). eval cf ev x (child a i) env sc) (enumerate 0 args)) (\<lambda>vs.
        step_instance cf ev (EquationRoot (nd_name callee)) a callee vs env)))"
| "eval cf ev (Field b field) a env sc =
     sbind (eval cf ev b (child a 0) env sc) (\<lambda>bv. slift (select_field bv field))"
| "eval cf ev (Index b i) a env sc =
     sbind (eval cf ev b (child a 0) env sc) (\<lambda>bv.
     sbind (eval cf ev i (child a 1) env sc) (\<lambda>iv. slift (select_index bv iv)))"
| "eval cf ev (Tuple items) a env sc =
     sbind (smap (\<lambda>(i, x). eval cf ev x (child a i) env sc) (enumerate 0 items)) (\<lambda>vs. sreturn (VTuple vs))"
| "eval cf ev (Array items) a env sc =
     sbind (smap (\<lambda>(i, x). eval cf ev x (child a i) env sc) (enumerate 0 items)) (\<lambda>vs. sreturn (VArray vs))"
| "eval cf ev (Struct t fis) a env sc =
     sbind (smap (\<lambda>(i, x). eval cf ev x (child a i) env sc) (enumerate 0 (map snd fis)))
       (\<lambda>vs. sreturn (record_value (zip (map fst fis) vs)))"
| "eval cf ev (Iterate kind node init arrays) a env sc =
     (let k = (case init of None \<Rightarrow> 0 | Some _ \<Rightarrow> 1)
      in sbind (slift (iterated_callee (cf_project cf) node)) (\<lambda>callee.
         sbind (smap (\<lambda>(i, x). sbind (eval cf ev x (child a i) env sc) (\<lambda>v. slift (as_array v)))
                  (enumerate k arrays)) (\<lambda>arrs.
         run_iterator cf ev kind callee arrs
           (case init of None \<Rightarrow> None | Some s \<Rightarrow> Some (eval cf ev s (child a 0) env sc)) env)))"
| "eval_decision cf ev e a env sc obs =
     (let leaf = sbind (eval cf ev e a env sc) (\<lambda>v.
                 sbind (slift (decision_result v)) (\<lambda>b. sreturn (b, obs(a \<mapsto> b))))
      in case e of
           Binary op l r \<Rightarrow>
             (case connective op of
                Some f \<Rightarrow>
                  sbind (eval_decision cf ev l (child a 0) env sc obs) (\<lambda>(x, obs1).
                  sbind (eval_decision cf ev r (child a 1) env sc obs1) (\<lambda>(y, obs2).
                  sreturn (f x y, obs2)))
              | None \<Rightarrow> leaf)
         | Unary op x \<Rightarrow>
             (if op = UNot then
                sbind (eval_decision cf ev x (child a 0) env sc obs) (\<lambda>(b, obs1). sreturn (\<not> b, obs1))
              else leaf)
         | _ \<Rightarrow> leaf)"
  by pat_completeness auto
termination
  by (relation "measure (\<lambda>x. case x of
        Inl (cf, ev, e, a, env, sc) \<Rightarrow> 2 * size e
      | Inr (cf, ev, e, a, env, sc, obs) \<Rightarrow> 2 * size e + 1)")
    (auto simp: termination_simp in_set_enumerate_eq twice_size dest!: in_set_dropD)

declare eval_decision.simps [simp del]

subsection \<open>Equations\<close>

definition eval_eq_rhs :: "config \<Rightarrow> evaluator \<Rightarrow> evaluator" where
  "eval_eq_rhs cf ev rhs a env sc =
     sbind (sget (\<lambda>c. case cx_cov c of None \<Rightarrow> False | Some cov \<Rightarrow> cov_is_root cov a)) (\<lambda>is_root.
       if is_root then
         sbind (eval_decision cf ev rhs a env sc Map.empty) (\<lambda>(outcome, obs).
         sbind (update_coverage (cov_record_trial a obs outcome)) (\<lambda>_.
         sreturn (VBool outcome)))
       else eval cf ev rhs a env sc)"

text \<open>
  Calls nest: the evaluator of a callee's equations is one call deeper. At depth \<open>0\<close> the stack is
  exhausted.
\<close>

fun eval_depth :: "config \<Rightarrow> nat \<Rightarrow> evaluator" where
  "eval_depth cf 0 rhs a env sc = slift (Crash StackOverflow)"
| "eval_depth cf (Suc n) rhs a env sc = eval_eq_rhs cf (eval_depth cf n) rhs a env sc"

definition evaluator_of :: "config \<Rightarrow> evaluator" where
  "evaluator_of cf = eval_depth cf (cf_stack cf)"

end
