(* ===== verification/Sim.thy ===== *)
theory Sim
  imports Sim_Eval
begin

text \<open>
  The simulator object (\<open>Sim\<close> in \<open>ol_sim/src/lib.rs\<close>): its construction, the step of one cycle and
  its three views, the contract monitor, breakpoint conditions, and runs over CSV input.
\<close>

section \<open>Construction\<close>

record sim_state =
  si_node :: node_def
  si_ctx :: ctx
  si_contract :: "contract_def option"
  si_observer :: "observer option"
  si_observer_calls :: "addr \<rightharpoonup> inst"
  si_consts :: env
  si_eq_order :: "nat list"
  si_clock_info :: clock_info

definition fresh_ctx :: ctx where
  "fresh_ctx = \<lparr>cx_state = default_inst, cx_calls = Map.empty, cx_cov = None\<rparr>"

definition find_contract ::
  "(json \<Rightarrow> (string, contract_def) result) \<Rightarrow> project \<Rightarrow> string \<Rightarrow> contract_def option" where
  "find_contract from_value p cname =
     find_map (\<lambda>pkg. find (\<lambda>c. ct_name c = cname) (fst (parse_contracts from_value (pk_contracts pkg))))
       (pj_packages p)"

definition constant_error :: "string \<Rightarrow> 'a outcome \<Rightarrow> 'a outcome" where
  "constant_error name r =
     (case r of Err (EvalError m) \<Rightarrow> Err (EvalError (ConstantError name m)) | other \<Rightarrow> other)"

text \<open>Constants in declaration order, each in the environment of the ones before it.\<close>

fun eval_constants :: "config \<Rightarrow> const_def list \<Rightarrow> env \<Rightarrow> env outcome" where
  "eval_constants cf [] consts = Ok consts"
| "eval_constants cf (c # cs) consts =
     obind (constant_error (c_name_of c)
              (fst (eval cf (evaluator_of cf) (c_value c) (root_addr (ConstantRoot (c_name_of c)))
                      consts None fresh_ctx)))
       (\<lambda>v. obind (or_overflow (fit_to cf (c_ty c) v))
          (\<lambda>w. eval_constants cf cs (consts(c_name_of c \<mapsto> w))))"

definition entry_root :: "node_def \<Rightarrow> nat \<Rightarrow> root" where
  "entry_root node = EquationRoot (nd_name node)"

definition sim_new ::
  "(json \<Rightarrow> (string, contract_def) result) \<Rightarrow> config \<Rightarrow> string \<Rightarrow> sim_state outcome" where
  "sim_new from_value cf node_name =
     (case find_node (cf_project cf) node_name of
        None \<Rightarrow> Err (UnknownNode node_name)
      | Some node \<Rightarrow>
          let contract = Option.bind (nd_contract node) (find_contract from_value (cf_project cf))
          in obind (eval_constants cf (all_constants (cf_project cf)) Map.empty) (\<lambda>consts.
             case evaluation_order node of
               Inl e \<Rightarrow> eval_err (OrderError None e)
             | Inr order \<Rightarrow>
                 Ok \<lparr>si_node = node,
                     si_ctx = fresh_ctx,
                     si_contract = contract,
                     si_observer = map_option observer contract,
                     si_observer_calls = Map.empty,
                     si_consts = consts,
                     si_eq_order = order,
                     si_clock_info = node_clocks (entry_root node) node\<rparr>))"

section \<open>One cycle\<close>

text \<open>Outputs and locals start from their previous value, or their default the first time.\<close>

fun seed_held :: "config \<Rightarrow> (string \<rightharpoonup> val) \<Rightarrow> (string \<times> ty) list \<Rightarrow> env \<Rightarrow> env outcome" where
  "seed_held cf prev [] env = Ok env"
| "seed_held cf prev ((n, t) # nts) env =
     (case env n of
        Some _ \<Rightarrow> seed_held cf prev nts env
      | None \<Rightarrow>
          (case prev n of
             Some v \<Rightarrow> seed_held cf prev nts (env(n \<mapsto> v))
           | None \<Rightarrow>
               obind (or_overflow (default_value cf t)) (\<lambda>v. seed_held cf prev nts (env(n \<mapsto> v)))))"

definition entry_cycle :: "config \<Rightarrow> sim_state \<Rightarrow> env \<Rightarrow> env sim" where
  "entry_cycle cf s env =
     sbind (run_equations cf (evaluator_of cf) (entry_root (si_node s)) (si_node s)
              (equation_clocks (si_clock_info s)) (site_map (si_clock_info s)) (si_eq_order s) env)
       (\<lambda>env'. sbind (finish_cycle (chains (si_clock_info s)) env') (\<lambda>_. sreturn env'))"

definition step_env :: "config \<Rightarrow> env \<Rightarrow> sim_state \<Rightarrow> env outcome \<times> sim_state" where
  "step_env cf inputs s =
     (case seed_held cf (in_prev (cx_state (si_ctx s))) (own_vars (si_node s)) (si_consts s ++ inputs) of
        Ok env \<Rightarrow> (case entry_cycle cf s env (si_ctx s) of (r, c) \<Rightarrow> (r, s\<lparr>si_ctx := c\<rparr>))
      | Err e \<Rightarrow> (Err e, s)
      | Crash k \<Rightarrow> (Crash k, s))"

definition value_of :: "config \<Rightarrow> env \<Rightarrow> string \<times> ty \<Rightarrow> (string \<times> val) outcome" where
  "value_of cf env nt =
     (case env (fst nt) of
        Some v \<Rightarrow> Ok (fst nt, v)
      | None \<Rightarrow> obind (or_overflow (default_value cf (snd nt))) (\<lambda>v. Ok (fst nt, v)))"

fun values_of :: "config \<Rightarrow> env \<Rightarrow> (string \<times> ty) list \<Rightarrow> (string \<times> val) list outcome" where
  "values_of cf env [] = Ok []"
| "values_of cf env (nt # nts) =
     obind (value_of cf env nt) (\<lambda>v. obind (values_of cf env nts) (\<lambda>vs. Ok (v # vs)))"

definition port_types :: "port list \<Rightarrow> (string \<times> ty) list" where
  "port_types ps = map (\<lambda>p. (p_name p, p_ty p)) ps"

definition local_types :: "local_var list \<Rightarrow> (string \<times> ty) list" where
  "local_types ls = map (\<lambda>l. (l_name l, l_ty l)) ls"

definition to_btree :: "(string \<times> val) list \<Rightarrow> (string, val) btree" where
  "to_btree nvs = fold (\<lambda>(n, v). bt_insert n v) nvs []"

definition step :: "config \<Rightarrow> env \<Rightarrow> sim_state \<Rightarrow> (string, val) btree outcome \<times> sim_state" where
  "step cf inputs s =
     (case step_env cf inputs s of
        (r, s') \<Rightarrow>
          (obind r (\<lambda>env. obind (values_of cf env (port_types (nd_outputs (si_node s))))
             (\<lambda>vs. Ok (to_btree vs))), s'))"

definition step_full :: "config \<Rightarrow> env \<Rightarrow> sim_state \<Rightarrow> (string, val) btree outcome \<times> sim_state" where
  "step_full cf inputs s =
     (case step_env cf inputs s of
        (r, s') \<Rightarrow>
          (obind r (\<lambda>env. obind (values_of cf env
              (port_types (nd_inputs (si_node s)) @ port_types (nd_outputs (si_node s)) @
               local_types (nd_locals (si_node s))))
             (\<lambda>vs. Ok (to_btree vs))), s'))"

section \<open>The monitor\<close>

record monitor_step =
  ms_active_modes :: "string list"
  ms_violations :: "string list"

record observed =
  ob_values :: "(string \<times> val) list"
  ob_active_modes :: "string list"
  ob_violations :: "string list"
  ob_monitored :: bool

fun observer_args :: "contract_def \<Rightarrow> env \<Rightarrow> env \<Rightarrow> port list \<Rightarrow> val list outcome" where
  "observer_args c inputs outputs [] = Ok []"
| "observer_args c inputs outputs (p # ps) =
     (case or_else (inputs (p_name p)) (outputs (p_name p)) of
        None \<Rightarrow> eval_err (ContractReads (ct_name c) (p_name p))
      | Some v \<Rightarrow> obind (observer_args c inputs outputs ps) (\<lambda>vs. Ok (v # vs)))"

text \<open>\<open>usize::MAX\<close>, the key of the observer's instance in a table of its own.\<close>

definition observer_key :: addr where
  "observer_key = root_addr (ObserverRoot 0)"

definition signal_bools :: "val \<Rightarrow> bool list" where
  "signal_bools out = map (\<lambda>v. v = VBool True) (case out of VTuple items \<Rightarrow> items | single \<Rightarrow> [single])"

definition run_observer :: "config \<Rightarrow> sim_state \<Rightarrow> observer \<Rightarrow> val list \<Rightarrow> bool list outcome \<times> (addr \<rightharpoonup> inst)" where
  "run_observer cf s obs args =
     (if ob_signals obs = [] then (Ok [], si_observer_calls s)
      else
        (case step_instance cf (evaluator_of cf) ObserverRoot observer_key (ob_node obs) args (si_consts s)
                (fresh_ctx\<lparr>cx_calls := si_observer_calls s\<rparr>) of
           (r, c) \<Rightarrow> (obind r (\<lambda>out. Ok (signal_bools out)), cx_calls c)))"

definition observe :: "config \<Rightarrow> env \<Rightarrow> env \<Rightarrow> sim_state \<Rightarrow> monitor_step option outcome \<times> sim_state" where
  "observe cf inputs outputs s =
     (case (si_contract s, si_observer s) of
        (Some c, Some obs) \<Rightarrow>
          (case observer_args c inputs outputs (nd_inputs (ob_node obs)) of
             Ok args \<Rightarrow>
               (case run_observer cf s obs args of
                  (r, calls) \<Rightarrow>
                    (obind r (\<lambda>vals.
                       let (active, violations) = verdict obs c vals
                       in Ok (Some \<lparr>ms_active_modes = active, ms_violations = violations\<rparr>)),
                     s\<lparr>si_observer_calls := calls\<rparr>))
           | Err e \<Rightarrow> (Err e, s)
           | Crash k \<Rightarrow> (Crash k, s))
      | _ \<Rightarrow> (Ok None, s))"

definition step_observed :: "config \<Rightarrow> env \<Rightarrow> sim_state \<Rightarrow> observed outcome \<times> sim_state" where
  "step_observed cf inputs s =
     (case step_env cf inputs s of
        (Ok env, s1) \<Rightarrow>
          (case obind (values_of cf env (port_types (nd_inputs (si_node s)))) (\<lambda>is.
                obind (values_of cf env (local_types (nd_locals (si_node s)))) (\<lambda>ls.
                obind (values_of cf env (port_types (nd_outputs (si_node s)))) (\<lambda>os.
                Ok (is @ ls @ os, map_of (rev os))))) of
             Ok (vals, outputs) \<Rightarrow>
               (case observe cf inputs outputs s1 of
                  (r, s2) \<Rightarrow>
                    (obind r (\<lambda>m. Ok (case m of
                         Some ms \<Rightarrow> \<lparr>ob_values = vals, ob_active_modes = ms_active_modes ms,
                                     ob_violations = ms_violations ms, ob_monitored = True\<rparr>
                       | None \<Rightarrow> \<lparr>ob_values = vals, ob_active_modes = [], ob_violations = [],
                                  ob_monitored = False\<rparr>)), s2))
           | Err e \<Rightarrow> (Err e, s1)
           | Crash k \<Rightarrow> (Crash k, s1))
      | (Err e, s1) \<Rightarrow> (Err e, s1)
      | (Crash k, s1) \<Rightarrow> (Crash k, s1))"

definition eval_condition :: "config \<Rightarrow> sim_state \<Rightarrow> expr \<Rightarrow> env \<Rightarrow> bool outcome" where
  "eval_condition cf s e vals =
     obind (fst (eval cf (evaluator_of cf) e (root_addr ConditionRoot) (si_consts s ++ vals) None fresh_ctx))
       (\<lambda>v. case v of VBool b \<Rightarrow> Ok b | other \<Rightarrow> eval_err (ConditionNotBool other))"

end
