(* ===== verification/Value_Laws.thy ===== *)
theory Value_Laws
  imports Values
begin

text \<open>
  Laws of the conversions of \<open>Values\<close>: C's integer narrowing keeps a value in the range of its
  type and leaves a value in range alone, storing a value twice is storing it once, the operators
  of integers compute the mathematical result or stop, and no operator reports a crash other than
  an overflow.
\<close>

section \<open>Narrowing\<close>

lemma sint_narrow:
  "sint (scast (ucast (i :: i64) :: 'a::len word) :: i64) = sint (ucast i :: 'a word)"
  if "LENGTH('a) \<le> 64"
proof (rule bit_eqI)
  fix n
  show "bit (sint (scast (ucast i :: 'a word) :: i64)) n = bit (sint (ucast i :: 'a word)) n"
    using that by (auto simp: bit_simps min_def not_le)
qed

lemma narrow_int_idem [simp]: "narrow_int t (narrow_int t i) = narrow_int t i"
  by (cases t) (auto intro!: bit_word_eqI simp: bit_simps)

lemmas narrow_idem_words =
  narrow_int_idem [of TInt8, unfolded narrow_int.simps]
  narrow_int_idem [of TInt16, unfolded narrow_int.simps]
  narrow_int_idem [of TInt32, unfolded narrow_int.simps]
  narrow_int_idem [of TUint8, unfolded narrow_int.simps]
  narrow_int_idem [of TUint16, unfolded narrow_int.simps]
  narrow_int_idem [of TUint32, unfolded narrow_int.simps]

text \<open>The values of an integer type, as the code's sized integers hold them.\<close>

fun int_values :: "ty \<Rightarrow> (int \<times> int) option" where
  "int_values TInt8 = Some (- (2 ^ 7), 2 ^ 7 - 1)"
| "int_values TInt16 = Some (- (2 ^ 15), 2 ^ 15 - 1)"
| "int_values TInt32 = Some (- (2 ^ 31), 2 ^ 31 - 1)"
| "int_values TUint8 = Some (0, 2 ^ 8 - 1)"
| "int_values TUint16 = Some (0, 2 ^ 16 - 1)"
| "int_values TUint32 = Some (0, 2 ^ 32 - 1)"
| "int_values _ = None"

lemma sint_ucast_small: "sint (ucast (w :: 'a::len word) :: i64) = uint w"
  if "LENGTH('a) < 64"
proof (rule bit_eqI)
  fix n
  show "bit (sint (ucast w :: i64)) n = bit (uint w) n"
    using that by (auto simp: bit_simps min_def not_le dest: bit_imp_le_length)
qed

lemma narrow_int_range:
  "int_values t = Some (lo, hi) \<Longrightarrow> lo \<le> sint (narrow_int t i) \<and> sint (narrow_int t i) \<le> hi"
proof (cases t)
  assume iv: "int_values t = Some (lo, hi)"
  {
    case TInt8
    with iv show ?thesis
      using sint_greater_eq [of "ucast i :: 8 word"] sint_less [of "ucast i :: 8 word"]
      by (auto simp: sint_narrow)
  next
    case TInt16
    with iv show ?thesis
      using sint_greater_eq [of "ucast i :: 16 word"] sint_less [of "ucast i :: 16 word"]
      by (auto simp: sint_narrow)
  next
    case TInt32
    with iv show ?thesis
      using sint_greater_eq [of "ucast i :: 32 word"] sint_less [of "ucast i :: 32 word"]
      by (auto simp: sint_narrow)
  next
    case TUint8
    with iv show ?thesis using uint_lt2p [of "ucast i :: 8 word"] by (auto simp: sint_ucast_small)
  next
    case TUint16
    with iv show ?thesis using uint_lt2p [of "ucast i :: 16 word"] by (auto simp: sint_ucast_small)
  next
    case TUint32
    with iv show ?thesis using uint_lt2p [of "ucast i :: 32 word"] by (auto simp: sint_ucast_small)
  }
qed auto

lemma narrow_int_in_range:
  assumes "int_values t = Some (lo, hi)" and "lo \<le> sint i" and "sint i \<le> hi"
  shows "narrow_int t i = i"
proof -
  have signed: "scast (ucast i :: 'n::len word) = i"
    if "- (2 ^ (LENGTH('n) - 1)) \<le> sint i" "sint i < 2 ^ (LENGTH('n) - 1)" "LENGTH('n) < 64"
  proof -
    have "sint (scast (ucast i :: 'n word) :: i64) = signed_take_bit (LENGTH('n) - 1) (sint i)"
    proof (rule bit_eqI)
      fix n
      show "bit (sint (scast (ucast i :: 'n word) :: i64)) n = bit (signed_take_bit (LENGTH('n) - 1) (sint i)) n"
        using that(3) by (cases "n < LENGTH('n) - 1") (auto simp: bit_simps min_def not_less)
    qed
    also have "\<dots> = sint i" using that by (simp add: signed_take_bit_int_eq_self)
    finally show ?thesis by (rule signed_word_eqI)
  qed
  have unsigned: "ucast (ucast i :: 'n::len word) = i"
    if "0 \<le> sint i" "sint i < 2 ^ LENGTH('n)" "LENGTH('n) < 64"
  proof -
    have "sint (ucast (ucast i :: 'n word) :: i64) = take_bit LENGTH('n) (sint i)"
    proof (rule bit_eqI)
      fix n
      show "bit (sint (ucast (ucast i :: 'n word) :: i64)) n = bit (take_bit LENGTH('n) (sint i)) n"
        using that(3) by (cases "n < LENGTH('n)") (auto simp: bit_simps min_def not_less)
    qed
    also have "\<dots> = sint i" using that by (simp add: take_bit_int_eq_self)
    finally show ?thesis by (rule signed_word_eqI)
  qed
  show ?thesis
    using assms by (cases t) (auto simp: signed unsigned)
qed

section \<open>Storing twice\<close>

text \<open>Values whose records are maps, and projects whose record types name each field once.\<close>

fun wf_val :: "val \<Rightarrow> bool" where
  "wf_val (VRecord m) = (bt_ok m \<and> list_all (\<lambda>p. wf_val (snd p)) m)"
| "wf_val (VTuple xs) = list_all wf_val xs"
| "wf_val (VArray xs) = list_all wf_val xs"
| "wf_val _ = True"

definition wf_records :: "project \<Rightarrow> bool" where
  "wf_records p \<longleftrightarrow>
     (\<forall>t\<in>set (all_types p). case td_body t of RecordBody _ fs \<Rightarrow> distinct (map rf_name fs) | _ \<Rightarrow> True)"

lemma set_bt_insert: "set (bt_insert k v m) \<subseteq> insert (k, v) (set m)"
  by (induction m rule: bt_insert.induct) auto

lemma bt_get_in_vals: "bt_get m k = Some x \<Longrightarrow> (k, x) \<in> set m"
  by (rule map_of_SomeD)

lemma bt_reinsert: "bt_ok m \<Longrightarrow> bt_get m k = Some y \<Longrightarrow> bt_insert k y (bt_remove k m) = m"
proof (induction m)
  case (Cons p m)
  obtain a b where p: "p = (a, b)" by force
  show ?case
  proof (cases "k = a")
    case True
    with Cons.prems p show ?thesis by (cases m) (auto simp: bt_ok_Cons)
  next
    case False
    with Cons.prems p have m: "bt_ok m" "bt_get m k = Some y" by (auto simp: bt_ok_Cons)
    then have "a < k" using Cons.prems p by (auto simp: bt_ok_Cons dest!: map_of_SomeD)
    with Cons.IH [OF m] False p show ?thesis by auto
  qed
qed simp

lemma fit_fields_fixed:
  "bt_ok m \<Longrightarrow> (\<And>f y. f \<in> set fs \<Longrightarrow> bt_get m (rf_name f) = Some y \<Longrightarrow> g (rf_ty f) y = Some y) \<Longrightarrow>
   fit_fields g fs m = Some m"
proof (induction fs)
  case (Cons f fs)
  then show ?case by (cases "bt_get m (rf_name f)") (auto simp: bt_reinsert)
qed simp

definition stable_on :: "(val \<Rightarrow> val option) \<Rightarrow> bool" where
  "stable_on h \<longleftrightarrow> (\<forall>v w. wf_val v \<longrightarrow> h v = Some w \<longrightarrow> wf_val w \<and> h w = Some w)"

lemma stable_onD: "stable_on h \<Longrightarrow> wf_val v \<Longrightarrow> h v = Some w \<Longrightarrow> wf_val w \<and> h w = Some w"
  unfolding stable_on_def by blast

lemma stable_onI:
  "(\<And>v w. wf_val v \<Longrightarrow> h v = Some w \<Longrightarrow> wf_val w \<and> h w = Some w) \<Longrightarrow> stable_on h"
  unfolding stable_on_def by blast

lemma fit_fields_stable:
  assumes g: "\<forall>t. stable_on (g t)"
  shows "fit_fields g fs m = Some m' \<Longrightarrow> wf_val (VRecord m) \<Longrightarrow> distinct (map rf_name fs) \<Longrightarrow>
    wf_val (VRecord m') \<and>
    (\<forall>k. k \<notin> rf_name ` set fs \<longrightarrow> bt_get m' k = bt_get m k) \<and>
    (\<forall>f\<in>set fs. \<forall>y. bt_get m' (rf_name f) = Some y \<longrightarrow> g (rf_ty f) y = Some y)"
proof (induction fs arbitrary: m)
  case (Cons f fs)
  show ?case
  proof (cases "bt_get m (rf_name f)")
    case None
    with Cons.prems have "fit_fields g fs m = Some m'" "distinct (map rf_name fs)"
      "rf_name f \<notin> rf_name ` set fs" by auto
    with Cons.IH [of m] Cons.prems(2) None show ?thesis by auto
  next
    case (Some x)
    let ?k = "rf_name f"
    from Some Cons.prems(1) obtain y where y: "g (rf_ty f) x = Some y"
      "fit_fields g fs (bt_insert ?k y (bt_remove ?k m)) = Some m'"
      by (auto split: option.splits)
    have "(?k, x) \<in> set m" using Some by (rule map_of_SomeD)
    then have "wf_val x" using Cons.prems(2) by (auto simp: list_all_iff)
    then have wy: "wf_val y" "g (rf_ty f) y = Some y"
      using stable_onD [OF g [rule_format]] y(1) by blast+
    let ?m = "bt_insert ?k y (bt_remove ?k m)"
    have "bt_ok ?m" using Cons.prems(2) by (simp add: map_laws)
    moreover have "set ?m \<subseteq> insert (?k, y) (set m)"
      using set_bt_insert [of ?k y "bt_remove ?k m"] set_bt_remove [of ?k m] by blast
    ultimately have "wf_val (VRecord ?m)"
      using Cons.prems(2) wy(1) by (auto simp: list_all_iff)
    with Cons.IH [OF y(2)] Cons.prems(3)
    have IH: "wf_val (VRecord m')" "\<forall>k. k \<notin> rf_name ` set fs \<longrightarrow> bt_get m' k = bt_get ?m k"
      "\<forall>f\<in>set fs. \<forall>y. bt_get m' (rf_name f) = Some y \<longrightarrow> g (rf_ty f) y = Some y" by auto
    have get: "bt_get ?m = (bt_get m)(?k \<mapsto> y)"
      using Cons.prems(2) by (simp add: map_laws fun_eq_iff)
    have "?k \<notin> rf_name ` set fs" using Cons.prems(3) by auto
    with IH get wy(2) show ?thesis by auto
  qed
qed auto

lemma opt_map_stable:
  assumes "stable_on h" and "opt_map h xs = Some ys" and "list_all wf_val xs"
  shows "list_all wf_val ys \<and> opt_map h ys = Some ys"
  using assms(2,3)
proof (induction xs arbitrary: ys)
  case (Cons x xs)
  then obtain y zs where "h x = Some y" "opt_map h xs = Some zs" "ys = y # zs" "wf_val x" "list_all wf_val xs"
    by (auto split: option.splits)
  moreover from this have "wf_val y \<and> h y = Some y" using stable_onD [OF assms(1)] by blast
  ultimately show ?case using Cons.IH [of zs] by simp
qed simp

lemma fit_with_stable:
  assumes "\<forall>name. stable_on (nm name)"
  shows "stable_on (fit_with nm t)"
proof (induction t)
  case (TArray elem len)
  show ?case
  proof (rule stable_onI)
    fix v w assume "wf_val v" "fit_with nm (TArray elem len) v = Some w"
    then show "wf_val w \<and> fit_with nm (TArray elem len) w = Some w"
    proof (cases v)
      case (VArray xs)
      assume "wf_val v" "fit_with nm (TArray elem len) v = Some w"
      with VArray obtain ys where ys: "opt_map (fit_with nm elem) xs = Some ys" "list_all wf_val xs" "w = VArray ys"
        by auto
      have "list_all wf_val ys \<and> opt_map (fit_with nm elem) ys = Some ys"
        by (rule opt_map_stable [OF TArray ys(1,2)])
      with ys(3) show ?thesis by simp
    qed auto
  qed
next
  case (TNamed name)
  have "fit_with nm (TNamed name) = nm name" by (rule ext) simp
  with assms show ?case by simp
qed (auto intro!: stable_onI simp: narrow_idem_words split: val.splits)

lemma fit_named_stable:
  assumes "wf_records p" and g: "\<forall>t. stable_on (g t)"
  shows "stable_on (fit_named p g name)"
proof (cases "find_type p name")
  case None
  then show ?thesis by (intro stable_onI) (simp add: fit_named_def)
next
  case (Some t)
  show ?thesis
  proof (cases "td_body t")
    case (RecordBody nm fs)
    have "t \<in> set (all_types p)" using Some by (auto simp: find_type_eq dest: find_SomeD)
    then have d: "distinct (map rf_name fs)" using assms(1) RecordBody by (fastforce simp: wf_records_def)
    show ?thesis
    proof (rule stable_onI)
      fix v w assume v: "wf_val v" and w: "fit_named p g name v = Some w"
      show "wf_val w \<and> fit_named p g name w = Some w"
      proof (cases v)
        case (VRecord m)
        with w Some RecordBody obtain m' where m': "fit_fields g fs m = Some m'" "w = VRecord m'"
          by (auto simp: fit_named_def)
        from fit_fields_stable [OF g m'(1)] v VRecord d
        have "wf_val w" "\<forall>f\<in>set fs. \<forall>y. bt_get m' (rf_name f) = Some y \<longrightarrow> g (rf_ty f) y = Some y"
          by (auto simp: m'(2))
        moreover from this have "fit_fields g fs m' = Some m'"
          by (intro fit_fields_fixed) (auto simp: m'(2))
        ultimately show ?thesis using Some RecordBody m'(2) by (simp add: fit_named_def)
      qed (use v w Some RecordBody in \<open>auto simp: fit_named_def\<close>)
    qed
  next
    case (EnumBody e)
    with Some show ?thesis by (intro stable_onI) (simp add: fit_named_def)
  next
    case (AliasBody nm target)
    with Some have "fit_named p g name = g target" by (intro ext) (simp add: fit_named_def)
    with g show ?thesis by simp
  qed
qed

lemma fit_at_stable: "wf_records p \<Longrightarrow> stable_on (fit_at n p t)"
proof (induction n arbitrary: t)
  case 0
  have "stable_on (fit_with (\<lambda>_ _. None) t)" by (intro fit_with_stable allI stable_onI) simp
  then show ?case by simp
next
  case (Suc n)
  then have "stable_on (fit_with (fit_named p (fit_at n p)) t)"
    by (intro fit_with_stable allI fit_named_stable) auto
  then show ?case by simp
qed

lemma fit_to_stable:
  assumes "wf_records (cf_project cf)" and "wf_val v" and "fit_to cf t v = Some w"
  shows "fit_to cf t w = Some w"
  using stable_onD [OF fit_at_stable [OF assms(1)] assms(2)] assms(3) by (simp add: fit_to_def)

section \<open>Operators\<close>

lemma arith_neq_Err [simp]: "arith checks k w \<noteq> Err e"
  by (simp add: arith_def)

lemma arith_crash [simp]: "arith checks k w = Crash c \<Longrightarrow> c = ArithOverflow"
  by (auto simp: arith_def split: if_splits)

lemma arith_True_Ok: "arith True k w = Ok (VInt c) \<Longrightarrow> sint c = k"
  by (auto simp: arith_def split: if_splits)

text \<open>The mathematical result of an integer operator.\<close>

fun exact_result :: "bin_op \<Rightarrow> int \<Rightarrow> int \<Rightarrow> int option" where
  "exact_result BAdd a b = Some (a + b)"
| "exact_result BSub a b = Some (a - b)"
| "exact_result BMul a b = Some (a * b)"
| "exact_result BDiv a b = (if b = 0 then None else Some (tdiv a b))"
| "exact_result BMod a b = (if b = 0 then None else Some (tmod a b))"
| "exact_result _ a b = None"

lemma sint_bounds_i64: "- (2 ^ 63) \<le> sint (a :: i64) \<and> sint a < 2 ^ 63"
  using sint_greater_eq [of a] sint_less [of a] by simp

lemma sint_word_of_int_i64: "- (2 ^ 63) \<le> k \<Longrightarrow> k < 2 ^ 63 \<Longrightarrow> sint (word_of_int k :: i64) = k"
  by (simp add: signed_of_int signed_take_bit_int_eq_self)

lemma tmod_bounds:
  assumes "b \<noteq> 0"
  shows "\<bar>tmod a b\<bar> < \<bar>b\<bar>"
proof -
  have "0 \<le> \<bar>a\<bar> mod \<bar>b\<bar>" "\<bar>a\<bar> mod \<bar>b\<bar> < \<bar>b\<bar>" using assms by simp_all
  then show ?thesis by (auto simp: tmod_def abs_mult sgn_if)
qed

lemma eval_binary_exact:
  assumes "eval_binary True op (VInt a) (VInt b) = Ok (VInt c)"
    and "exact_result op (sint a) (sint b) = Some k"
  shows "sint c = k"
proof (cases op)
  case BMod
  with assms(2) have b: "sint b \<noteq> 0" "k = tmod (sint a) (sint b)" by (auto split: if_splits)
  have "\<bar>tmod (sint a) (sint b)\<bar> < 2 ^ 63"
  proof -
    from b(1) have "sint b \<noteq> 0" by simp
    then have "\<bar>tmod (sint a) (sint b)\<bar> < \<bar>sint b\<bar>" by (rule tmod_bounds)
    with sint_bounds_i64 [of b] show ?thesis by arith
  qed
  then have "sint (word_of_int (tmod (sint a) (sint b)) :: i64) = tmod (sint a) (sint b)"
    by (intro sint_word_of_int_i64) auto
  with assms(1) b BMod show ?thesis by (auto simp: eval_binary_def on_ints_def split: if_splits)
next
  case BDiv
  with assms show ?thesis
    by (auto simp: eval_binary_def on_ints_def dest!: arith_True_Ok split: if_splits)
qed (use assms in \<open>auto simp: eval_binary_def on_ints_def dest!: arith_True_Ok\<close>)

lemma eval_binary_crash: "eval_binary checks op l r = Crash c \<Longrightarrow> c = ArithOverflow"
  by (cases op)
    (auto simp: eval_binary_def real_binary_def on_bools_def on_ints_def Let_def
      split: option.splits val.splits if_splits prod.splits)

lemma eval_unary_crash: "eval_unary checks op v = Crash c \<Longrightarrow> c = ArithOverflow"
  by (auto simp: eval_unary_def split: unary_op.splits val.splits)

text \<open>The operands on which a release build, without overflow checks, still stops.\<close>

lemma sint_min_i64: "sint a = - (2 ^ 63) \<longleftrightarrow> a = min_i64"
proof -
  have "sint min_i64 = - (2 ^ 63)" by (simp add: min_i64_def)
  then show ?thesis by (metis signed_word_eqI)
qed

lemma sint_minus_one: "sint (b :: i64) = - 1 \<longleftrightarrow> b = - 1"
  by (metis signed_minus_1 signed_word_eqI)

lemma tdiv_overflow:
  fixes a b :: i64
  assumes "sint (word_of_int (tdiv (sint a) (sint b)) :: i64) \<noteq> tdiv (sint a) (sint b)" and "b \<noteq> 0"
  shows "a = min_i64 \<and> b = - 1"
proof -
  note ba = sint_bounds_i64 [of a]
  have out: "\<not> (- (2 ^ 63) \<le> tdiv (sint a) (sint b) \<and> tdiv (sint a) (sint b) < 2 ^ 63)"
    using assms(1) sint_word_of_int_i64 by blast
  have b0: "sint b \<noteq> 0" using assms(2) by (metis signed_eq_0_iff)
  have "\<not> 2 \<le> \<bar>sint b\<bar>"
  proof
    assume two: "2 \<le> \<bar>sint b\<bar>"
    have "\<bar>sint a\<bar> div \<bar>sint b\<bar> \<le> \<bar>sint a\<bar> div 2"
      using two by (intro zdiv_mono2) auto
    also have "\<dots> \<le> 2 ^ 62" using ba by auto
    finally have "\<bar>tdiv (sint a) (sint b)\<bar> \<le> 2 ^ 62"
      using two by (auto simp: tdiv_def abs_mult sgn_if pos_imp_zdiv_nonneg_iff)
    with out show False by auto
  qed
  with b0 have "sint b = 1 \<or> sint b = - 1" by auto
  moreover have "sint b \<noteq> 1" using out ba by (auto simp: tdiv_def sgn_mult_abs)
  moreover have "sint a = - (2 ^ 63)" if "sint b = - 1"
    using out ba that by (auto simp: tdiv_def sgn_if split: if_splits)
  ultimately show ?thesis using sint_min_i64 [of a] sint_minus_one [of b] by blast
qed

lemma tdiv_min: "sint (word_of_int (tdiv (sint min_i64) (sint (- 1 :: i64))) :: i64)
    \<noteq> tdiv (sint min_i64) (sint (- 1 :: i64))"
  by (simp add: min_i64_def tdiv_def sgn_if)

lemma eval_binary_release_crash:
  "eval_binary False op l r = Crash c \<longleftrightarrow>
     c = ArithOverflow \<and> op \<in> {BDiv, BMod} \<and> l = VInt min_i64 \<and> r = VInt (- 1)"
proof (cases "\<exists>a b. l = VInt a \<and> r = VInt b")
  case True
  then obtain a b where lr: "l = VInt a" "r = VInt b" by blast
  show ?thesis
  proof (cases op)
    case BDiv
    then show ?thesis using lr tdiv_overflow [of a b] tdiv_min
      by (auto simp: eval_binary_def on_ints_def arith_def)
  next
    case BMod
    then show ?thesis using lr by (auto simp: eval_binary_def on_ints_def)
  qed (use lr in \<open>auto simp: eval_binary_def on_ints_def on_bools_def arith_def\<close>)
next
  case False
  then have "eval_binary False op l r \<noteq> Crash c"
    by (cases op)
      (auto simp: eval_binary_def real_binary_def on_bools_def on_ints_def Let_def
        split: option.splits val.splits if_splits prod.splits)
  with False show ?thesis by auto
qed

end
