(* ===== verification/Sim_Laws.thy ===== *)
theory Sim_Laws
  imports Sim Value_Laws
begin

text \<open>
  Laws of the interpreter. The locale \<open>sim_invariant\<close> states what a relation between the context
  before a computation, its outcome and the context after it must satisfy to hold of every
  evaluation, call and cycle; its interpretations show that an evaluation leaves the instance's
  own state alone, that it reaches no \<open>unreachable!()\<close> and exhausts no stack when calls and types
  do not recur, and that coverage data only grows.
\<close>

section \<open>The callees of an expression\<close>

fun callee_name :: "expr \<Rightarrow> string option" where
  "callee_name (Call node args) = Some node"
| "callee_name (Iterate kind node init arrays) = Some node"
| "callee_name _ = None"

definition callees :: "project \<Rightarrow> expr \<Rightarrow> node_def set" where
  "callees p e = {m. \<exists>x\<in>set (visit e). \<exists>f. callee_name x = Some f \<and> find_node p f = Some m}"

lemma callees_child: "c \<in> set (children e) \<Longrightarrow> callees p c \<subseteq> callees p e"
  by (auto simp: callees_def intro: visit_child)

lemma callees_self: "callee_name e = Some f \<Longrightarrow> find_node p f = Some m \<Longrightarrow> m \<in> callees p e"
  by (auto simp: callees_def)

section \<open>Invariants of evaluations\<close>

abbreviation flag :: "'a outcome \<Rightarrow> unit outcome" where
  "flag \<equiv> map_outcome (\<lambda>_. ())"

text \<open>
  What the defaults and conversions of a run need so that they do not exhaust the stack.
\<close>

definition types_fit :: "config \<Rightarrow> bool" where
  "types_fit cf \<longleftrightarrow> (\<forall>t. default_value cf t \<noteq> None \<and> (\<forall>v. fit_to cf t v \<noteq> None))"

text \<open>
  \<open>T v r w\<close> relates the coverage before, the outcome without its value, and the coverage after;
  \<open>K\<close> is the set of crashes that the computation must avoid, \<open>cf\<close> the run's configuration.
\<close>

locale sim_invariant =
  fixes T :: "coverage option \<Rightarrow> unit outcome \<Rightarrow> coverage option \<Rightarrow> bool"
    and K :: "crash set"
    and cf :: config
  assumes T_pure: "(\<And>k. r = Crash k \<Longrightarrow> k \<notin> K) \<Longrightarrow> T v r v"
    and T_trans: "T v (Ok ()) w \<Longrightarrow> T w r x \<Longrightarrow> T v r x"
    and T_mark: "T (Some cov) (Ok ()) (Some (cov_mark a b cov))"
    and T_record: "T (Some cov) (Ok ()) (Some (cov_record_trial a obs b cov))"
    and T_crash: "T None (Crash k) w \<Longrightarrow> T v (Crash k) v"
    and K_sub: "K \<subseteq> {StackOverflow, Unreachable}"
    and K_types: "StackOverflow \<in> K \<Longrightarrow> types_fit cf"
begin

definition sat :: "'a sim \<Rightarrow> bool" where
  "sat m \<longleftrightarrow> (\<forall>c. T (cx_cov c) (flag (fst (m c))) (cx_cov (snd (m c))))"

definition good :: "'a sim \<Rightarrow> bool" where
  "good m \<longleftrightarrow> sat m \<and> (\<forall>c. cx_state (snd (m c)) = cx_state c)"

definition allowed :: "'a outcome \<Rightarrow> bool" where
  "allowed r \<longleftrightarrow> (\<forall>k\<in>K. r \<noteq> Crash k)"

lemma good_sat: "good m \<Longrightarrow> sat m"
  by (simp add: good_def)

lemma T_refl: "T v (Ok ()) v"
  by (rule T_pure) simp

lemma sat_lift: "allowed r \<Longrightarrow> sat (slift r)"
  by (cases r) (auto simp: sat_def allowed_def intro!: T_pure)

lemma good_lift [intro]: "allowed r \<Longrightarrow> good (slift r)"
  by (simp add: good_def sat_lift)

lemma good_return [intro, simp]: "good (sreturn x)"
  by (simp add: good_def sat_def T_refl)

lemma good_get [intro, simp]: "good (sget f)"
  by (simp add: good_def sat_def T_refl)

lemma good_fail [intro, simp]: "good (sfail m)"
  unfolding sfail_def by (rule good_lift) (simp add: allowed_def)

lemma sat_bind:
  assumes "sat m" and "\<And>x. sat (f x)"
  shows "sat (sbind m f)"
  unfolding sat_def
proof
  fix c
  obtain r d where m: "m c = (r, d)" by force
  have T: "T (cx_cov c) (flag r) (cx_cov d)" using assms(1) m by (auto simp: sat_def dest: spec [of _ c])
  show "T (cx_cov c) (flag (fst (sbind m f c))) (cx_cov (snd (sbind m f c)))"
  proof (cases r)
    case (Ok x)
    have "T (cx_cov d) (flag (fst (f x d))) (cx_cov (snd (f x d)))" using assms(2) by (simp add: sat_def)
    with T Ok m show ?thesis by (auto simp: sbind_app intro: T_trans)
  qed (use T m in \<open>auto simp: sbind_app\<close>)
qed

lemma good_bind [intro]:
  assumes "good m" and "\<And>x. good (f x)"
  shows "good (sbind m f)"
proof -
  have "sat (sbind m f)" using assms by (intro sat_bind) (auto simp: good_def)
  moreover have "cx_state (snd (sbind m f c)) = cx_state c" for c
  proof -
    obtain r d where m: "m c = (r, d)" by force
    have "cx_state (snd (m c)) = cx_state c" using assms(1) by (simp add: good_def)
    with m have "cx_state d = cx_state c" by simp
    moreover have "cx_state (snd (f x d)) = cx_state d" for x using assms(2) by (simp add: good_def)
    ultimately show ?thesis using m by (cases r) (auto simp: sbind_app)
  qed
  ultimately show ?thesis by (simp add: good_def)
qed

lemma good_map: "(\<And>x. x \<in> set xs \<Longrightarrow> good (f x)) \<Longrightarrow> good (smap f xs)"
  by (induction xs) auto

lemma sat_fold: "(\<And>x s. x \<in> set xs \<Longrightarrow> sat (f x s)) \<Longrightarrow> sat (sfold f xs s)"
proof (induction xs arbitrary: s)
  case Nil
  show ?case by (simp add: sat_def T_refl)
next
  case (Cons x xs)
  then show ?case by (auto intro!: sat_bind)
qed

lemma good_fold: "(\<And>x s. x \<in> set xs \<Longrightarrow> good (f x s)) \<Longrightarrow> good (sfold f xs s)"
  by (induction xs arbitrary: s) auto

lemma good_update:
  "(\<And>cov. T (Some cov) (Ok ()) (Some (f cov))) \<Longrightarrow> good (update_coverage f)"
  unfolding good_def sat_def update_coverage_def
proof (intro conjI allI)
  fix c assume f: "\<And>cov. T (Some cov) (Ok ()) (Some (f cov))"
  show "T (cx_cov c) (flag (fst (smodify (\<lambda>c. c\<lparr>cx_cov := map_option f (cx_cov c)\<rparr>) c)))
      (cx_cov (snd (smodify (\<lambda>c. c\<lparr>cx_cov := map_option f (cx_cov c)\<rparr>) c)))"
    by (cases "cx_cov c") (auto simp: T_refl f)
qed simp

lemma good_note_decision: "good (note_decision a b obs)"
  unfolding note_decision_def
  by (intro good_bind good_return good_update) (blast intro: T_trans T_mark T_record)

lemma good_discarded: "sat m \<Longrightarrow> (\<And>c. cx_state (snd (m c)) = cx_state c) \<Longrightarrow> good (discarded m)"
  unfolding good_def
proof (intro conjI allI)
  assume m: "sat m" and st: "\<And>c. cx_state (snd (m c)) = cx_state c"
  show "cx_state (snd (discarded m c)) = cx_state c" for c
    using st [of "c\<lparr>cx_cov := None\<rparr>"]
    by (auto simp: discarded_def split: prod.splits outcome.splits)
  show "sat (discarded m)"
    unfolding sat_def
  proof
    fix c
    obtain r d where rd: "m (c\<lparr>cx_cov := None\<rparr>) = (r, d)" by force
    have "T None (flag r) (cx_cov d)"
      using m rd by (auto simp: sat_def dest: spec [of _ "c\<lparr>cx_cov := None\<rparr>"])
    then show "T (cx_cov c) (flag (fst (discarded m c))) (cx_cov (snd (discarded m c)))"
      using rd by (cases r) (auto simp: discarded_def T_refl intro: T_crash)
  qed
qed

lemma good_discard [intro]: "good m \<Longrightarrow> good (discarded m)"
  by (rule good_discarded) (auto simp: good_def)

lemma good_fresh [intro]: "sat m \<Longrightarrow> good (with_fresh_state m)"
  unfolding good_def sat_def
proof (intro conjI allI)
  fix c assume m: "\<forall>c. T (cx_cov c) (flag (fst (m c))) (cx_cov (snd (m c)))"
  show "T (cx_cov c) (flag (fst (with_fresh_state m c))) (cx_cov (snd (with_fresh_state m c)))"
    using m [rule_format, of "c\<lparr>cx_state := default_inst\<rparr>"]
    by (auto simp: with_fresh_state_def split: prod.splits)
qed (auto simp: with_fresh_state_def split: prod.splits)

lemma good_isolated [intro]: "sat m \<Longrightarrow> good (isolated m)"
  unfolding good_def sat_def
proof (intro conjI allI)
  fix c assume m: "\<forall>c. T (cx_cov c) (flag (fst (m c))) (cx_cov (snd (m c)))"
  show "T (cx_cov c) (flag (fst (isolated m c))) (cx_cov (snd (isolated m c)))"
    using m [rule_format, of "c\<lparr>cx_state := default_inst, cx_calls := Map.empty\<rparr>"]
    by (auto simp: isolated_def split: prod.splits)
qed (auto simp: isolated_def split: prod.splits)

lemma good_instance [intro]: "(\<And>st. sat (body st)) \<Longrightarrow> good (in_instance key body)"
  unfolding good_def
proof (intro conjI allI)
  assume body: "\<And>st. sat (body st)"
  show "sat (in_instance key body)"
    unfolding sat_def
  proof
    fix c :: ctx
    define sub where "sub = (case cx_calls c key of None \<Rightarrow> default_inst | Some s \<Rightarrow> s)"
    define own where "own = Inst (in_cycle sub) (in_prev sub) (in_ticks sub) Map.empty"
    obtain r d where rd: "body own \<lparr>cx_state = own, cx_calls = in_calls sub, cx_cov = cx_cov c\<rparr> = (r, d)"
      by force
    have "T (cx_cov c) (flag r) (cx_cov d)"
      using body [of own] rd unfolding sat_def
      by (auto dest: spec [of _ "\<lparr>cx_state = own, cx_calls = in_calls sub, cx_cov = cx_cov c\<rparr>"])
    then show "T (cx_cov c) (flag (fst (in_instance key body c))) (cx_cov (snd (in_instance key body c)))"
      using rd by (cases r) (simp_all add: in_instance_def Let_def sub_def [symmetric] own_def [symmetric])
  qed
qed (auto simp: in_instance_def Let_def split: prod.splits outcome.splits)

subsection \<open>Pure steps\<close>

lemma allowed_simps [simp]: "allowed (Ok x)" "allowed (Err e)" "allowed (eval_err m)"
  by (simp_all add: allowed_def)

lemma allowed_obind: "allowed r \<Longrightarrow> (\<And>x. r = Ok x \<Longrightarrow> allowed (f x)) \<Longrightarrow> allowed (obind r f)"
  by (cases r) (auto simp: allowed_def)

lemma allowed_overflow: "allowed (Crash ArithOverflow)" "allowed (Crash IndexPanic)"
  using K_sub by (auto simp: allowed_def)

lemma allowed_binary: "allowed (eval_binary checks op v w)"
  unfolding allowed_def using eval_binary_crash [of checks op v w] allowed_overflow(1)
  by (metis allowed_def)

lemma allowed_unary: "allowed (eval_unary checks op v)"
  unfolding allowed_def using eval_unary_crash [of checks op v] allowed_overflow(1)
  by (metis allowed_def)

lemma allowed_cast: "allowed (cast_value t v)"
  by (auto simp: cast_value_def Let_def split: val.split)

lemma allowed_fit: "allowed (or_overflow (fit_to cf t v))"
proof (cases "fit_to cf t v")
  case None
  then have "StackOverflow \<notin> K" using K_types unfolding types_fit_def by blast
  with None show ?thesis by (auto simp: allowed_def)
qed simp

lemma allowed_default: "allowed (or_overflow (default_value cf t))"
proof (cases "default_value cf t")
  case None
  then have "StackOverflow \<notin> K" using K_types unfolding types_fit_def by blast
  with None show ?thesis by (auto simp: allowed_def)
qed simp

lemma allowed_seed_inputs: "allowed (seed_inputs cf pvs env)"
  by (induction pvs arbitrary: env) (auto intro!: allowed_obind allowed_fit)

lemma allowed_seed_defaults: "allowed (seed_defaults cf nts env)"
  by (induction nts arbitrary: env) (auto intro!: allowed_obind allowed_default)

lemma allowed_seed: "allowed (seed_env cf callee args cs)"
  unfolding seed_env_def by (intro allowed_obind allowed_seed_inputs allowed_seed_defaults)

lemma allowed_store: "allowed (store cf node n v env)"
  by (auto simp: store_def split: option.split intro!: allowed_obind allowed_fit)

lemma allowed_store_all: "allowed (store_all cf node nvs env)"
  by (induction nvs arbitrary: env) (auto intro!: allowed_obind allowed_store)

lemma allowed_bind_lhs: "allowed (bind_lhs cf eq v node env)"
  by (auto simp: bind_lhs_def allowed_store allowed_store_all split: list.split val.split)

lemma allowed_clock_active: "allowed (clock_active ck env)"
proof -
  have "allowed (active_conditions cs env)" for cs
    by (induction cs) (auto split: option.split val.split)
  then show ?thesis by (simp add: clock_active_def)
qed

lemma allowed_order: "allowed (callee_order callee)"
  by (simp add: callee_order_def split: sum.split)

lemmas allowed_pure =
  allowed_binary allowed_unary allowed_cast allowed_seed allowed_bind_lhs allowed_clock_active
  allowed_order

lemma good_bind_lift:
  "allowed r \<Longrightarrow> (\<And>x. r = Ok x \<Longrightarrow> good (f x)) \<Longrightarrow> good (sbind (slift r) f)"
  by (cases r) (auto simp: good_def sat_def sbind_app allowed_def intro!: T_pure)

subsection \<open>Equations and instances\<close>

definition good_body :: "evaluator \<Rightarrow> node_def \<Rightarrow> bool" where
  "good_body ev node \<longleftrightarrow> (\<forall>eq\<in>set (nd_equations node). \<forall>a env sc. good (ev (eq_rhs eq) a env sc))"

lemma good_run:
  assumes "good_body ev node" and "set order \<subseteq> {..<length (nd_equations node)}"
  shows "good (run_equations cf ev mk node eq_clocks sc order env)"
  unfolding run_equations_def
proof (rule good_fold)
  fix i env assume "i \<in> set order"
  with assms(2) have "nd_equations node ! i \<in> set (nd_equations node)" by auto
  with assms(1) have "\<And>env. good (ev (eq_rhs (nd_equations node ! i)) (root_addr (mk i)) env sc)"
    unfolding good_body_def by blast
  then show "good (run_equation cf ev mk node eq_clocks sc i env)"
    unfolding run_equation_def Let_def
    by (intro good_bind good_lift) (auto simp: allowed_pure intro!: good_bind)
qed

lemma sat_finish: "sat (finish_cycle chs env)"
proof -
  have modify: "sat (smodify (\<lambda>c. c\<lparr>cx_state := h (cx_state c)\<rparr>))" for h
    by (simp add: sat_def T_refl)
  have "sat (tick_chain env ck u)" for ck u
    unfolding tick_chain_def
    by (intro sat_bind sat_lift allowed_clock_active) (auto simp: modify good_sat)
  then show ?thesis unfolding finish_cycle_def by (intro sat_bind sat_fold modify)
qed

lemma callee_order_set: "callee_order node = Ok order \<Longrightarrow> set order = {..<length (nd_equations node)}"
  by (auto simp: callee_order_def eval_err_def schedule_def split: sum.splits dest!: evaluation_order_schedule)

lemma good_step_instance:
  assumes "good_body ev callee" and "nd_kind callee \<noteq> Imported \<or> Unreachable \<notin> K"
  shows "good (step_instance cf ev mk key callee args cs)"
  unfolding step_instance_def
proof (intro good_bind_lift allowed_seed allowed_order)
  fix env order assume "callee_order callee = Ok order"
  then have run: "good (run_equations cf ev mk callee eq_clocks sc order env)" for eq_clocks sc env
    by (intro good_run assms(1)) (simp add: callee_order_set)
  show "good (let ci = node_clocks mk callee;
         run = run_equations cf ev mk callee (equation_clocks ci) (site_map ci) order
     in case nd_kind callee of
          Function \<Rightarrow> with_fresh_state (sbind (run env) (\<lambda>env'. sreturn (extract_output callee env')))
        | Operator \<Rightarrow>
            in_instance key (\<lambda>st.
              sbind (run (reseed callee st env)) (\<lambda>env'.
              sbind (finish_cycle (chains ci) env') (\<lambda>_.
              sreturn (extract_output callee env'))))
        | Imported \<Rightarrow> slift (Crash Unreachable))"
  proof (cases "nd_kind callee")
    case Function
    have "good (sbind (run_equations cf ev mk callee eq_clocks sc order env)
        (\<lambda>env'. sreturn (extract_output callee env')))" for eq_clocks sc
      by (intro good_bind run good_return)
    then show ?thesis using Function good_sat by (auto simp: Let_def)
  next
    case Operator
    have "sat (sbind (run_equations cf ev mk callee eq_clocks sc order env)
        (\<lambda>env'. sbind (finish_cycle chs env') (\<lambda>_. sreturn (extract_output callee env'))))"
      for eq_clocks sc chs env
      by (intro sat_bind sat_finish good_sat [OF run] good_sat [OF good_return])
    then show ?thesis using Operator by (auto simp: Let_def)
  next
    case Imported
    with assms(2) show ?thesis by (auto simp: Let_def allowed_def)
  qed
qed

lemma good_call_values:
  assumes "good_body ev callee"
  shows "good (call_function_values cf ev mk callee args cs)"
proof -
  have "good (sbind (run_equations cf ev mk callee [] None order env)
      (\<lambda>env'. sreturn (extract_output callee env')))" if "callee_order callee = Ok order" for order env
    using that by (intro good_bind good_run assms good_return) (simp add: callee_order_set)
  then show ?thesis
    unfolding call_function_values_def
    by (cases "length args = length (nd_inputs callee)")
      (simp_all add: good_bind_lift allowed_seed allowed_order good_isolated good_sat)
qed

subsection \<open>Expressions\<close>

lemma good_iterator:
  assumes "good_body ev callee" and "\<And>s. seed = Some s \<Longrightarrow> good s"
  shows "good (run_iterator cf ev kind callee arrs seed env)"
proof -
  have call: "good (call_function_values cf ev (EquationRoot (nd_name callee)) callee args cs)"
    for args cs by (rule good_call_values [OF assms(1)])
  have crash: "good (slift (Crash IndexPanic))" by (rule good_lift) (rule allowed_overflow)
  show ?thesis
    using assms(2) unfolding run_iterator_def Let_def
    by (auto split: iter_kind.split option.split list.split
        intro!: good_bind good_map good_fold call crash)
qed

lemma good_condact_keep: "good (condact_keep key v)"
  by (simp add: condact_keep_def good_def sat_def Let_def T_refl)

lemma good_condact_held: "good (condact_held key)"
  by (simp add: condact_held_def)

definition good_calls :: "evaluator \<Rightarrow> expr \<Rightarrow> bool" where
  "good_calls ev e \<longleftrightarrow> (\<forall>callee\<in>callees (cf_project cf) e. good_body ev callee)"

lemma good_calls_child: "good_calls ev e \<Longrightarrow> c \<in> set (children e) \<Longrightarrow> good_calls ev c"
  using callees_child by (fastforce simp: good_calls_def)

lemma good_call_node:
  assumes calls: "good_calls ev (Call node args)" and args: "\<And>i x. x \<in> set args \<Longrightarrow> good (eval cf ev x (child a i) env sc)"
  shows "good (eval cf ev (Call node args) a env sc)"
proof -
  have items: "good (smap (\<lambda>(i, x). eval cf ev x (child a i) env sc) ixs)"
    if "snd ` set ixs \<subseteq> set args" for ixs
    using that by (auto intro!: good_map args)
  have all: "snd ` set (enumerate 0 args) \<subseteq> set args" by (auto simp: in_set_enumerate_eq)
  have rest: "snd ` set (drop 2 (enumerate 0 args)) \<subseteq> set args"
    using all by (auto dest!: in_set_dropD)
  show ?thesis
  proof (cases "node = condact \<and> find_node (cf_project cf) node = None")
    case True
    have "good (eval cf ev (args ! 0) (child a 0) env sc)" "good (eval cf ev (args ! 1) (child a 1) env sc)"
      if "\<not> length args < 2" using that by (auto intro!: args nth_mem)
    then show ?thesis using True items [OF rest]
      by (auto split: option.split intro!: good_bind good_condact_keep good_condact_held)
  next
    case False
    have "good (sbind (slift (called_node (cf_project cf) node (length args))) (\<lambda>callee.
        sbind (smap (\<lambda>(i, x). eval cf ev x (child a i) env sc) (enumerate 0 args)) (\<lambda>vs.
        step_instance cf ev (EquationRoot (nd_name callee)) a callee vs env)))"
    proof (rule good_bind_lift)
      show "allowed (called_node (cf_project cf) node (length args))"
        by (auto simp: called_node_def split: option.split)
      fix callee assume "called_node (cf_project cf) node (length args) = Ok callee"
      then have c: "find_node (cf_project cf) node = Some callee" "nd_kind callee \<noteq> Imported"
        by (auto simp: called_node_def split: option.splits if_splits)
      then have "good_body ev callee"
        using calls callees_self [of "Call node args"] by (auto simp: good_calls_def)
      with c show "good (sbind (smap (\<lambda>(i, x). eval cf ev x (child a i) env sc) (enumerate 0 args)) (\<lambda>vs.
          step_instance cf ev (EquationRoot (nd_name callee)) a callee vs env))"
        by (intro good_bind items all good_step_instance) auto
    qed
    then show ?thesis unfolding eval.simps(11) if_not_P [OF False] .
  qed
qed

lemma good_eval_decision:
  assumes leaf: "good (eval cf ev e a env sc)"
    and kids: "\<And>c i obs. c \<in> set (children e) \<Longrightarrow> good (eval_decision cf ev c (child a i) env sc obs)"
  shows "good (eval_decision cf ev e a env sc obs)"
proof -
  let ?leaf = "sbind (eval cf ev e a env sc) (\<lambda>v.
      sbind (slift (decision_result v)) (\<lambda>b. sreturn (b, obs(a \<mapsto> b))))"
  have l: "good ?leaf"
    by (intro good_bind leaf good_lift good_return) (auto simp: decision_result_def split: val.split)
  show ?thesis
  proof (cases e)
    case (Binary op x y)
    then show ?thesis using l kids eval_decision.simps [of cf ev e]
      by (cases "connective op") (auto simp: split_beta intro!: good_bind)
  next
    case (Unary op x)
    then show ?thesis using l kids eval_decision.simps [of cf ev e]
      by (cases "op = UNot") (auto simp: split_beta intro!: good_bind)
  qed (use l eval_decision.simps [of cf ev e] in \<open>simp_all\<close>)
qed

lemma good_eval: 
  "good_calls ev e \<Longrightarrow> good (eval cf ev e a env sc) \<and> good (eval_decision cf ev e a env sc obs)"
proof (induction e arbitrary: a obs rule: expr_children_induct)
  case (step e)
  have IH: "good (eval cf ev c b env sc)" "good (eval_decision cf ev c b env sc obs)"
    if "c \<in> set (children e)" for c b obs
    using step.IH [OF that] good_calls_child [OF step.prems that] by blast+
  have items: "good (smap (\<lambda>(i, x). eval cf ev x (child a i) env sc) (enumerate n xs))"
    if "set xs \<subseteq> set (children e)" for n xs
    using that by (auto intro!: good_map IH dest!: enumerate_item)
  have e: "good (eval cf ev e a env sc)"
  proof (cases e)
    case (Call node args)
    show ?thesis
      unfolding Call
    proof (rule good_call_node)
      show "good_calls ev (Call node args)" using step.prems Call by simp
      show "good (eval cf ev x (child a i) env sc)" if "x \<in> set args" for i x
        using that Call by (intro IH) simp
    qed
  next
    case (Var name)
    then show ?thesis by (auto simp: eval_var_def split: option.split intro!: good_lift)
  next
    case (Unary op x)
    then show ?thesis by (auto intro!: good_bind IH good_lift allowed_pure)
  next
    case (Binary op l r)
    then show ?thesis by (auto intro!: good_bind IH good_lift allowed_pure)
  next
    case (IfThenElse c t f)
    have cond: "good (if covered then
              sbind (eval_decision cf ev c (child a 0) env sc Map.empty)
                (\<lambda>(outcome, obs). note_decision (child a 0) outcome obs)
            else sbind (eval cf ev c (child a 0) env sc) (\<lambda>v. slift (cond_result v)))" for covered
      using IfThenElse
      by (auto simp: cond_result_def split: val.split
          intro!: good_bind IH good_lift good_note_decision)
    have br: "good (eval cf ev t b env sc)" "good (eval cf ev f b env sc)" for b
      using IfThenElse by (auto intro!: IH)
    show ?thesis
      unfolding IfThenElse eval.simps(5) Let_def
      by (intro good_bind cond good_get) (auto intro!: good_bind br)
  next
    case (Pre x)
    show ?thesis
      unfolding Pre eval.simps(6) eval_pre_def
      by (intro good_bind good_get) (auto split: expr.split option.split)
  next
    case (Arrow i b)
    have br: "good (eval cf ev i x env sc)" "good (eval cf ev b x env sc)" for x
      using Arrow by (auto intro!: IH)
    show ?thesis
      unfolding Arrow eval.simps(7) Let_def
      by (intro good_bind good_get) (auto intro!: good_bind br)
  next
    case (Merge clock t f)
    then show ?thesis by (auto split: option.split val.split intro!: good_bind IH)
  next
    case (Cast t x)
    then show ?thesis by (auto intro!: good_bind IH good_lift allowed_pure)
  next
    case (Field b f)
    then show ?thesis
      by (auto simp: select_field_def split: val.split option.split intro!: good_bind IH good_lift)
  next
    case (Index b i)
    have "allowed (select_index bv iv)" for bv iv
      by (auto simp: select_index_def split: val.split option.split)
    with Index show ?thesis by (auto intro!: good_bind IH good_lift)
  next
    case (Struct t fis)
    then show ?thesis using items [of "map snd fis" 0] by (auto intro!: good_bind)
  next
    case (Iterate kind node init arrays)
    have sub: "set arrays \<subseteq> set (children e)" using Iterate by (auto split: option.split)
    have arr: "good (smap (\<lambda>(i, x). sbind (eval cf ev x (child a i) env sc) (\<lambda>v. slift (as_array v)))
        (enumerate k arrays))" for k
      using sub by (auto simp: as_array_def split: val.split
          intro!: good_map good_bind IH good_lift dest!: enumerate_item)
    have seed: "good s" if "(case init of None \<Rightarrow> None | Some s \<Rightarrow> Some (eval cf ev s (child a 0) env sc)) = Some s" for s
      using that Iterate by (auto split: option.splits intro!: IH)
    show ?thesis
      unfolding Iterate eval.simps(17) Let_def
    proof (rule good_bind_lift)
      show "allowed (iterated_callee (cf_project cf) node)"
        by (auto simp: iterated_callee_def split: option.split)
      fix callee assume "iterated_callee (cf_project cf) node = Ok callee"
      then have "callee \<in> callees (cf_project cf) e"
        using Iterate callees_self [of e node]
        by (auto simp: iterated_callee_def split: option.splits if_splits)
      then have "good_body ev callee" using step.prems by (simp add: good_calls_def)
      then show "good (sbind (smap (\<lambda>(i, x). sbind (eval cf ev x (child a i) env sc) (\<lambda>v. slift (as_array v)))
              (enumerate (case init of None \<Rightarrow> 0 | Some x \<Rightarrow> 1) arrays))
          (\<lambda>arrs. run_iterator cf ev kind callee arrs
             (case init of None \<Rightarrow> None | Some s \<Rightarrow> Some (eval cf ev s (child a 0) env sc)) env))"
        by (intro good_bind arr good_iterator seed)
    qed
  qed (use items [of _ 0] in \<open>auto intro!: good_bind IH\<close>)
  then have "good (eval_decision cf ev e a env sc obs)" by (rule good_eval_decision) (rule IH)
  with e show ?case ..
qed

lemma good_eq_rhs: "good_calls ev e \<Longrightarrow> good (eval_eq_rhs cf ev e a env sc)"
  unfolding eval_eq_rhs_def
proof (intro good_bind good_get)
  fix is_root assume calls: "good_calls ev e"
  note e = conjunct1 [OF good_eval [OF calls]] and d = conjunct2 [OF good_eval [OF calls]]
  show "good (if is_root then
         sbind (eval_decision cf ev e a env sc Map.empty) (\<lambda>(outcome, obs).
         sbind (update_coverage (cov_record_trial a obs outcome)) (\<lambda>_.
         sreturn (VBool outcome)))
       else eval cf ev e a env sc)"
    by (cases is_root) (simp_all add: e good_bind d good_update T_record split_beta)
qed

end

end
