(* ===== verification/Sim_Safety.thy ===== *)
theory Sim_Safety
  imports Sim_Laws
begin

text \<open>
  What no run of the simulator does: reach \<open>unreachable!()\<close>, exhaust the stack when calls and types
  do not recur, lose coverage data, or touch an instance's state from inside an expression.
\<close>

section \<open>Types that do not recur\<close>

fun ty_names :: "ty \<Rightarrow> string set" where
  "ty_names (TNamed name) = {name}"
| "ty_names (TArray elem len) = ty_names elem"
| "ty_names _ = {}"

definition body_names :: "type_body \<Rightarrow> string set" where
  "body_names b =
     (case b of
        EnumBody e \<Rightarrow> {}
      | RecordBody _ fs \<Rightarrow> (\<Union>f\<in>set fs. ty_names (rf_ty f))
      | AliasBody _ target \<Rightarrow> ty_names target)"

definition below :: "project \<Rightarrow> (string \<Rightarrow> nat) \<Rightarrow> string set \<Rightarrow> nat \<Rightarrow> bool" where
  "below p tr names n \<longleftrightarrow> (\<forall>name\<in>names. \<forall>u. find_type p name = Some u \<longrightarrow> tr (td_name u) < n)"

definition ranked_types :: "project \<Rightarrow> (string \<Rightarrow> nat) \<Rightarrow> bool" where
  "ranked_types p tr \<longleftrightarrow> (\<forall>t\<in>set (all_types p). below p tr (body_names (td_body t)) (tr (td_name t)))"

lemma find_type_in: "find_type p name = Some t \<Longrightarrow> t \<in> set (all_types p)"
  by (auto simp: find_type_eq dest: find_SomeD)

lemma default_with_Some:
  "(\<And>name. name \<in> ty_names t \<Longrightarrow> nm name \<noteq> None) \<Longrightarrow> default_with nm t \<noteq> None"
  by (induction nm t rule: default_with.induct) auto

lemma default_record_Some:
  "(\<And>f. f \<in> set fs \<Longrightarrow> d (rf_ty f) \<noteq> None) \<Longrightarrow> default_record d fs m \<noteq> None"
  by (induction fs arbitrary: m) (auto split: option.split)

lemma opt_map_Some: "(\<And>x. x \<in> set xs \<Longrightarrow> f x \<noteq> None) \<Longrightarrow> opt_map f xs \<noteq> None"
  by (induction xs) (auto split: option.split)

lemma fit_with_Some:
  "(\<And>name w. name \<in> ty_names t \<Longrightarrow> nm name w \<noteq> None) \<Longrightarrow> fit_with nm t v \<noteq> None"
proof (induction nm t v rule: fit_with.induct)
  case (5 nm elem len v)
  show ?case
  proof (cases v)
    case (VArray xs)
    have "opt_map (fit_with nm elem) xs \<noteq> None"
      using 5 VArray by (intro opt_map_Some) force
    with VArray show ?thesis by auto
  qed auto
qed auto

lemma fit_fields_Some:
  "(\<And>f x. f \<in> set fs \<Longrightarrow> g (rf_ty f) x \<noteq> None) \<Longrightarrow> fit_fields g fs m \<noteq> None"
proof (induction fs arbitrary: m)
  case (Cons f fs)
  show ?case
  proof (cases "bt_get m (rf_name f)")
    case None
    then show ?thesis using Cons.IH [of m] Cons.prems by simp
  next
    case (Some x)
    obtain y where "g (rf_ty f) x = Some y" using Cons.prems [of f x] by auto
    with Some show ?thesis
      using Cons.IH [of "bt_insert (rf_name f) y (bt_remove (rf_name f) m)"] Cons.prems by simp
  qed
qed simp

lemma default_at_Some:
  assumes "ranked_types p tr"
  shows "below p tr (ty_names t) n \<Longrightarrow> default_at (Suc n) p t \<noteq> None"
proof (induction n arbitrary: t)
  case 0
  then have "find_type p name = None" if "name \<in> ty_names t" for name
    using that by (auto simp: below_def)
  then show ?case by (simp only: default_at.simps) (rule default_with_Some, simp add: default_named_def)
next
  case (Suc k)
  show ?case
  proof (simp only: default_at.simps(2) [of "Suc k"], rule default_with_Some)
    fix name assume name: "name \<in> ty_names t"
    show "default_named p (default_at (Suc k) p) name \<noteq> None"
    proof (cases "find_type p name")
      case None
      then show ?thesis by (simp add: default_named_def)
    next
      case (Some u)
      with name Suc.prems have "tr (td_name u) \<le> k" by (auto simp: below_def)
      moreover have "below p tr (body_names (td_body u)) (tr (td_name u))"
        using assms find_type_in [OF Some] by (auto simp: ranked_types_def)
      ultimately have "below p tr (body_names (td_body u)) k"
        by (auto simp: below_def dest: less_le_trans)
      then have "default_at (Suc k) p t' \<noteq> None" if "ty_names t' \<subseteq> body_names (td_body u)" for t'
        using that by (intro Suc.IH) (auto simp: below_def)
      note rec = this
      show ?thesis
      proof (cases "td_body u")
        case (RecordBody nm fs)
        then have "default_record (default_at (Suc k) p) fs [] \<noteq> None"
          by (intro default_record_Some rec) (auto simp: body_names_def)
        then show ?thesis using Some RecordBody by (simp add: default_named_def del: default_at.simps)
      next
        case (AliasBody nm target)
        then show ?thesis using Some rec [of target]
          by (simp add: default_named_def body_names_def del: default_at.simps)
      qed (use Some in \<open>simp add: default_named_def\<close>)
    qed
  qed
qed

lemma fit_at_Some:
  assumes "ranked_types p tr"
  shows "below p tr (ty_names t) n \<Longrightarrow> fit_at (Suc n) p t v \<noteq> None"
proof (induction n arbitrary: t v)
  case 0
  then have "find_type p name = None" if "name \<in> ty_names t" for name
    using that by (auto simp: below_def)
  then show ?case by (simp only: fit_at.simps) (rule fit_with_Some, simp add: fit_named_def)
next
  case (Suc k)
  show ?case
  proof (simp only: fit_at.simps(2) [of "Suc k"], rule fit_with_Some)
    fix name w assume name: "name \<in> ty_names t"
    show "fit_named p (fit_at (Suc k) p) name w \<noteq> None"
    proof (cases "find_type p name")
      case None
      then show ?thesis by (simp add: fit_named_def)
    next
      case (Some u)
      with name Suc.prems have "tr (td_name u) \<le> k" by (auto simp: below_def)
      moreover have "below p tr (body_names (td_body u)) (tr (td_name u))"
        using assms find_type_in [OF Some] by (auto simp: ranked_types_def)
      ultimately have "below p tr (body_names (td_body u)) k"
        by (auto simp: below_def dest: less_le_trans)
      then have rec: "fit_at (Suc k) p t' x \<noteq> None" if "ty_names t' \<subseteq> body_names (td_body u)" for t' x
        using that by (intro Suc.IH) (auto simp: below_def)
      show ?thesis
      proof (cases "td_body u")
        case (RecordBody nm fs)
        then have "fit_fields (fit_at (Suc k) p) fs m \<noteq> None" for m
          by (intro fit_fields_Some rec) (auto simp: body_names_def)
        then show ?thesis using Some RecordBody by (auto simp: fit_named_def split: val.split simp del: fit_at.simps)
      next
        case (AliasBody nm target)
        then show ?thesis using Some rec [of target w] by (simp add: fit_named_def body_names_def del: fit_at.simps)
      qed (use Some in \<open>simp add: fit_named_def\<close>)
    qed
  qed
qed

lemma types_fit_ranked:
  assumes "ranked_types (cf_project cf) tr" and "\<forall>t\<in>set (all_types (cf_project cf)). tr (td_name t) < n"
    and "n < cf_stack cf"
  shows "types_fit cf"
proof -
  obtain k where k: "cf_stack cf = Suc k" "n \<le> k" using assms(3) by (cases "cf_stack cf") auto
  have "below (cf_project cf) tr names k" for names
    using assms(2) k(2) by (auto simp: below_def dest!: find_type_in intro: less_le_trans)
  then show ?thesis
    using default_at_Some [OF assms(1)] fit_at_Some [OF assms(1)]
    by (simp add: types_fit_def default_value_def fit_to_def k(1) del: default_at.simps fit_at.simps)
qed

section \<open>Unreachable code\<close>

interpretation reachable: sim_invariant "\<lambda>v r w. r \<noteq> Crash Unreachable" "{Unreachable}" cf for cf
  by unfold_locales auto

lemma depth_reachable: "reachable.good (eval_depth cf n e a env sc)"
proof (induction n arbitrary: e a env sc)
  case 0
  show ?case by (simp del: sim_simps) (rule reachable.good_lift, simp add: reachable.allowed_def)
next
  case (Suc n)
  then have "reachable.good_calls cf (eval_depth cf n) e"
    by (auto simp: reachable.good_calls_def reachable.good_body_def)
  then show ?case by (simp only: eval_depth.simps) (rule reachable.good_eq_rhs)
qed

lemma depth_never_unreachable: "fst (eval_depth cf n e a env sc c) \<noteq> Crash Unreachable"
proof -
  have "flag (fst (eval_depth cf n e a env sc c)) \<noteq> Crash Unreachable"
    using depth_reachable [of cf n e a env sc] unfolding reachable.good_def reachable.sat_def by blast
  then show ?thesis by auto
qed

lemma depth_keeps_state: "cx_state (snd (eval_depth cf n e a env sc c)) = cx_state c"
  using depth_reachable [of cf n e a env sc] by (simp add: reachable.good_def)

lemma eval_keeps_state: "cx_state (snd (eval cf (eval_depth cf n) e a env sc c)) = cx_state c"
  and decision_keeps_state: "cx_state (snd (eval_decision cf (eval_depth cf n) e a env sc obs c)) = cx_state c"
proof -
  have "reachable.good_calls cf (eval_depth cf n) e"
    by (auto simp: reachable.good_calls_def reachable.good_body_def depth_reachable)
  then show "cx_state (snd (eval cf (eval_depth cf n) e a env sc c)) = cx_state c"
    and "cx_state (snd (eval_decision cf (eval_depth cf n) e a env sc obs c)) = cx_state c"
    using reachable.good_eval [of cf _ e a env sc] by (simp_all add: reachable.good_def)
qed

section \<open>The stack\<close>

interpretation bounded:
  sim_invariant "\<lambda>v r w. types_fit cf \<longrightarrow> r \<noteq> Crash StackOverflow"
    "if types_fit cf then {StackOverflow} else {}" cf for cf
  by unfold_locales (auto split: if_splits)

text \<open>No node calls itself, directly or through others: callees rank below their callers.\<close>

definition ranked_calls :: "project \<Rightarrow> (string \<Rightarrow> nat) \<Rightarrow> bool" where
  "ranked_calls p rk \<longleftrightarrow>
     (\<forall>n\<in>set (all_nodes p). \<forall>eq\<in>set (nd_equations n). \<forall>m\<in>callees p (eq_rhs eq).
        rk (nd_name m) < rk (nd_name n))"

lemma callees_declared: "m \<in> callees p e \<Longrightarrow> m \<in> set (all_nodes p)"
  by (auto simp: callees_def dest: find_node_Some(1))

lemma depth_bounded:
  assumes "ranked_calls (cf_project cf) rk"
  shows "\<forall>m\<in>callees (cf_project cf) e. rk (nd_name m) < n \<Longrightarrow>
    bounded.good cf (eval_depth cf (Suc n) e a env sc)"
proof (induction n arbitrary: e a env sc)
  case 0
  then have "bounded.good_calls cf (eval_depth cf 0) e" by (simp add: bounded.good_calls_def)
  then show ?case by (simp only: eval_depth.simps) (rule bounded.good_eq_rhs)
next
  case (Suc k)
  have "bounded.good cf (eval_depth cf (Suc k) (eq_rhs eq) b env sc)"
    if "m \<in> callees (cf_project cf) e" "eq \<in> set (nd_equations m)" for m eq b env sc
  proof (rule Suc.IH, intro ballI)
    fix q assume "q \<in> callees (cf_project cf) (eq_rhs eq)"
    with that assms have "rk (nd_name q) < rk (nd_name m)"
      using callees_declared by (auto simp: ranked_calls_def)
    also have "rk (nd_name m) \<le> k" using Suc.prems that(1) by (auto simp: less_Suc_eq_le)
    finally show "rk (nd_name q) < k" by simp
  qed
  then have "bounded.good_calls cf (eval_depth cf (Suc k)) e"
    by (auto simp: bounded.good_calls_def bounded.good_body_def simp del: eval_depth.simps)
  then show ?case by (simp only: eval_depth.simps(2) [of cf "Suc k"]) (rule bounded.good_eq_rhs)
qed

section \<open>Coverage only grows\<close>

definition site_le :: "decision_site \<Rightarrow> decision_site \<Rightarrow> bool" where
  "site_le s t \<longleftrightarrow>
     ds_node t = ds_node s \<and> ds_context t = ds_context s \<and> ds_condition t = ds_condition s \<and>
     (ds_seen_true s \<longrightarrow> ds_seen_true t) \<and> (ds_seen_false s \<longrightarrow> ds_seen_false t)"

definition decision_le :: "decision_data \<Rightarrow> decision_data \<Rightarrow> bool" where
  "decision_le d e \<longleftrightarrow>
     dd_cond_ptrs e = dd_cond_ptrs d \<and> (\<exists>ts. dd_trials e = dd_trials d @ ts) \<and>
     (set (dd_seen d) = set (dd_trials d) \<and> distinct (dd_trials d) \<longrightarrow>
        set (dd_seen e) = set (dd_trials e) \<and> distinct (dd_trials e))"

definition coverage_le :: "coverage \<Rightarrow> coverage \<Rightarrow> bool" where
  "coverage_le v w \<longleftrightarrow>
     cov_index w = cov_index v \<and> cov_roots w = cov_roots v \<and>
     list_all2 site_le (cov_sites v) (cov_sites w) \<and>
     list_all2 decision_le (cov_decisions v) (cov_decisions w)"

lemma site_le_refl: "site_le s s"
  by (simp add: site_le_def)

lemma site_le_trans: "site_le s t \<Longrightarrow> site_le t u \<Longrightarrow> site_le s u"
  by (auto simp: site_le_def)

lemma decision_le_refl: "decision_le d d"
  by (simp add: decision_le_def)

lemma decision_le_trans: "decision_le d e \<Longrightarrow> decision_le e f \<Longrightarrow> decision_le d f"
  by (auto simp: decision_le_def)

lemma coverage_le_refl: "coverage_le v v"
  by (simp add: coverage_le_def list_all2_refl site_le_refl decision_le_refl)

lemma coverage_le_trans: "coverage_le v w \<Longrightarrow> coverage_le w x \<Longrightarrow> coverage_le v x"
  unfolding coverage_le_def
  using list_all2_trans [of site_le site_le site_le] list_all2_trans [of decision_le decision_le decision_le]
    site_le_trans decision_le_trans by (metis (no_types, lifting))

lemma list_all2_update_le:
  "(\<And>x. R x x) \<Longrightarrow> R (xs ! i) y \<Longrightarrow> list_all2 R xs (xs[i := y])"
  by (simp add: list_all2_conv_all_nth) (metis nth_list_update_eq nth_list_update_neq)

lemma coverage_le_mark: "coverage_le v (cov_mark a b v)"
proof (cases "cov_index v a")
  case None
  then show ?thesis by (simp add: cov_mark_def coverage_le_refl)
next
  case (Some i)
  have "site_le (cov_sites v ! i) (if b then (cov_sites v ! i)\<lparr>ds_seen_true := True\<rparr>
      else (cov_sites v ! i)\<lparr>ds_seen_false := True\<rparr>)"
    by (simp add: site_le_def)
  with Some show ?thesis
    by (simp add: cov_mark_def coverage_le_def list_all2_update_le site_le_refl decision_le_refl list_all2_refl)
qed

lemma decision_le_add_trial: "decision_le d (add_trial t d)"
  by (auto simp: decision_le_def add_trial_def)

lemma coverage_le_record: "coverage_le v (cov_record_trial a obs b v)"
  by (auto simp: cov_record_trial_def coverage_le_def list_all2_update_le site_le_refl decision_le_refl
      decision_le_add_trial list_all2_refl split: option.split)

interpretation coverage_grows:
  sim_invariant "\<lambda>v r w. case v of None \<Rightarrow> w = None | Some cov \<Rightarrow> \<exists>cov'. w = Some cov' \<and> coverage_le cov cov'"
    "{}" cf for cf
  by unfold_locales
    (auto simp: coverage_le_refl coverage_le_mark coverage_le_record split: option.splits
      intro: coverage_le_trans)

lemma depth_coverage_grows: "coverage_grows.good (eval_depth cf n e a env sc)"
proof (induction n arbitrary: e a env sc)
  case 0
  show ?case by (simp del: sim_simps) (rule coverage_grows.good_lift, simp add: coverage_grows.allowed_def)
next
  case (Suc n)
  then have "coverage_grows.good_calls cf (eval_depth cf n) e"
    by (auto simp: coverage_grows.good_calls_def coverage_grows.good_body_def)
  then show ?case by (simp only: eval_depth.simps) (rule coverage_grows.good_eq_rhs)
qed

section \<open>Whole cycles\<close>

text \<open>The simulator of a node: its schedule is the one \<open>sim_new\<close> computes.\<close>

definition sim_ok :: "config \<Rightarrow> sim_state \<Rightarrow> bool" where
  "sim_ok cf s \<longleftrightarrow>
     si_node s \<in> set (all_nodes (cf_project cf)) \<and>
     evaluation_order (si_node s) = Inr (si_eq_order s) \<and>
     si_clock_info s = node_clocks (entry_root (si_node s)) (si_node s)"

lemma obind_cases:
  "obind r f = Ok y \<Longrightarrow> \<exists>x. r = Ok x \<and> f x = Ok y"
  by (cases r) auto

lemma sim_new_ok:
  assumes "sim_new from_value cf name = Ok s"
  shows "sim_ok cf s" and "cx_cov (si_ctx s) = None" and "in_cycle (cx_state (si_ctx s)) = 0"
proof -
  obtain node where node: "find_node (cf_project cf) name = Some node"
    using assms by (auto simp: sim_new_def split: option.splits)
  then have in_p: "node \<in> set (all_nodes (cf_project cf))" by (rule find_node_Some(1))
  obtain order where s: "evaluation_order node = Inr order"
    "si_node s = node" "si_eq_order s = order" "si_clock_info s = node_clocks (entry_root node) node"
    "si_ctx s = fresh_ctx"
    using assms node by (auto simp: sim_new_def Let_def eval_err_def split: sum.splits dest!: obind_cases)
  with in_p show "sim_ok cf s" "cx_cov (si_ctx s) = None" "in_cycle (cx_state (si_ctx s)) = 0"
    by (auto simp: sim_ok_def fresh_ctx_def default_inst_def)
qed

lemma sim_ok_order: "sim_ok cf s \<Longrightarrow> set (si_eq_order s) = {..<length (nd_equations (si_node s))}"
  by (auto simp: sim_ok_def schedule_def dest!: evaluation_order_schedule)

lemma entry_reachable:
  assumes "sim_ok cf s"
  shows "reachable.sat (entry_cycle cf s env)"
proof -
  have "reachable.good_body (evaluator_of cf) (si_node s)"
    by (auto simp: reachable.good_body_def evaluator_of_def depth_reachable)
  then have run: "reachable.good (run_equations cf (evaluator_of cf) (entry_root (si_node s)) (si_node s)
      ecs sc (si_eq_order s) env)" for ecs sc
    using sim_ok_order [OF assms] by (intro reachable.good_run) auto
  show ?thesis
    unfolding entry_cycle_def
    by (intro reachable.sat_bind reachable.sat_finish reachable.good_sat [OF run]
        reachable.good_sat [OF reachable.good_return])
qed

lemma seed_held_reachable: "seed_held cf prev nts env \<noteq> Crash Unreachable"
proof (induction nts arbitrary: env)
  case (Cons nt nts)
  obtain n t where nt: "nt = (n, t)" by force
  show ?case
  proof (cases "env n")
    case None
    show ?thesis
    proof (cases "prev n")
      case pn: None
      show ?thesis using None pn Cons nt by (cases "default_value cf t") auto
    qed (use None Cons nt in auto)
  qed (use Cons nt in auto)
qed simp

lemma step_env_reachable:
  assumes "sim_ok cf s"
  shows "fst (step_env cf inputs s) \<noteq> Crash Unreachable"
proof -
  have "flag (fst (entry_cycle cf s env c)) \<noteq> Crash Unreachable" for env c
    using entry_reachable [OF assms, of env] unfolding reachable.sat_def by blast
  then have "fst (entry_cycle cf s env c) \<noteq> Crash Unreachable" for env c by (metis outcome.map(3))
  then show ?thesis
    using seed_held_reachable [of cf]
    by (auto simp: step_env_def split: outcome.splits prod.splits) (metis fst_conv)
qed

lemma entry_bounded:
  assumes "sim_ok cf s" and "ranked_calls (cf_project cf) rk" and "rk (nd_name (si_node s)) < cf_stack cf"
  shows "bounded.sat cf (entry_cycle cf s env)"
proof -
  obtain k where k: "cf_stack cf = Suc k" "rk (nd_name (si_node s)) \<le> k"
    using assms(3) by (cases "cf_stack cf") auto
  have "bounded.good cf (eval_depth cf (Suc k) (eq_rhs eq) a env sc)"
    if "eq \<in> set (nd_equations (si_node s))" for eq a env sc
  proof (rule depth_bounded [OF assms(2)], intro ballI)
    fix m assume "m \<in> callees (cf_project cf) (eq_rhs eq)"
    with that assms(1,2) have "rk (nd_name m) < rk (nd_name (si_node s))"
      by (auto simp: ranked_calls_def sim_ok_def)
    with k(2) show "rk (nd_name m) < k" by simp
  qed
  then have "bounded.good_body cf (evaluator_of cf) (si_node s)"
    by (simp add: bounded.good_body_def evaluator_of_def k(1) del: eval_depth.simps)
  then have run: "bounded.good cf (run_equations cf (evaluator_of cf) (entry_root (si_node s)) (si_node s)
      ecs sc (si_eq_order s) env)" for ecs sc
    using sim_ok_order [OF assms(1)] by (intro bounded.good_run) auto
  show ?thesis
    unfolding entry_cycle_def
    by (intro bounded.sat_bind bounded.sat_finish bounded.good_sat [OF run]
        bounded.good_sat [OF bounded.good_return])
qed

lemma seed_held_bounded: "types_fit cf \<Longrightarrow> seed_held cf prev nts env \<noteq> Crash StackOverflow"
proof (induction nts arbitrary: env)
  case (Cons nt nts)
  obtain n t where nt: "nt = (n, t)" by force
  obtain d where d: "default_value cf t = Some d" using Cons.prems by (auto simp: types_fit_def)
  show ?case using Cons nt d by (auto split: option.split)
qed simp

lemma step_env_bounded:
  assumes "sim_ok cf s" and "types_fit cf" and "ranked_calls (cf_project cf) rk"
    and "rk (nd_name (si_node s)) < cf_stack cf"
  shows "fst (step_env cf inputs s) \<noteq> Crash StackOverflow"
proof -
  have "flag (fst (entry_cycle cf s env c)) \<noteq> Crash StackOverflow" for env c
    using entry_bounded [OF assms(1,3,4), of env] assms(2) unfolding bounded.sat_def by blast
  then have "fst (entry_cycle cf s env c) \<noteq> Crash StackOverflow" for env c by (metis outcome.map(3))
  then show ?thesis
    using seed_held_bounded [OF assms(2)]
    by (auto simp: step_env_def split: outcome.splits prod.splits) (metis fst_conv)
qed

lemma step_env_coverage:
  assumes "sim_ok cf s"
  shows "case cx_cov (si_ctx s) of
      None \<Rightarrow> cx_cov (si_ctx (snd (step_env cf inputs s))) = None
    | Some cov \<Rightarrow> \<exists>cov'. cx_cov (si_ctx (snd (step_env cf inputs s))) = Some cov' \<and> coverage_le cov cov'"
proof -
  have body: "coverage_grows.good_body (evaluator_of cf) (si_node s)"
    by (auto simp: coverage_grows.good_body_def evaluator_of_def depth_coverage_grows)
  have run: "coverage_grows.good (run_equations cf (evaluator_of cf) (entry_root (si_node s)) (si_node s)
      ecs sc (si_eq_order s) env)" for ecs sc env
    using sim_ok_order [OF assms] by (intro coverage_grows.good_run body) auto
  have "coverage_grows.sat (entry_cycle cf s env)" for env
    unfolding entry_cycle_def
    by (intro coverage_grows.sat_bind coverage_grows.sat_finish coverage_grows.good_sat [OF run]
        coverage_grows.good_sat [OF coverage_grows.good_return])
  then have step: "case cx_cov c of None \<Rightarrow> cx_cov (snd (entry_cycle cf s env c)) = None
      | Some cov \<Rightarrow> \<exists>cov'. cx_cov (snd (entry_cycle cf s env c)) = Some cov' \<and> coverage_le cov cov'"
    for env c by (simp add: coverage_grows.sat_def)
  have same: "case cx_cov (si_ctx s) of None \<Rightarrow> cx_cov (si_ctx s) = None
      | Some cov \<Rightarrow> \<exists>cov'. cx_cov (si_ctx s) = Some cov' \<and> coverage_le cov cov'"
    by (simp add: coverage_le_refl split: option.split)
  show ?thesis
  proof (cases "seed_held cf (in_prev (cx_state (si_ctx s))) (own_vars (si_node s)) (si_consts s ++ inputs)")
    case (Ok env)
    then have e: "si_ctx (snd (step_env cf inputs s)) = snd (entry_cycle cf s env (si_ctx s))"
      by (simp add: step_env_def split: prod.split)
    show ?thesis unfolding e by (rule step)
  next
    case (Err e)
    then have e: "si_ctx (snd (step_env cf inputs s)) = si_ctx s" by (simp add: step_env_def)
    show ?thesis unfolding e by (rule same)
  next
    case (Crash k)
    then have e: "si_ctx (snd (step_env cf inputs s)) = si_ctx s" by (simp add: step_env_def)
    show ?thesis unfolding e by (rule same)
  qed
qed

end
