(* ===== verification/Sim_Cycle.thy ===== *)
theory Sim_Cycle
  imports Sim_Safety
begin

text \<open>
  One cycle of the simulator: what it does to the instance's state, which variables the equations
  assign, and the values that clocked variables hold through the cycles in which their clock is
  not active.
\<close>

section \<open>The end of a cycle\<close>

definition tick_if :: "env \<Rightarrow> clock \<Rightarrow> inst \<Rightarrow> inst" where
  "tick_if env ck st = (if clock_active ck env = Ok True then bump_tick ck st else st)"

lemma tick_chains_Ok:
  "sfold (tick_chain env) chs u c = (Ok u', d) \<Longrightarrow>
     d = c\<lparr>cx_state := fold (tick_if env) chs (cx_state c)\<rparr> \<and> (\<forall>ck\<in>set chs. \<exists>b. clock_active ck env = Ok b)"
proof (induction chs arbitrary: c u)
  case (Cons ck chs)
  obtain b where b: "clock_active ck env = Ok b"
    using Cons.prems by (cases "clock_active ck env") (auto simp: sbind_app tick_chain_def)
  then have "tick_chain env ck u c = (Ok (), c\<lparr>cx_state := tick_if env ck (cx_state c)\<rparr>)"
    by (auto simp: tick_chain_def sbind_app tick_if_def)
  with Cons.prems have "sfold (tick_chain env) chs () (c\<lparr>cx_state := tick_if env ck (cx_state c)\<rparr>) = (Ok u', d)"
    by (simp add: sbind_app)
  from Cons.IH [OF this] b show ?case by auto
qed simp

lemma tick_if_simps [simp]:
  "in_cycle (tick_if env ck st) = in_cycle st" "in_prev (tick_if env ck st) = in_prev st"
  by (simp_all add: tick_if_def bump_tick_def)

lemma fold_tick_if [simp]:
  "in_cycle (fold (tick_if env) chs st) = in_cycle st" "in_prev (fold (tick_if env) chs st) = in_prev st"
  by (induction chs arbitrary: st) simp_all

text \<open>The number of ticks a chain has seen.\<close>

definition ticks_of :: "clock \<Rightarrow> inst \<Rightarrow> nat" where
  "ticks_of ck st = (case in_ticks st (clock_key ck) of None \<Rightarrow> 0 | Some k \<Rightarrow> k)"

lemma ticks_of_tick_if:
  "ticks_of ck (tick_if env ck' st) =
     (if clock_key ck = clock_key ck' \<and> clock_active ck' env = Ok True then Suc (ticks_of ck st)
      else ticks_of ck st)"
  by (auto simp: ticks_of_def tick_if_def bump_tick_def)

lemma ticks_of_fold:
  "distinct (map clock_key chs) \<Longrightarrow> ck \<in> set chs \<Longrightarrow>
     ticks_of ck (fold (tick_if env) chs st) =
       (if clock_active ck env = Ok True then Suc (ticks_of ck st) else ticks_of ck st)"
proof (induction chs arbitrary: st)
  case (Cons c chs)
  have other: "clock_key ck \<notin> clock_key ` set chs \<Longrightarrow> ticks_of ck (fold (tick_if env) chs st) = ticks_of ck st" for st
    by (induction chs arbitrary: st) (auto simp: ticks_of_tick_if)
  show ?case
  proof (cases "ck = c")
    case True
    with Cons.prems other [of "tick_if env c st"] show ?thesis by (simp add: ticks_of_tick_if)
  next
    case False
    with Cons.prems have "ck \<in> set chs" "clock_key ck \<noteq> clock_key c" by (auto simp: image_iff)
    with Cons show ?thesis by (simp add: ticks_of_tick_if)
  qed
qed simp

lemma finish_cycle_Ok:
  assumes "finish_cycle chs env c = (Ok u, d)"
  shows "d = c\<lparr>cx_state := end_cycle env (fold (tick_if env) chs (cx_state c))\<rparr>"
proof -
  obtain u' c' where c': "sfold (tick_chain env) chs () c = (Ok u', c')"
    "d = c'\<lparr>cx_state := end_cycle env (cx_state c')\<rparr>"
    using assms by (auto simp: finish_cycle_def sbind_Ok)
  with tick_chains_Ok [OF c'(1)] show ?thesis by simp
qed

lemma run_keeps_state:
  assumes "set order \<subseteq> {..<length (nd_equations node)}"
  shows "cx_state (snd (run_equations cf (evaluator_of cf) mk node ecs sc order env c)) = cx_state c"
proof -
  have "reachable.good_body (evaluator_of cf) node"
    by (auto simp: reachable.good_body_def evaluator_of_def depth_reachable)
  then have "reachable.good (run_equations cf (evaluator_of cf) mk node ecs sc order env)"
    using assms by (rule reachable.good_run)
  then show ?thesis by (simp add: reachable.good_def)
qed

text \<open>
  A cycle that succeeds: the equations ran from the seeded environment, the values of the cycle
  are the previous values of the next one, the cycle is counted, and so is each active chain.
\<close>

lemma step_env_Ok:
  assumes "sim_ok cf s" and "step_env cf inputs s = (Ok env, s')"
  obtains env0 c where
    "seed_held cf (in_prev (cx_state (si_ctx s))) (own_vars (si_node s)) (si_consts s ++ inputs) = Ok env0"
    and "run_equations cf (evaluator_of cf) (entry_root (si_node s)) (si_node s)
      (equation_clocks (si_clock_info s)) (site_map (si_clock_info s)) (si_eq_order s) env0 (si_ctx s) = (Ok env, c)"
    and "cx_state c = cx_state (si_ctx s)"
    and "s' = s\<lparr>si_ctx := c\<lparr>cx_state :=
      end_cycle env (fold (tick_if env) (chains (si_clock_info s)) (cx_state (si_ctx s)))\<rparr>\<rparr>"
proof -
  let ?run = "run_equations cf (evaluator_of cf) (entry_root (si_node s)) (si_node s)
      (equation_clocks (si_clock_info s)) (site_map (si_clock_info s)) (si_eq_order s)"
  obtain env0 where env0: "seed_held cf (in_prev (cx_state (si_ctx s))) (own_vars (si_node s))
      (si_consts s ++ inputs) = Ok env0"
    using assms(2) by (auto simp: step_env_def split: outcome.splits)
  obtain d where d: "entry_cycle cf s env0 (si_ctx s) = (Ok env, d)" "s' = s\<lparr>si_ctx := d\<rparr>"
    using assms(2) env0 by (auto simp: step_env_def split: prod.splits)
  obtain c u where c: "?run env0 (si_ctx s) = (Ok env, c)" "finish_cycle (chains (si_clock_info s)) env c = (Ok u, d)"
    using d(1) by (auto simp: entry_cycle_def sbind_Ok)
  have st: "cx_state c = cx_state (si_ctx s)"
    using run_keeps_state [of "si_eq_order s" "si_node s" cf "entry_root (si_node s)"
        "equation_clocks (si_clock_info s)" "site_map (si_clock_info s)" env0 "si_ctx s"]
      sim_ok_order [OF assms(1)] c(1) by simp
  with finish_cycle_Ok [OF c(2)] d(2)
  have "s' = s\<lparr>si_ctx := c\<lparr>cx_state :=
      end_cycle env (fold (tick_if env) (chains (si_clock_info s)) (cx_state (si_ctx s)))\<rparr>\<rparr>" by simp
  with env0 c(1) st show ?thesis by (rule that)
qed

lemma step_env_advances:
  assumes "sim_ok cf s" and "step_env cf inputs s = (Ok env, s')"
    and "distinct (map clock_key (chains (si_clock_info s)))"
  shows "in_cycle (cx_state (si_ctx s')) = Suc (in_cycle (cx_state (si_ctx s))) \<and>
    in_prev (cx_state (si_ctx s')) = in_prev (cx_state (si_ctx s)) ++ env \<and>
    (\<forall>ck\<in>set (chains (si_clock_info s)).
       ticks_of ck (cx_state (si_ctx s')) =
         (if clock_active ck env = Ok True then Suc (ticks_of ck (cx_state (si_ctx s)))
          else ticks_of ck (cx_state (si_ctx s)))) \<and>
    sim_ok cf s'"
proof -
  let ?st = "cx_state (si_ctx s)" and ?chs = "chains (si_clock_info s)"
  have ends: "ticks_of ck (end_cycle env st) = ticks_of ck st" "in_cycle (end_cycle env st) = Suc (in_cycle st)"
    "in_prev (end_cycle env st) = in_prev st ++ env" for ck st
    by (simp_all add: ticks_of_def end_cycle_def)
  from step_env_Ok [OF assms(1,2)] obtain c where
    s': "s' = s\<lparr>si_ctx := c\<lparr>cx_state := end_cycle env (fold (tick_if env) ?chs ?st)\<rparr>\<rparr>" by metis
  then have "cx_state (si_ctx s') = end_cycle env (fold (tick_if env) ?chs ?st)" by simp
  moreover have "sim_ok cf s'" using assms(1) s' by (simp add: sim_ok_def)
  ultimately show ?thesis using ticks_of_fold [OF assms(3)] by (simp add: ends)
qed

section \<open>What the equations assign\<close>

lemma store_frame: "store cf node n v env = Ok env' \<Longrightarrow> m \<noteq> n \<Longrightarrow> env' m = env m"
  by (auto simp: store_def split: option.splits dest!: obind_cases)

lemma store_all_frame: "store_all cf node nvs env = Ok env' \<Longrightarrow> m \<notin> fst ` set nvs \<Longrightarrow> env' m = env m"
proof (induction nvs arbitrary: env)
  case (Cons nv nvs)
  obtain n v where nv: "nv = (n, v)" by force
  with Cons.prems(1) obtain e1 where "store cf node n v env = Ok e1" "store_all cf node nvs e1 = Ok env'"
    by (auto dest!: obind_cases)
  with Cons nv store_frame show ?case by auto
qed simp

lemma bind_lhs_frame:
  assumes "bind_lhs cf eq v node env = Ok env'" and "m \<notin> set (eq_lhs eq)"
  shows "env' m = env m"
proof (cases "\<exists>n. eq_lhs eq = [n]")
  case True
  then obtain n where "eq_lhs eq = [n]" by blast
  with assms store_frame [of cf node n v env env' m] show ?thesis by (simp add: bind_lhs_def)
next
  case False
  have "bind_lhs cf eq v node env =
      (case v of VTuple items \<Rightarrow> store_all cf node (zip (eq_lhs eq) items) env | _ \<Rightarrow> eval_err (NotTuple v))"
  proof (cases "eq_lhs eq")
    case (Cons n ns)
    with False show ?thesis by (cases ns) (simp_all add: bind_lhs_def split: val.split)
  qed (simp add: bind_lhs_def split: val.split)
  with assms(1) obtain items where "store_all cf node (zip (eq_lhs eq) items) env = Ok env'"
    by (auto split: val.splits)
  moreover have "m \<notin> fst ` set (zip (eq_lhs eq) items)" using assms(2) by (auto dest: set_zip_leftD)
  ultimately show ?thesis by (rule store_all_frame)
qed

lemma run_equation_frame:
  assumes "run_equation cf ev mk node ecs sc i env c = (Ok env', d)"
    and "m \<notin> set (eq_lhs (nd_equations node ! i))"
  shows "env' m = env m"
  using assms
  by (auto simp: run_equation_def Let_def sbind_Ok split: if_splits dest!: bind_lhs_frame)

text \<open>An equation whose clock is not active leaves everything as it is.\<close>

lemma run_equation_inactive:
  assumes "run_equation cf ev mk node ecs sc i env c = (Ok env', d)"
    and "i < length ecs" and "clock_active (ecs ! i) env = Ok False"
  shows "env' = env"
  using assms by (auto simp: run_equation_def Let_def sbind_Ok)

lemma sbind_assoc: "sbind (sbind m g) h = sbind m (\<lambda>x. sbind (g x) h)"
  by (auto simp: fun_eq_iff sbind_app split: prod.split outcome.split)

lemma sfold_append: "sfold f (xs @ ys) s = sbind (sfold f xs s) (sfold f ys)"
proof (induction xs arbitrary: s)
  case (Cons x xs)
  have "sfold f (xs @ ys) = (\<lambda>u. sbind (sfold f xs u) (sfold f ys))" by (rule ext) (rule Cons.IH)
  then show ?case by (simp add: sbind_assoc)
qed (simp add: fun_eq_iff sbind_app)

lemma run_equations_frame:
  assumes "sfold (run_equation cf ev mk node ecs sc) order env c = (Ok env', d)"
    and "\<forall>i\<in>set order. m \<notin> set (eq_lhs (nd_equations node ! i))"
  shows "env' m = env m"
  using assms
proof (induction order arbitrary: env c)
  case (Cons i order)
  then obtain e1 c1 where "run_equation cf ev mk node ecs sc i env c = (Ok e1, c1)"
    "sfold (run_equation cf ev mk node ecs sc) order e1 c1 = (Ok env', d)"
    by (auto simp: sbind_Ok)
  with Cons run_equation_frame show ?case by fastforce
qed simp

lemma clock_active_cong:
  assumes "\<forall>v\<in>fst ` set (conditions ck). env v = env' v"
  shows "clock_active ck env = clock_active ck env'"
proof -
  have "\<forall>v\<in>fst ` set cs. env v = env' v \<Longrightarrow> active_conditions cs env = active_conditions cs env'" for cs
    by (induction cs) (auto split: option.split val.split)
  with assms show ?thesis by (simp add: clock_active_def)
qed

section \<open>Clocked variables hold their value\<close>

lemma seed_held_Cons:
  assumes "seed_held cf prev ((m, t) # nts) env = Ok env'"
  obtains "env m \<noteq> None" "seed_held cf prev nts env = Ok env'"
  | v where "env m = None" "prev m = Some v" "seed_held cf prev nts (env(m \<mapsto> v)) = Ok env'"
  | v where "env m = None" "prev m = None" "seed_held cf prev nts (env(m \<mapsto> v)) = Ok env'"
  using assms by (auto split: option.splits dest!: obind_cases)

lemma seed_held_keeps:
  "seed_held cf prev nts env = Ok env' \<Longrightarrow> env n = Some v \<Longrightarrow> env' n = Some v"
proof (induction nts arbitrary: env)
  case (Cons nt nts)
  obtain m t where nt: "nt = (m, t)" by force
  from Cons.prems(1) [unfolded nt] show ?case
  proof (cases rule: seed_held_Cons)
    case 1
    then show ?thesis using Cons.IH [OF 1(2)] Cons.prems(2) by simp
  next
    case (2 w)
    then show ?thesis using Cons.IH [OF 2(3)] Cons.prems(2) by (cases "m = n") auto
  next
    case (3 w)
    then show ?thesis using Cons.IH [OF 3(3)] Cons.prems(2) by (cases "m = n") auto
  qed
qed simp

lemma seed_held_prev:
  "seed_held cf prev nts env = Ok env' \<Longrightarrow> env n = None \<Longrightarrow> n \<in> fst ` set nts \<Longrightarrow> prev n = Some v \<Longrightarrow>
   env' n = Some v"
proof (induction nts arbitrary: env)
  case (Cons nt nts)
  obtain m t where nt: "nt = (m, t)" by force
  from Cons.prems(1) [unfolded nt] show ?case
  proof (cases rule: seed_held_Cons)
    case 1
    then show ?thesis using Cons.IH Cons.prems nt by auto
  next
    case (2 w)
    then show ?thesis using Cons.IH [OF 2(3)] Cons.prems nt seed_held_keeps [OF 2(3), of n v]
      by (cases "m = n") auto
  next
    case (3 w)
    then show ?thesis using Cons.IH [OF 3(3)] Cons.prems nt by (cases "m = n") auto
  qed
qed simp

text \<open>
  When the variables of its clock are computed before it and nothing else assigns it, a variable
  whose clock is inactive in a cycle keeps its previous value.
\<close>

lemma clocked_hold:
  assumes ok: "sim_ok cf s" and step: "step_env cf inputs s = (Ok env, s')"
    and order: "si_eq_order s = before @ j # after"
    and clock: "j < length (equation_clocks (si_clock_info s))"
      "clock_active (equation_clocks (si_clock_info s) ! j) env = Ok False"
    and gate: "\<forall>i\<in>set (j # after). \<forall>v\<in>fst ` set (conditions (equation_clocks (si_clock_info s) ! j)).
        v \<notin> set (eq_lhs (nd_equations (si_node s) ! i))"
    and only: "\<forall>i\<in>set (before @ after). x \<notin> set (eq_lhs (nd_equations (si_node s) ! i))"
    and x: "x \<in> fst ` set (own_vars (si_node s))" "(si_consts s ++ inputs) x = None"
      "in_prev (cx_state (si_ctx s)) x = Some v"
  shows "env x = Some v"
proof -
  let ?ck = "equation_clocks (si_clock_info s) ! j"
  let ?run = "run_equation cf (evaluator_of cf) (entry_root (si_node s)) (si_node s)
      (equation_clocks (si_clock_info s)) (site_map (si_clock_info s))"
  obtain env0 c where env0: "seed_held cf (in_prev (cx_state (si_ctx s))) (own_vars (si_node s))
      (si_consts s ++ inputs) = Ok env0"
    and run: "sfold ?run (before @ j # after) env0 (si_ctx s) = (Ok env, c)"
    using step_env_Ok [OF ok step] unfolding run_equations_def order by metis
  from run obtain e1 c1 where e1: "sfold ?run before env0 (si_ctx s) = (Ok e1, c1)"
    and rest: "sfold ?run (j # after) e1 c1 = (Ok env, c)"
    by (auto simp only: sfold_append sbind_Ok)
  from rest obtain e2 c2 where e2: "?run j e1 c1 = (Ok e2, c2)" and e3: "sfold ?run after e2 c2 = (Ok env, c)"
    by (auto simp: sbind_Ok)
  have "env w = e1 w" if "w \<in> fst ` set (conditions ?ck)" for w
    using run_equations_frame [OF rest, of w] gate that by blast
  then have "clock_active ?ck e1 = Ok False" using clock(2) clock_active_cong [of ?ck env e1] by simp
  then have "e2 = e1" by (rule run_equation_inactive [OF e2 clock(1)])
  then have "env x = e1 x" using run_equations_frame [OF e3, of x] only by auto
  also have "e1 x = env0 x" using run_equations_frame [OF e1, of x] only by auto
  also have "env0 x = Some v" using seed_held_prev [OF env0 x(2,1,3)] .
  finally show ?thesis .
qed

text \<open>
  When the variables of its clock are computed after it instead, the gate reads what they were in the previous
  cycle, whatever they are in this one.
\<close>

lemma late_gate:
  assumes ok: "sim_ok cf s" and step: "step_env cf inputs s = (Ok env, s')"
    and order: "si_eq_order s = before @ j # after"
    and clock: "j < length (equation_clocks (si_clock_info s))"
      "clock_active (equation_clocks (si_clock_info s) ! j) (in_prev (cx_state (si_ctx s))) = Ok False"
    and late: "\<forall>v\<in>fst ` set (conditions (equation_clocks (si_clock_info s) ! j)).
        v \<in> fst ` set (own_vars (si_node s)) \<and> (si_consts s ++ inputs) v = None \<and> in_prev (cx_state (si_ctx s)) v \<noteq> None \<and>
        (\<forall>i\<in>set before. v \<notin> set (eq_lhs (nd_equations (si_node s) ! i)))"
    and only: "\<forall>i\<in>set (before @ after). x \<notin> set (eq_lhs (nd_equations (si_node s) ! i))"
    and x: "x \<in> fst ` set (own_vars (si_node s))" "(si_consts s ++ inputs) x = None"
      "in_prev (cx_state (si_ctx s)) x = Some v"
  shows "env x = Some v"
proof -
  let ?ck = "equation_clocks (si_clock_info s) ! j"
  let ?prev = "in_prev (cx_state (si_ctx s))"
  let ?run = "run_equation cf (evaluator_of cf) (entry_root (si_node s)) (si_node s)
      (equation_clocks (si_clock_info s)) (site_map (si_clock_info s))"
  obtain env0 c where env0: "seed_held cf ?prev (own_vars (si_node s)) (si_consts s ++ inputs) = Ok env0"
    and run: "sfold ?run (before @ j # after) env0 (si_ctx s) = (Ok env, c)"
    using step_env_Ok [OF ok step] unfolding run_equations_def order by metis
  from run obtain e1 c1 where e1: "sfold ?run before env0 (si_ctx s) = (Ok e1, c1)"
    and rest: "sfold ?run (j # after) e1 c1 = (Ok env, c)"
    by (auto simp only: sfold_append sbind_Ok)
  from rest obtain e2 c2 where e2: "?run j e1 c1 = (Ok e2, c2)" and e3: "sfold ?run after e2 c2 = (Ok env, c)"
    by (auto simp: sbind_Ok)
  have "e1 w = ?prev w" if w: "w \<in> fst ` set (conditions ?ck)" for w
  proof -
    note late = late [rule_format, OF w]
    from late obtain u where u: "?prev w = Some u" by auto
    have "e1 w = env0 w" using run_equations_frame [OF e1, of w] late by simp
    also have "env0 w = Some u" by (rule seed_held_prev [OF env0 _ _ u]) (use late in simp_all)
    finally show ?thesis using u by simp
  qed
  then have "clock_active ?ck e1 = Ok False" using clock(2) clock_active_cong [of ?ck e1 ?prev] by simp
  then have "e2 = e1" by (rule run_equation_inactive [OF e2 clock(1)])
  then have "env x = e1 x" using run_equations_frame [OF e3, of x] only by auto
  also have "e1 x = env0 x" using run_equations_frame [OF e1, of x] only by auto
  also have "env0 x = Some v" using seed_held_prev [OF env0 x(2,1,3)] .
  finally show ?thesis .
qed

section \<open>An equation in the cycle it ran in\<close>

text \<open>
  In a node without clocks every equation runs once, and finds the variables it reads in the same
  cycle, as the cycle leaves them: those an equation defines were computed before.
\<close>

lemma seed_held_other:
  "seed_held cf prev nts env = Ok env' \<Longrightarrow> n \<notin> fst ` set nts \<Longrightarrow> env' n = env n"
proof (induction nts arbitrary: env)
  case (Cons nt nts)
  obtain m t where nt: "nt = (m, t)" by force
  from Cons.prems(1) [unfolded nt] show ?case
    by (cases rule: seed_held_Cons) (use Cons.IH Cons.prems(2) nt in auto)
qed simp

definition defined_names :: "node_def \<Rightarrow> string list" where
  "defined_names node = concat (map eq_lhs (nd_equations node))"

lemma one_definition:
  assumes "distinct (concat (map eq_lhs eqs))" and "i < length eqs" "j < length eqs"
    and "x \<in> set (eq_lhs (eqs ! i))" "x \<in> set (eq_lhs (eqs ! j))"
  shows "i = j"
  using assms
proof (induction eqs arbitrary: i j)
  case (Cons eq eqs)
  have "x \<notin> set (eq_lhs (eqs ! n))" if "n < length eqs" "x \<in> set (eq_lhs eq)" for n
    using Cons.prems(1) that nth_mem [OF that(1)] by fastforce
  with Cons show ?case by (cases i; cases j) auto
qed simp

lemma step_env_equation:
  assumes ok: "sim_ok cf s" and step: "step_env cf inputs s = (Ok env, s')"
    and clocks: "equation_clocks (si_clock_info s) = []"
    and j: "j < length (nd_equations (si_node s))" "eq_lhs (nd_equations (si_node s) ! j) = [x]"
    and single: "distinct (defined_names (si_node s))"
  obtains env1 env2 c1 c2 v where
    "evaluator_of cf (eq_rhs (nd_equations (si_node s) ! j)) (root_addr (entry_root (si_node s) j)) env1
       (site_map (si_clock_info s)) c1 = (Ok v, c2)"
    and "store cf (si_node s) x v env1 = Ok env2" and "env x = env2 x"
    and "cx_state c1 = cx_state (si_ctx s)"
    and "\<forall>y\<in>cycle_reads (eq_rhs (nd_equations (si_node s) ! j)). env1 y = env y"
    and "\<forall>y. y \<notin> set (defined_names (si_node s)) \<and> y \<notin> fst ` set (own_vars (si_node s)) \<longrightarrow>
       env1 y = (si_consts s ++ inputs) y"
proof -
  let ?eqs = "nd_equations (si_node s)"
  let ?run = "run_equation cf (evaluator_of cf) (entry_root (si_node s)) (si_node s) [] (site_map (si_clock_info s))"
  have sched: "schedule (node_deps (si_node s)) (length ?eqs) (si_eq_order s)"
    using ok by (auto simp: sim_ok_def intro: evaluation_order_schedule)
  with j obtain before after where order: "si_eq_order s = before @ j # after"
    unfolding schedule_def by (metis lessThan_iff split_list)
  obtain env0 c where env0: "seed_held cf (in_prev (cx_state (si_ctx s))) (own_vars (si_node s))
      (si_consts s ++ inputs) = Ok env0"
    and run: "sfold ?run (before @ j # after) env0 (si_ctx s) = (Ok env, c)"
    using step_env_Ok [OF ok step] unfolding run_equations_def order clocks by metis
  from run obtain e1 c1 where e1: "sfold ?run before env0 (si_ctx s) = (Ok e1, c1)"
    and rest: "sfold ?run (j # after) e1 c1 = (Ok env, c)"
    by (auto simp only: sfold_append sbind_Ok)
  from rest obtain e2 c2 where e2: "?run j e1 c1 = (Ok e2, c2)" and e3: "sfold ?run after e2 c2 = (Ok env, c)"
    by (auto simp: sbind_Ok)
  from e2 obtain v where v: "evaluator_of cf (eq_rhs (?eqs ! j)) (root_addr (entry_root (si_node s) j)) e1
      (site_map (si_clock_info s)) c1 = (Ok v, c2)" and st: "store cf (si_node s) x v e1 = Ok e2"
    by (auto simp: run_equation_def Let_def sbind_Ok bind_lhs_def j(2))
  have in_range: "i < length ?eqs" if "i \<in> set (si_eq_order s)" for i
    using sched that by (auto simp: schedule_def)
  have not_later: "y \<notin> set (eq_lhs (?eqs ! i))" if "y \<in> set (eq_lhs (?eqs ! k))" "k \<in> set (before @ [j])"
    "i \<in> set after" for y i k
  proof
    assume "y \<in> set (eq_lhs (?eqs ! i))"
    then have "i = k"
      using single that in_range order one_definition [of ?eqs i k y] by (auto simp: defined_names_def)
    with that(2,3) sched show False by (auto simp: schedule_def order)
  qed
  have x: "env x = e2 x"
    using run_equations_frame [OF e3, of x] not_later [of x j] j(2) by auto
  have "cx_state c1 = cx_state (si_ctx s)"
    using run_keeps_state [of before "si_node s" cf "entry_root (si_node s)" "[]" "site_map (si_clock_info s)"
        env0 "si_ctx s"] e1 in_range
    by (auto simp: run_equations_def order)
  moreover have "e1 y = env y" if y: "y \<in> cycle_reads (eq_rhs (?eqs ! j))" for y
  proof -
    have "y \<notin> set (eq_lhs (?eqs ! i))" if i: "i \<in> set (j # after)" for i
    proof
      assume "y \<in> set (eq_lhs (?eqs ! i))"
      moreover obtain k where k: "def_by ?eqs y = Some k"
        using calculation in_range i def_by_None [of ?eqs y] order by (cases "def_by ?eqs y") (auto dest: nth_mem)
      moreover have "k \<in> node_deps (si_node s) j"
        using k y j(1) by (auto simp: deps_of_def set_eq_deps)
      moreover have "node_deps (si_node s) j \<subseteq> set before"
        using sched order unfolding schedule_def deps_first_def
        by (metis append_eq_conv_conj length_append less_add_same_cancel1 length_greater_0_conv list.distinct(1)
            nth_append_length)
      ultimately have "i = k" "k \<in> set before"
        using one_definition [of ?eqs i k y] single def_by_Some [OF k] in_range i order
        by (auto simp: defined_names_def)
      with i sched show False by (auto simp: schedule_def order)
    qed
    with run_equations_frame [OF rest, of y] show ?thesis by auto
  qed
  moreover have "e1 y = (si_consts s ++ inputs) y"
    if "y \<notin> set (defined_names (si_node s))" "y \<notin> fst ` set (own_vars (si_node s))" for y
  proof -
    have "e1 y = env0 y"
      using run_equations_frame [OF e1, of y] that(1) in_range order
      by (fastforce simp: defined_names_def dest: nth_mem)
    with seed_held_other [OF env0 that(2)] show ?thesis by simp
  qed
  ultimately show thesis using that [OF v st x] by blast
qed

end
