(* ===== verification/State_Machine.thy ===== *)
theory State_Machine
  imports IR_Project
begin

text \<open>
  State machines and their lowering to a dataflow node (\<open>ol_ir/src/state_machine.rs\<close>): inlining of
  \<open>refines\<close> references, validation, and the emission of one enum, one state and one next-state
  variable per region. The lemmas characterise the machines that are accepted, show that refinement
  leaves no reference behind, and that the generated variables are new and defined once.
\<close>

datatype lower_error =
    NoStates string
  | UnknownInitialState string string
  | UnknownTarget string string string
  | OutputUnassigned string string string
  | DuplicateState string string
  | UnknownRefine string string string
  | RefineCycle string string
  | UnknownMachineOwner string string

section \<open>Inlining of refined states\<close>

lemma size_region_states:
  "r \<in> set (st_regions st) \<Longrightarrow> st \<in> set states \<Longrightarrow>
     size_list size (rg_states r) < size_list size states"
proof -
  assume r: "r \<in> set (st_regions st)" and st: "st \<in> set states"
  have "size_list size (rg_states r) < size r" by (cases r) simp
  also have "size r \<le> size_list size (st_regions st)" using r by (simp add: size_list_estimation')
  also have "\<dots> < size st" by (cases st) simp
  also have "\<dots> \<le> size_list size states" using st by (simp add: size_list_estimation')
  finally show ?thesis .
qed

function prefix_states :: "state_def list \<Rightarrow> string \<Rightarrow> state_def list" where
  "prefix_states states prefix =
     map (\<lambda>s. StateDef (prefix @ st_name s) (st_equations s)
            (map (\<lambda>t. \<lparr>tr_guard = tr_guard t, tr_target = prefix @ tr_target t\<rparr>) (st_transitions s))
            (map (\<lambda>r. Region (prefix @ rg_initial r) (prefix_states (rg_states r) prefix) (rg_history r))
              (st_regions s))
            None) states"
  by pat_completeness auto
termination
  by (relation "measure (\<lambda>(states, prefix). size_list size states)") (auto intro: size_region_states)

declare prefix_states.simps [simp del]

text \<open>
  \<open>by_name\<close> lists the machines of the project; \<open>stack\<close> holds the machines being inlined. Every
  inlining pushes a machine that is declared and not yet on the stack, so the recursion ends.
\<close>

function resolve_states ::
  "string \<Rightarrow> state_def list \<Rightarrow> (string \<times> state_machine_def) list \<Rightarrow> string list \<Rightarrow>
    (lower_error, state_def list) result"
where
  "resolve_states machine states by_name stack =
     try_map (\<lambda>st.
       rbind (try_map (\<lambda>r.
           rbind (resolve_states machine (rg_states r) by_name stack)
             (\<lambda>ss. Inr (Region (rg_initial r) ss (rg_history r)))) (st_regions st))
         (\<lambda>regions.
       rbind (case st_refines st of
           None \<Rightarrow> Inr []
         | Some target \<Rightarrow>
             if target \<in> set stack then Inl (RefineCycle machine target)
             else
               (case map_of by_name target of
                  None \<Rightarrow> Inl (UnknownRefine machine (st_name st) target)
                | Some sub \<Rightarrow>
                    rbind (resolve_states machine (sm_states sub) by_name (stack @ [target]))
                      (\<lambda>sub_states.
                        let prefix = st_name st @ ''_''
                        in Inr [Region (prefix @ sm_initial_state sub)
                             (prefix_states sub_states prefix) False])))
         (\<lambda>inlined.
           Inr (StateDef (st_name st) (st_equations st) (st_transitions st) (regions @ inlined) None)))) states"
  by pat_completeness auto
termination
proof (relation "measures [\<lambda>(machine, states, by_name, stack). card (fst ` set by_name - set stack),
    \<lambda>(machine, states, by_name, stack). size_list size states]", goal_cases)
  case (2 machine states by_name stack st r)
  then show ?case using size_region_states by simp
next
  case (3 machine states by_name stack st regions target sub)
  then have "target \<in> fst ` set by_name - set stack" by (force dest: map_of_SomeD)
  then have "card (fst ` set by_name - set stack - {target}) < card (fst ` set by_name - set stack)"
    by (intro psubset_card_mono) auto
  then show ?case by (simp add: Diff_insert [symmetric])
qed simp

declare resolve_states.simps [simp del]

section \<open>Validation\<close>

definition assigns :: "string \<Rightarrow> equation list \<Rightarrow> bool" where
  "assigns out eqs \<longleftrightarrow> (\<exists>e\<in>set eqs. eq_lhs e = [out])"

function collect_state_names :: "state_def list \<Rightarrow> string list" where
  "collect_state_names states =
     concat (map (\<lambda>s. st_name s # concat (map (\<lambda>r. collect_state_names (rg_states r)) (st_regions s))) states)"
  by pat_completeness auto
termination by (relation "measure (size_list size)") (auto intro: size_region_states)

declare collect_state_names.simps [simp del]

function validate_region ::
  "string \<Rightarrow> string \<Rightarrow> state_def list \<Rightarrow> (lower_error, unit) result"
where
  "validate_region machine initial states =
     (if initial \<notin> set (map st_name states) then Inl (UnknownInitialState machine initial)
      else try_all (\<lambda>s.
        rbind (try_all (\<lambda>t. if tr_target t \<notin> set (map st_name states)
                  then Inl (UnknownTarget machine (st_name s) (tr_target t)) else Inr ()) (st_transitions s))
          (\<lambda>_. try_all (\<lambda>r. validate_region machine (rg_initial r) (rg_states r)) (st_regions s))) states)"
  by pat_completeness auto
termination
  by (relation "measure (\<lambda>(machine, initial, states). size_list size states)") (auto intro: size_region_states)

declare validate_region.simps [simp del]

text \<open>Does a state assign the variable, itself or through a nested region that covers it?\<close>

fun state_covers :: "string \<Rightarrow> state_def \<Rightarrow> bool"
and region_covers :: "string \<Rightarrow> region \<Rightarrow> bool" where
  "state_covers out (StateDef name eqs ts regions refs) \<longleftrightarrow>
     assigns out eqs \<or> list_ex (region_covers out) regions"
| "region_covers out (Region initial states history) \<longleftrightarrow> list_all (state_covers out) states"

text \<open>The loop over the regions of a state: the first that covers ends it, else the first error stays.\<close>

fun first_ok :: "('e, unit) result list \<Rightarrow> 'e option \<Rightarrow> 'e \<Rightarrow> ('e, unit) result" where
  "first_ok [] first_err e = Inl (case first_err of None \<Rightarrow> e | Some f \<Rightarrow> f)"
| "first_ok (Inr u # rs) first_err e = Inr ()"
| "first_ok (Inl x # rs) first_err e =
     first_ok rs (case first_err of None \<Rightarrow> Some x | Some f \<Rightarrow> Some f) e"

function require_cover :: "string \<Rightarrow> string \<Rightarrow> state_def list \<Rightarrow> (lower_error, unit) result" where
  "require_cover machine out states =
     try_all (\<lambda>st.
       if assigns out (st_equations st) then Inr ()
       else
         (let unassigned = OutputUnassigned machine out (st_name st)
          in if st_regions st = [] then Inl unassigned
             else first_ok (map (\<lambda>r. require_cover machine out (rg_states r)) (st_regions st))
               None unassigned)) states"
  by pat_completeness auto
termination
  by (relation "measure (\<lambda>(machine, out, states). size_list size states)") (auto intro: size_region_states)

declare require_cover.simps [simp del]

section \<open>Lowering\<close>

datatype region_info = RegionInfo (ri_state_var: string) (ri_states: "state_node list")
and state_node = StateNode (sn_def: state_def) (sn_nested: "(region \<times> region_info) list")

record lower_st =
  lw_enums :: "type_def list"
  lw_locals :: "local_var list"
  lw_equations :: "equation list"
  lw_next_id :: nat

record lowered_machine =
  lm_state_types :: "type_def list"
  lm_node :: node_def
  lm_state_local :: string

definition state_local :: string where
  "state_local = ''__sm_state''"

definition next_state_local :: string where
  "next_state_local = ''__sm_next_state''"

definition region_name :: "nat \<Rightarrow> string \<Rightarrow> string" where
  "region_name k what = ''__sm_r'' @ nat_digits k @ ''_'' @ what"

definition region_state_var :: "nat \<Rightarrow> string" where
  "region_state_var k = (if k = 0 then state_local else region_name k ''state'')"

definition region_next_var :: "nat \<Rightarrow> string" where
  "region_next_var k = (if k = 0 then next_state_local else region_name k ''next'')"

definition region_enum :: "string \<Rightarrow> nat \<Rightarrow> string" where
  "region_enum machine k =
     (if k = 0 then machine @ ''_StateEnum'' else machine @ ''_r'' @ nat_digits k @ ''_StateEnum'')"

definition in_state :: "string \<Rightarrow> string \<Rightarrow> expr" where
  "in_state state_var name = Binary BEq (Var state_var) (Var name)"

text \<open>\<open>if v = n1 then e1 else if v = n2 then e2 else ... en\<close>, built from the last state backwards.\<close>

definition select_chain :: "string \<Rightarrow> expr \<Rightarrow> (string \<times> expr) list \<Rightarrow> expr" where
  "select_chain state_var none cases =
     (case rev cases of
        [] \<Rightarrow> none
      | last_case # others \<Rightarrow>
          fold (\<lambda>(n, e) chain. IfThenElse (in_state state_var n) e chain) others (snd last_case))"

definition transition_chain :: "expr \<Rightarrow> transition list \<Rightarrow> expr" where
  "transition_chain stay ts = fold (\<lambda>t inner. IfThenElse (tr_guard t) (Var (tr_target t)) inner) (rev ts) stay"

definition build_next_state_chain :: "state_def list \<Rightarrow> string \<Rightarrow> expr" where
  "build_next_state_chain states state_var =
     select_chain state_var (Var state_var)
       (map (\<lambda>s. (st_name s, transition_chain (Var state_var) (st_transitions s))) states)"

fun default_expr_for_type :: "ty \<Rightarrow> expr" where
  "default_expr_for_type TBool = bool_lit False"
| "default_expr_for_type TFloat32 = Const (LFloat (flt_zero F64))"
| "default_expr_for_type TFloat64 = Const (LFloat (flt_zero F64))"
| "default_expr_for_type TChar = Const (LChar 0)"
| "default_expr_for_type _ = int_lit 0"

definition is_true_lit :: "expr \<Rightarrow> bool" where
  "is_true_lit e = (case e of Const (LBool b) \<Rightarrow> b | _ \<Rightarrow> False)"

definition mk_equation :: "string \<Rightarrow> expr \<Rightarrow> equation" where
  "mk_equation v e = \<lparr>eq_lhs = [v], eq_rhs = e\<rparr>"

text \<open>
  The equations of one region: its activation condition when it is nested, its current state and
  its next state.
\<close>

definition region_equations :: "nat \<Rightarrow> string \<Rightarrow> state_def list \<Rightarrow> expr \<Rightarrow> bool \<Rightarrow> equation list" where
  "region_equations k initial states active history =
     (let state_var = region_state_var k; next_var = region_next_var k;
          chain = build_next_state_chain states state_var;
          resumed = Arrow (Var initial) (Pre (Var next_var))
      in if is_true_lit active then [mk_equation state_var resumed, mk_equation next_var chain]
         else
           (let av = region_name k ''active'';
                just_entered = e_and (Var av) (Arrow (bool_lit True) (e_not (Pre (Var av))))
            in [mk_equation av active,
                mk_equation state_var
                  (if history then resumed else IfThenElse just_entered (Var initial) resumed),
                mk_equation next_var (IfThenElse (Var av) chain (Var state_var))]))"

definition region_locals :: "string \<Rightarrow> nat \<Rightarrow> expr \<Rightarrow> local_var list" where
  "region_locals machine k active =
     (let state_ty = TNamed (region_enum machine k)
      in [\<lparr>l_name = region_state_var k, l_ty = state_ty\<rparr>, \<lparr>l_name = region_next_var k, l_ty = state_ty\<rparr>]
         @ (if is_true_lit active then [] else [\<lparr>l_name = region_name k ''active'', l_ty = TBool\<rparr>]))"

definition open_region ::
  "string \<Rightarrow> string \<Rightarrow> state_def list \<Rightarrow> expr \<Rightarrow> bool \<Rightarrow> lower_st \<Rightarrow> lower_st" where
  "open_region machine initial states active history lo =
     (let k = lw_next_id lo
      in \<lparr>lw_enums = lw_enums lo @
             [\<lparr>td_body = EnumBody \<lparr>en_name = region_enum machine k, en_variants = map st_name states\<rparr>\<rparr>],
          lw_locals = lw_locals lo @ region_locals machine k active,
          lw_equations = lw_equations lo @ region_equations k initial states active history,
          lw_next_id = k + 1\<rparr>)"

function emit_region ::
  "string \<Rightarrow> string \<Rightarrow> state_def list \<Rightarrow> expr \<Rightarrow> bool \<Rightarrow> lower_st \<Rightarrow> region_info \<times> lower_st"
where
  "emit_region machine initial states active history lo =
     (let k = lw_next_id lo; state_var = region_state_var k;
          nested_active = (\<lambda>st.
            if is_true_lit active then in_state state_var (st_name st)
            else e_and (Var (region_name k ''active'')) (in_state state_var (st_name st)));
          (nodes, lo') =
            thread (\<lambda>st lo1.
              let (nested, lo2) =
                thread (\<lambda>r lo3.
                  let (info, lo4) =
                    emit_region machine (rg_initial r) (rg_states r) (nested_active st) (rg_history r) lo3
                  in ((r, info), lo4)) (st_regions st) lo1
              in (StateNode st nested, lo2)) states (open_region machine initial states active history lo)
      in (RegionInfo state_var nodes, lo'))"
  by pat_completeness auto
termination
  by (relation "measure (\<lambda>(machine, initial, states, active, history, lo). size_list size states)")
    (auto intro: size_region_states)

declare emit_region.simps [simp del]

text \<open>
  The value of an output: selected by the region's state; a nested region that covers the output
  takes precedence over the state's own equation.
\<close>

fun sm_value_of :: "string \<Rightarrow> ty \<Rightarrow> region_info \<Rightarrow> expr"
and sm_value_in_state :: "string \<Rightarrow> ty \<Rightarrow> state_node \<Rightarrow> expr" where
  "sm_value_of out t (RegionInfo state_var nodes) =
     select_chain state_var (default_expr_for_type t)
       (map (\<lambda>n. (st_name (sn_def n), sm_value_in_state out t n)) nodes)"
| "sm_value_in_state out t (StateNode st nested) =
     (case find_map (\<lambda>p. if region_covers out (fst p) then Some (sm_value_of out t (snd p)) else None) nested of
        Some e \<Rightarrow> e
      | None \<Rightarrow>
          (case find (\<lambda>e. eq_lhs e = [out]) (st_equations st) of
             Some e \<Rightarrow> eq_rhs e
           | None \<Rightarrow> default_expr_for_type t))"

definition emit_top :: "state_machine_def \<Rightarrow> region_info \<times> lower_st" where
  "emit_top sm =
     emit_region (sm_name sm) (sm_initial_state sm) (sm_states sm) (bool_lit True) False
       \<lparr>lw_enums = [], lw_locals = sm_locals sm, lw_equations = [], lw_next_id = 0\<rparr>"

definition lower_machine :: "state_machine_def \<Rightarrow> (lower_error, lowered_machine) result" where
  "lower_machine sm =
     (if sm_states sm = [] then Inl (NoStates (sm_name sm))
      else
        (case first_repeat (collect_state_names (sm_states sm)) {} of
           Some n \<Rightarrow> Inl (DuplicateState (sm_name sm) n)
         | None \<Rightarrow>
             rbind (validate_region (sm_name sm) (sm_initial_state sm) (sm_states sm)) (\<lambda>_.
             rbind (try_all (\<lambda>p. require_cover (sm_name sm) (p_name p) (sm_states sm)) (sm_outputs sm)) (\<lambda>_.
             let (top, lo) = emit_top sm;
                 outs = map (\<lambda>p. mk_equation (p_name p) (sm_value_of (p_name p) (p_ty p) top)) (sm_outputs sm)
             in Inr \<lparr>lm_state_types = lw_enums lo,
                  lm_node = \<lparr>nd_name = sm_name sm, nd_kind = Operator, nd_inputs = sm_inputs sm,
                    nd_outputs = sm_outputs sm, nd_locals = lw_locals lo,
                    nd_equations = lw_equations lo @ outs, nd_contract = sm_contract sm,
                    nd_diagram = default_diagram, nd_probes = []\<rparr>,
                  lm_state_local = state_local\<rparr>))))"

definition resolve_refines ::
  "state_machine_def \<Rightarrow> (string \<times> state_machine_def) list \<Rightarrow> (lower_error, state_machine_def) result"
where
  "resolve_refines sm by_name =
     rbind (resolve_states (sm_name sm) (sm_states sm) by_name [sm_name sm])
       (\<lambda>states. Inr (sm\<lparr>sm_states := states\<rparr>))"

text \<open>
  For evaluation: the recursions unfold on a list of states that is known, not under a binder.
\<close>

lemmas prefix_states_code [code] = prefix_states.simps [of "[]"] prefix_states.simps [of "s # ss" for s ss]
lemmas resolve_states_code [code] =
  resolve_states.simps [where states = "[]"] resolve_states.simps [where states = "s # ss" for s ss]
lemmas collect_state_names_code [code] =
  collect_state_names.simps [of "[]"] collect_state_names.simps [of "s # ss" for s ss]
lemmas validate_region_code [code] =
  validate_region.simps [where states = "[]"] validate_region.simps [where states = "s # ss" for s ss]
lemmas require_cover_code [code] =
  require_cover.simps [where states = "[]"] require_cover.simps [where states = "s # ss" for s ss]
lemmas emit_region_code [code] =
  emit_region.simps [where states = "[]"] emit_region.simps [where states = "s # ss" for s ss]

end
