(* ===== verification/Machine_Laws.thy ===== *)
theory Machine_Laws
  imports State_Machine
begin

text \<open>
  Laws of state machines: which machines the lowering accepts, what inlining the refined states
  leaves, and what the emission of the regions adds to a node.
\<close>

section \<open>Validation\<close>

lemma first_ok_iff: "first_ok rs err e = Inr u \<longleftrightarrow> Inr () \<in> set rs"
  by (induction rs err e rule: first_ok.induct) auto

lemma state_covers_eq:
  "state_covers out st \<longleftrightarrow> assigns out (st_equations st) \<or> (\<exists>r\<in>set (st_regions st). region_covers out r)"
  by (cases st) (simp add: list_ex_iff)

lemma region_covers_eq: "region_covers out r \<longleftrightarrow> (\<forall>st\<in>set (rg_states r). state_covers out st)"
  by (cases r) (simp add: list_all_iff)

text \<open>The validation with its precise error agrees with the plain test of coverage.\<close>

lemma require_cover_iff:
  "require_cover machine out states = Inr u \<longleftrightarrow> (\<forall>st\<in>set states. state_covers out st)"
proof (induction machine out states rule: require_cover.induct)
  case (1 machine out states)
  have sub: "require_cover machine out (rg_states r) = Inr () \<longleftrightarrow> region_covers out r"
    if "st \<in> set states" "\<not> assigns out (st_equations st)" "r \<in> set (st_regions st)" for st r
    using 1 [OF that(1,2) refl _ that(3)] that(3) by (cases "st_regions st") (auto simp: region_covers_eq)
  have cov: "(Inr () \<in> (\<lambda>r. require_cover machine out (rg_states r)) ` set (st_regions st)) \<longleftrightarrow>
      (\<exists>r\<in>set (st_regions st). region_covers out r)"
    if "st \<in> set states" "\<not> assigns out (st_equations st)" for st
    using sub [OF that] by (force simp: image_iff eq_commute)
  have ok: "(if assigns out (st_equations st) then Inr ()
      else if st_regions st = [] then Inl (OutputUnassigned machine out (st_name st))
      else first_ok (map (\<lambda>r. require_cover machine out (rg_states r)) (st_regions st)) None
        (OutputUnassigned machine out (st_name st))) = Inr () \<longleftrightarrow> state_covers out st"
    if "st \<in> set states" for st
    using cov [OF that] by (auto simp: state_covers_eq first_ok_iff)
  show ?case
    by (subst require_cover.simps, unfold try_all_ok Let_def) (intro ball_cong refl ok)
qed

text \<open>All regions of a machine: the initial state and the states of each, the outermost first.\<close>

function regions_of :: "string \<Rightarrow> state_def list \<Rightarrow> (string \<times> state_def list) list" where
  "regions_of initial states =
     (initial, states) #
       concat (map (\<lambda>s. concat (map (\<lambda>r. regions_of (rg_initial r) (rg_states r)) (st_regions s))) states)"
  by pat_completeness auto
termination by (relation "measure (\<lambda>(initial, states). size_list size states)") (auto intro: size_region_states)

declare regions_of.simps [simp del]

lemmas regions_of_code [code] =
  regions_of.simps [where states = "[]"] regions_of.simps [where states = "s # ss" for s ss]

definition closed_region :: "string \<times> state_def list \<Rightarrow> bool" where
  "closed_region rg \<longleftrightarrow>
     fst rg \<in> st_name ` set (snd rg) \<and>
     (\<forall>s\<in>set (snd rg). \<forall>t\<in>set (st_transitions s). tr_target t \<in> st_name ` set (snd rg))"

lemma validate_region_iff:
  "validate_region machine initial states = Inr () \<longleftrightarrow> list_all closed_region (regions_of initial states)"
proof (induction initial states rule: regions_of.induct)
  case (1 initial states)
  have here: "closed_region (initial, states) \<longleftrightarrow> initial \<in> st_name ` set states \<and>
      (\<forall>s\<in>set states. \<forall>t\<in>set (st_transitions s). tr_target t \<in> st_name ` set states)"
    by (simp add: closed_region_def)
  have sub: "(\<forall>s\<in>set states. \<forall>r\<in>set (st_regions s).
        validate_region machine (rg_initial r) (rg_states r) = Inr ()) \<longleftrightarrow>
      (\<forall>s\<in>set states. \<forall>r\<in>set (st_regions s).
        list_all closed_region (regions_of (rg_initial r) (rg_states r)))"
    by (intro ball_cong refl) (rule 1)
  have "validate_region machine initial states = Inr () \<longleftrightarrow> initial \<in> st_name ` set states \<and>
      (\<forall>s\<in>set states. (\<forall>t\<in>set (st_transitions s). tr_target t \<in> st_name ` set states) \<and>
        (\<forall>r\<in>set (st_regions s). list_all closed_region (regions_of (rg_initial r) (rg_states r))))"
    by (subst validate_region.simps) (simp add: try_all_ok rbind_eq_Inr ball_conj_distrib sub [symmetric])
  also have "\<dots> \<longleftrightarrow> list_all closed_region (regions_of initial states)"
    by (subst regions_of.simps) (auto simp: list_all_iff here)
  finally show ?case .
qed

definition machine_ok :: "state_machine_def \<Rightarrow> bool" where
  "machine_ok sm \<longleftrightarrow>
     sm_states sm \<noteq> [] \<and> distinct (collect_state_names (sm_states sm)) \<and>
     list_all closed_region (regions_of (sm_initial_state sm) (sm_states sm)) \<and>
     list_all (\<lambda>p. list_all (state_covers (p_name p)) (sm_states sm)) (sm_outputs sm)"

lemma lower_machine_accepts: "(\<exists>m. lower_machine sm = Inr m) \<longleftrightarrow> machine_ok sm"
proof -
  have "first_repeat (collect_state_names (sm_states sm)) {} = None \<longleftrightarrow>
      distinct (collect_state_names (sm_states sm))"
    by (simp add: first_repeat_None)
  moreover have "try_all (\<lambda>p. require_cover (sm_name sm) (p_name p) (sm_states sm)) (sm_outputs sm) = Inr () \<longleftrightarrow>
      list_all (\<lambda>p. list_all (state_covers (p_name p)) (sm_states sm)) (sm_outputs sm)"
    by (simp add: try_all_ok require_cover_iff list_all_iff)
  moreover have "validate_region (sm_name sm) (sm_initial_state sm) (sm_states sm) = Inr () \<longleftrightarrow>
      list_all closed_region (regions_of (sm_initial_state sm) (sm_states sm))"
    by (rule validate_region_iff)
  ultimately show ?thesis
    by (cases "first_repeat (collect_state_names (sm_states sm)) {}";
        cases "validate_region (sm_name sm) (sm_initial_state sm) (sm_states sm)";
        cases "try_all (\<lambda>p. require_cover (sm_name sm) (p_name p) (sm_states sm)) (sm_outputs sm)")
      (auto simp: lower_machine_def machine_ok_def Let_def split: prod.split)
qed

lemma lower_machine_eq:
  "lower_machine sm = Inr m \<Longrightarrow>
     m = (let (top, lo) = emit_top sm in
       \<lparr>lm_state_types = lw_enums lo,
        lm_node = \<lparr>nd_name = sm_name sm, nd_kind = Operator, nd_inputs = sm_inputs sm,
          nd_outputs = sm_outputs sm, nd_locals = lw_locals lo,
          nd_equations = lw_equations lo @
            map (\<lambda>p. mk_equation (p_name p) (sm_value_of (p_name p) (p_ty p) top)) (sm_outputs sm),
          nd_contract = sm_contract sm, nd_diagram = default_diagram, nd_probes = []\<rparr>,
        lm_state_local = state_local\<rparr>)"
  by (auto simp: lower_machine_def Let_def rbind_eq_Inr split: if_splits option.splits prod.splits)

section \<open>Inlining\<close>

fun unrefined_state :: "state_def \<Rightarrow> bool"
and unrefined_region :: "region \<Rightarrow> bool" where
  "unrefined_state (StateDef name eqs ts regions refs) \<longleftrightarrow> refs = None \<and> list_all unrefined_region regions"
| "unrefined_region (Region initial states history) \<longleftrightarrow> list_all unrefined_state states"

lemma prefix_states_unrefined: "list_all unrefined_state (prefix_states states prefix)"
proof (induction states prefix rule: prefix_states.induct)
  case (1 states prefix)
  then show ?case by (subst prefix_states.simps) (simp add: list_all_iff)
qed

lemma collect_prefix_states:
  "collect_state_names (prefix_states states prefix) = map ((@) prefix) (collect_state_names states)"
proof (induction states prefix rule: prefix_states.induct)
  case (1 states prefix)
  have "collect_state_names (prefix_states states prefix) =
      concat (map (\<lambda>s. (prefix @ st_name s) #
        concat (map (\<lambda>r. collect_state_names (prefix_states (rg_states r) prefix)) (st_regions s))) states)"
    by (subst collect_state_names.simps, subst (1) prefix_states.simps) (simp add: comp_def)
  also have "\<dots> = concat (map (\<lambda>s. map ((@) prefix) (st_name s #
      concat (map (\<lambda>r. collect_state_names (rg_states r)) (st_regions s)))) states)"
    by (intro arg_cong [where f = concat] map_cong refl) (simp add: 1 map_concat comp_def cong: map_cong)
  also have "\<dots> = map ((@) prefix) (collect_state_names states)"
    by (subst collect_state_names.simps) (simp add: map_concat comp_def)
  finally show ?case .
qed

lemma try_map_Inr_mem: "try_map f xs = Inr ys \<Longrightarrow> y \<in> set ys \<Longrightarrow> \<exists>x\<in>set xs. f x = Inr y"
  by (induction xs arbitrary: ys) (auto simp: rbind_eq_Inr)

lemma try_map_defined: "(\<exists>ys. try_map f xs = Inr ys) \<longleftrightarrow> (\<forall>x\<in>set xs. \<exists>y. f x = Inr y)"
  by (induction xs) (auto simp: rbind_eq_Inr)

text \<open>The two parts of resolving one state: its own regions, and the machine it refines to.\<close>

abbreviation resolve_region ::
  "string \<Rightarrow> (string \<times> state_machine_def) list \<Rightarrow> string list \<Rightarrow> region \<Rightarrow> (lower_error, region) result"
where
  "resolve_region machine by_name stack r \<equiv>
     rbind (resolve_states machine (rg_states r) by_name stack)
       (\<lambda>ss. Inr (Region (rg_initial r) ss (rg_history r)))"

abbreviation resolve_ref ::
  "string \<Rightarrow> (string \<times> state_machine_def) list \<Rightarrow> string list \<Rightarrow> state_def \<Rightarrow> (lower_error, region list) result"
where
  "resolve_ref machine by_name stack st \<equiv>
     (case st_refines st of
        None \<Rightarrow> Inr []
      | Some target \<Rightarrow>
          if target \<in> set stack then Inl (RefineCycle machine target)
          else
            (case map_of by_name target of
               None \<Rightarrow> Inl (UnknownRefine machine (st_name st) target)
             | Some sub \<Rightarrow>
                 rbind (resolve_states machine (sm_states sub) by_name (stack @ [target]))
                   (\<lambda>sub_states.
                     let prefix = st_name st @ ''_''
                     in Inr [Region (prefix @ sm_initial_state sub) (prefix_states sub_states prefix) False])))"

lemma resolve_states_Inr:
  assumes "resolve_states machine states by_name stack = Inr out" and "y \<in> set out"
  obtains st regions inlined where "st \<in> set states"
    and "try_map (resolve_region machine by_name stack) (st_regions st) = Inr regions"
    and "resolve_ref machine by_name stack st = Inr inlined"
    and "y = StateDef (st_name st) (st_equations st) (st_transitions st) (regions @ inlined) None"
proof -
  from try_map_Inr_mem [OF assms(1) [unfolded resolve_states.simps [of machine states]] assms(2)]
  obtain st where "st \<in> set states"
    and *: "rbind (try_map (resolve_region machine by_name stack) (st_regions st)) (\<lambda>regions.
       rbind (resolve_ref machine by_name stack st) (\<lambda>inlined.
         Inr (StateDef (st_name st) (st_equations st) (st_transitions st) (regions @ inlined) None))) = Inr y"
    by (rule bexE)
  obtain regions inlined where
    "try_map (resolve_region machine by_name stack) (st_regions st) = Inr regions"
    "resolve_ref machine by_name stack st = Inr inlined"
    "Inr (StateDef (st_name st) (st_equations st) (st_transitions st) (regions @ inlined) None) =
       (Inr y :: (lower_error, state_def) result)"
    using * unfolding rbind_eq_Inr by (elim exE conjE)
  with that \<open>st \<in> set states\<close> show thesis by (simp only: sum.inject)
qed

lemma resolve_ref_unrefined:
  "resolve_ref machine by_name stack st = Inr inlined \<Longrightarrow> list_all unrefined_region inlined"
  by (auto simp: rbind_eq_Inr Let_def prefix_states_unrefined split: option.splits if_splits)

lemma resolve_states_unrefined:
  "resolve_states machine states by_name stack = Inr out \<Longrightarrow> list_all unrefined_state out"
proof (induction machine states by_name stack arbitrary: out rule: resolve_states.induct)
  case (1 machine states by_name stack)
  have "unrefined_state y" if y: "y \<in> set out" for y
    using 1(3) y
  proof (rule resolve_states_Inr)
    fix st regions inlined
    assume st: "st \<in> set states"
      and inner: "try_map (resolve_region machine by_name stack) (st_regions st) = Inr regions"
      and ref: "resolve_ref machine by_name stack st = Inr inlined"
      and y: "y = StateDef (st_name st) (st_equations st) (st_transitions st) (regions @ inlined) None"
    have "unrefined_region r" if "r \<in> set regions" for r
      using try_map_Inr_mem [OF inner that] 1(1) [OF st] by (auto simp: rbind_eq_Inr)
    with resolve_ref_unrefined [OF ref] show "unrefined_state y" by (auto simp: y list_all_iff)
  qed
  then show ?case by (simp add: list_all_iff)
qed

text \<open>The machines a list of states refers to, and the reference graph of a project.\<close>

fun state_refs :: "state_def \<Rightarrow> string set"
and region_refs :: "region \<Rightarrow> string set" where
  "state_refs (StateDef name eqs ts regions refs) = set_option refs \<union> \<Union> (set (map region_refs regions))"
| "region_refs (Region initial states history) = \<Union> (set (map state_refs states))"

definition refers :: "(string \<times> state_machine_def) list \<Rightarrow> (string \<times> string) set" where
  "refers by_name =
     {(a, b). \<exists>sm. map_of by_name a = Some sm \<and> b \<in> \<Union> (state_refs ` set (sm_states sm))}"

definition resolvable :: "(string \<times> state_machine_def) list \<Rightarrow> string set \<Rightarrow> string set \<Rightarrow> bool" where
  "resolvable by_name stack from \<longleftrightarrow>
     (refers by_name)\<^sup>* `` from \<subseteq>
       {t. t \<notin> stack \<and> map_of by_name t \<noteq> None \<and> (t, t) \<notin> (refers by_name)\<^sup>+}"

lemma state_refs_eq: "state_refs st = set_option (st_refines st) \<union> \<Union> (region_refs ` set (st_regions st))"
  by (cases st) simp

lemma region_refs_eq: "region_refs r = \<Union> (state_refs ` set (rg_states r))"
  by (cases r) simp

lemma resolvable_Un: "resolvable by_name stack (A \<union> B) \<longleftrightarrow> resolvable by_name stack A \<and> resolvable by_name stack B"
  by (auto simp: resolvable_def Image_Un)

lemma resolvable_UN: "resolvable by_name stack (\<Union>x\<in>A. f x) \<longleftrightarrow> (\<forall>x\<in>A. resolvable by_name stack (f x))"
  by (auto simp: resolvable_def)

lemma resolvable_empty [simp]: "resolvable by_name stack {}"
  by (simp add: resolvable_def)

text \<open>Following one reference: the machine is declared, new, and leads to resolvable references.\<close>

lemma resolvable_step:
  assumes sub: "map_of by_name t = Some sub"
  shows "resolvable by_name stack {t} \<longleftrightarrow>
    t \<notin> stack \<and> resolvable by_name (insert t stack) (\<Union> (state_refs ` set (sm_states sub)))"
proof -
  define N where "N = \<Union> (state_refs ` set (sm_states sub))"
  define R where "R = (refers by_name)\<^sup>* `` N"
  have "(t, b) \<in> refers by_name \<longleftrightarrow> b \<in> N" for b
    by (simp add: refers_def sub N_def)
  then have plus: "(t, u) \<in> (refers by_name)\<^sup>+ \<longleftrightarrow> u \<in> R" for u
    by (auto simp: trancl_unfold_left R_def)
  have "(t, u) \<in> (refers by_name)\<^sup>* \<longleftrightarrow> u = t \<or> u \<in> R" for u
    unfolding rtrancl_eq_or_trancl plus by blast
  then have star: "(refers by_name)\<^sup>* `` {t} = insert t R"
    by (simp add: set_eq_iff)
  have "map_of by_name t \<noteq> None" by (simp add: sub)
  then show ?thesis
    unfolding resolvable_def star N_def [symmetric] R_def [symmetric] insert_subset mem_Collect_eq plus
    by (simp add: subset_iff) metis
qed

lemma resolvable_undeclared: "map_of by_name t = None \<Longrightarrow> \<not> resolvable by_name stack {t}"
  by (auto simp: resolvable_def)

lemma rbind_defined: "(\<exists>y. rbind r f = Inr y) \<longleftrightarrow> (\<exists>x. r = Inr x \<and> (\<exists>y. f x = Inr y))"
  by (auto simp: rbind_eq_Inr)

lemma resolve_states_defined:
  "(\<exists>out. resolve_states machine states by_name stack = Inr out) \<longleftrightarrow>
     resolvable by_name (set stack) (\<Union> (state_refs ` set states))"
proof (induction machine states by_name stack rule: resolve_states.induct)
  case (1 machine states by_name stack)
  have regions: "(\<exists>ys. try_map (resolve_region machine by_name stack) (st_regions st) = Inr ys) \<longleftrightarrow>
      resolvable by_name (set stack) (\<Union> (region_refs ` set (st_regions st)))"
    if st: "st \<in> set states" for st
    unfolding try_map_defined resolvable_UN region_refs_eq
    by (intro ball_cong refl) (use 1(1) [OF st] in \<open>simp add: rbind_eq_Inr resolvable_UN\<close>)
  have ref: "(\<exists>ys. resolve_ref machine by_name stack st = Inr ys) \<longleftrightarrow>
      resolvable by_name (set stack) (set_option (st_refines st))"
    if st: "st \<in> set states" and rs: "try_map (resolve_region machine by_name stack) (st_regions st) = Inr rs" for st rs
  proof (cases "st_refines st")
    case (Some t)
    show ?thesis
    proof (cases "map_of by_name t")
      case (Some sub)
      show ?thesis
      proof (cases "t \<in> set stack")
        case False
        with 1(2) [OF st rs \<open>st_refines st = Some t\<close> False Some] show ?thesis
          using Some \<open>st_refines st = Some t\<close>
          by (simp add: rbind_eq_Inr Let_def resolvable_step [OF Some])
      qed (use Some \<open>st_refines st = Some t\<close> in \<open>simp add: resolvable_step\<close>)
    qed (use Some in \<open>simp add: resolvable_undeclared\<close>)
  qed simp
  have "(\<exists>y. rbind (try_map (resolve_region machine by_name stack) (st_regions st)) (\<lambda>regions.
       rbind (resolve_ref machine by_name stack st) (\<lambda>inlined.
         Inr (StateDef (st_name st) (st_equations st) (st_transitions st) (regions @ inlined) None))) = Inr y) \<longleftrightarrow>
     resolvable by_name (set stack) (state_refs st)" if "st \<in> set states" for st
    unfolding rbind_defined state_refs_eq resolvable_Un regions [OF that, symmetric]
    using ref [OF that] by auto
  then show ?case
    unfolding resolvable_UN
    by (subst resolve_states.simps) (unfold try_map_defined, intro ball_cong refl, blast)
qed

lemma resolve_refines_defined:
  "(\<exists>sm'. resolve_refines sm by_name = Inr sm') \<longleftrightarrow>
     resolvable by_name {sm_name sm} (\<Union> (state_refs ` set (sm_states sm)))"
  using resolve_states_defined [of "sm_name sm" "sm_states sm" by_name "[sm_name sm]"]
  by (simp add: resolve_refines_def rbind_eq_Inr)

section \<open>Emission\<close>

text \<open>
  One entry per emitted region: initial state, states, activation condition, history. Emitting a
  tree of regions opens them one after the other, numbered from the next free number on.
\<close>

type_synonym emitted = "string \<times> state_def list \<times> expr \<times> bool"

definition open_entry :: "string \<Rightarrow> emitted \<Rightarrow> lower_st \<Rightarrow> lower_st" where
  "open_entry machine = (\<lambda>(initial, states, active, history). open_region machine initial states active history)"

abbreviation entry_region :: "emitted \<Rightarrow> string \<times> state_def list" where
  "entry_region e \<equiv> (fst e, fst (snd e))"

abbreviation entry_active :: "emitted \<Rightarrow> expr" where
  "entry_active e \<equiv> fst (snd (snd e))"

lemma thread_fold:
  assumes "\<And>x s. x \<in> set xs \<Longrightarrow> \<exists>rs. snd (g x s) = fold f rs s \<and> P x rs"
  shows "\<exists>rss. snd (thread g xs s) = fold f (concat rss) s \<and> list_all2 P xs rss"
  using assms
proof (induction xs arbitrary: s)
  case (Cons x xs)
  from Cons.prems [of x s] obtain rs where rs: "snd (g x s) = fold f rs s" "P x rs" by auto
  from Cons.IH [of "snd (g x s)"] Cons.prems obtain rss where
    "snd (thread g xs (snd (g x s))) = fold f (concat rss) (snd (g x s))" "list_all2 P xs rss" by auto
  with rs have "snd (thread g (x # xs) s) = fold f (concat (rs # rss)) s \<and> list_all2 P (x # xs) (rs # rss)"
    by (simp add: Let_def split_beta)
  then show ?case by blast
qed simp

lemma not_true_lit [simp]: "\<not> is_true_lit (in_state v n)" "\<not> is_true_lit (e_and a b)"
  by (simp_all add: is_true_lit_def in_state_def e_and_def)

lemma list_all2_concat_map:
  "list_all2 (\<lambda>x rs. map f rs = h x \<and> (\<forall>r\<in>set rs. Q r)) xs rss \<Longrightarrow>
     map f (concat rss) = concat (map h xs) \<and> (\<forall>r\<in>set (concat rss). Q r)"
  by (induction xs rss rule: list_all2_induct) auto

lemma emit_region_opens:
  "\<exists>rs. snd (emit_region machine initial states active history lo) =
        fold (open_entry machine) ((initial, states, active, history) # rs) lo \<and>
      map entry_region ((initial, states, active, history) # rs) = regions_of initial states \<and>
      (\<forall>r\<in>set rs. \<not> is_true_lit (entry_active r))"
proof (induction machine initial states active history lo rule: emit_region.induct)
  case (1 machine initial states active history lo)
  let ?opened = "open_region machine initial states active history lo"
  let ?act = "\<lambda>st. if is_true_lit active then in_state (region_state_var (lw_next_id lo)) (st_name st)
      else e_and (Var (region_name (lw_next_id lo) ''active''))
        (in_state (region_state_var (lw_next_id lo)) (st_name st))"
  let ?sub = "\<lambda>st r lo3. let (info, lo4) =
      emit_region machine (rg_initial r) (rg_states r) (?act st) (rg_history r) lo3 in ((r, info), lo4)"
  let ?st = "\<lambda>st lo1. let (nested, lo2) = thread (?sub st) (st_regions st) lo1 in (StateNode st nested, lo2)"
  let ?ok = "\<lambda>rs. \<forall>r\<in>set rs. \<not> is_true_lit (entry_active r)"
  note IH = 1 [OF refl refl refl]
  have region: "\<exists>rs. snd (?sub st r lo3) = fold (open_entry machine) rs lo3 \<and>
      map entry_region rs = regions_of (rg_initial r) (rg_states r) \<and> ?ok rs"
    if mem: "st \<in> set states" "r \<in> set (st_regions st)" for st r lo3
  proof -
    obtain rs where "snd (emit_region machine (rg_initial r) (rg_states r) (?act st) (rg_history r) lo3) =
        fold (open_entry machine) ((rg_initial r, rg_states r, ?act st, rg_history r) # rs) lo3"
      "map entry_region ((rg_initial r, rg_states r, ?act st, rg_history r) # rs) =
        regions_of (rg_initial r) (rg_states r)" "?ok rs"
      using IH [OF mem] by blast
    then show ?thesis
      by (intro exI [of _ "(rg_initial r, rg_states r, ?act st, rg_history r) # rs"])
        (simp add: split_beta Let_def)
  qed
  have state: "\<exists>rs. snd (?st st lo1) = fold (open_entry machine) rs lo1 \<and>
      map entry_region rs = concat (map (\<lambda>r. regions_of (rg_initial r) (rg_states r)) (st_regions st)) \<and> ?ok rs"
    if st: "st \<in> set states" for st lo1
  proof -
    from thread_fold [where f = "open_entry machine" and P = "\<lambda>r rs.
        map entry_region rs = regions_of (rg_initial r) (rg_states r) \<and> ?ok rs", OF region [OF st]]
    obtain rss where "snd (thread (?sub st) (st_regions st) lo1) = fold (open_entry machine) (concat rss) lo1"
      "list_all2 (\<lambda>r rs. map entry_region rs = regions_of (rg_initial r) (rg_states r) \<and> ?ok rs) (st_regions st) rss"
      by blast
    with list_all2_concat_map [OF this(2)] show ?thesis
      by (intro exI [of _ "concat rss"]) (simp add: split_beta Let_def)
  qed
  from thread_fold [where f = "open_entry machine" and P = "\<lambda>st rs.
      map entry_region rs = concat (map (\<lambda>r. regions_of (rg_initial r) (rg_states r)) (st_regions st)) \<and> ?ok rs",
      OF state]
  obtain rss where rss: "snd (thread ?st states ?opened) = fold (open_entry machine) (concat rss) ?opened"
    "list_all2 (\<lambda>st rs. map entry_region rs =
       concat (map (\<lambda>r. regions_of (rg_initial r) (rg_states r)) (st_regions st)) \<and> ?ok rs) states rss"
    by blast
  have "snd (emit_region machine initial states active history lo) = snd (thread ?st states ?opened)"
    by (subst emit_region.simps) (simp add: Let_def split_beta)
  with rss list_all2_concat_map [OF rss(2)] show ?case
    by (intro exI [of _ "concat rss"]) (simp add: open_entry_def regions_of.simps [of initial states])
qed

text \<open>What the regions contribute, read off their numbers.\<close>

lemma fold_open_entry:
  "lw_next_id (fold (open_entry machine) rs lo) = lw_next_id lo + length rs"
  "lw_locals (fold (open_entry machine) rs lo) = lw_locals lo @
     concat (map (\<lambda>(k, r). region_locals machine k (entry_active r)) (enumerate (lw_next_id lo) rs))"
  "lw_equations (fold (open_entry machine) rs lo) = lw_equations lo @
     concat (map (\<lambda>(k, r). region_equations k (fst r) (fst (snd r)) (entry_active r) (snd (snd (snd r))))
       (enumerate (lw_next_id lo) rs))"
  "lw_enums (fold (open_entry machine) rs lo) = lw_enums lo @
     map (\<lambda>(k, r). \<lparr>td_body = EnumBody \<lparr>en_name = region_enum machine k,
       en_variants = map st_name (fst (snd r))\<rparr>\<rparr>) (enumerate (lw_next_id lo) rs)"
  by (induction rs arbitrary: lo) (auto simp: open_entry_def open_region_def Let_def)

section \<open>Generated names\<close>

lemma nat_digits_no_underscore: "CHR ''_'' \<notin> set (nat_digits n)"
proof (induction n rule: nat_digits.induct)
  case (1 n)
  have digit: "CHR ''_'' = (char_of (48 + m) :: char) \<Longrightarrow> m < 10 \<Longrightarrow> False" for m :: nat
  proof -
    assume "CHR ''_'' = (char_of (48 + m) :: char)" and "m < 10"
    then have "of_char (char_of (48 + m) :: char) = (of_char CHR ''_'' :: nat)" by (simp only:)
    with \<open>m < 10\<close> show False by (simp add: of_char_of)
  qed
  from 1 show ?case by (subst nat_digits.simps) (auto elim: digit)
qed

lemma region_name_eq [simp]: "region_name k w = region_name l v \<longleftrightarrow> k = l \<and> w = v"
proof
  assume "region_name k w = region_name l v"
  then have *: "nat_digits k @ CHR ''_'' # w = nat_digits l @ CHR ''_'' # v" by (simp add: region_name_def)
  have t: "takeWhile (\<lambda>c. c \<noteq> CHR ''_'') (nat_digits n @ CHR ''_'' # u) = nat_digits n" for n u
    using nat_digits_no_underscore [of n] by (subst takeWhile_append2) auto
  have "nat_digits k = nat_digits l" using arg_cong [OF *, of "takeWhile (\<lambda>c. c \<noteq> CHR ''_'')"] by (simp only: t)
  with * show "k = l \<and> w = v" using nat_digits_inj by auto
qed simp

lemma region_var_eq [simp]:
  "region_state_var k = region_state_var l \<longleftrightarrow> k = l"
  "region_next_var k = region_next_var l \<longleftrightarrow> k = l"
  "region_state_var k \<noteq> region_next_var l" "region_next_var l \<noteq> region_state_var k"
  "region_state_var k \<noteq> region_name l ''active''" "region_next_var k \<noteq> region_name l ''active''"
  "region_name l ''active'' \<noteq> region_state_var k" "region_name l ''active'' \<noteq> region_next_var k"
  by (auto simp: region_state_var_def region_next_var_def state_local_def next_state_local_def)
    (simp_all add: region_name_def)

lemma distinct_numbered:
  assumes "\<And>k r. distinct (f k r)"
    and "\<And>k l r s x. x \<in> set (f k r) \<Longrightarrow> x \<in> set (f l s) \<Longrightarrow> k = l"
  shows "distinct (concat (map (\<lambda>(k, r). f k r) (enumerate n rs)))"
proof (induction rs arbitrary: n)
  case (Cons r rs)
  have "set (f n r) \<inter> set (concat (map (\<lambda>(k, r). f k r) (enumerate (Suc n) rs))) = {}"
    using assms(2) by (fastforce simp: in_set_enumerate_eq)
  with Cons.IH [of "Suc n"] assms(1) show ?case by simp
qed simp

definition entry_vars :: "nat \<Rightarrow> emitted \<Rightarrow> string list" where
  "entry_vars k r = concat (map eq_lhs
     (region_equations k (fst r) (fst (snd r)) (entry_active r) (snd (snd (snd r)))))"

lemma entry_vars_eq:
  "entry_vars k r = (if is_true_lit (entry_active r) then [] else [region_name k ''active'']) @
     [region_state_var k, region_next_var k]"
  by (simp add: entry_vars_def region_equations_def mk_equation_def Let_def)

lemma distinct_entry_vars: "distinct (concat (map (\<lambda>(k, r). entry_vars k r) (enumerate n rs)))"
  by (rule distinct_numbered) (auto simp: entry_vars_eq split: if_splits)

definition generated_name :: "string \<Rightarrow> bool" where
  "generated_name v \<longleftrightarrow> take 5 v = ''__sm_''"

lemma entry_vars_generated: "v \<in> set (entry_vars k r) \<Longrightarrow> generated_name v"
  by (auto simp: entry_vars_eq generated_name_def region_state_var_def region_next_var_def region_name_def
      state_local_def next_state_local_def split: if_splits)

lemma emit_top_opens:
  obtains rs where
    "snd (emit_top sm) = fold (open_entry (sm_name sm)) rs
       \<lparr>lw_enums = [], lw_locals = sm_locals sm, lw_equations = [], lw_next_id = 0\<rparr>"
    "map entry_region rs = regions_of (sm_initial_state sm) (sm_states sm)"
    "rs \<noteq> []" "hd rs = (sm_initial_state sm, sm_states sm, bool_lit True, False)"
    "\<forall>r\<in>set (tl rs). \<not> is_true_lit (entry_active r)"
proof -
  obtain rs where rs: "snd (emit_region (sm_name sm) (sm_initial_state sm) (sm_states sm) (bool_lit True) False
      \<lparr>lw_enums = [], lw_locals = sm_locals sm, lw_equations = [], lw_next_id = 0\<rparr>) =
    fold (open_entry (sm_name sm)) ((sm_initial_state sm, sm_states sm, bool_lit True, False) # rs)
      \<lparr>lw_enums = [], lw_locals = sm_locals sm, lw_equations = [], lw_next_id = 0\<rparr>"
    "map entry_region ((sm_initial_state sm, sm_states sm, bool_lit True, False) # rs) =
      regions_of (sm_initial_state sm) (sm_states sm)" "\<forall>r\<in>set rs. \<not> is_true_lit (entry_active r)"
    using emit_region_opens by blast
  show thesis by (rule that [OF rs(1) [folded emit_top_def] rs(2)]) (use rs(3) in simp_all)
qed

lemma concat_map_concat: "concat (map f (concat (map g xs))) = concat (map (\<lambda>x. concat (map f (g x))) xs)"
  by (induction xs) simp_all

text \<open>Every variable of a lowered node is defined by one equation.\<close>

lemma lower_machine_defines:
  assumes low: "lower_machine sm = Inr m"
    and outs: "distinct (map p_name (sm_outputs sm))"
      "list_all (\<lambda>p. \<not> generated_name (p_name p)) (sm_outputs sm)"
  shows "distinct (concat (map eq_lhs (nd_equations (lm_node m)))) \<and>
    map p_name (nd_outputs (lm_node m)) = map p_name (sm_outputs sm) \<and>
    set (concat (map eq_lhs (nd_equations (lm_node m)))) =
      set (map l_name (drop (length (sm_locals sm)) (nd_locals (lm_node m)))) \<union>
      set (map p_name (sm_outputs sm))"
proof -
  obtain rs where rs: "snd (emit_top sm) = fold (open_entry (sm_name sm)) rs
       \<lparr>lw_enums = [], lw_locals = sm_locals sm, lw_equations = [], lw_next_id = 0\<rparr>"
    by (rule emit_top_opens)
  let ?vars = "concat (map (\<lambda>(k, r). entry_vars k r) (enumerate 0 rs))"
  let ?top = "fst (emit_top sm)"
  let ?outs = "map (\<lambda>p. mk_equation (p_name p) (sm_value_of (p_name p) (p_ty p) ?top)) (sm_outputs sm)"
  have m: "nd_equations (lm_node m) = lw_equations (snd (emit_top sm)) @ ?outs"
    "nd_locals (lm_node m) = lw_locals (snd (emit_top sm))"
    "nd_outputs (lm_node m) = sm_outputs sm"
    using lower_machine_eq [OF low] by (simp_all add: Let_def split_beta)
  have lhs: "concat (map eq_lhs (lw_equations (snd (emit_top sm)))) = ?vars"
    by (simp add: rs fold_open_entry concat_map_concat case_prod_unfold entry_vars_def)
  have region_vars: "l_name ` set (region_locals (sm_name sm) k (entry_active r)) = set (entry_vars k r)" for k r
    by (auto simp: region_locals_def entry_vars_eq Let_def)
  have locals: "set (map l_name (drop (length (sm_locals sm)) (nd_locals (lm_node m)))) = set ?vars"
    by (simp add: m rs fold_open_entry image_UN region_vars case_prod_unfold)
  have "distinct ?vars" by (rule distinct_entry_vars)
  moreover have "set ?vars \<inter> p_name ` set (sm_outputs sm) = {}"
    using outs(2) entry_vars_generated by (force simp: list_all_iff)
  ultimately show ?thesis
    using outs(1) locals by (simp add: m lhs comp_def mk_equation_def)
qed

end
