(* ===== verification/Machine_Sim.thy ===== *)
theory Machine_Sim
  imports Sim_Cycle Machine_Laws
begin

text \<open>
  Lowered state machines in the simulator: what the generated selections evaluate to, and the run of
  a region's state variable as a run of the automaton.
\<close>

declare eval.simps(5,7) [simp del]

section \<open>The chains\<close>

lemma select_chain_simps [simp]:
  "select_chain v none [] = none"
  "select_chain v none [(n, e)] = e"
  "select_chain v none ((n, e) # c # cs) = IfThenElse (in_state v n) e (select_chain v none (c # cs))"
proof -
  obtain l ls where "rev (c # cs) = l # ls" by (cases "rev (c # cs)") auto
  then show "select_chain v none ((n, e) # c # cs) = IfThenElse (in_state v n) e (select_chain v none (c # cs))"
    by (simp add: select_chain_def split: list.split)
qed (simp_all add: select_chain_def)

lemma transition_chain_simps [simp]:
  "transition_chain stay [] = stay"
  "transition_chain stay (t # ts) = IfThenElse (tr_guard t) (Var (tr_target t)) (transition_chain stay ts)"
  by (simp_all add: transition_chain_def)

text \<open>Nothing shadows the name of an enum variant.\<close>

definition names_variant :: "project \<Rightarrow> env \<Rightarrow> string \<Rightarrow> bool" where
  "names_variant p env n \<longleftrightarrow> env n = None \<and> enum_variant_value n p = Some (VEnum n)"

lemma eval_variant:
  "names_variant (cf_project cf) env n \<Longrightarrow> eval cf ev (Var n) a env sc c = (Ok (VEnum n), c)"
  by (simp add: eval_var_def names_variant_def)

lemma eval_in_state:
  assumes "env v = Some (VEnum q)" and "names_variant (cf_project cf) env n"
  shows "eval cf ev (in_state v n) a env sc c = (Ok (VBool (q = n)), c)"
  using assms by (simp add: in_state_def eval_var_def names_variant_def sbind_app eval_binary_def)

lemma common_real_enum [simp]: "common_real p env (VEnum n) e = VEnum n"
  by (simp add: common_real_def)

text \<open>A conditional that has a value has taken one of its branches.\<close>

lemma eval_conditional:
  assumes "eval cf ev (IfThenElse c t e) a env sc x = (Ok v, x')"
  obtains b a' x1 x2 w where "eval cf ev (if b then t else e) a' env sc x1 = (Ok w, x2)"
    and "v = common_real (cf_project cf) env w (if b then e else t)"
    and "fst (eval cf ev c (child a 0) env sc x) = Ok (VBool b) \<or>
      (\<exists>obs. fst (eval_decision cf ev c (child a 0) env sc Map.empty x) = Ok (b, obs))"
    and "ev = eval_depth cf n \<Longrightarrow> cx_state x1 = cx_state x"
proof -
  let ?cond = "if cx_cov x \<noteq> None then
      sbind (eval_decision cf ev c (child a 0) env sc Map.empty) (\<lambda>(outcome, obs). note_decision (child a 0) outcome obs)
    else sbind (eval cf ev c (child a 0) env sc) (\<lambda>v. slift (cond_result v))"
  from assms obtain b x1 w x2 x3 where c: "?cond x = (Ok b, x1)"
    and t: "(if b then eval cf ev t (child a 1) env sc else eval cf ev e (child a 2) env sc) x1 = (Ok w, x2)"
    and v: "v = common_real (cf_project cf) env w (if b then e else t)"
    unfolding eval.simps Let_def sbind_Ok by (auto split: if_splits)
  have outcome: "fst (eval cf ev c (child a 0) env sc x) = Ok (VBool b) \<or>
      (\<exists>obs. fst (eval_decision cf ev c (child a 0) env sc Map.empty x) = Ok (b, obs))"
  proof (cases "cx_cov x = None")
    case True
    with c obtain u where "eval cf ev c (child a 0) env sc x = (Ok u, x1)" "cond_result u = Ok b"
      by (auto simp: sbind_Ok)
    then show ?thesis by (cases u) (simp_all add: cond_result_def)
  next
    case False
    with c show ?thesis by (auto simp: sbind_Ok note_decision_def)
  qed
  have state: "cx_state x1 = cx_state x" if ev: "ev = eval_depth cf n"
  proof (cases "cx_cov x = None")
    case True
    with c show ?thesis
      using eval_keeps_state [of cf n c "child a 0" env sc x] by (auto simp: sbind_Ok ev)
  next
    case False
    with c show ?thesis
      using decision_keeps_state [of cf n c "child a 0" env sc Map.empty x]
      by (auto simp: sbind_Ok ev note_decision_def update_coverage_def)
  qed
  have "eval cf ev (if b then t else e) (if b then child a 1 else child a 2) env sc x1 = (Ok w, x2)"
    using t by (cases b) simp_all
  from that [OF this v outcome state] show thesis by blast
qed

lemma decision_in_state:
  assumes "env v = Some (VEnum q)" and "names_variant (cf_project cf) env n"
  shows "eval_decision cf ev (in_state v n) a env sc obs c = (Ok (q = n, obs(a \<mapsto> q = n)), c)"
  using eval_in_state [OF assms] unfolding in_state_def
  by (subst eval_decision.simps) (simp add: connective_def sbind_app decision_result_def Let_def)

text \<open>A selection on the state takes the branch of the state.\<close>

lemma eval_select:
  assumes "eval cf ev (IfThenElse (in_state v n) t e) a env sc x = (Ok w, x')"
    and q: "env v = Some (VEnum q)" "names_variant (cf_project cf) env n"
  obtains a' x1 x2 u where "eval cf ev (if q = n then t else e) a' env sc x1 = (Ok u, x2)"
    and "w = common_real (cf_project cf) env u (if q = n then e else t)"
  using assms(1)
proof (rule eval_conditional)
  fix b a' x1 x2 u
  assume "eval cf ev (if b then t else e) a' env sc x1 = (Ok u, x2)"
    and "w = common_real (cf_project cf) env u (if b then e else t)"
    and b: "fst (eval cf ev (in_state v n) (child a 0) env sc x) = Ok (VBool b) \<or>
      (\<exists>obs. fst (eval_decision cf ev (in_state v n) (child a 0) env sc Map.empty x) = Ok (b, obs))"
  moreover have "b = (q = n)" using b by (auto simp: eval_in_state [OF q] decision_in_state [OF q])
  ultimately show thesis using that by simp
qed

section \<open>The automaton\<close>

text \<open>Where a state may go in one cycle: it stays, or takes one of its transitions.\<close>

definition successors :: "state_def list \<Rightarrow> string \<Rightarrow> string set" where
  "successors states q =
     insert q (\<Union>st\<in>{st \<in> set states. st_name st = q}. tr_target ` set (st_transitions st))"

lemma eval_transition_chain:
  assumes "eval cf ev (transition_chain (Var v) ts) a env sc x = (Ok w, x')"
    and "env v = Some (VEnum q)" and "\<forall>t\<in>set ts. names_variant (cf_project cf) env (tr_target t)"
  shows "\<exists>q'\<in>insert q (tr_target ` set ts). w = VEnum q'"
  using assms
proof (induction ts arbitrary: a x x' w)
  case Nil
  then show ?case by (simp add: eval_var_def)
next
  case (Cons t ts)
  from Cons.prems(1) obtain b a' x1 x2 u where
    u: "eval cf ev (if b then Var (tr_target t) else transition_chain (Var v) ts) a' env sc x1 = (Ok u, x2)"
    and w: "w = common_real (cf_project cf) env u (if b then transition_chain (Var v) ts else Var (tr_target t))"
    by (auto elim: eval_conditional)
  have "\<exists>q'\<in>insert q (tr_target ` set (t # ts)). u = VEnum q'"
  proof (cases b)
    case True
    with u Cons.prems(3) show ?thesis by (auto simp: eval_variant simp del: eval.simps)
  next
    case False
    with u Cons.IH [of a' x1 u x2] Cons.prems(2,3) show ?thesis by auto
  qed
  with w show ?case by auto
qed

lemma eval_next_state:
  assumes "eval cf ev (build_next_state_chain states v) a env sc x = (Ok w, x')"
    and "env v = Some (VEnum q)" and "q \<in> st_name ` set states"
    and "\<forall>st\<in>set states. names_variant (cf_project cf) env (st_name st) \<and>
      (\<forall>t\<in>set (st_transitions st). names_variant (cf_project cf) env (tr_target t))"
  shows "\<exists>q'\<in>successors states q. w = VEnum q'"
  using assms
proof (induction states arbitrary: a x x' w)
  case (Cons st states)
  let ?chain = "\<lambda>s. transition_chain (Var v) (st_transitions s)"
  have here: "\<exists>q'\<in>successors (st # states) q. u = VEnum q'"
    if "eval cf ev (?chain st) a' env sc x1 = (Ok u, x2)" "q = st_name st" for a' x1 x2 u
    using eval_transition_chain [OF that(1) Cons.prems(2)] Cons.prems(4) that(2) by (auto simp: successors_def)
  show ?case
  proof (cases states)
    case Nil
    with Cons.prems(1,3) show ?thesis by (intro here) (auto simp: build_next_state_chain_def)
  next
    case (Cons st2 more)
    then have "eval cf ev (IfThenElse (in_state v (st_name st)) (?chain st) (build_next_state_chain states v)) a env sc x
        = (Ok w, x')"
      using Cons.prems(1) by (simp add: build_next_state_chain_def)
    then obtain a' x1 x2 u where
      u: "eval cf ev (if q = st_name st then ?chain st else build_next_state_chain states v) a' env sc x1 = (Ok u, x2)"
      and w: "w = common_real (cf_project cf) env u (if q = st_name st then build_next_state_chain states v else ?chain st)"
      using Cons.prems(2,4) by (auto elim: eval_select)
    have "\<exists>q'\<in>successors (st # states) q. u = VEnum q'"
    proof (cases "q = st_name st")
      case True
      with u here show ?thesis by auto
    next
      case False
      with u Cons.IH [of a' x1 u x2] Cons.prems(2,3,4) show ?thesis by (auto simp: successors_def)
    qed
    with w show ?thesis by auto
  qed
qed simp

section \<open>Outputs\<close>

text \<open>
  The expression of an output in the state the machine is in: of the innermost active state that
  assigns it, following at every level the first nested region that covers the output.
\<close>

fun active_output :: "env \<Rightarrow> string \<Rightarrow> ty \<Rightarrow> region_info \<Rightarrow> expr"
and active_in_state :: "env \<Rightarrow> string \<Rightarrow> ty \<Rightarrow> state_node \<Rightarrow> expr" where
  "active_output env out t (RegionInfo v nodes) =
     (case find_map (\<lambda>n. if env v = Some (VEnum (st_name (sn_def n))) then Some (active_in_state env out t n) else None)
        nodes of Some e \<Rightarrow> e | None \<Rightarrow> default_expr_for_type t)"
| "active_in_state env out t (StateNode st nested) =
     (case find_map (\<lambda>p. if region_covers out (fst p) then Some (active_output env out t (snd p)) else None) nested of
        Some e \<Rightarrow> e
      | None \<Rightarrow>
          (case find (\<lambda>e. eq_lhs e = [out]) (st_equations st) of
             Some e \<Rightarrow> eq_rhs e
           | None \<Rightarrow> default_expr_for_type t))"

text \<open>Every state variable holds one of the states of its region.\<close>

fun located :: "project \<Rightarrow> env \<Rightarrow> region_info \<Rightarrow> bool"
and located_node :: "project \<Rightarrow> env \<Rightarrow> state_node \<Rightarrow> bool" where
  "located p env (RegionInfo v nodes) \<longleftrightarrow>
     (\<exists>n\<in>set nodes. env v = Some (VEnum (st_name (sn_def n)))) \<and>
     list_all (\<lambda>n. names_variant p env (st_name (sn_def n)) \<and> located_node p env n) nodes"
| "located_node p env (StateNode st nested) \<longleftrightarrow> list_all (\<lambda>q. located p env (snd q)) nested"

definition yields :: "config \<Rightarrow> evaluator \<Rightarrow> env \<Rightarrow> sites \<Rightarrow> expr \<Rightarrow> val \<Rightarrow> bool" where
  "yields cf ev env sc e v \<longleftrightarrow> (\<exists>a x x'. eval cf ev e a env sc x = (Ok v, x'))"

lemma yieldsI: "eval cf ev e a env sc x = (Ok v, x') \<Longrightarrow> yields cf ev env sc e v"
  unfolding yields_def by blast

text \<open>A conditional widens a \<open>float\<close> when its other branch is a \<open>double\<close>.\<close>

definition widened :: "val \<Rightarrow> val \<Rightarrow> bool" where
  "widened w v \<longleftrightarrow> v = w \<or> (\<exists>f. w = VFloat32 f \<and> v = VFloat (flt_to F64 f))"

lemma widened_refl [simp]: "widened v v"
  by (simp add: widened_def)

lemma widened_trans: "widened u v \<Longrightarrow> widened v w \<Longrightarrow> widened u w"
  by (auto simp: widened_def)

lemma common_real_widened: "widened w (common_real p env w e)"
  by (auto simp: widened_def common_real_def split: val.split)

lemma select_chain_yields:
  assumes "yields cf ev env sc (select_chain v none cases) w"
    and "env v = Some (VEnum q)" and "q \<in> fst ` set cases"
    and "\<forall>n\<in>fst ` set cases. names_variant (cf_project cf) env n"
  shows "\<exists>e u. map_of cases q = Some e \<and> yields cf ev env sc e u \<and> widened u w"
  using assms
proof (induction cases arbitrary: w)
  case (Cons c cs)
  obtain n e where c: "c = (n, e)" by force
  show ?case
  proof (cases cs)
    case Nil
    with Cons.prems show ?thesis by (auto simp: c)
  next
    case (Cons c2 more)
    then have "yields cf ev env sc (IfThenElse (in_state v n) e (select_chain v none cs)) w"
      using Cons.prems(1) by (cases c2) (simp add: c)
    then obtain a a' x x' x1 x2 u where
      u: "eval cf ev (if q = n then e else select_chain v none cs) a' env sc x1 = (Ok u, x2)"
      and w: "w = common_real (cf_project cf) env u (if q = n then select_chain v none cs else e)"
      using Cons.prems(2,4) unfolding yields_def by (auto simp: c elim: eval_select)
    show ?thesis
    proof (cases "q = n")
      case True
      with u have "yields cf ev env sc e u" by (simp add: yieldsI)
      with True w show ?thesis using common_real_widened by (auto simp: c)
    next
      case False
      with u have "yields cf ev env sc (select_chain v none cs) u" by (simp add: yieldsI)
      from Cons.IH [OF this] Cons.prems(2,3,4) False obtain e' u' where
        "map_of cs q = Some e'" "yields cf ev env sc e' u'" "widened u' u" by (auto simp: c)
      with w False show ?thesis by (auto simp: c intro: widened_trans common_real_widened)
    qed
  qed
qed simp

lemma find_map_case:
  "find_map (\<lambda>n. if key n = q then Some (f n) else None) ns = map_of (map (\<lambda>n. (key n, f n)) ns) q"
  by (induction ns) auto

lemma output_yields:
  "located (cf_project cf) env ri \<Longrightarrow> yields cf ev env sc (sm_value_of out t ri) w \<Longrightarrow>
     \<exists>u. yields cf ev env sc (active_output env out t ri) u \<and> widened u w"
  "located_node (cf_project cf) env sn \<Longrightarrow> yields cf ev env sc (sm_value_in_state out t sn) w \<Longrightarrow>
     \<exists>u. yields cf ev env sc (active_in_state env out t sn) u \<and> widened u w"
proof (induction ri and sn arbitrary: w and w)
  case (RegionInfo v nodes)
  then obtain n where n: "n \<in> set nodes" "env v = Some (VEnum (st_name (sn_def n)))" by auto
  let ?q = "st_name (sn_def n)"
  let ?cases = "map (\<lambda>n. (st_name (sn_def n), sm_value_in_state out t n)) nodes"
  have "?q \<in> fst ` set ?cases" "\<forall>n\<in>fst ` set ?cases. names_variant (cf_project cf) env n"
    using RegionInfo.prems(1) n(1) by (auto simp: list_all_iff image_image)
  moreover have "yields cf ev env sc (select_chain v (default_expr_for_type t) ?cases) w"
    using RegionInfo.prems(2) by simp
  ultimately obtain e u where e: "map_of ?cases ?q = Some e" "yields cf ev env sc e u" "widened u w"
    using select_chain_yields [where v = v and q = ?q and cases = ?cases] n(2) by blast
  have "map_of (map (\<lambda>n. (st_name (sn_def n), g n)) nodes) ?q = map_option g
      (find (\<lambda>n. st_name (sn_def n) = ?q) nodes)" for g :: "state_node \<Rightarrow> expr"
    by (induction nodes) auto
  with e(1) obtain m where m: "find (\<lambda>n. st_name (sn_def n) = ?q) nodes = Some m" "e = sm_value_in_state out t m"
    and act: "map_of (map (\<lambda>n. (st_name (sn_def n), active_in_state env out t n)) nodes) ?q =
      Some (active_in_state env out t m)"
    by auto
  have "active_output env out t (RegionInfo v nodes) = active_in_state env out t m"
    using act by (simp add: n(2) find_map_case eq_commute [of ?q])
  moreover have "m \<in> set nodes" using m(1) by (auto dest: find_SomeD)
  then obtain u' where "yields cf ev env sc (active_in_state env out t m) u'" "widened u' u"
    using RegionInfo.IH [of m u] RegionInfo.prems(1) e(2) m(2) by (auto simp: list_all_iff)
  ultimately show ?case using e(3) widened_trans by auto
next
  case (StateNode st nested)
  let ?f = "\<lambda>g p. if region_covers out (fst p) then Some (g (snd p)) else None"
  have map_found: "find_map (?f g) nested = map_option (\<lambda>p. g (snd p)) (find (\<lambda>p. region_covers out (fst p)) nested)"
    for g :: "region_info \<Rightarrow> expr"
    by (induction nested) auto
  show ?case
  proof (cases "find (\<lambda>p. region_covers out (fst p)) nested")
    case None
    with StateNode.prems(2) show ?thesis
      using widened_refl by (auto simp: map_found)
  next
    case (Some p)
    then have p: "p \<in> set nested" by (auto dest: find_SomeD)
    obtain r ri where rp: "p = (r, ri)" by force
    from StateNode.prems(2) Some have "yields cf ev env sc (sm_value_of out t ri) w" by (simp add: map_found rp)
    with StateNode.IH p StateNode.prems(1) rp show ?thesis
      by (auto simp: map_found Some list_all_iff)
  qed
qed

section \<open>A region's state in one cycle\<close>

lemma cycle_reads_transition_chain: "cycle_reads stay \<subseteq> cycle_reads (transition_chain stay ts)"
  by (induction ts) auto

lemma cycle_reads_next_state:
  "states \<noteq> [] \<Longrightarrow> v \<in> cycle_reads (build_next_state_chain states v)"
proof (induction states)
  case (Cons st states)
  then show ?case
    using cycle_reads_transition_chain [of "Var v" "st_transitions st"]
    by (cases states) (auto simp: build_next_state_chain_def)
qed simp

lemma fit_enum: "fit_to cf t (VEnum q) = Some w \<Longrightarrow> w = VEnum q"
proof -
  have with_names: "fit_with nm t (VEnum q) = Some w \<Longrightarrow> (\<And>name w. nm name (VEnum q) = Some w \<Longrightarrow> w = VEnum q) \<Longrightarrow>
      w = VEnum q" for nm t w
    by (cases t) auto
  have "fit_at n p t (VEnum q) = Some w \<Longrightarrow> w = VEnum q" for n p t w
  proof (induction n arbitrary: t w)
    case (Suc n)
    show ?case
      by (rule with_names [of "fit_named p (fit_at n p)" t w])
        (use Suc in \<open>auto simp: fit_named_def split: option.splits type_body.splits\<close>)
  qed (auto elim: with_names)
  then show "fit_to cf t (VEnum q) = Some w \<Longrightarrow> w = VEnum q" by (simp add: fit_to_def)
qed

lemma store_enum: "store cf node x (VEnum q) env = Ok env' \<Longrightarrow> env' x = Some (VEnum q)"
  by (auto simp: store_def or_overflow_def fit_enum split: option.splits dest: fit_enum dest!: obind_cases)

lemma eval_resumed:
  assumes "eval cf ev (Arrow (Var initial) (Pre (Var next_var))) a env (Some Map.empty) x = (Ok v, x')"
    and "names_variant (cf_project cf) env initial"
  shows "if in_cycle (cx_state x) = 0 then v = VEnum initial else in_prev (cx_state x) next_var = Some v"
proof -
  have "\<not> has_call (Var initial)" "\<not> has_call (Pre (Var next_var))"
    by (simp_all add: has_call_def)
  moreover have "common_real p env w (Var initial) = w" for p w
    using assms(2) by (auto simp: common_real_def names_variant_def real_of_value_def split: val.split)
  ultimately show ?thesis
    using assms by (auto simp: eval.simps(7) sbind_Ok Let_def first_tick_def eval_variant eval_pre_def
        split: option.splits simp del: eval.simps(2))
qed

lemma decision_result_Ok: "decision_result v = Ok b \<longleftrightarrow> v = VBool b"
  by (cases v) (auto simp: decision_result_def)

text \<open>An equation whose value is not Boolean has the value of its right-hand side.\<close>

lemma evaluator_Ok:
  assumes "evaluator_of cf e a env sc x = (Ok v, x')" and "\<not> (\<exists>op l. e = Unary op l) \<and> \<not> (\<exists>op l r. e = Binary op l r)"
  obtains n w x2 where "eval cf (eval_depth cf n) e a env sc x = (Ok w, x2)" and "v = w"
proof -
  obtain n where n: "cf_stack cf = Suc n" and v: "eval_eq_rhs cf (eval_depth cf n) e a env sc x = (Ok v, x')"
    using assms(1) by (cases "cf_stack cf") (auto simp: evaluator_of_def)
  let ?leaf = "\<lambda>obs. sbind (eval cf (eval_depth cf n) e a env sc) (\<lambda>v.
      sbind (slift (decision_result v)) (\<lambda>b. sreturn (b, obs(a \<mapsto> b))))"
  have "eval_decision cf (eval_depth cf n) e a env sc obs = ?leaf obs" for obs
    using assms(2) by (subst eval_decision.simps) (simp add: Let_def split: expr.split)
  with v have "\<exists>w x2. eval cf (eval_depth cf n) e a env sc x = (Ok w, x2) \<and> v = w"
    by (auto simp: eval_eq_rhs_def sbind_Ok decision_result_Ok split: if_splits)
  with that show thesis by blast
qed

lemma region_cycle:
  assumes ok: "sim_ok cf s" and step: "step_env cf inputs s = (Ok env, s')"
    and clocks: "si_clock_info s = default_clock_info"
    and single: "distinct (defined_names (si_node s))"
    and region: "set (region_equations k initial states active history) \<subseteq> set (nd_equations (si_node s))"
    and closed: "closed_region (initial, states)"
    and names: "\<forall>n\<in>st_name ` set states. enum_variant_value n (cf_project cf) = Some (VEnum n) \<and>
      n \<notin> set (defined_names (si_node s)) \<and> n \<notin> fst ` set (own_vars (si_node s)) \<and> (si_consts s ++ inputs) n = None"
    and prev: "in_cycle (cx_state (si_ctx s)) = 0 \<or>
      (\<exists>q\<in>st_name ` set states. in_prev (cx_state (si_ctx s)) (region_next_var k) = Some (VEnum q))"
  obtains q q' where "q \<in> st_name ` set states" and "q' \<in> successors states q"
    and "env (region_state_var k) = Some (VEnum q)" and "env (region_next_var k) = Some (VEnum q')"
    and "if in_cycle (cx_state (si_ctx s)) = 0 then q = initial
      else q = initial \<and> \<not> is_true_lit active \<and> \<not> history \<or>
        in_prev (cx_state (si_ctx s)) (region_next_var k) = Some (VEnum q)"
proof -
  have ecs: "equation_clocks (si_clock_info s) = []" and sc: "site_map (si_clock_info s) = Some Map.empty"
    by (simp_all add: clocks default_clock_info_def site_map_def)
  have variants: "names_variant (cf_project cf) env1 n"
    if "\<forall>y. y \<notin> set (defined_names (si_node s)) \<and> y \<notin> fst ` set (own_vars (si_node s)) \<longrightarrow>
       env1 y = (si_consts s ++ inputs) y" "n \<in> st_name ` set states" for env1 n
    using names that unfolding names_variant_def by metis
  have initial: "initial \<in> st_name ` set states" using closed by (simp add: closed_region_def)
  let ?st = "cx_state (si_ctx s)"
  let ?resumed = "Arrow (Var initial) (Pre (Var (region_next_var k)))"
  let ?chain = "build_next_state_chain states (region_state_var k)"
  let ?av = "region_name k ''active''"
  define srhs where "srhs = (if is_true_lit active \<or> history then ?resumed
    else IfThenElse (e_and (Var ?av) (Arrow (bool_lit True) (e_not (Pre (Var ?av))))) (Var initial) ?resumed)"
  define nrhs where "nrhs = (if is_true_lit active then ?chain
    else IfThenElse (Var ?av) ?chain (Var (region_state_var k)))"
  have eqs: "mk_equation (region_state_var k) srhs \<in> set (nd_equations (si_node s))"
    "mk_equation (region_next_var k) nrhs \<in> set (nd_equations (si_node s))"
    using region by (auto simp: region_equations_def srhs_def nrhs_def Let_def split: if_splits)
  have plain: "\<not> (\<exists>op l. e = Unary op l) \<and> \<not> (\<exists>op l r. e = Binary op l r)" if "e \<in> {srhs, nrhs}" for e
  proof -
    have "\<not> (\<exists>op l. ?chain = Unary op l) \<and> \<not> (\<exists>op l r. ?chain = Binary op l r)"
    proof (cases states)
      case (Cons st more)
      then show ?thesis
        by (cases more; cases "st_transitions st") (auto simp: build_next_state_chain_def)
    qed (simp add: build_next_state_chain_def)
    with that show ?thesis by (auto simp: srhs_def nrhs_def split: if_splits)
  qed
  obtain j where j: "j < length (nd_equations (si_node s))"
    "nd_equations (si_node s) ! j = mk_equation (region_state_var k) srhs"
    using eqs(1) by (auto simp: in_set_conv_nth)
  obtain env1 env2 c1 c2 v where v: "evaluator_of cf srhs (root_addr (entry_root (si_node s) j)) env1
       (Some Map.empty) c1 = (Ok v, c2)"
    and store: "store cf (si_node s) (region_state_var k) v env1 = Ok env2" "env (region_state_var k) = env2 (region_state_var k)"
    and c1: "cx_state c1 = ?st"
    and free: "\<forall>y. y \<notin> set (defined_names (si_node s)) \<and> y \<notin> fst ` set (own_vars (si_node s)) \<longrightarrow>
       env1 y = (si_consts s ++ inputs) y"
    by (rule step_env_equation [OF ok step ecs j(1) _ single, of "region_state_var k"])
      (simp_all add: j(2) mk_equation_def sc)
  have "\<exists>q. v = VEnum q \<and> (if in_cycle ?st = 0 then q = initial else
      q = initial \<and> \<not> is_true_lit active \<and> \<not> history \<or> in_prev ?st (region_next_var k) = Some (VEnum q))"
  proof -
    obtain n x2 where e: "eval cf (eval_depth cf n) srhs (root_addr (entry_root (si_node s) j)) env1
        (Some Map.empty) c1 = (Ok v, x2)"
      using evaluator_Ok [OF v plain] by blast
    have res: "\<exists>q. v = VEnum q \<and> (if in_cycle ?st = 0 then q = initial else in_prev ?st (region_next_var k) = Some (VEnum q))"
      if "eval cf (eval_depth cf n) ?resumed a env1 (Some Map.empty) x = (Ok w, x3)" "cx_state x = ?st"
        "v = common_real (cf_project cf) env1 w e" for a x w x3 e
      using eval_resumed [OF that(1) variants [OF free initial]] that(2,3) prev
      by (auto simp: common_real_def split: if_splits val.splits)
    show ?thesis
    proof (cases "is_true_lit active \<or> history")
      case True
      with e c1 have "eval cf (eval_depth cf n) ?resumed (root_addr (entry_root (si_node s) j)) env1 (Some Map.empty) c1
          = (Ok v, x2)" by (simp add: srhs_def)
      from eval_resumed [OF this variants [OF free initial]] c1 prev show ?thesis by (auto split: if_splits)
    next
      case False
      let ?c = "e_and (Var ?av) (Arrow (bool_lit True) (e_not (Pre (Var ?av))))"
      from False e have "eval cf (eval_depth cf n) (IfThenElse ?c (Var initial) ?resumed)
          (root_addr (entry_root (si_node s) j)) env1 (Some Map.empty) c1 = (Ok v, x2)" by (simp add: srhs_def)
      then obtain b a' x1 x3 w where w: "eval cf (eval_depth cf n) (if b then Var initial else ?resumed) a' env1
          (Some Map.empty) x1 = (Ok w, x3)" "v = common_real (cf_project cf) env1 w (if b then ?resumed else Var initial)"
        "cx_state x1 = cx_state c1"
        by (rule eval_conditional [where n = n]) blast
      show ?thesis
      proof (cases b)
        case True
        with w False eval_variant [OF variants [OF free initial]] show ?thesis by auto
      next
        case bf: False
        then have "eval cf (eval_depth cf n) ?resumed a' env1 (Some Map.empty) x1 = (Ok w, x3)" using w(1) by simp
        from res [OF this _ w(2)] w(3) c1 obtain q where "v = VEnum q"
          "if in_cycle ?st = 0 then q = initial else in_prev ?st (region_next_var k) = Some (VEnum q)" by auto
        then show ?thesis by (intro exI [of _ q]) (auto split: if_splits)
      qed
    qed
  qed
  then obtain q where q: "v = VEnum q" "if in_cycle ?st = 0 then q = initial else
      q = initial \<and> \<not> is_true_lit active \<and> \<not> history \<or> in_prev ?st (region_next_var k) = Some (VEnum q)" by blast
  have envq: "env (region_state_var k) = Some (VEnum q)" using store q(1) by (auto dest: store_enum)
  have qs: "q \<in> st_name ` set states" using q(2) prev initial by (auto split: if_splits)
  obtain i where i: "i < length (nd_equations (si_node s))"
    "nd_equations (si_node s) ! i = mk_equation (region_next_var k) nrhs"
    using eqs(2) by (auto simp: in_set_conv_nth)
  obtain env3 env4 c3 c4 v' where v': "evaluator_of cf nrhs (root_addr (entry_root (si_node s) i)) env3
       (Some Map.empty) c3 = (Ok v', c4)"
    and store': "store cf (si_node s) (region_next_var k) v' env3 = Ok env4"
      "env (region_next_var k) = env4 (region_next_var k)"
    and reads: "\<forall>y\<in>cycle_reads nrhs. env3 y = env y"
    and free': "\<forall>y. y \<notin> set (defined_names (si_node s)) \<and> y \<notin> fst ` set (own_vars (si_node s)) \<longrightarrow>
       env3 y = (si_consts s ++ inputs) y"
    by (rule step_env_equation [OF ok step ecs i(1) _ single, of "region_next_var k"])
      (simp_all add: i(2) mk_equation_def sc)
  have "states \<noteq> []" using qs by auto
  then have "region_state_var k \<in> cycle_reads nrhs"
    using cycle_reads_next_state [of states "region_state_var k"] by (auto simp: nrhs_def)
  with reads envq have env3: "env3 (region_state_var k) = Some (VEnum q)" by simp
  have targets: "\<forall>st\<in>set states. names_variant (cf_project cf) env3 (st_name st) \<and>
      (\<forall>t\<in>set (st_transitions st). names_variant (cf_project cf) env3 (tr_target t))"
    using closed variants [OF free'] by (auto simp: closed_region_def)
  obtain n x2 where e: "eval cf (eval_depth cf n) nrhs (root_addr (entry_root (si_node s) i)) env3
      (Some Map.empty) c3 = (Ok v', x2)"
    using evaluator_Ok [OF v' plain] by blast
  have "\<exists>q'\<in>successors states q. v' = VEnum q'"
  proof (cases "is_true_lit active")
    case True
    with e eval_next_state [OF _ env3 qs targets] show ?thesis by (auto simp: nrhs_def)
  next
    case False
    with e have "eval cf (eval_depth cf n) (IfThenElse (Var ?av) ?chain (Var (region_state_var k)))
        (root_addr (entry_root (si_node s) i)) env3 (Some Map.empty) c3 = (Ok v', x2)" by (simp add: nrhs_def)
    then obtain b a' x1 x3 w where w: "eval cf (eval_depth cf n) (if b then ?chain else Var (region_state_var k)) a' env3
        (Some Map.empty) x1 = (Ok w, x3)"
      "v' = common_real (cf_project cf) env3 w (if b then Var (region_state_var k) else ?chain)"
      by (rule eval_conditional) blast
    show ?thesis
    proof (cases b)
      case True
      with w eval_next_state [OF _ env3 qs targets, of "eval_depth cf n" a' "Some Map.empty" x1 w x3]
      show ?thesis by auto
    next
      case False
      with w env3 show ?thesis by (auto simp: eval_var_def successors_def)
    qed
  qed
  then obtain q' where q': "q' \<in> successors states q" "v' = VEnum q'" by blast
  have "env (region_next_var k) = Some (VEnum q')" using store' q'(2) by (auto dest: store_enum)
  from that [OF qs q'(1) envq this q(2)] show thesis .
qed

section \<open>Runs\<close>

fun run_envs :: "config \<Rightarrow> env list \<Rightarrow> sim_state \<Rightarrow> env list option" where
  "run_envs cf [] s = Some []"
| "run_envs cf (i # is) s =
     (case step_env cf i s of
        (Ok env, s') \<Rightarrow> map_option ((#) env) (run_envs cf is s')
      | _ \<Rightarrow> None)"

text \<open>A run of an automaton: from its initial state along its transitions, with restarts if allowed.\<close>

definition automaton_run :: "string \<Rightarrow> state_def list \<Rightarrow> bool \<Rightarrow> string list \<Rightarrow> bool" where
  "automaton_run initial states restarts qs \<longleftrightarrow>
     (qs = [] \<or> hd qs = initial) \<and>
     successively (\<lambda>q q'. q' \<in> successors states q \<or> restarts \<and> q' = initial) qs"

text \<open>The names of the variants belong to the enum and to nothing else.\<close>

definition own_variants :: "config \<Rightarrow> sim_state \<Rightarrow> env list \<Rightarrow> string set \<Rightarrow> bool" where
  "own_variants cf s ins names \<longleftrightarrow>
     (\<forall>n\<in>names. enum_variant_value n (cf_project cf) = Some (VEnum n) \<and>
        n \<notin> set (defined_names (si_node s)) \<and> n \<notin> fst ` set (own_vars (si_node s)) \<and>
        si_consts s n = None \<and> (\<forall>i\<in>set ins. i n = None))"

lemma run_envs_Cons:
  assumes "run_envs cf (i # is) s = Some envs"
  obtains env s' envs' where "step_env cf i s = (Ok env, s')" "run_envs cf is s' = Some envs'" "envs = env # envs'"
  using assms by (auto split: prod.splits outcome.splits)

lemma region_run_from:
  assumes "sim_ok cf s" and "si_clock_info s = default_clock_info" and "distinct (defined_names (si_node s))"
    and "set (region_equations k initial states active history) \<subseteq> set (nd_equations (si_node s))"
    and "closed_region (initial, states)" and "own_variants cf s ins (st_name ` set states)"
    and "in_cycle (cx_state (si_ctx s)) = 0 \<or>
      (\<exists>q\<in>st_name ` set states. in_prev (cx_state (si_ctx s)) (region_next_var k) = Some (VEnum q))"
    and "run_envs cf ins s = Some envs"
  shows "\<exists>qs. map (\<lambda>env. env (region_state_var k)) envs = map (Some \<circ> VEnum) qs \<and>
    successively (\<lambda>q q'. q' \<in> successors states q \<or> (\<not> is_true_lit active \<and> \<not> history) \<and> q' = initial) qs \<and>
    (qs = [] \<or>
      (if in_cycle (cx_state (si_ctx s)) = 0 then hd qs = initial
       else hd qs = initial \<and> \<not> is_true_lit active \<and> \<not> history \<or>
         in_prev (cx_state (si_ctx s)) (region_next_var k) = Some (VEnum (hd qs))))"
  using assms
proof (induction ins arbitrary: s envs)
  case (Cons i ins)
  from Cons.prems(8) obtain env s' envs' where step: "step_env cf i s = (Ok env, s')"
    and rest: "run_envs cf ins s' = Some envs'" and envs: "envs = env # envs'"
    by (rule run_envs_Cons)
  have names: "\<forall>n\<in>st_name ` set states. enum_variant_value n (cf_project cf) = Some (VEnum n) \<and>
      n \<notin> set (defined_names (si_node s)) \<and> n \<notin> fst ` set (own_vars (si_node s)) \<and> (si_consts s ++ i) n = None"
    using Cons.prems(6) by (auto simp: own_variants_def)
  obtain q q' where q: "q \<in> st_name ` set states" "q' \<in> successors states q"
      "env (region_state_var k) = Some (VEnum q)" "env (region_next_var k) = Some (VEnum q')"
      "if in_cycle (cx_state (si_ctx s)) = 0 then q = initial
        else q = initial \<and> \<not> is_true_lit active \<and> \<not> history \<or>
          in_prev (cx_state (si_ctx s)) (region_next_var k) = Some (VEnum q)"
    by (rule region_cycle [OF Cons.prems(1) step Cons.prems(2,3,4,5) names Cons.prems(7)])
  have chains: "distinct (map clock_key (chains (si_clock_info s)))"
    by (simp add: Cons.prems(2) default_clock_info_def)
  note adv = step_env_advances [OF Cons.prems(1) step chains]
  obtain c where s': "s' = s\<lparr>si_ctx := c\<rparr>" by (rule step_env_Ok [OF Cons.prems(1) step]) blast
  have next_prev: "in_prev (cx_state (si_ctx s')) (region_next_var k) = Some (VEnum q')"
    using adv q(4) by (simp add: map_add_def)
  have "q' \<in> st_name ` set states"
    using q(1,2) Cons.prems(5) by (auto simp: successors_def closed_region_def)
  then have prev: "in_cycle (cx_state (si_ctx s')) = 0 \<or>
      (\<exists>q\<in>st_name ` set states. in_prev (cx_state (si_ctx s')) (region_next_var k) = Some (VEnum q))"
    using next_prev by blast
  have cycle: "in_cycle (cx_state (si_ctx s')) \<noteq> 0" using adv by simp
  have own': "own_variants cf s' ins (st_name ` set states)"
    using Cons.prems(6) by (simp add: s' own_variants_def)
  have ok': "sim_ok cf s'" using adv by blast
  have same: "si_clock_info s' = default_clock_info" "distinct (defined_names (si_node s'))"
    "set (region_equations k initial states active history) \<subseteq> set (nd_equations (si_node s'))"
    using Cons.prems(2,3,4) by (simp_all add: s')
  obtain qs where qs: "map (\<lambda>env. env (region_state_var k)) envs' = map (Some \<circ> VEnum) qs"
    "successively (\<lambda>q q'. q' \<in> successors states q \<or> (\<not> is_true_lit active \<and> \<not> history) \<and> q' = initial) qs"
    "qs = [] \<or> (if in_cycle (cx_state (si_ctx s')) = 0 then hd qs = initial
       else hd qs = initial \<and> \<not> is_true_lit active \<and> \<not> history \<or>
         in_prev (cx_state (si_ctx s')) (region_next_var k) = Some (VEnum (hd qs)))"
    using Cons.IH [OF ok' same(1-3) Cons.prems(5) own' prev rest] by blast
  then have start: "qs = [] \<or> hd qs = initial \<and> \<not> is_true_lit active \<and> \<not> history \<or> q' = hd qs"
    using cycle next_prev by auto
  show ?case
  proof (intro exI [of _ "q # qs"] conjI)
    show "successively (\<lambda>q q'. q' \<in> successors states q \<or> (\<not> is_true_lit active \<and> \<not> history) \<and> q' = initial) (q # qs)"
      using qs(2) start q(2) by (cases qs) auto
  qed (use qs(1) q(3,5) envs in auto)
qed simp

lemma lower_machine_regions:
  assumes "lower_machine sm = Inr m" and "k < length (regions_of (sm_initial_state sm) (sm_states sm))"
    and "regions_of (sm_initial_state sm) (sm_states sm) ! k = (initial, states)"
  obtains active history where
    "set (region_equations k initial states active history) \<subseteq> set (nd_equations (lm_node m))"
    and "k = 0 \<Longrightarrow> is_true_lit active" and "closed_region (initial, states)"
proof -
  obtain rs where rs: "snd (emit_top sm) = fold (open_entry (sm_name sm)) rs
       \<lparr>lw_enums = [], lw_locals = sm_locals sm, lw_equations = [], lw_next_id = 0\<rparr>"
    "map entry_region rs = regions_of (sm_initial_state sm) (sm_states sm)"
    "rs \<noteq> []" "hd rs = (sm_initial_state sm, sm_states sm, bool_lit True, False)"
    by (rule emit_top_opens)
  have k: "k < length rs" using assms(2) rs(2) by (metis length_map)
  have entry: "fst (rs ! k) = initial" "fst (snd (rs ! k)) = states"
    using nth_map [OF k, of entry_region] rs(2) assms(3) by simp_all
  let ?f = "\<lambda>k r. region_equations k (fst r) (fst (snd r)) (entry_active r) (snd (snd (snd r)))"
  have "(k, rs ! k) \<in> set (enumerate 0 rs)" using k by (simp add: in_set_enumerate_eq)
  then have "set (?f k (rs ! k)) \<subseteq> (\<Union>p\<in>set (enumerate 0 rs). set (?f (fst p) (snd p)))"
    by (intro subsetI UN_I [of "(k, rs ! k)"]) simp_all
  then have "set (region_equations k initial states (entry_active (rs ! k)) (snd (snd (snd (rs ! k))))) \<subseteq>
      set (lw_equations (snd (emit_top sm)))"
    by (simp add: rs(1) fold_open_entry case_prod_unfold entry)
  moreover have "set (lw_equations (snd (emit_top sm))) \<subseteq> set (nd_equations (lm_node m))"
    using lower_machine_eq [OF assms(1)] by (simp add: Let_def split_beta)
  moreover have "is_true_lit (entry_active (rs ! k))" if "k = 0"
    using that rs(3,4) by (cases rs) (auto simp: is_true_lit_def bool_lit_def)
  moreover have "closed_region (initial, states)"
    using lower_machine_accepts [of sm] assms by (metis list_all_length machine_ok_def)
  ultimately show thesis using that by blast
qed

lemma machine_run:
  assumes low: "lower_machine sm = Inr m" and sim: "sim_ok cf s" "si_node s = lm_node m"
      "in_cycle (cx_state (si_ctx s)) = 0"
    and clocks: "\<not> node_uses_clocks (lm_node m)"
    and outs: "distinct (map p_name (sm_outputs sm))"
      "list_all (\<lambda>p. \<not> generated_name (p_name p)) (sm_outputs sm)"
    and k: "k < length (regions_of (sm_initial_state sm) (sm_states sm))"
      "regions_of (sm_initial_state sm) (sm_states sm) ! k = (initial, states)"
    and own: "own_variants cf s ins (st_name ` set states)"
    and run: "run_envs cf ins s = Some envs"
  shows "\<exists>qs. map (\<lambda>env. env (region_state_var k)) envs = map (Some \<circ> VEnum) qs \<and>
    automaton_run initial states (k \<noteq> 0) qs"
proof -
  obtain active history where region: "set (region_equations k initial states active history) \<subseteq> set (nd_equations (si_node s))"
    and top: "k = 0 \<Longrightarrow> is_true_lit active" and closed: "closed_region (initial, states)"
    using lower_machine_regions [OF low k] sim(2) by metis
  have "si_clock_info s = default_clock_info"
    using sim(1,2) clocks by (simp add: sim_ok_def node_clocks_def)
  moreover have "distinct (defined_names (si_node s))"
    using lower_machine_defines [OF low outs] sim(2) by (simp add: defined_names_def)
  ultimately obtain qs where "map (\<lambda>env. env (region_state_var k)) envs = map (Some \<circ> VEnum) qs"
    "successively (\<lambda>q q'. q' \<in> successors states q \<or> (\<not> is_true_lit active \<and> \<not> history) \<and> q' = initial) qs"
    "qs = [] \<or> hd qs = initial"
    using region_run_from [OF sim(1) _ _ region closed own _ run] sim(3) by auto
  moreover from this(2) have "successively (\<lambda>q q'. q' \<in> successors states q \<or> k \<noteq> 0 \<and> q' = initial) qs"
    by (rule successively_mono) (use top in auto)
  ultimately show ?thesis by (auto simp: automaton_run_def)
qed

declare eval.simps(5,7) [simp]

end
