(* ===== verification/Fixtures.thy ===== *)
theory Fixtures
  imports Sim_Cycle Machine_Sim
begin

text \<open>
  Small projects on which the properties are applied: their nodes are written as a model file
  would declare them.
\<close>

definition mk_node :: "string \<Rightarrow> port list \<Rightarrow> port list \<Rightarrow> local_var list \<Rightarrow> equation list \<Rightarrow> node_def" where
  "mk_node name ins outs locs eqs =
     \<lparr>nd_name = name, nd_kind = Operator, nd_inputs = ins, nd_outputs = outs, nd_locals = locs,
      nd_equations = eqs, nd_contract = None, nd_diagram = default_diagram, nd_probes = []\<rparr>"

definition mk_port :: "string \<Rightarrow> ty \<Rightarrow> port" where
  "mk_port n t = \<lparr>p_name = n, p_ty = t\<rparr>"

definition mk_local :: "string \<Rightarrow> ty \<Rightarrow> local_var" where
  "mk_local n t = \<lparr>l_name = n, l_ty = t\<rparr>"

definition mk_eq :: "string \<Rightarrow> expr \<Rightarrow> equation" where
  "mk_eq l e = \<lparr>eq_lhs = [l], eq_rhs = e\<rparr>"

definition mk_package :: "node_def list \<Rightarrow> package" where
  "mk_package ns =
     \<lparr>pk_name = ''main'', pk_types = [], pk_constants = [], pk_nodes = ns, pk_contracts = [],
      pk_imported_operators = [], pk_state_machines = [], pk_activations = []\<rparr>"

definition mk_project :: "node_def list \<Rightarrow> project" where
  "mk_project ns =
     \<lparr>pj_name = ''demo'', pj_packages = [mk_package ns], pj_main = None, pj_includes = [],
      pj_origins = [], pj_resolution = None\<rparr>"

definition mk_config :: "node_def list \<Rightarrow> config" where
  "mk_config ns = \<lparr>cf_project = mk_project ns, cf_stack = 4, cf_checks = True\<rparr>"

lemmas fixture_defs =
  mk_node_def mk_port_def mk_local_def mk_eq_def mk_package_def mk_project_def mk_config_def

text \<open>
  A sampled delay: \<open>y\<close> delays \<open>x\<close> on the clock \<open>c\<close>, which an equation of the node computes.
  The two nodes differ in the order of their equations only.
\<close>

definition late_c :: equation where "late_c = mk_eq ''c'' (Var ''i'')"
definition late_x :: equation where "late_x = mk_eq ''x'' (When (Var ''k'') ''c'' True)"
definition late_y :: equation where
  "late_y = mk_eq ''y'' (Arrow (Const (LInt 9)) (Pre (Var ''x'')))"
definition late_o :: equation where
  "late_o = mk_eq ''o'' (Merge ''c'' (Var ''y'') (When (Const (LInt 0)) ''c'' False))"

definition sampled_node :: "equation list \<Rightarrow> node_def" where
  "sampled_node eqs =
     mk_node ''sampled'' [mk_port ''i'' TBool, mk_port ''k'' TInt32] [mk_port ''o'' TInt32]
       [mk_local ''c'' TBool, mk_local ''x'' TInt32, mk_local ''y'' TInt32] eqs"

definition first_outputs :: "node_def \<Rightarrow> (string \<rightharpoonup> val) \<Rightarrow> (string, val) btree outcome" where
  "first_outputs node inputs =
     obind (sim_new (\<lambda>_. Inl []) (mk_config [node]) (nd_name node))
       (\<lambda>s. fst (step (mk_config [node]) inputs s))"

text \<open>The simulator of the node whose clock is computed first, and its first cycle.\<close>

definition demo_nodes :: "node_def list" where
  "demo_nodes = [sampled_node [late_c, late_x, late_y, late_o]]"

definition demo_inputs :: "string \<rightharpoonup> val" where
  "demo_inputs = [''i'' \<mapsto> VBool True, ''k'' \<mapsto> VInt 5]"

definition demo_sim :: sim_state where
  "demo_sim = (case sim_new (\<lambda>_. Inl []) (mk_config demo_nodes) ''sampled'' of Ok s \<Rightarrow> s)"

definition demo_step :: "env outcome \<times> sim_state" where
  "demo_step = step_env (mk_config demo_nodes) demo_inputs demo_sim"

lemma demo_sim_new: "sim_new (\<lambda>_. Inl []) (mk_config demo_nodes) ''sampled'' = Ok demo_sim"
proof -
  have "(case sim_new (\<lambda>_. Inl []) (mk_config demo_nodes) ''sampled'' of Ok _ \<Rightarrow> True | _ \<Rightarrow> False)"
    by code_simp
  then show ?thesis by (auto simp: demo_sim_def split: outcome.splits)
qed

lemma demo_sim_ok: "sim_ok (mk_config demo_nodes) demo_sim"
  by (rule sim_new_ok(1) [OF demo_sim_new])

lemma demo_step_ok: "\<exists>env s'. step_env (mk_config demo_nodes) demo_inputs demo_sim = (Ok env, s')"
proof -
  have "(case step_env (mk_config demo_nodes) demo_inputs demo_sim of (Ok _, _) \<Rightarrow> True | _ \<Rightarrow> False)"
    by code_simp
  then show ?thesis by (auto split: outcome.splits prod.splits)
qed

text \<open>The simulator of the node whose delay is declared first, after a cycle in which the clock was off.\<close>

definition late_nodes :: "node_def list" where
  "late_nodes = [sampled_node [late_y, late_x, late_c, late_o]]"

definition late_sim :: sim_state where
  "late_sim = (case sim_new (\<lambda>_. Inl []) (mk_config late_nodes) ''sampled'' of Ok s \<Rightarrow> s)"

definition late_step :: "env outcome \<times> sim_state" where
  "late_step = step_env (mk_config late_nodes) [''i'' \<mapsto> VBool False, ''k'' \<mapsto> VInt 5] late_sim"

lemma late_sim_new: "sim_new (\<lambda>_. Inl []) (mk_config late_nodes) ''sampled'' = Ok late_sim"
proof -
  have "(case sim_new (\<lambda>_. Inl []) (mk_config late_nodes) ''sampled'' of Ok _ \<Rightarrow> True | _ \<Rightarrow> False)"
    by code_simp
  then show ?thesis by (auto simp: late_sim_def split: outcome.splits)
qed

lemma late_step_ok: "sim_ok (mk_config late_nodes) (snd late_step)"
proof -
  have "(case late_step of (Ok _, _) \<Rightarrow> True | _ \<Rightarrow> False)" by code_simp
  then obtain env s' where step: "step_env (mk_config late_nodes) [''i'' \<mapsto> VBool False, ''k'' \<mapsto> VInt 5] late_sim = (Ok env, s')"
    by (auto simp: late_step_def split: outcome.splits prod.splits)
  have "distinct (map clock_key (chains (si_clock_info late_sim)))" by code_simp
  from step_env_advances [OF sim_new_ok(1) [OF late_sim_new] step this] step show ?thesis by (simp add: late_step_def)
qed

text \<open>
  Both nodes pass the clock check, and their outputs differ: the order of the declarations shows.
\<close>

lemma gate_read_before_computed:
  "clock_errors (infer_clocks mk (sampled_node [late_y, late_x, late_c, late_o])) = []"
  "clock_errors (infer_clocks mk (sampled_node [late_c, late_x, late_y, late_o])) = []"
  "first_outputs (sampled_node [late_y, late_x, late_c, late_o]) demo_inputs = Ok [(''o'', VInt 0)]"
  "first_outputs (sampled_node [late_c, late_x, late_y, late_o]) demo_inputs = Ok [(''o'', VInt 9)]"
proof -
  have clean: "list_all (well_clocked (infer_var_clocks (sampled_node eqs))) eqs \<Longrightarrow> clock_errors (infer_clocks mk (sampled_node eqs)) = []"
    for eqs by (simp add: infer_clocks_errors list_all_iff) (simp add: sampled_node_def mk_node_def)
  note clocks = well_clocked_def equation_clock_def fits_def on_clock_plain infer_var_clocks_def io_names_def
    sampled_node_def fixture_defs late_y_def late_x_def late_c_def late_o_def Let_def numeral_eq_Suc
  show "clock_errors (infer_clocks mk (sampled_node [late_y, late_x, late_c, late_o])) = []"
    by (rule clean) (simp add: clocks)
  show "clock_errors (infer_clocks mk (sampled_node [late_c, late_x, late_y, late_o])) = []"
    by (rule clean) (simp add: clocks)
  show "first_outputs (sampled_node [late_y, late_x, late_c, late_o]) demo_inputs = Ok [(''o'', VInt 0)]"
    by code_simp
  show "first_outputs (sampled_node [late_c, late_x, late_y, late_o]) demo_inputs = Ok [(''o'', VInt 9)]"
    by code_simp
qed

lemma demo_types: "types_fit (mk_config ns)"
  by (rule types_fit_ranked [where tr = "\<lambda>_. 0" and n = 0])
    (simp_all add: ranked_types_def all_types_def mk_config_def mk_project_def mk_package_def)

lemma demo_calls: "ranked_calls (cf_project (mk_config demo_nodes)) (\<lambda>_. 0)"
  by (simp add: ranked_calls_def all_nodes_def demo_nodes_def fixture_defs sampled_node_def
      late_c_def late_x_def late_y_def late_o_def callees_def)

section \<open>A machine with a nested region\<close>

definition mk_state :: "string \<Rightarrow> equation list \<Rightarrow> (string \<times> string) list \<Rightarrow> region list \<Rightarrow> state_def" where
  "mk_state name eqs ts regions =
     StateDef name eqs (map (\<lambda>(g, target). \<lparr>tr_guard = Var g, tr_target = target\<rparr>) ts) regions None"

definition mk_machine :: "string \<Rightarrow> port list \<Rightarrow> port list \<Rightarrow> string \<Rightarrow> state_def list \<Rightarrow> state_machine_def" where
  "mk_machine name ins outs initial states =
     \<lparr>sm_name = name, sm_inputs = ins, sm_outputs = outs, sm_locals = [], sm_initial_state = initial,
      sm_states = states, sm_contract = None, sm_owner = None, sm_layout = []\<rparr>"

definition light_states :: "state_def list" where
  "light_states =
     [mk_state ''Red'' [mk_eq ''on'' (Const (LBool False))] [(''go'', ''Green'')] [],
      mk_state ''Green'' [] [(''halt'', ''Red'')]
        [Region ''Slow''
          [mk_state ''Slow'' [mk_eq ''on'' (Const (LBool True))] [(''go'', ''Fast'')] [],
           mk_state ''Fast'' [mk_eq ''on'' (Var ''go'')] [] []] False]]"

definition light :: state_machine_def where
  "light = mk_machine ''light'' [mk_port ''go'' TBool, mk_port ''halt'' TBool] [mk_port ''on'' TBool] ''Red'' light_states"

definition light_lowered :: lowered_machine where
  "light_lowered = (case lower_machine light of Inr m \<Rightarrow> m)"

definition light_config :: config where
  "light_config =
     \<lparr>cf_project = (mk_project [])\<lparr>pj_packages :=
        [(mk_package [lm_node light_lowered])\<lparr>pk_types := lm_state_types light_lowered\<rparr>]\<rparr>,
      cf_stack = 4, cf_checks = True\<rparr>"

definition light_sim :: sim_state where
  "light_sim = (case sim_new (\<lambda>_. Inl []) light_config ''light'' of Ok s \<Rightarrow> s)"

definition light_inputs :: "env list" where
  "light_inputs =
     [[''go'' \<mapsto> VBool True, ''halt'' \<mapsto> VBool False], [''go'' \<mapsto> VBool True, ''halt'' \<mapsto> VBool False],
      [''go'' \<mapsto> VBool True, ''halt'' \<mapsto> VBool True], [''go'' \<mapsto> VBool False, ''halt'' \<mapsto> VBool False]]"

lemma light_low: "lower_machine light = Inr light_lowered"
proof -
  have "(case lower_machine light of Inr _ \<Rightarrow> True | _ \<Rightarrow> False)" by code_simp
  then show ?thesis by (auto simp: light_lowered_def split: sum.splits)
qed

lemma light_sim_new: "sim_new (\<lambda>_. Inl []) light_config ''light'' = Ok light_sim"
proof -
  have "(case sim_new (\<lambda>_. Inl []) light_config ''light'' of Ok _ \<Rightarrow> True | _ \<Rightarrow> False)" by code_simp
  then show ?thesis by (auto simp: light_sim_def split: outcome.splits)
qed

lemma light_node: "si_node light_sim = lm_node light_lowered"
proof -
  have "(case find_node (cf_project light_config) ''light'' of Some n \<Rightarrow> True | _ \<Rightarrow> False)" by code_simp
  then obtain n where n: "find_node (cf_project light_config) ''light'' = Some n"
    by (auto split: option.splits)
  moreover have "n = lm_node light_lowered"
    using find_node_Some(1) [OF n] by (simp add: all_nodes_def light_config_def fixture_defs)
  ultimately show ?thesis
    using light_sim_new
    by (auto simp: sim_new_def Let_def obind_def split: outcome.splits sum.splits dest!: arg_cong [of _ light_sim si_node])
qed

text \<open>The values the machine's variables have in the run.\<close>

definition light_trace :: "(val option \<times> val option \<times> val option) list option" where
  "light_trace = map_option (map (\<lambda>env. (env (region_state_var 0), env (region_state_var 1), env ''on'')))
     (run_envs light_config light_inputs light_sim)"

lemma light_trace:
  "light_trace = Some
     [(Some (VEnum ''Red''), Some (VEnum ''Slow''), Some (VBool False)),
      (Some (VEnum ''Green''), Some (VEnum ''Slow''), Some (VBool True)),
      (Some (VEnum ''Green''), Some (VEnum ''Fast''), Some (VBool True)),
      (Some (VEnum ''Red''), Some (VEnum ''Fast''), Some (VBool False))]"
  by code_simp

lemma light_own: "own_variants light_config light_sim light_inputs {''Red'', ''Green'', ''Slow'', ''Fast''}"
  unfolding own_variants_def by code_simp

text \<open>A machine that refines one of its states into the light, and a cycle of the light in its region.\<close>

definition light_host :: state_machine_def where
  "light_host = mk_machine ''host'' [] [] ''Run'' [StateDef ''Run'' [] [] [] (Some ''light'')]"

definition light_env :: env where
  "light_env = [region_state_var 0 \<mapsto> VEnum ''Green'', region_state_var 1 \<mapsto> VEnum ''Fast'', ''go'' \<mapsto> VBool True]"

lemma light_located: "located (cf_project light_config) light_env (fst (emit_top light))"
  by code_simp

lemma light_active: "active_output light_env ''on'' TBool (fst (emit_top light)) = Var ''go''"
  by code_simp

end
