(* ===== verification/Activation.thy ===== *)
theory Activation
  imports IR_Project
begin

text \<open>
  Activations ("activate if") and their lowering (\<open>ol_ir/src/activation.rs\<close>): the checks, the
  rewriting of \<open>last\<close>, the branch flags and guards, the sampled scopes and the merge of each output.
  The lemmas characterise the activations that are accepted and show that the rewriting of \<open>last\<close>
  always ends.
\<close>

datatype act_lower_error =
    NoBranches string
  | NoOutputs string
  | BranchOutputUnassigned string string string
  | DuplicateBranch string string
  | UnknownActivationOwner string string
  | LastArgs string
  | LastUnknown string string
  | LastNeedsInit string string

text \<open>An index past the end of a list, or a recursion that does not end, stops the program.\<close>

datatype act_failure = Refused act_lower_error | Panicked

record lowered_activation =
  la_locals :: "local_var list"
  la_equations :: "equation list"

section \<open>Names\<close>

definition act_name_of :: "string \<Rightarrow> string \<Rightarrow> string" where
  "act_name_of a what = ''__act_'' @ a @ ''_'' @ what"

definition branch_flag :: "string \<Rightarrow> nat \<Rightarrow> string" where
  "branch_flag a k = act_name_of a (''b'' @ nat_digits (k + 1))"

definition none_flag :: "string \<Rightarrow> nat \<Rightarrow> string" where
  "none_flag a k = act_name_of a (''n'' @ nat_digits (k + 1))"

definition last_holder :: "string \<Rightarrow> string \<Rightarrow> string" where
  "last_holder a v = act_name_of a (''last_'' @ v)"

definition clock_var :: "string \<Rightarrow> nat \<Rightarrow> string" where
  "clock_var a k = (if k = 0 then branch_flag a 0 else act_name_of a (''g'' @ nat_digits (k + 1)))"

definition scope_tag :: "nat \<Rightarrow> nat \<Rightarrow> string" where
  "scope_tag n k = (if k < n then nat_digits (k + 1) else ''e'')"

definition sample_var :: "string \<Rightarrow> nat \<Rightarrow> nat \<Rightarrow> string \<Rightarrow> string" where
  "sample_var a n k v = act_name_of a (''s'' @ scope_tag n k @ ''_'' @ v)"

definition scope_var :: "string \<Rightarrow> nat \<Rightarrow> nat \<Rightarrow> string \<Rightarrow> string" where
  "scope_var a n k v = act_name_of a (''x'' @ scope_tag n k @ ''_'' @ v)"

section \<open>Holders of previous values\<close>

text \<open>The variables \<open>last\<close> was applied to, each with its initial value if one was given.\<close>

type_synonym lasts = "(string \<times> expr option) list"

fun note_last :: "string \<Rightarrow> expr option \<Rightarrow> lasts \<Rightarrow> lasts" where
  "note_last v i [] = [(v, i)]"
| "note_last v i ((w, j) # found) =
     (if w = v then (w, case j of None \<Rightarrow> i | Some _ \<Rightarrow> j) # found else (w, j) # note_last v i found)"

definition rewrite_last :: "string \<Rightarrow> expr \<Rightarrow> lasts \<times> act_lower_error option \<Rightarrow> expr \<times> lasts \<times> act_lower_error option" where
  "rewrite_last act x st =
     (case x of
        Call node args \<Rightarrow>
          if node \<noteq> ''last'' then (x, st)
          else
            (case args of
               [Var name] \<Rightarrow> (Var (last_holder act name), note_last name None (fst st), snd st)
             | [Var name, i] \<Rightarrow> (Var (last_holder act name), note_last name (Some i) (fst st), snd st)
             | _ \<Rightarrow> (x, fst st, Some (LastArgs act)))
      | _ \<Rightarrow> (x, st))"

definition rewrite :: "string \<Rightarrow> expr \<Rightarrow> lasts \<Rightarrow> (act_failure, expr \<times> lasts) result" where
  "rewrite act e found =
     (case walk_mut (Suc (size e)) (rewrite_last act) e (Some (found, None)) of
        (e', Some (found', None)) \<Rightarrow> Inr (e', found')
      | (e', Some (found', Some err)) \<Rightarrow> Inl (Refused err)
      | (e', None) \<Rightarrow> Inl Panicked)"

definition rewrite_equation :: "string \<Rightarrow> equation \<Rightarrow> lasts \<Rightarrow> (act_failure, equation \<times> lasts) result" where
  "rewrite_equation act eq found =
     rbind (rewrite act (eq_rhs eq) found) (\<lambda>(e, found'). Inr (eq\<lparr>eq_rhs := e\<rparr>, found'))"

text \<open>A type's default value as an expression; none for arrays and for named types without variants.\<close>

definition default_of :: "ty \<Rightarrow> (string \<rightharpoonup> string) \<Rightarrow> expr option" where
  "default_of t first_variant =
     (case t of
        TBool \<Rightarrow> Some (bool_lit False)
      | TFloat32 \<Rightarrow> Some (Const (LFloat (flt_zero F64)))
      | TFloat64 \<Rightarrow> Some (Const (LFloat (flt_zero F64)))
      | TChar \<Rightarrow> Some (Const (LChar 0))
      | TNamed name \<Rightarrow> map_option Var (first_variant name)
      | TArray elem len \<Rightarrow> None
      | _ \<Rightarrow> Some (int_lit 0))"

section \<open>Lowering\<close>

text \<open>The variables an activation defines, in order: name, type and equation.\<close>

type_synonym defs = "(string \<times> ty \<times> expr) list"

definition known_types :: "activation_def \<Rightarrow> node_def \<Rightarrow> string \<rightharpoonup> ty" where
  "known_types act own =
     map_of (map (\<lambda>p. (p_name p, p_ty p)) (act_outputs act)) ++
     map_of (rev (map (\<lambda>p. (p_name p, p_ty p)) (nd_inputs own @ nd_outputs own) @
       map (\<lambda>l. (l_name l, l_ty l)) (nd_locals own)))"

fun holder_defs :: "string \<Rightarrow> (string \<rightharpoonup> string) \<Rightarrow> lasts \<Rightarrow> (string \<rightharpoonup> ty) \<Rightarrow>
    (act_failure, defs \<times> (string \<rightharpoonup> ty)) result" where
  "holder_defs a first_variant [] types = Inr ([], types)"
| "holder_defs a first_variant ((v, init) # found) types =
     (case types v of
        None \<Rightarrow> Inl (Refused (LastUnknown a v))
      | Some t \<Rightarrow>
          rbind (case init of
              Some i \<Rightarrow> Inr i
            | None \<Rightarrow> ok_or (Refused (LastNeedsInit a v)) (default_of t first_variant)) (\<lambda>i.
          rbind (holder_defs a first_variant found (types(last_holder a v \<mapsto> t))) (\<lambda>(ds, types').
          Inr ((last_holder a v, t, Arrow i (Pre (Var v))) # ds, types'))))"

fun flag_defs :: "string \<Rightarrow> expr list \<Rightarrow> nat \<Rightarrow> expr option \<Rightarrow> defs" where
  "flag_defs a [] i prior = []"
| "flag_defs a (c # cs) i prior =
     (branch_flag a i, TBool, case prior of None \<Rightarrow> c | Some p \<Rightarrow> e_and p c) #
     (if cs = [] then []
      else (none_flag a i, TBool, case prior of None \<Rightarrow> e_not c | Some p \<Rightarrow> e_and p (e_not c)) #
        flag_defs a cs (i + 1) (Some (Var (none_flag a i))))"

definition under :: "string \<Rightarrow> nat \<Rightarrow> expr \<Rightarrow> expr" where
  "under a k e = fold (\<lambda>j e. When e (clock_var a j) False) [0..<k] e"

definition onto :: "string \<Rightarrow> nat \<Rightarrow> nat \<Rightarrow> expr \<Rightarrow> expr" where
  "onto a n k e = (if k < n then When (under a k e) (clock_var a k) True else under a n e)"

definition guard_defs :: "string \<Rightarrow> nat \<Rightarrow> defs" where
  "guard_defs a n = map (\<lambda>k. (clock_var a k, TBool, under a k (Var (branch_flag a k)))) [1..<n]"

text \<open>Sampling what an equation of scope \<open>k\<close> reads; \<open>sampled\<close> are the variables already sampled.\<close>

fun sample_reads :: "string \<Rightarrow> nat \<Rightarrow> nat \<Rightarrow> (string \<rightharpoonup> ty) \<Rightarrow> string list \<Rightarrow>
    expr \<times> string list \<times> defs \<Rightarrow> expr \<times> string list \<times> defs" where
  "sample_reads a n k types [] st = st"
| "sample_reads a n k types (v # vs) (rhs, sampled, ds) =
     (let s = sample_var a n k v;
          (sampled', ds') =
            (if v \<in> set sampled then (sampled, ds)
             else (sampled @ [v],
               ds @ (case types v of None \<Rightarrow> [] | Some t \<Rightarrow> [(s, t, onto a n k (Var v))])))
      in sample_reads a n k types vs (rename_var v s rhs, sampled', ds'))"

definition pin_const :: "string \<Rightarrow> nat \<Rightarrow> nat \<Rightarrow> expr \<Rightarrow> bool \<Rightarrow> expr \<times> bool" where
  "pin_const a n k x pinned = (case x of Const lit \<Rightarrow> (onto a n k x, True) | _ \<Rightarrow> (x, pinned))"

definition pin :: "string \<Rightarrow> nat \<Rightarrow> nat \<Rightarrow> expr \<Rightarrow> expr" where
  "pin a n k rhs =
     (let (rhs', pinned) = walk_mut_post (pin_const a n k) rhs False
      in if pinned then rhs' else onto a n k rhs')"

definition scope_equation :: "activation_def \<Rightarrow> (string \<rightharpoonup> ty) \<Rightarrow> nat \<Rightarrow> equation \<Rightarrow>
    string list \<times> defs \<Rightarrow> (act_failure, string list \<times> defs) result" where
  "scope_equation act types k eq st =
     (let a = act_name act; n = length (act_branches act);
          reads = filter (\<lambda>v. types v \<noteq> None) (free_vars (eq_rhs eq));
          (rhs, sampled, ds) = sample_reads a n k types reads (eq_rhs eq, st);
          rhs' = (if reads = [] then pin a n k rhs else rhs)
      in case eq_lhs eq of
           [] \<Rightarrow> Inl Panicked
         | v # _ \<Rightarrow>
             (let t = (case or_else (map_option p_ty (find (\<lambda>p. p_name p = v) (act_outputs act))) (types v) of
                         None \<Rightarrow> TBool | Some t \<Rightarrow> t)
              in Inr (sampled, ds @ [(scope_var a n k v, t, rhs')])))"

fun scope_equations :: "activation_def \<Rightarrow> (string \<rightharpoonup> ty) \<Rightarrow> nat \<Rightarrow> equation list \<Rightarrow>
    string list \<times> defs \<Rightarrow> (act_failure, string list \<times> defs) result" where
  "scope_equations act types k [] st = Inr st"
| "scope_equations act types k (eq # eqs) st =
     rbind (scope_equation act types k eq st) (scope_equations act types k eqs)"

fun scopes_defs :: "activation_def \<Rightarrow> (string \<rightharpoonup> ty) \<Rightarrow> nat \<Rightarrow> equation list list \<Rightarrow>
    (act_failure, defs) result" where
  "scopes_defs act types k [] = Inr []"
| "scopes_defs act types k (eqs # scopes) =
     rbind (scope_equations act types k eqs ([], [])) (\<lambda>st.
     rbind (scopes_defs act types (k + 1) scopes) (\<lambda>ds. Inr (snd st @ ds)))"

text \<open>Each output: the value of the selected scope, merged back to the base clock.\<close>

definition merge_chain :: "string \<Rightarrow> nat \<Rightarrow> string \<Rightarrow> expr" where
  "merge_chain a n v =
     fold (\<lambda>k chain. Merge (clock_var a k) (Var (scope_var a n k v)) chain) (rev [0..<n]) (Var (scope_var a n n v))"

definition scope_assigns :: "equation list \<Rightarrow> string \<Rightarrow> bool" where
  "scope_assigns eqs v \<longleftrightarrow> (\<exists>e\<in>set eqs. eq_lhs e = [v])"

definition check_output :: "activation_def \<Rightarrow> port \<Rightarrow> (act_failure, unit) result" where
  "check_output act out =
     rbind (try_all (\<lambda>b. if scope_assigns (ab_equations b) (p_name out) then Inr ()
        else Inl (Refused (BranchOutputUnassigned (act_name act) (p_name out) (ab_name b)))) (act_branches act)) (\<lambda>_.
     if scope_assigns (act_else_equations act) (p_name out) then Inr ()
     else Inl (Refused (BranchOutputUnassigned (act_name act) (p_name out) ''else'')))"

definition check_activation :: "activation_def \<Rightarrow> (act_failure, unit) result" where
  "check_activation act =
     (if act_branches act = [] then Inl (Refused (NoBranches (act_name act)))
      else if act_outputs act = [] then Inl (Refused (NoOutputs (act_name act)))
      else
        (case first_repeat (map ab_name (act_branches act)) {} of
           Some b \<Rightarrow> Inl (Refused (DuplicateBranch (act_name act) b))
         | None \<Rightarrow> try_all (check_output act) (act_outputs act)))"

definition lower_activation :: "activation_def \<Rightarrow> node_def \<Rightarrow> (string \<rightharpoonup> string) \<Rightarrow>
    (act_failure, lowered_activation) result" where
  "lower_activation act own first_variant =
     rbind (check_activation act) (\<lambda>_.
     rbind (try_thread (rewrite (act_name act)) (map ab_condition (act_branches act)) []) (\<lambda>(conditions, found1).
     rbind (try_thread (try_thread (rewrite_equation (act_name act)))
         (map ab_equations (act_branches act) @ [act_else_equations act]) found1) (\<lambda>(scopes, found).
     rbind (holder_defs (act_name act) first_variant found (known_types act own)) (\<lambda>(holders, types).
     rbind (scopes_defs act types 0 scopes) (\<lambda>values.
       let a = act_name act; n = length (act_branches act);
           ds = holders @ flag_defs a conditions 0 None @ guard_defs a n @ values
       in Inr \<lparr>la_locals = map (\<lambda>(v, t, e). \<lparr>l_name = v, l_ty = t\<rparr>) ds,
            la_equations = map (\<lambda>(v, t, e). \<lparr>eq_lhs = [v], eq_rhs = e\<rparr>) ds @
              map (\<lambda>p. \<lparr>eq_lhs = [p_name p], eq_rhs = merge_chain a n (p_name p)\<rparr>) (act_outputs act)\<rparr>)))))"

end
