(* ===== verification/Activation_Laws.thy ===== *)
theory Activation_Laws
  imports Activation Machine_Sim
begin

text \<open>
  Laws of activations: the rewriting of \<open>last\<close> ends and leaves other expressions alone, the accepted
  activations, the program never stops on a well-formed one, the branch flags are prioritised, and
  the merged output is the value of the selected scope.
\<close>

section \<open>Walking an expression\<close>

lemma thread_preserves:
  "P s \<Longrightarrow> (\<And>x s. x \<in> set xs \<Longrightarrow> P s \<Longrightarrow> P (snd (g x s))) \<Longrightarrow> P (snd (thread g xs s))"
  by (induction xs arbitrary: s) (auto simp: Let_def split_beta)

lemma for_each_child_preserves:
  assumes "P s" and g: "\<And>c s. c \<in> set (children e) \<Longrightarrow> P s \<Longrightarrow> P (snd (g c s))"
  shows "P (snd (for_each_child_mut g e s))"
proof (cases e)
  case (Struct t fis)
  have "P (snd (thread (\<lambda>fi u. let (v, u') = g (snd fi) u in ((fst fi, v), u')) fis s))"
    by (rule thread_preserves [where P = P, OF assms(1)]) (use g Struct in \<open>auto simp: Let_def split_beta\<close>)
  with Struct show ?thesis by (simp add: Let_def split_beta)
next
  case (Iterate k n i as)
  have "P (snd (thread g as u))" if "P u" for u
    by (rule thread_preserves [where P = P, OF that]) (use g Iterate in auto)
  with Iterate assms show ?thesis by (auto simp: Let_def split_beta split: option.split)
next
  case (Call n as)
  have "P (snd (thread g as s))" by (rule thread_preserves [where P = P, OF assms(1)]) (use g Call in auto)
  with Call show ?thesis by (simp add: Let_def split_beta)
next
  case (Tuple as)
  have "P (snd (thread g as s))" by (rule thread_preserves [where P = P, OF assms(1)]) (use g Tuple in auto)
  with Tuple show ?thesis by (simp add: Let_def split_beta)
next
  case (Array as)
  have "P (snd (thread g as s))" by (rule thread_preserves [where P = P, OF assms(1)]) (use g Array in auto)
  with Array show ?thesis by (simp add: Let_def split_beta)
qed (use assms in \<open>simp_all add: Let_def split_beta\<close>)

text \<open>A closure that does not grow what it rewrites is walked with as much fuel as the size.\<close>

lemma walk_mut_ends:
  assumes small: "\<And>x s. size (fst (f x s)) \<le> size (x :: expr)" and "size e < n"
  shows "snd (walk_mut n f e (Some s)) \<noteq> None"
  using assms(2)
proof (induction n arbitrary: e s)
  case (Suc n)
  obtain e' s' where f: "f e s = (e', s')" by force
  with small [of e s] have size: "size e' \<le> size e" by simp
  have "snd (for_each_child_mut (walk_mut n f) e' (Some s')) \<noteq> None"
  proof (rule for_each_child_preserves [where P = "\<lambda>u. u \<noteq> None"])
    fix c and u :: "'a option"
    assume c: "c \<in> set (children e')" and "u \<noteq> None"
    then obtain t where "u = Some t" by auto
    with Suc.IH [of c t] size_children [OF c] size Suc.prems show "snd (walk_mut n f c u) \<noteq> None" by simp
  qed simp
  with f show ?case by simp
qed simp

lemma rewrite_last_small: "size (fst (rewrite_last act x st)) \<le> size x"
  by (auto simp: rewrite_last_def split: expr.split list.split)

lemma rewrite_ends: "rewrite act e found \<noteq> Inl Panicked"
proof -
  have "snd (walk_mut (Suc (size e)) (rewrite_last act) e (Some (found, None))) \<noteq> None"
    by (rule walk_mut_ends) (simp_all add: rewrite_last_small)
  then show ?thesis by (auto simp: rewrite_def split: prod.splits option.splits)
qed

text \<open>Nothing happens to an expression without \<open>last\<close>.\<close>

definition no_last :: "expr \<Rightarrow> bool" where
  "no_last e \<longleftrightarrow> list_all (\<lambda>x. case x of Call node args \<Rightarrow> node \<noteq> ''last'' | _ \<Rightarrow> True) (visit e)"

lemma no_last_children: "no_last e \<Longrightarrow> c \<in> set (children e) \<Longrightarrow> no_last c"
  by (auto simp: no_last_def list_all_iff set_visit [of e])

lemma thread_id: "(\<And>x. x \<in> set xs \<Longrightarrow> g x s = (x, s)) \<Longrightarrow> thread g xs s = (xs, s)"
  by (induction xs) auto

lemma for_each_child_id:
  assumes "\<And>c. c \<in> set (children e) \<Longrightarrow> g c s = (c, s)"
  shows "for_each_child_mut g e s = (e, s)"
proof (cases e)
  case (Struct t fis)
  have "thread (\<lambda>fi u. let (v, u') = g (snd fi) u in ((fst fi, v), u')) fis s = (fis, s)"
    by (rule thread_id) (use assms Struct in auto)
  with Struct show ?thesis by simp
next
  case (Iterate k n i as)
  have "thread g as s = (as, s)" by (rule thread_id) (use assms Iterate in auto)
  with Iterate assms show ?thesis by (auto split: option.split)
next
  case (Call n as)
  have "thread g as s = (as, s)" by (rule thread_id) (use assms Call in auto)
  with Call show ?thesis by simp
next
  case (Tuple as)
  have "thread g as s = (as, s)" by (rule thread_id) (use assms Tuple in auto)
  with Tuple show ?thesis by simp
next
  case (Array as)
  have "thread g as s = (as, s)" by (rule thread_id) (use assms Array in auto)
  with Array show ?thesis by simp
qed (use assms in simp_all)

lemma walk_no_last:
  "no_last e \<Longrightarrow> size e < n \<Longrightarrow> walk_mut n (rewrite_last act) e (Some st) = (e, Some st)"
proof (induction n arbitrary: e)
  case (Suc n)
  have "rewrite_last act e st = (e, st)"
    using Suc.prems(1) by (auto simp: rewrite_last_def no_last_def list_all_iff set_visit [of e] split: expr.split)
  moreover have "for_each_child_mut (walk_mut n (rewrite_last act)) e (Some st) = (e, Some st)"
    by (rule for_each_child_id) (use Suc no_last_children size_children in fastforce)
  ultimately show ?case by simp
qed simp

lemma rewrite_no_last: "no_last e \<Longrightarrow> rewrite act e found = Inr (e, found)"
  by (simp add: rewrite_def walk_no_last del: walk_mut.simps)

section \<open>Accepted activations\<close>

definition complete_scope :: "activation_def \<Rightarrow> equation list \<Rightarrow> bool" where
  "complete_scope act eqs \<longleftrightarrow> list_all (\<lambda>p. scope_assigns eqs (p_name p)) (act_outputs act)"

lemma check_output_ok:
  "check_output act p = Inr u \<longleftrightarrow>
     list_all (\<lambda>b. scope_assigns (ab_equations b) (p_name p)) (act_branches act) \<and>
     scope_assigns (act_else_equations act) (p_name p)"
  by (auto simp: check_output_def rbind_eq_Inr try_all_ok list_all_iff split: if_splits)

lemma check_activation_ok:
  "check_activation act = Inr u \<longleftrightarrow>
     act_branches act \<noteq> [] \<and> act_outputs act \<noteq> [] \<and> distinct (map ab_name (act_branches act)) \<and>
     list_all (complete_scope act) (map ab_equations (act_branches act) @ [act_else_equations act])"
proof -
  have "first_repeat (map ab_name (act_branches act)) {} = None \<longleftrightarrow> distinct (map ab_name (act_branches act))"
    by (simp add: first_repeat_None)
  moreover have "try_all (check_output act) (act_outputs act) = Inr u \<longleftrightarrow>
      list_all (complete_scope act) (map ab_equations (act_branches act) @ [act_else_equations act])"
    by (auto simp: try_all_ok check_output_ok complete_scope_def list_all_iff)
  ultimately show ?thesis
    by (cases "first_repeat (map ab_name (act_branches act)) {}") (auto simp: check_activation_def)
qed

definition plain_activation :: "activation_def \<Rightarrow> bool" where
  "plain_activation act \<longleftrightarrow>
     list_all (\<lambda>b. no_last (ab_condition b)) (act_branches act) \<and>
     list_all (list_all (\<lambda>eq. no_last (eq_rhs eq) \<and> eq_lhs eq \<noteq> []))
       (map ab_equations (act_branches act) @ [act_else_equations act])"

lemma scope_equations_defined:
  "list_all (\<lambda>eq. eq_lhs eq \<noteq> []) eqs \<Longrightarrow> \<exists>st'. scope_equations act types k eqs st = Inr st'"
proof (induction eqs arbitrary: st)
  case (Cons eq eqs)
  then obtain v vs where "eq_lhs eq = v # vs" by (cases "eq_lhs eq") auto
  then have "\<exists>st1. scope_equation act types k eq st = Inr st1"
    by (simp add: scope_equation_def Let_def split: prod.split)
  with Cons show ?case by auto
qed simp

lemma scopes_defs_defined:
  "list_all (list_all (\<lambda>eq. eq_lhs eq \<noteq> [])) scopes \<Longrightarrow> \<exists>ds. scopes_defs act types k scopes = Inr ds"
proof (induction scopes arbitrary: k)
  case (Cons eqs scopes)
  with scope_equations_defined [of eqs act types k "([], [])"] show ?case by (auto simp: rbind_eq_Inr)
qed simp

lemma plain_accepted:
  assumes "plain_activation act"
  shows "(\<exists>l. lower_activation act own fv = Inr l) \<longleftrightarrow> check_activation act = Inr ()"
proof -
  let ?scopes = "map ab_equations (act_branches act) @ [act_else_equations act]"
  have "try_thread (rewrite (act_name act)) (map ab_condition (act_branches act)) [] =
      Inr (map ab_condition (act_branches act), [])"
    by (rule try_thread_id) (use assms in \<open>auto simp: plain_activation_def list_all_iff rewrite_no_last\<close>)
  moreover have "try_thread (try_thread (rewrite_equation (act_name act))) ?scopes [] = Inr (?scopes, [])"
    by (intro try_thread_id)
      (use assms in \<open>auto simp: plain_activation_def list_all_iff rewrite_no_last rewrite_equation_def\<close>)
  moreover obtain ds where "scopes_defs act (known_types act own) 0 ?scopes = Inr ds"
    using scopes_defs_defined [of ?scopes] assms by (force simp: plain_activation_def list_all_iff)
  ultimately show ?thesis
    by (cases "check_activation act") (simp_all add: lower_activation_def Let_def)
qed

section \<open>Selection\<close>

text \<open>
  The equations of the flags hold in an environment when each variable has the value of its
  right-hand side. A condition is decided by \<open>h\<close> when it evaluates to \<open>h\<close> without touching the
  context.
\<close>

definition decided :: "config \<Rightarrow> evaluator \<Rightarrow> env \<Rightarrow> sites \<Rightarrow> ctx \<Rightarrow> expr \<Rightarrow> bool \<Rightarrow> bool" where
  "decided cf ev env sc x c b \<longleftrightarrow> (\<forall>a. eval cf ev c a env sc x = (Ok (VBool b), x))"

definition defs_hold :: "config \<Rightarrow> evaluator \<Rightarrow> env \<Rightarrow> sites \<Rightarrow> ctx \<Rightarrow> defs \<Rightarrow> bool" where
  "defs_hold cf ev env sc x ds \<longleftrightarrow>
     list_all (\<lambda>(v, t, e). \<exists>a w. fst (eval cf ev e a env sc x) = Ok w \<and> env v = Some w) ds"

lemma decidedD: "decided cf ev env sc x c b \<Longrightarrow> eval cf ev c a env sc x = (Ok (VBool b), x)"
  unfolding decided_def by blast

lemma decided_and:
  assumes "decided cf ev env sc x p b" and "decided cf ev env sc x c d"
  shows "decided cf ev env sc x (e_and p c) (b \<and> d)"
  unfolding decided_def
proof
  fix a
  show "eval cf ev (e_and p c) a env sc x = (Ok (VBool (b \<and> d)), x)"
    using decidedD [OF assms(1), of "child a 0"] decidedD [OF assms(2), of "child a 1"]
    by (simp add: e_and_def sbind_app eval_binary_def on_bools_def)
qed

lemma decided_not:
  assumes "decided cf ev env sc x c d"
  shows "decided cf ev env sc x (e_not c) (\<not> d)"
  unfolding decided_def
proof
  fix a
  show "eval cf ev (e_not c) a env sc x = (Ok (VBool (\<not> d)), x)"
    using decidedD [OF assms, of "child a 0"] by (simp add: e_not_def sbind_app eval_unary_def)
qed

lemma decided_var: "env v = Some (VBool b) \<Longrightarrow> decided cf ev env sc x (Var v) b"
  by (simp add: decided_def eval_var_def)

lemma decided_value: "decided cf ev env sc x e b \<Longrightarrow> fst (eval cf ev e a env sc x) = Ok w \<Longrightarrow> w = VBool b"
  by (simp add: decidedD)

lemma flags_prioritised:
  assumes "defs_hold cf ev env sc x (flag_defs a cs i prior)"
    and "list_all2 (decided cf ev env sc x) cs hs"
    and "case prior of None \<Rightarrow> b | Some p \<Rightarrow> decided cf ev env sc x p b"
    and "k < length cs"
  shows "env (branch_flag a (i + k)) = Some (VBool (b \<and> hs ! k \<and> (\<forall>j<k. \<not> hs ! j)))"
  using assms
proof (induction a cs i prior arbitrary: hs b k rule: flag_defs.induct)
  case (2 a c cs i prior)
  then obtain h hs' where hs: "hs = h # hs'" "decided cf ev env sc x c h" "list_all2 (decided cf ev env sc x) cs hs'"
    by (auto simp: list_all2_Cons1)
  let ?sel = "case prior of None \<Rightarrow> c | Some p \<Rightarrow> e_and p c"
  let ?none = "case prior of None \<Rightarrow> e_not c | Some p \<Rightarrow> e_and p (e_not c)"
  have sel: "decided cf ev env sc x ?sel (b \<and> h)" and none: "decided cf ev env sc x ?none (b \<and> \<not> h)"
    using 2(4) hs(2) by (auto split: option.splits intro: decided_and decided_not)
  have flag: "env (branch_flag a i) = Some (VBool (b \<and> h))"
    using 2(2) decided_value [OF sel] by (auto simp: defs_hold_def)
  show ?case
  proof (cases k)
    case 0
    with flag hs show ?thesis by simp
  next
    case (Suc m)
    with 2(5) have cs: "cs \<noteq> []" "m < length cs" by auto
    then have "env (none_flag a i) = Some (VBool (b \<and> \<not> h))"
      using 2(2) decided_value [OF none] by (auto simp: defs_hold_def)
    moreover have "defs_hold cf ev env sc x (flag_defs a cs (i + 1) (Some (Var (none_flag a i))))"
      using 2(2) cs by (simp add: defs_hold_def)
    ultimately have "env (branch_flag a (i + 1 + m)) =
        Some (VBool ((b \<and> \<not> h) \<and> hs' ! m \<and> (\<forall>j<m. \<not> hs' ! j)))"
      using 2(1) [OF cs(1) _ hs(3), of "b \<and> \<not> h" m] cs(2) decided_var by auto
    moreover have "(\<forall>j<Suc m. \<not> (h # hs') ! j) \<longleftrightarrow> \<not> h \<and> (\<forall>j<m. \<not> hs' ! j)"
      by (auto simp: less_Suc_eq_0_disj)
    ultimately show ?thesis by (auto simp: Suc hs)
  qed
qed simp

text \<open>The first condition that holds, the number of branches when none does.\<close>

definition selected_scope :: "bool list \<Rightarrow> nat" where
  "selected_scope hs = length (takeWhile Not hs)"

lemma selected_scope_less: "j < selected_scope hs \<Longrightarrow> j < length hs \<and> \<not> hs ! j"
  using length_takeWhile_le [of Not hs] nth_length_takeWhile takeWhile_nth [of j Not hs]
  by (auto simp: selected_scope_def dest: set_takeWhileD nth_mem [of j "takeWhile Not hs"])

lemma selected_scope_holds: "selected_scope hs < length hs \<Longrightarrow> hs ! selected_scope hs"
  using nth_length_takeWhile [of Not hs] by (simp add: selected_scope_def)

lemma selected_scope_le: "selected_scope hs \<le> length hs"
  by (simp add: selected_scope_def length_takeWhile_le)

lemma merge_from_selects:
  assumes "eval cf ev (foldr (\<lambda>k chain. Merge (clock_var a k) (Var (f k)) chain) [k..<n] (Var (f n))) b env sc x = (Ok w, x')"
    and "\<forall>j. k \<le> j \<and> j < s \<longrightarrow> env (clock_var a j) = Some (VBool False)"
    and "s < n \<longrightarrow> env (clock_var a s) = Some (VBool True)" and "k \<le> s" "s \<le> n"
    and bound: "\<forall>j. env (f j) \<noteq> None"
  shows "\<exists>u. env (f s) = Some u \<and> widened u w"
  using assms
proof (induction "n - k" arbitrary: k b x x' w)
  case 0
  then have "k = n" "s = n" by auto
  moreover obtain u where "env (f n) = Some u" using bound by fastforce
  ultimately show ?case using 0 by (simp add: eval_var_def)
next
  case (Suc m)
  then have k: "k < n" by simp
  let ?rest = "foldr (\<lambda>k chain. Merge (clock_var a k) (Var (f k)) chain) [Suc k..<n] (Var (f n))"
  have chain: "foldr (\<lambda>k chain. Merge (clock_var a k) (Var (f k)) chain) [k..<n] (Var (f n)) =
      Merge (clock_var a k) (Var (f k)) ?rest"
    using k by (simp add: upt_conv_Cons)
  show ?case
  proof (cases "k = s")
    case True
    with k Suc.prems(3) have t: "env (clock_var a k) = Some (VBool True)" by simp
    obtain u where u: "env (f k) = Some u" using bound by fastforce
    have "w = common_real (cf_project cf) env u ?rest"
      using Suc.prems(1) t u unfolding chain by (auto simp: sbind_Ok eval_var_def)
    with u True show ?thesis using common_real_widened by auto
  next
    case False
    with Suc.prems(2,4) have "env (clock_var a k) = Some (VBool False)" by simp
    with Suc.prems(1) obtain u x2 where u: "eval cf ev ?rest (child b 1) env sc x = (Ok u, x2)"
      and w: "w = common_real (cf_project cf) env u (Var (f k))"
      unfolding chain by (auto simp: sbind_Ok)
    have "\<exists>v. env (f s) = Some v \<and> widened v u"
      by (rule Suc.hyps(1) [OF _ u]) (use Suc.hyps(2) Suc.prems False in auto)
    with w show ?thesis using common_real_widened widened_trans by blast
  qed
qed

lemma merge_chain_selects:
  assumes flags: "defs_hold cf ev env sc x (flag_defs a cs 0 None)"
    and conds: "list_all2 (decided cf ev env sc x) cs hs"
    and guards: "\<forall>k. 0 < k \<and> k < length cs \<and> (\<forall>j<k. env (clock_var a j) = Some (VBool False)) \<longrightarrow>
      env (clock_var a k) = env (branch_flag a k)"
    and bound: "\<forall>k. env (scope_var a (length cs) k v) \<noteq> None"
    and run: "eval cf ev (merge_chain a (length cs) v) b env sc y = (Ok w, y')"
  shows "\<exists>u. env (scope_var a (length cs) (selected_scope hs) v) = Some u \<and> widened u w"
proof -
  have len: "length hs = length cs" using conds by (simp add: list_all2_lengthD)
  have flag: "env (branch_flag a k) = Some (VBool (hs ! k \<and> (\<forall>j<k. \<not> hs ! j)))" if "k < length cs" for k
    using flags_prioritised [OF flags conds _ that, of True] by simp
  have clocks: "\<forall>j<k. env (clock_var a j) = Some (VBool False)" if "k \<le> selected_scope hs" for k
    using that
  proof (induction k)
    case (Suc k)
    then have k: "k < length cs" "\<not> hs ! k" using selected_scope_less [of k hs] len by auto
    have "env (clock_var a k) = env (branch_flag a k)"
    proof (cases "k = 0")
      case False
      with guards Suc k show ?thesis by simp
    qed (simp add: clock_var_def)
    with flag [OF k(1)] k(2) Suc show ?case by (auto simp: less_Suc_eq)
  qed simp
  have selected: "env (clock_var a (selected_scope hs)) = Some (VBool True)" if "selected_scope hs < length cs"
  proof -
    have "env (clock_var a (selected_scope hs)) = env (branch_flag a (selected_scope hs))"
      using guards clocks [of "selected_scope hs"] that by (cases "selected_scope hs = 0") (auto simp: clock_var_def)
    with flag [OF that] selected_scope_holds [of hs] selected_scope_less [of _ hs] that len show ?thesis by auto
  qed
  have "eval cf ev (foldr (\<lambda>k chain. Merge (clock_var a k) (Var (scope_var a (length cs) k v)) chain)
      [0..<length cs] (Var (scope_var a (length cs) (length cs) v))) b env sc y = (Ok w, y')"
    using run by (simp add: merge_chain_def foldr_conv_fold)
  then show ?thesis
    by (rule merge_from_selects) (use clocks [of "selected_scope hs"] selected selected_scope_le [of hs] len bound in auto)
qed

end
