(* ===== verification/Lowering.thy ===== *)
theory Lowering
  imports State_Machine Activation
begin

text \<open>
  Lowering the state machines and activations of a project (\<open>Project::lower_state_machines\<close> and
  \<open>Project::lower_activations\<close> in \<open>ol_ir/src/project.rs\<close>): machines without an owner become nodes, the
  others and the activations are merged into the body of their operator, and the provenance of the
  merged equations is recorded. The lemmas show that nothing sugared is left, that a node only ever
  gains locals and equations, and that the recorded ranges are ranges of equations of the node.
\<close>

section \<open>Merging into an operator\<close>

text \<open>The start node of a name, extended: the range of the new equations and the nodes.\<close>

fun merge_into :: "string \<Rightarrow> local_var list \<Rightarrow> equation list \<Rightarrow> node_def list \<Rightarrow> ((nat \<times> nat) \<times> node_def list) option" where
  "merge_into own ls eqs [] = None"
| "merge_into own ls eqs (n # ns) =
     (if nd_name n = own then
        Some ((length (nd_equations n), length (nd_equations n) + length eqs),
          n\<lparr>nd_locals := nd_locals n @ ls, nd_equations := nd_equations n @ eqs\<rparr> # ns)
      else map_option (\<lambda>(range, ns'). (range, n # ns')) (merge_into own ls eqs ns))"

section \<open>State machines\<close>

type_synonym machine_lowering = "package \<times> construct_origin list \<times> lower_error list"

definition lower_one_machine ::
  "(string \<times> state_machine_def) list \<Rightarrow> state_machine_def \<Rightarrow> machine_lowering \<Rightarrow> machine_lowering" where
  "lower_one_machine by_name sm st =
     (let (pkg, origins, errors) = st in
      case rbind (resolve_refines sm by_name) lower_machine of
        Inl e \<Rightarrow> (pkg, origins, errors @ [e])
      | Inr low \<Rightarrow>
          let pkg1 = pkg\<lparr>pk_types := pk_types pkg @ lm_state_types low\<rparr> in
          case sm_owner sm of
            None \<Rightarrow> (pkg1\<lparr>pk_nodes := pk_nodes pkg1 @ [lm_node low]\<rparr>, origins, errors)
          | Some op \<Rightarrow>
              (case merge_into op (nd_locals (lm_node low)) (nd_equations (lm_node low)) (pk_nodes pkg1) of
                 Some ((start, stop), ns) \<Rightarrow>
                   (pkg1\<lparr>pk_nodes := ns\<rparr>,
                    origins @ [\<lparr>co_node = op, co_kind = StateMachineKind, co_name = sm_name sm,
                      co_first = start, co_end = stop, co_branches = []\<rparr>], errors)
               | None \<Rightarrow> (pkg1, origins, errors @ [UnknownMachineOwner (sm_name sm) op])))"

definition lower_package_machines :: "package \<Rightarrow> construct_origin list \<times> lower_error list \<Rightarrow> machine_lowering" where
  "lower_package_machines pkg st =
     (let by_name = rev (map (\<lambda>m. (sm_name m, m)) (pk_state_machines pkg))
      in fold (lower_one_machine by_name) (pk_state_machines pkg)
           (pkg\<lparr>pk_state_machines := []\<rparr>, fst st, snd st))"

definition lower_state_machines :: "project \<Rightarrow> project \<times> lower_error list" where
  "lower_state_machines p =
     (let (pkgs, origins, errors) = thread lower_package_machines (pj_packages p) (pj_origins p, [])
      in (p\<lparr>pj_packages := pkgs, pj_origins := origins\<rparr>, errors))"

section \<open>Activations\<close>

text \<open>Each enum's start variant; a later enum of the same name replaces an earlier one.\<close>

definition first_variants :: "project \<Rightarrow> string \<rightharpoonup> string" where
  "first_variants p =
     map_of (rev (List.map_filter (\<lambda>t.
       case td_body t of
         EnumBody e \<Rightarrow> (case en_variants e of [] \<Rightarrow> None | v # _ \<Rightarrow> Some (en_name e, v))
       | _ \<Rightarrow> None) (all_types p)))"

type_synonym act_lowering = "package \<times> construct_origin list \<times> act_lower_error list"

definition lower_one_activation ::
  "(string \<rightharpoonup> string) \<Rightarrow> activation_def \<Rightarrow> act_lowering \<Rightarrow> act_lowering option" where
  "lower_one_activation first_variant act st =
     (let (pkg, origins, errors) = st in
      case find (\<lambda>n. nd_name n = act_owner act) (pk_nodes pkg) of
        None \<Rightarrow> Some (pkg, origins, errors @ [UnknownActivationOwner (act_name act) (act_owner act)])
      | Some n \<Rightarrow>
          (case lower_activation act n first_variant of
             Inl Panicked \<Rightarrow> None
           | Inl (Refused e) \<Rightarrow> Some (pkg, origins, errors @ [e])
           | Inr low \<Rightarrow>
               (case merge_into (act_owner act) (la_locals low) (la_equations low) (pk_nodes pkg) of
                  None \<Rightarrow> Some (pkg, origins, errors)
                | Some ((start, stop), ns) \<Rightarrow>
                    Some (pkg\<lparr>pk_nodes := ns\<rparr>,
                      origins @ [\<lparr>co_node = act_owner act, co_kind = ActivationKind, co_name = act_name act,
                        co_first = start, co_end = stop,
                        co_branches = map ab_name (act_branches act) @ [''else'']\<rparr>], errors))))"

fun fold_option :: "('a \<Rightarrow> 's \<Rightarrow> 's option) \<Rightarrow> 'a list \<Rightarrow> 's \<Rightarrow> 's option" where
  "fold_option f [] s = Some s"
| "fold_option f (x # xs) s = Option.bind (f x s) (fold_option f xs)"

definition lower_package_activations ::
  "(string \<rightharpoonup> string) \<Rightarrow> package \<Rightarrow> construct_origin list \<times> act_lower_error list \<Rightarrow> act_lowering option" where
  "lower_package_activations first_variant pkg st =
     fold_option (lower_one_activation first_variant) (pk_activations pkg)
       (pkg\<lparr>pk_activations := []\<rparr>, fst st, snd st)"

fun lower_packages_activations ::
  "(string \<rightharpoonup> string) \<Rightarrow> package list \<Rightarrow> construct_origin list \<times> act_lower_error list \<Rightarrow>
    (package list \<times> construct_origin list \<times> act_lower_error list) option" where
  "lower_packages_activations first_variant [] st = Some ([], fst st, snd st)"
| "lower_packages_activations first_variant (pkg # pkgs) st =
     Option.bind (lower_package_activations first_variant pkg st) (\<lambda>(pkg', st').
     Option.bind (lower_packages_activations first_variant pkgs st') (\<lambda>(pkgs', st'').
     Some (pkg' # pkgs', st'')))"

text \<open>\<open>None\<close>: the program stops.\<close>

definition lower_activations :: "project \<Rightarrow> (project \<times> act_lower_error list) option" where
  "lower_activations p =
     map_option (\<lambda>(pkgs, origins, errors). (p\<lparr>pj_packages := pkgs, pj_origins := origins\<rparr>, errors))
       (lower_packages_activations (first_variants p) (pj_packages p) (pj_origins p, []))"

section \<open>Nodes only grow\<close>

definition grows :: "node_def \<Rightarrow> node_def \<Rightarrow> bool" where
  "grows n m \<longleftrightarrow>
     (\<exists>ls eqs. m = n\<lparr>nd_locals := nd_locals n @ ls, nd_equations := nd_equations n @ eqs\<rparr>)"

definition nodes_grow :: "node_def list \<Rightarrow> node_def list \<Rightarrow> bool" where
  "nodes_grow ns ms \<longleftrightarrow> length ns \<le> length ms \<and> list_all2 grows ns (take (length ns) ms)"

lemma grows_refl [simp]: "grows n n"
proof -
  have "n = n\<lparr>nd_locals := nd_locals n @ [], nd_equations := nd_equations n @ []\<rparr>" by simp
  then show ?thesis unfolding grows_def by blast
qed

lemma grows_trans: "grows a b \<Longrightarrow> grows b c \<Longrightarrow> grows a c"
proof -
  assume "grows a b" and "grows b c"
  then obtain ls eqs ls' eqs' where b: "b = a\<lparr>nd_locals := nd_locals a @ ls, nd_equations := nd_equations a @ eqs\<rparr>"
    and c: "c = b\<lparr>nd_locals := nd_locals b @ ls', nd_equations := nd_equations b @ eqs'\<rparr>"
    by (auto simp: grows_def)
  have "c = a\<lparr>nd_locals := nd_locals a @ (ls @ ls'), nd_equations := nd_equations a @ (eqs @ eqs')\<rparr>"
    by (simp add: c b)
  then show "grows a c" unfolding grows_def by blast
qed

lemma growsD:
  assumes "grows n m"
  shows "nd_name m = nd_name n" and "\<exists>eqs. nd_equations m = nd_equations n @ eqs"
  using assms by (auto simp: grows_def)

lemma nodes_grow_refl [simp]: "nodes_grow ns ns"
  by (simp add: nodes_grow_def list_all2_refl)

lemma nodes_grow_append [simp]: "nodes_grow ns (ns @ ms)"
  by (simp add: nodes_grow_def list_all2_refl)

lemma nodes_grow_trans:
  assumes "nodes_grow a b" and "nodes_grow b c"
  shows "nodes_grow a c"
proof -
  have len: "length a \<le> length b" "length b \<le> length c" using assms by (auto simp: nodes_grow_def)
  have "list_all2 grows (take (length a) b) (take (length a) (take (length b) c))"
    using assms(2) by (intro list_all2_takeI) (simp add: nodes_grow_def)
  then have "list_all2 grows (take (length a) b) (take (length a) c)" using len by (simp add: min_def)
  with assms(1) have "list_all2 grows a (take (length a) c)"
    unfolding nodes_grow_def by (blast intro: list_all2_trans [of grows grows grows] grows_trans)
  with len show ?thesis by (simp add: nodes_grow_def)
qed

lemma merge_into_grows:
  "merge_into own ls eqs ns = Some ((start, stop), ms) \<Longrightarrow>
     length ms = length ns \<and> list_all2 grows ns ms \<and>
     (\<exists>m\<in>set ms. nd_name m = own \<and> start \<le> stop \<and> stop \<le> length (nd_equations m) \<and>
        take (stop - start) (drop start (nd_equations m)) = eqs)"
proof (induction ns arbitrary: ms)
  case (Cons n ns)
  have grow: "grows n (n\<lparr>nd_locals := nd_locals n @ ls, nd_equations := nd_equations n @ eqs\<rparr>)"
    unfolding grows_def by blast
  from Cons show ?case
    by (auto simp: list_all2_refl grow split: if_splits)
qed simp

lemma merge_into_defined: "merge_into own ls eqs ns \<noteq> None \<longleftrightarrow> own \<in> nd_name ` set ns"
  by (induction ns) auto

text \<open>A recorded range is a range of equations of the node it names.\<close>

definition origin_ok :: "node_def list \<Rightarrow> construct_origin \<Rightarrow> bool" where
  "origin_ok ns r \<longleftrightarrow>
     (\<exists>n\<in>set ns. nd_name n = co_node r \<and> co_first r \<le> co_end r \<and> co_end r \<le> length (nd_equations n))"

lemma origin_ok_grow:
  assumes "nodes_grow ns ms" and "origin_ok ns r"
  shows "origin_ok ms r"
proof -
  from assms(2) obtain i where i: "i < length ns" "nd_name (ns ! i) = co_node r" "co_first r \<le> co_end r"
    "co_end r \<le> length (nd_equations (ns ! i))"
    by (auto simp: origin_ok_def in_set_conv_nth)
  with assms(1) have "grows (ns ! i) (ms ! i)" "i < length ms"
    by (auto simp: nodes_grow_def list_all2_conv_all_nth)
  from growsD [OF this(1)] i this(2) show ?thesis
    by (intro origin_ok_def [THEN iffD2] bexI [of _ "ms ! i"]) auto
qed

text \<open>What a lowering does to a package: nodes grow, and the new origins are about them.\<close>

definition lowers :: "package \<times> construct_origin list \<Rightarrow> package \<times> construct_origin list \<Rightarrow> bool" where
  "lowers a b \<longleftrightarrow>
     nodes_grow (pk_nodes (fst a)) (pk_nodes (fst b)) \<and>
     (\<exists>new. snd b = snd a @ new \<and> list_all (origin_ok (pk_nodes (fst b))) new)"

lemma lowers_refl: "lowers a a"
  by (simp add: lowers_def)

lemma lowers_trans:
  assumes "lowers a b" and "lowers b c"
  shows "lowers a c"
proof -
  obtain new new' where "snd b = snd a @ new" "list_all (origin_ok (pk_nodes (fst b))) new"
    "snd c = snd b @ new'" "list_all (origin_ok (pk_nodes (fst c))) new'"
    using assms unfolding lowers_def by auto
  moreover have "nodes_grow (pk_nodes (fst a)) (pk_nodes (fst c))" "nodes_grow (pk_nodes (fst b)) (pk_nodes (fst c))"
    using assms nodes_grow_trans unfolding lowers_def by blast+
  ultimately show ?thesis
    unfolding lowers_def by (auto simp: list_all_iff intro: origin_ok_grow)
qed

lemma lowers_merge:
  assumes "merge_into own ls eqs (pk_nodes pkg) = Some ((start, stop), ns)"
    and "pk_nodes pkg' = ns" and "co_node r = own" "co_first r = start" "co_end r = stop"
  shows "lowers (pkg, origins) (pkg', origins @ [r])"
  using merge_into_grows [OF assms(1)] assms(2-5)
  by (auto simp: lowers_def nodes_grow_def origin_ok_def)

lemma lower_one_machine_lowers:
  assumes "lower_one_machine by_name sm (pkg, origins, errors) = (pkg', origins', errors')"
  shows "lowers (pkg, origins) (pkg', origins') \<and> pk_state_machines pkg' = pk_state_machines pkg \<and>
    pk_activations pkg' = pk_activations pkg"
proof -
  have refl: "lowers (pkg, rs) (pkg\<lparr>pk_types := ts\<rparr>, rs)" for ts rs
    by (simp add: lowers_def)
  have push: "lowers (pkg, rs) (pkg\<lparr>pk_types := ts, pk_nodes := pk_nodes pkg @ [n]\<rparr>, rs)" for ts n rs
    by (simp add: lowers_def)
  show ?thesis
    using assms
    by (auto simp: lower_one_machine_def Let_def lowers_refl refl push
        split: sum.splits option.splits prod.splits intro!: lowers_merge)
qed

lemma fold_machines_lowers:
  "fold (lower_one_machine by_name) sms (pkg, origins, errors) = (pkg', origins', errors') \<Longrightarrow>
     lowers (pkg, origins) (pkg', origins') \<and> pk_state_machines pkg' = pk_state_machines pkg \<and>
     pk_activations pkg' = pk_activations pkg"
proof (induction sms arbitrary: pkg origins errors)
  case (Cons sm sms)
  obtain pkg1 origins1 errors1 where one: "lower_one_machine by_name sm (pkg, origins, errors) = (pkg1, origins1, errors1)"
    by (metis prod_cases3)
  with Cons show ?case
    using lower_one_machine_lowers [OF one] by (auto intro: lowers_trans)
qed (simp add: lowers_refl)

definition packages_lowered :: "package list \<Rightarrow> package list \<Rightarrow> construct_origin list \<Rightarrow> bool" where
  "packages_lowered pkgs pkgs' new \<longleftrightarrow>
     list_all2 (\<lambda>a b. nodes_grow (pk_nodes a) (pk_nodes b)) pkgs pkgs' \<and>
     list_all (\<lambda>r. list_ex (\<lambda>b. origin_ok (pk_nodes b) r) pkgs') new"

lemma packages_lowered_Cons:
  assumes "lowers (pkg, origins) (pkg', origins @ new)" and "packages_lowered pkgs pkgs' new'"
  shows "packages_lowered (pkg # pkgs) (pkg' # pkgs') (new @ new')"
  using assms by (auto simp: packages_lowered_def lowers_def list_all_iff)

lemma thread_machines_lowered:
  "thread lower_package_machines pkgs (origins, errors) = (pkgs', origins', errors') \<Longrightarrow>
     (\<exists>new. origins' = origins @ new \<and> packages_lowered pkgs pkgs' new) \<and>
     list_all (\<lambda>b. pk_state_machines b = []) pkgs'"
proof (induction pkgs arbitrary: origins errors pkgs' origins' errors')
  case (Cons pkg pkgs)
  obtain pkg1 origins1 errors1 where one: "lower_package_machines pkg (origins, errors) = (pkg1, origins1, errors1)"
    by (metis prod_cases3)
  obtain pkgs1 origins2 errors2 where rest: "thread lower_package_machines pkgs (origins1, errors1) = (pkgs1, origins2, errors2)"
    by (metis prod_cases3)
  have res: "pkgs' = pkg1 # pkgs1" "origins' = origins2"
    using Cons.prems one rest by simp_all
  have "lowers (pkg\<lparr>pk_state_machines := []\<rparr>, origins) (pkg1, origins1)" "pk_state_machines pkg1 = []"
    using fold_machines_lowers one unfolding lower_package_machines_def Let_def by fastforce+
  then obtain new where new: "origins1 = origins @ new" "lowers (pkg, origins) (pkg1, origins @ new)"
    by (auto simp: lowers_def)
  obtain new' where "origins2 = origins1 @ new'" "packages_lowered pkgs pkgs1 new'"
    and "list_all (\<lambda>b. pk_state_machines b = []) pkgs1"
    using Cons.IH [OF rest] by auto
  with new packages_lowered_Cons [OF new(2)] \<open>pk_state_machines pkg1 = []\<close> show ?case
    by (auto simp: res)
qed (simp add: packages_lowered_def)

lemma lower_state_machines_lowered:
  assumes "lower_state_machines p = (p', errors)"
  obtains new where "pj_origins p' = pj_origins p @ new"
    and "packages_lowered (pj_packages p) (pj_packages p') new"
    and "list_all (\<lambda>b. pk_state_machines b = []) (pj_packages p')"
  using assms thread_machines_lowered [of "pj_packages p" "pj_origins p" "[]"]
  by (auto simp: lower_state_machines_def split: prod.splits)

section \<open>The same for activations\<close>

lemma lower_one_activation_lowers:
  assumes "lower_one_activation fv act (pkg, origins, errors) = Some (pkg', origins', errors')"
  shows "lowers (pkg, origins) (pkg', origins') \<and> pk_activations pkg' = pk_activations pkg \<and>
    pk_state_machines pkg' = pk_state_machines pkg"
  using assms
  by (auto simp: lower_one_activation_def Let_def lowers_refl
      split: sum.splits option.splits prod.splits act_failure.splits intro!: lowers_merge)

lemma fold_activations_lowers:
  "fold_option (lower_one_activation fv) acts (pkg, origins, errors) = Some (pkg', origins', errors') \<Longrightarrow>
     lowers (pkg, origins) (pkg', origins') \<and> pk_activations pkg' = pk_activations pkg \<and>
     pk_state_machines pkg' = pk_state_machines pkg"
proof (induction acts arbitrary: pkg origins errors)
  case (Cons act acts)
  then obtain pkg1 origins1 errors1 where
    one: "lower_one_activation fv act (pkg, origins, errors) = Some (pkg1, origins1, errors1)"
    by (auto simp: bind_eq_Some_conv)
  with Cons show ?case
    using lower_one_activation_lowers [OF one] by (auto intro: lowers_trans)
qed (simp add: lowers_refl)

lemma packages_activations_lowered:
  "lower_packages_activations fv pkgs (origins, errors) = Some (pkgs', origins', errors') \<Longrightarrow>
     (\<exists>new. origins' = origins @ new \<and> packages_lowered pkgs pkgs' new) \<and>
     list_all (\<lambda>b. pk_activations b = []) pkgs'"
proof (induction pkgs arbitrary: origins errors pkgs')
  case (Cons pkg pkgs)
  then obtain pkg1 origins1 errors1 pkgs1 where
    one: "lower_package_activations fv pkg (origins, errors) = Some (pkg1, origins1, errors1)"
    and rest: "lower_packages_activations fv pkgs (origins1, errors1) = Some (pkgs1, origins', errors')"
    and res: "pkgs' = pkg1 # pkgs1"
    by (auto simp: bind_eq_Some_conv)
  have "lowers (pkg\<lparr>pk_activations := []\<rparr>, origins) (pkg1, origins1)" "pk_activations pkg1 = []"
    using fold_activations_lowers one unfolding lower_package_activations_def by fastforce+
  then obtain new where new: "origins1 = origins @ new" "lowers (pkg, origins) (pkg1, origins @ new)"
    by (auto simp: lowers_def)
  obtain new' where "origins' = origins1 @ new'" "packages_lowered pkgs pkgs1 new'"
    and "list_all (\<lambda>b. pk_activations b = []) pkgs1"
    using Cons.IH [OF rest] by auto
  with new packages_lowered_Cons [OF new(2)] \<open>pk_activations pkg1 = []\<close> show ?case
    by (auto simp: res)
qed (simp add: packages_lowered_def)

lemma lower_activations_lowered:
  assumes "lower_activations p = Some (p', errors)"
  obtains new where "pj_origins p' = pj_origins p @ new"
    and "packages_lowered (pj_packages p) (pj_packages p') new"
    and "list_all (\<lambda>b. pk_activations b = []) (pj_packages p')"
  using assms packages_activations_lowered [of "first_variants p" "pj_packages p" "pj_origins p" "[]"]
  by (auto simp: lower_activations_def)

end
