(* ===== verification/Declock.thy ===== *)
theory Declock
  imports Clocks
begin

text \<open>
  Clock elimination (\<open>ol_ir/src/declock.rs\<close>): a node with \<open>when\<close> and \<open>merge\<close> rewritten onto the base
  clock, with activation and first-tick flags per clock, holds for sampled equations and conditional
  activation for the calls. The node, its clock information and the project do not change during the
  rewriting; the names taken, the flags and the holds do.
\<close>

definition condact_name :: string where
  "condact_name = ''condact''"

datatype declock_message =
    Unclocked clock_message
  | NotDeclared string
  | NoDefault string
  | NoOutputDefault string string
  | HoldType
  | NotSingleCall

record declock_error =
  de_node :: string
  de_message :: declock_message

text \<open>A type that contains itself exhausts the stack; \<open>panic\<close> is a failed \<open>expect\<close> or \<open>unreachable!()\<close>.\<close>

datatype declock_failure = DeclockError declock_error | StackExhausted | DeclockPanic

section \<open>Default values\<close>

text \<open>\<open>n\<close> bounds the named types unfolded inside one another.\<close>

fun default_fields :: "(ty \<Rightarrow> (declock_failure, expr option) result) \<Rightarrow> record_field list \<Rightarrow>
    (declock_failure, (string \<times> expr) list option) result" where
  "default_fields d [] = Inr (Some [])"
| "default_fields d (f # fs) =
     rbind (d (rf_ty f)) (\<lambda>e.
       case e of
         None \<Rightarrow> Inr None
       | Some e \<Rightarrow> rbind (default_fields d fs) (\<lambda>es. Inr (map_option ((#) (rf_name f, e)) es)))"

definition default_expr_named :: "project \<Rightarrow> (ty \<Rightarrow> (declock_failure, expr option) result) \<Rightarrow> string \<Rightarrow>
    (declock_failure, expr option) result" where
  "default_expr_named p d name =
     (case find_type p name of
        None \<Rightarrow> Inr None
      | Some t \<Rightarrow>
          (case td_body t of
             EnumBody e \<Rightarrow> Inr (case en_variants e of [] \<Rightarrow> None | v # vs \<Rightarrow> Some (Var v))
           | RecordBody name fs \<Rightarrow> rbind (default_fields d fs) (\<lambda>es. Inr (map_option (Struct name) es))
           | AliasBody _ target \<Rightarrow> d target))"

fun default_expr_with :: "(string \<Rightarrow> (declock_failure, expr option) result) \<Rightarrow> ty \<Rightarrow>
    (declock_failure, expr option) result" where
  "default_expr_with nm TBool = Inr (Some (bool_lit False))"
| "default_expr_with nm TFloat32 = Inr (Some (Const (LFloat (flt_zero F64))))"
| "default_expr_with nm TFloat64 = Inr (Some (Const (LFloat (flt_zero F64))))"
| "default_expr_with nm TChar = Inr (Some (Const (LChar 0)))"
| "default_expr_with nm (TArray elem len) =
     rbind (default_expr_with nm elem) (\<lambda>d. Inr (map_option (\<lambda>d. Array (replicate (unat len) d)) d))"
| "default_expr_with nm (TNamed name) = nm name"
| "default_expr_with nm _ = Inr (Some (int_lit 0))"

fun default_expr :: "nat \<Rightarrow> project \<Rightarrow> ty \<Rightarrow> (declock_failure, expr option) result" where
  "default_expr 0 p t = default_expr_with (\<lambda>_. Inl StackExhausted) t"
| "default_expr (Suc n) p t = default_expr_with (default_expr_named p (default_expr n p)) t"

section \<open>The rewriting context\<close>

record dk_params =
  dp_node :: node_def
  dp_project :: project
  dp_info :: clock_info
  dp_types :: "string \<rightharpoonup> ty"
  dp_stack :: nat

record dk_state =
  dk_taken :: "string list"
  dk_clocks :: "(string \<times> clock) list"
  dk_acts :: "(string, string) btree"
  dk_firsts :: "(string, string) btree"
  dk_holds :: "(string \<times> ty \<times> expr) list"

type_synonym 'a dk = "dk_state \<Rightarrow> (declock_failure, 'a \<times> dk_state) result"

definition dk_err :: "dk_params \<Rightarrow> declock_message \<Rightarrow> declock_failure" where
  "dk_err K m = DeclockError \<lparr>de_node = nd_name (dp_node K), de_message = m\<rparr>"

definition numbered :: "string \<Rightarrow> nat \<Rightarrow> string" where
  "numbered stem n = ''__'' @ stem @ nat_digits n"

lemma numbered_inj: "numbered stem m = numbered stem n \<longleftrightarrow> m = n"
  by (auto simp: numbered_def dest: nat_digits_inj)

function fresh_from :: "string \<Rightarrow> string list \<Rightarrow> nat \<Rightarrow> string" where
  "fresh_from stem taken n =
     (if numbered stem n \<in> set taken then fresh_from stem taken (n + 1) else numbered stem n)"
  by pat_completeness auto
termination
proof (relation "measure (\<lambda>(stem, taken, n). card {v \<in> set taken. \<exists>m\<ge>n. v = numbered stem m})", goal_cases)
  case (2 stem taken n)
  let ?S = "\<lambda>k. {v \<in> set taken. \<exists>m\<ge>k. v = numbered stem m}"
  have "?S (n + 1) \<subseteq> ?S n" by (auto dest: Suc_leD)
  moreover have "numbered stem n \<in> ?S n" "numbered stem n \<notin> ?S (n + 1)"
    using 2 by (auto simp: numbered_inj)
  ultimately have "?S (n + 1) \<subset> ?S n" by blast
  then have "card (?S (n + 1)) < card (?S n)" by (intro psubset_card_mono) auto
  then show ?case by simp
qed simp

declare fresh_from.simps [simp del]

definition fresh :: "string \<Rightarrow> dk_state \<Rightarrow> string \<times> dk_state" where
  "fresh stem cx =
     (let name = fresh_from stem (dk_taken cx) 0 in (name, cx\<lparr>dk_taken := name # dk_taken cx\<rparr>))"

text \<open>The activation flag of a clock, registered after those of its parents.\<close>

fun act_expr :: "clock \<Rightarrow> dk_state \<Rightarrow> expr option \<times> dk_state" where
  "act_expr Base cx = (None, cx)"
| "act_expr (On c p parent) cx =
     (let cx1 = snd (act_expr parent cx);
          key = clock_key (On c p parent)
      in case bt_get (dk_acts cx1) key of
           Some name \<Rightarrow> (Some (Var name), cx1)
         | None \<Rightarrow>
             (let (name, cx2) = fresh ''ck'' cx1
              in (Some (Var name), cx2\<lparr>dk_acts := bt_insert key name (dk_acts cx2),
                   dk_clocks := hm_insert key (On c p parent) (dk_clocks cx2)\<rparr>)))"

definition first_expr :: "clock \<Rightarrow> dk_state \<Rightarrow> expr \<times> dk_state" where
  "first_expr ck cx =
     (let cx1 = snd (act_expr ck cx); key = clock_key ck
      in case bt_get (dk_firsts cx1) key of
           Some name \<Rightarrow> (Var name, cx1)
         | None \<Rightarrow>
             (let (name, cx2) = fresh ''first'' cx1
              in (Var name, cx2\<lparr>dk_firsts := bt_insert key name (dk_firsts cx2)\<rparr>)))"

definition clock_at :: "(addr \<times> clock) list \<Rightarrow> addr \<Rightarrow> clock" where
  "clock_at m a = (case map_of m a of None \<Rightarrow> Base | Some ck \<Rightarrow> ck)"

fun type_of :: "(string \<rightharpoonup> ty) \<Rightarrow> expr \<Rightarrow> ty option" where
  "type_of types (Var name) = types name"
| "type_of types (When e clock on) = type_of types e"
| "type_of types (Pre e) = type_of types e"
| "type_of types (Arrow i b) = or_else (type_of types b) (type_of types i)"
| "type_of types (Index b i) =
     (case type_of types b of Some (TArray elem len) \<Rightarrow> Some elem | _ \<Rightarrow> None)"
| "type_of types (Const lit) =
     Some (case lit of LBool _ \<Rightarrow> TBool | LInt _ \<Rightarrow> TInt32 | LFloat _ \<Rightarrow> TFloat64 | LChar _ \<Rightarrow> TChar)"
| "type_of types _ = None"

text \<open>The defaults of a list of types, each with the error if its type has none.\<close>

fun defaults_of :: "dk_params \<Rightarrow> (declock_message \<times> ty option) list \<Rightarrow> (declock_failure, expr list) result" where
  "defaults_of K [] = Inr []"
| "defaults_of K ((m, t) # mts) =
     (case t of
        None \<Rightarrow> Inl (dk_err K m)
      | Some t \<Rightarrow>
          rbind (default_expr (dp_stack K) (dp_project K) t) (\<lambda>d.
            case d of
              None \<Rightarrow> Inl (dk_err K m)
            | Some e \<Rightarrow> rbind (defaults_of K mts) (\<lambda>es. Inr (e # es))))"

fun is_var :: "expr \<Rightarrow> bool" where
  "is_var (Var name) = True"
| "is_var _ = False"

section \<open>Expressions\<close>

function declock_expr :: "dk_params \<Rightarrow> expr \<Rightarrow> addr \<Rightarrow> expr dk" where
  "declock_expr K (Const lit) a cx = Inr (Const lit, cx)"
| "declock_expr K (Var name) a cx = Inr (Var name, cx)"
| "declock_expr K (When e clock on) a cx = declock_expr K e (child a 0) cx"
| "declock_expr K (Merge clock t f) a cx =
     rbind (declock_expr K t (child a 0) cx) (\<lambda>(t', cx1).
     rbind (declock_expr K f (child a 1) cx1) (\<lambda>(f', cx2).
     Inr (IfThenElse (Var clock) t' f', cx2)))"
| "declock_expr K (Pre e) a cx =
     (let clock = clock_at (site_clocks (dp_info K)) a
      in rbind (declock_expr K e (child a 0) cx) (\<lambda>(inner, cx1).
         if is_var e \<or> is_base clock then Inr (Pre inner, cx1)
         else
           (case act_expr clock cx1 of
              (None, cx2) \<Rightarrow> Inl DeclockPanic
            | (Some act, cx2) \<Rightarrow>
                (let (h, cx3) = fresh ''hold'' cx2
                 in case type_of (dp_types K) e of
                      None \<Rightarrow> Inl (dk_err K HoldType)
                    | Some t \<Rightarrow>
                        Inr (Pre (Var h),
                          cx3\<lparr>dk_holds := dk_holds cx3 @ [(h, t, IfThenElse act inner (Pre (Var h)))]\<rparr>)))))"
| "declock_expr K (Arrow i b) a cx =
     (let clock = clock_at (site_clocks (dp_info K)) a
      in rbind (declock_expr K i (child a 0) cx) (\<lambda>(i', cx1).
         rbind (declock_expr K b (child a 1) cx1) (\<lambda>(b', cx2).
         if is_base clock then Inr (Arrow i' b', cx2)
         else (let (fst_e, cx3) = first_expr clock cx2 in Inr (IfThenElse fst_e i' b', cx3)))))"
| "declock_expr K (Call node args) a cx =
     (let clock = clock_at (call_clocks (dp_info K)) a
      in rbind (try_thread (\<lambda>(i, x). declock_expr K x (child a i)) (enumerate 0 args) cx) (\<lambda>(args', cx1).
         case find_node (dp_project K) node of
           None \<Rightarrow> Inr (Call node args', cx1)
         | Some callee \<Rightarrow>
             if is_base clock \<or> is_function callee \<or> is_imported callee then Inr (Call node args', cx1)
             else
               (case act_expr clock cx1 of
                  (None, cx2) \<Rightarrow> Inl DeclockPanic
                | (Some act, cx2) \<Rightarrow>
                    rbind (defaults_of K (map (\<lambda>p. (NoOutputDefault (p_name p) node, Some (p_ty p)))
                        (nd_outputs callee)))
                      (\<lambda>ds. Inr (Call condact_name (act # Call node args' # ds), cx2)))))"
| "declock_expr K (Unary op e) a cx =
     rbind (declock_expr K e (child a 0) cx) (\<lambda>(e', cx1). Inr (Unary op e', cx1))"
| "declock_expr K (Binary op l r) a cx =
     rbind (declock_expr K l (child a 0) cx) (\<lambda>(l', cx1).
     rbind (declock_expr K r (child a 1) cx1) (\<lambda>(r', cx2). Inr (Binary op l' r', cx2)))"
| "declock_expr K (IfThenElse c t e) a cx =
     rbind (declock_expr K c (child a 0) cx) (\<lambda>(c', cx1).
     rbind (declock_expr K t (child a 1) cx1) (\<lambda>(t', cx2).
     rbind (declock_expr K e (child a 2) cx2) (\<lambda>(e', cx3). Inr (IfThenElse c' t' e', cx3))))"
| "declock_expr K (Field b f) a cx =
     rbind (declock_expr K b (child a 0) cx) (\<lambda>(b', cx1). Inr (Field b' f, cx1))"
| "declock_expr K (Index b i) a cx =
     rbind (declock_expr K b (child a 0) cx) (\<lambda>(b', cx1).
     rbind (declock_expr K i (child a 1) cx1) (\<lambda>(i', cx2). Inr (Index b' i', cx2)))"
| "declock_expr K (Tuple items) a cx =
     rbind (try_thread (\<lambda>(i, x). declock_expr K x (child a i)) (enumerate 0 items) cx)
       (\<lambda>(items', cx1). Inr (Tuple items', cx1))"
| "declock_expr K (Array items) a cx =
     rbind (try_thread (\<lambda>(i, x). declock_expr K x (child a i)) (enumerate 0 items) cx)
       (\<lambda>(items', cx1). Inr (Array items', cx1))"
| "declock_expr K (Struct t fis) a cx =
     rbind (try_thread (\<lambda>(i, x). declock_expr K x (child a i)) (enumerate 0 (map snd fis)) cx)
       (\<lambda>(vs, cx1). Inr (Struct t (zip (map fst fis) vs), cx1))"
| "declock_expr K (Cast t e) a cx =
     rbind (declock_expr K e (child a 0) cx) (\<lambda>(e', cx1). Inr (Cast t e', cx1))"
| "declock_expr K (Iterate kind node init arrays) a cx =
     (case init of
        None \<Rightarrow>
          rbind (try_thread (\<lambda>(i, x). declock_expr K x (child a i)) (enumerate 0 arrays) cx)
            (\<lambda>(as, cx1). Inr (Iterate kind node None as, cx1))
      | Some e \<Rightarrow>
          rbind (declock_expr K e (child a 0) cx) (\<lambda>(e', cx1).
          rbind (try_thread (\<lambda>(i, x). declock_expr K x (child a i)) (enumerate 1 arrays) cx1)
            (\<lambda>(as, cx2). Inr (Iterate kind node (Some e') as, cx2))))"
  by pat_completeness auto
termination
  by (relation "measure (\<lambda>(K, e, a, cx). size e)")
    (auto simp: in_set_enumerate_eq termination_simp)

section \<open>Equations and nodes\<close>

definition declock_equation :: "dk_params \<Rightarrow> equation \<Rightarrow> addr \<Rightarrow> clock \<Rightarrow> equation dk" where
  "declock_equation K eq a clock cx =
     rbind (declock_expr K (eq_rhs eq) a cx) (\<lambda>(rhs, cx1).
       case act_expr clock cx1 of
         (None, cx2) \<Rightarrow> Inr (eq\<lparr>eq_rhs := rhs\<rparr>, cx2)
       | (Some act, cx2) \<Rightarrow>
           (case eq_lhs eq of
              [x] \<Rightarrow>
                (case dp_types K x of
                   None \<Rightarrow> Inl (dk_err K (NotDeclared x))
                 | Some t \<Rightarrow>
                     rbind (defaults_of K [(NoDefault x, Some t)]) (\<lambda>ds.
                       Inr (eq\<lparr>eq_rhs := IfThenElse act rhs (Arrow (hd ds) (Pre (Var x)))\<rparr>, cx2)))
            | lhs \<Rightarrow>
                (case rhs of
                   Call node args \<Rightarrow>
                     if node = condact_name then Inr (eq\<lparr>eq_rhs := rhs\<rparr>, cx2)
                     else
                       rbind (defaults_of K (map (\<lambda>x.
                           (if dp_types K x = None then NotDeclared x else NoDefault x, dp_types K x)) lhs))
                         (\<lambda>ds. Inr (eq\<lparr>eq_rhs := Call condact_name (act # Call node args # ds)\<rparr>, cx2))
                 | _ \<Rightarrow> Inl (dk_err K NotSingleCall))))"

definition act_equation :: "dk_state \<Rightarrow> string \<times> string \<Rightarrow> (declock_failure, equation) result" where
  "act_equation cx kn =
     (case map_of (dk_clocks cx) (fst kn) of
        Some (On c p parent) \<Rightarrow>
          (let cond = (if p then Var c else e_not (Var c))
           in Inr \<lparr>eq_lhs = [snd kn],
                eq_rhs = (case bt_get (dk_acts cx) (clock_key parent) of
                            Some name \<Rightarrow> e_and (Var name) cond
                          | None \<Rightarrow> cond)\<rparr>)
      | _ \<Rightarrow> Inl DeclockPanic)"

definition first_equation :: "dk_state \<Rightarrow> string \<times> string \<Rightarrow> (declock_failure, equation) result" where
  "first_equation cx kn =
     (case bt_get (dk_acts cx) (fst kn) of
        None \<Rightarrow> Inl DeclockPanic
      | Some act \<Rightarrow>
          Inr \<lparr>eq_lhs = [snd kn],
            eq_rhs = Arrow (bool_lit True) (e_and (Pre (Var (snd kn))) (e_not (Pre (Var act))))\<rparr>)"

definition dk_init :: "node_def \<Rightarrow> dk_state" where
  "dk_init node =
     \<lparr>dk_taken = declared_names node, dk_clocks = [], dk_acts = [], dk_firsts = [], dk_holds = []\<rparr>"

definition declared_types :: "node_def \<Rightarrow> string \<rightharpoonup> ty" where
  "declared_types node =
     map_of (rev (map (\<lambda>p. (p_name p, p_ty p)) (nd_inputs node @ nd_outputs node) @
       map (\<lambda>l. (l_name l, l_ty l)) (nd_locals node)))"

definition bool_local :: "string \<Rightarrow> local_var" where
  "bool_local n = \<lparr>l_name = n, l_ty = TBool\<rparr>"

definition assemble :: "node_def \<Rightarrow> dk_state \<Rightarrow> equation list \<Rightarrow> (declock_failure, node_def) result" where
  "assemble node cx equations =
     rbind (try_map (act_equation cx) (dk_acts cx)) (\<lambda>acts.
     rbind (try_map (first_equation cx) (dk_firsts cx)) (\<lambda>firsts.
     Inr (node\<lparr>
       nd_locals := nd_locals node @ map (bool_local \<circ> snd) (dk_acts cx) @ map (bool_local \<circ> snd) (dk_firsts cx) @
         map (\<lambda>(n, t, e). \<lparr>l_name = n, l_ty = t\<rparr>) (dk_holds cx),
       nd_equations := acts @ firsts @ map (\<lambda>(n, t, e). \<lparr>eq_lhs = [n], eq_rhs = e\<rparr>) (dk_holds cx) @ equations\<rparr>)))"

definition dk_context :: "nat \<Rightarrow> node_def \<Rightarrow> project \<Rightarrow> dk_params" where
  "dk_context stack node p =
     \<lparr>dp_node = node, dp_project = p, dp_info = infer_clocks (EquationRoot (nd_name node)) node,
      dp_types = declared_types node, dp_stack = stack\<rparr>"

definition rewritten :: "dk_params \<Rightarrow> node_def \<Rightarrow> (declock_failure, equation list \<times> dk_state) result" where
  "rewritten K node =
     try_thread (\<lambda>(i, eq). declock_equation K eq (root_addr (EquationRoot (nd_name node) i)) (equation_clocks (dp_info K) ! i))
       (enumerate 0 (nd_equations node)) (dk_init node)"

definition declock_node :: "nat \<Rightarrow> node_def \<Rightarrow> project \<Rightarrow> (declock_failure, node_def) result" where
  "declock_node stack node p =
     (if \<not> node_uses_clocks node then Inr node
      else
        (let K = dk_context stack node p
         in case clock_errors (dp_info K) of
              e # _ \<Rightarrow> Inl (dk_err K (Unclocked (ce_message e)))
            | [] \<Rightarrow> rbind (rewritten K node) (\<lambda>(equations, cx). assemble node cx equations)))"

text \<open>
  Every clocked node of a project; all errors are collected. A list with \<open>StackExhausted\<close> or
  \<open>DeclockPanic\<close> in it stands for a program that stopped.
\<close>

fun declock_nodes :: "nat \<Rightarrow> project \<Rightarrow> node_def list \<Rightarrow> declock_failure list \<Rightarrow> node_def list \<times> declock_failure list" where
  "declock_nodes stack p [] errors = ([], errors)"
| "declock_nodes stack p (n # ns) errors =
     (let (m, errors1) =
        (if \<not> node_uses_clocks n then (n, errors)
         else (case declock_node stack n p of Inr m \<Rightarrow> (m, errors) | Inl e \<Rightarrow> (n, errors @ [e])));
          (ms, errors2) = declock_nodes stack p ns errors1
      in (m # ms, errors2))"

definition declock_project :: "nat \<Rightarrow> project \<Rightarrow> (declock_failure list, project) result" where
  "declock_project stack p =
     (let (pkgs, errors) =
        thread (\<lambda>pkg errors. let (ns, errors') = declock_nodes stack p (pk_nodes pkg) errors
          in (pkg\<lparr>pk_nodes := ns\<rparr>, errors')) (pj_packages p) []
      in if errors = [] then Inr (p\<lparr>pj_packages := pkgs\<rparr>) else Inl errors)"

end
