(* ===== verification/Declock_Laws.thy ===== *)
theory Declock_Laws
  imports Declock "HOL-Library.Multiset"
begin

text \<open>
  Laws of clock elimination: the rewritten node samples nothing, its new locals are new and pairwise
  different, and the rewriting never panics. The locale \<open>declock_invariant\<close> states what a property of
  the rewriting's state must satisfy to hold throughout.
\<close>

section \<open>Expressions without clocks\<close>

fun is_clock_op :: "expr \<Rightarrow> bool" where
  "is_clock_op (When e clock on) = True"
| "is_clock_op (Merge clock t f) = True"
| "is_clock_op _ = False"

definition unclocked :: "expr \<Rightarrow> bool" where
  "unclocked e \<longleftrightarrow> list_all (\<lambda>x. \<not> is_clock_op x) (visit e)"

lemma unclocked_children: "unclocked e \<longleftrightarrow> \<not> is_clock_op e \<and> (\<forall>c\<in>set (children e). unclocked c)"
  by (auto simp: unclocked_def list_all_iff set_visit [of e])

lemma unclocked_simps [simp]:
  "unclocked (Const lit)" "unclocked (Var name)"
  "unclocked (Unary op e) \<longleftrightarrow> unclocked e"
  "unclocked (Binary bop l r) \<longleftrightarrow> unclocked l \<and> unclocked r"
  "unclocked (IfThenElse c t f) \<longleftrightarrow> unclocked c \<and> unclocked t \<and> unclocked f"
  "unclocked (Pre e) \<longleftrightarrow> unclocked e"
  "unclocked (Arrow i b) \<longleftrightarrow> unclocked i \<and> unclocked b"
  "unclocked (Call node args) \<longleftrightarrow> list_all unclocked args"
  "unclocked (Field e f') \<longleftrightarrow> unclocked e"
  "unclocked (Index l r) \<longleftrightarrow> unclocked l \<and> unclocked r"
  "unclocked (Tuple args) \<longleftrightarrow> list_all unclocked args"
  "unclocked (Array args) \<longleftrightarrow> list_all unclocked args"
  "unclocked (Struct tname fis) \<longleftrightarrow> list_all (\<lambda>fi. unclocked (snd fi)) fis"
  "unclocked (Cast ty' e) \<longleftrightarrow> unclocked e"
  "\<not> unclocked (When e clock on)" "\<not> unclocked (Merge clock t f)"
  "unclocked (Iterate kind node init args) \<longleftrightarrow>
     (case init of None \<Rightarrow> True | Some i \<Rightarrow> unclocked i) \<and> list_all unclocked args"
  by (subst unclocked_children, simp add: list_all_iff split: option.splits)+

lemma unclocked_constructors [simp]:
  "unclocked (bool_lit b)" "unclocked (int_lit i)"
  "unclocked (e_not e) \<longleftrightarrow> unclocked e" "unclocked (e_and l r) \<longleftrightarrow> unclocked l \<and> unclocked r"
  by (simp_all add: expr_constructors)

lemma node_uses_clocks_iff:
  "node_uses_clocks node \<longleftrightarrow> (\<exists>eq\<in>set (nd_equations node). \<not> unclocked (eq_rhs eq))"
proof -
  have "(case e of When _ _ _ \<Rightarrow> True | Merge _ _ _ \<Rightarrow> True | _ \<Rightarrow> False) = is_clock_op e" for e
    by (cases e) auto
  then show ?thesis by (simp add: node_uses_clocks_def unclocked_def list_all_iff)
qed

lemma unclocked_defaults: "default_expr n p t = Inr (Some e) \<Longrightarrow> unclocked e"
proof (induction n arbitrary: t e)
  case 0
  have "default_expr_with (\<lambda>_. Inl StackExhausted) t = Inr (Some e) \<Longrightarrow> unclocked e" for t e
    by (induction t arbitrary: e) (auto simp: rbind_eq_Inr list_all_iff)
  with 0 show ?case by simp
next
  case (Suc n)
  have fields: "default_fields (default_expr n p) fs = Inr (Some es) \<Longrightarrow> list_all (\<lambda>fi. unclocked (snd fi)) es" for fs es
    by (induction fs arbitrary: es) (auto simp: rbind_eq_Inr split: option.splits, erule Suc.IH)
  have named: "default_expr_named p (default_expr n p) name = Inr (Some e) \<Longrightarrow> unclocked e" for name e
    using fields Suc.IH
    by (auto simp: default_expr_named_def rbind_eq_Inr split: option.splits type_body.splits list.splits)
  have "default_expr_with (default_expr_named p (default_expr n p)) t = Inr (Some e) \<Longrightarrow> unclocked e" for t e
    by (induction t arbitrary: e) (auto simp: rbind_eq_Inr list_all_iff dest: named)
  with Suc.prems show ?case by simp
qed

lemma unclocked_defaults_of: "defaults_of K mts = Inr ds \<Longrightarrow> list_all unclocked ds"
  by (induction K mts arbitrary: ds rule: defaults_of.induct)
    (auto simp: rbind_eq_Inr split: option.splits, erule unclocked_defaults)

section \<open>Invariants of the rewriting\<close>

lemma fresh_eq:
  "fresh stem cx = (h, cx') \<longleftrightarrow> h = fresh_from stem (dk_taken cx) 0 \<and> cx' = cx\<lparr>dk_taken := h # dk_taken cx\<rparr>"
  by (auto simp: fresh_def Let_def)

lemma try_thread_preserves:
  assumes "try_thread g xs s = Inr (ys, s')" and "P s"
    and "\<And>x s y s'. x \<in> set xs \<Longrightarrow> g x s = Inr (y, s') \<Longrightarrow> P s \<Longrightarrow> P s' \<and> Q y"
  shows "P s' \<and> list_all Q ys"
  using assms
proof (induction xs arbitrary: s ys)
  case (Cons x xs)
  from Cons.prems(1) obtain y s1 zs where y: "g x s = Inr (y, s1)"
    and zs: "try_thread g xs s1 = Inr (zs, s')" "ys = y # zs"
    by (auto simp only: try_thread_Inr_Cons)
  have "P s1 \<and> Q y" using Cons.prems(3) [OF _ y] Cons.prems(2) by simp
  moreover from this have "P s' \<and> list_all Q zs"
    using Cons.IH [OF zs(1)] Cons.prems(3) by auto
  ultimately show ?case using zs(2) by simp
qed simp

lemma numbered_preserves:
  assumes "try_thread (\<lambda>(i, x). g x (child a i)) (enumerate n xs) s = Inr (ys, s')" and "P s"
    and "\<And>x i s y s'. x \<in> set xs \<Longrightarrow> g x (child a i) s = Inr (y, s') \<Longrightarrow> P s \<Longrightarrow> P s' \<and> Q y"
  shows "P s' \<and> list_all Q ys"
proof (rule try_thread_preserves [where P = P and Q = Q, OF assms(1,2)])
  fix ix s y s'
  assume "ix \<in> set (enumerate n xs)" "(case ix of (i, x) \<Rightarrow> g x (child a i)) s = Inr (y, s')" "P s"
  then show "P s' \<and> Q y"
    using assms(3) [of "snd ix" "fst ix" s y s'] by (auto simp: in_set_enumerate_eq split: prod.splits)
qed

lemma act_expr_None [simp]: "act_expr ck cx = (None, cx') \<longleftrightarrow> ck = Base \<and> cx' = cx"
  by (cases ck) (auto simp: Let_def split: option.splits prod.splits)

lemma single_default: "defaults_of K [mt] = Inr ds \<Longrightarrow> \<exists>d. ds = [d] \<and> unclocked d"
  using unclocked_defaults_of [of K "[mt]" ds]
  by (cases mt) (auto simp: rbind_eq_Inr split: option.splits)

text \<open>The ways an equation is rewritten.\<close>

lemma declock_equationE:
  assumes "declock_equation K eq a ck cx = Inr (eq', cx')"
  obtains (base) rhs where "ck = Base" "declock_expr K (eq_rhs eq) a cx = Inr (rhs, cx')" "eq' = eq\<lparr>eq_rhs := rhs\<rparr>"
  | (single) rhs cx1 act x t d where "declock_expr K (eq_rhs eq) a cx = Inr (rhs, cx1)"
      "act_expr ck cx1 = (Some act, cx')" "eq_lhs eq = [x]" "dp_types K x = Some t"
      "defaults_of K [(NoDefault x, Some t)] = Inr [d]" "unclocked d"
      "eq' = eq\<lparr>eq_rhs := IfThenElse act rhs (Arrow d (Pre (Var x)))\<rparr>"
  | (held) rhs cx1 act where "declock_expr K (eq_rhs eq) a cx = Inr (rhs, cx1)"
      "act_expr ck cx1 = (Some act, cx')" "eq' = eq\<lparr>eq_rhs := rhs\<rparr>"
  | (conditional) node args cx1 act mts ds where "declock_expr K (eq_rhs eq) a cx = Inr (Call node args, cx1)"
      "act_expr ck cx1 = (Some act, cx')" "defaults_of K mts = Inr ds"
      "eq' = eq\<lparr>eq_rhs := Call condact_name (act # Call node args # ds)\<rparr>"
proof -
  obtain rhs cx1 where rhs: "declock_expr K (eq_rhs eq) a cx = Inr (rhs, cx1)"
    using assms by (auto simp: declock_equation_def rbind_eq_Inr)
  show thesis
  proof (cases "fst (act_expr ck cx1)")
    case None
    then have "ck = Base" "act_expr ck cx1 = (None, cx1)"
      by (cases ck; auto simp: Let_def split: option.splits prod.splits)+
    then show thesis using base rhs assms by (simp add: declock_equation_def)
  next
    case (Some act)
    then obtain cx2 where act: "act_expr ck cx1 = (Some act, cx2)" by (cases "act_expr ck cx1") auto
    show thesis
    proof (cases "\<exists>x. eq_lhs eq = [x]")
      case True
      then obtain x where x: "eq_lhs eq = [x]" by blast
      then obtain t ds where "dp_types K x = Some t" "defaults_of K [(NoDefault x, Some t)] = Inr ds"
        "eq' = eq\<lparr>eq_rhs := IfThenElse act rhs (Arrow (hd ds) (Pre (Var x)))\<rparr>" "cx' = cx2"
        using assms rhs act
        by (auto simp: declock_equation_def rbind_eq_Inr simp del: defaults_of.simps split: option.splits)
      then show thesis using single [OF rhs _ x] act single_default by fastforce
    next
      case False
      then obtain node args where call: "rhs = Call node args"
        using assms rhs act
        by (cases "eq_lhs eq" rule: remdups_adj.cases) (auto simp: declock_equation_def split: expr.splits)
      show thesis
      proof (cases "node = condact_name")
        case True
        with assms rhs act False call have "eq' = eq\<lparr>eq_rhs := rhs\<rparr>" "cx' = cx2"
          by (cases "eq_lhs eq" rule: remdups_adj.cases; simp add: declock_equation_def)+
        then show thesis using held [OF rhs] act by simp
      next
        case False
        with assms rhs act \<open>\<nexists>x. eq_lhs eq = [x]\<close> call show thesis
          by (cases "eq_lhs eq" rule: remdups_adj.cases)
            (auto simp: declock_equation_def rbind_eq_Inr simp del: defaults_of.simps intro: conditional)
      qed
    qed
  qed
qed

lemma declock_equation_lhs: "declock_equation K eq a ck cx = Inr (eq', cx') \<Longrightarrow> eq_lhs eq' = eq_lhs eq"
  by (erule declock_equationE) auto

definition push_hold :: "string \<Rightarrow> ty \<Rightarrow> expr \<Rightarrow> dk_state \<Rightarrow> dk_state" where
  "push_hold h t rhs cx = cx\<lparr>dk_holds := dk_holds cx @ [(h, t, rhs)]\<rparr>"

locale declock_invariant =
  fixes P :: "dk_state \<Rightarrow> bool"
  assumes act: "P cx \<Longrightarrow> P (snd (act_expr ck cx))"
    and first: "P cx \<Longrightarrow> ck \<noteq> Base \<Longrightarrow> P (snd (first_expr ck cx))"
    and hold: "P cx \<Longrightarrow> fresh stem cx = (h, cx') \<Longrightarrow> unclocked rhs \<Longrightarrow> P (push_hold h t rhs cx')"
begin

lemma act_flag: "act_expr ck cx = (Some e, cx') \<Longrightarrow> unclocked e"
  by (cases ck) (auto simp: Let_def split: option.splits prod.splits)

lemma first_flag: "unclocked (fst (first_expr ck cx))"
  by (auto simp: first_expr_def Let_def split: option.splits prod.splits)

lemma declock:
  "declock_expr K e a cx = Inr (e', cx') \<Longrightarrow> P cx \<Longrightarrow> P cx' \<and> unclocked e'"
proof (induction e arbitrary: a cx e' cx' rule: expr_children_induct)
  case (step e)
  have kids: "P s' \<and> unclocked y"
    if "c \<in> set (children e)" "declock_expr K c (child a i) s = Inr (y, s')" "P s" for c i s y s'
    using step.IH that by blast
  have list: "P s' \<and> list_all unclocked ys"
    if "set es \<subseteq> set (children e)" "P s"
      "try_thread (\<lambda>(i, x). declock_expr K x (child a i)) (enumerate n es) s = Inr (ys, s')" for es n s ys s'
    by (rule numbered_preserves [where P = P and Q = unclocked, OF that(3,2)]) (use that(1) kids in blast)
  show ?case
  proof (cases e)
    case (Pre x)
    from step.prems(1) obtain inner cx1 where inner: "declock_expr K x (child a 0) cx = Inr (inner, cx1)"
      by (auto simp: Pre rbind_eq_Inr Let_def)
    have 1: "P cx1" "unclocked inner" using kids [OF _ inner step.prems(2)] Pre by auto
    show ?thesis
    proof (cases "is_var x \<or> is_base (clock_at (site_clocks (dp_info K)) a)")
      case True
      with step.prems(1) inner 1 show ?thesis by (auto simp: Pre)
    next
      case False
      then obtain fl cx2 h cx3 t where act': "act_expr (clock_at (site_clocks (dp_info K)) a) cx1 = (Some fl, cx2)"
        and h: "fresh ''hold'' cx2 = (h, cx3)" and e': "e' = Pre (Var h)"
        and cx': "cx' = push_hold h t (IfThenElse fl inner (Pre (Var h))) cx3"
        using step.prems(1) inner
        by (auto simp: Pre Let_def push_hold_def split: option.splits prod.splits)
      have "P cx2" using act [OF 1(1), of "clock_at (site_clocks (dp_info K)) a"] act' by simp
      then have "P cx'" unfolding cx' using h 1(2) act_flag [OF act'] by (intro hold) auto
      then show ?thesis by (simp add: e')
    qed
  next
    case (Arrow i b)
    from step.prems(1) obtain i' cx1 b' cx2 where i: "declock_expr K i (child a 0) cx = Inr (i', cx1)"
      and b: "declock_expr K b (child a 1) cx1 = Inr (b', cx2)"
      by (auto simp: Arrow rbind_eq_Inr Let_def)
    have "P cx1" "unclocked i'" using kids [OF _ i step.prems(2)] Arrow by auto
    moreover from this have 2: "P cx2" "unclocked b'" using kids [OF _ b] Arrow by auto
    ultimately have 3: "P cx2" "unclocked i'" "unclocked b'" by auto
    show ?thesis
    proof (cases "is_base (clock_at (site_clocks (dp_info K)) a)")
      case True
      with step.prems(1) i b 3 show ?thesis by (auto simp: Arrow)
    next
      case False
      let ?ck = "clock_at (site_clocks (dp_info K)) a"
      from False have "P (snd (first_expr ?ck cx2))" using first [OF 3(1)] by (simp add: is_base_iff)
      with False step.prems(1) i b 3(2,3) first_flag [of ?ck cx2] show ?thesis
        by (auto simp: Arrow Let_def split: prod.splits)
    qed
  next
    case (Call node args)
    from step.prems(1) obtain as cx1 where
      as: "try_thread (\<lambda>(i, x). declock_expr K x (child a i)) (enumerate 0 args) cx = Inr (as, cx1)"
      by (auto simp: Call rbind_eq_Inr Let_def)
    have 1: "P cx1" "list_all unclocked as" using list [OF _ step.prems(2) as] Call by auto
    then show ?thesis
      using step.prems(1) as act [OF 1(1), of "clock_at (call_clocks (dp_info K)) a"] act_flag
      by (auto simp: Call Let_def rbind_eq_Inr unclocked_defaults_of split: option.splits if_splits prod.splits)
  next
    case (Struct t fis)
    from step.prems(1) obtain vs where
      vs: "try_thread (\<lambda>(i, x). declock_expr K x (child a i)) (enumerate 0 (map snd fis)) cx = Inr (vs, cx')"
        "e' = Struct t (zip (map fst fis) vs)"
      by (auto simp: Struct rbind_eq_Inr)
    from list [OF _ step.prems(2) vs(1)] Struct show ?thesis
      by (auto simp: vs(2) list_all_iff dest: set_zip_rightD)
  next
    case (Iterate k n i as)
    show ?thesis
    proof (cases i)
      case None
      with step.prems list [OF _ step.prems(2), of as 0] Iterate show ?thesis
        by (auto simp: rbind_eq_Inr)
    next
      case (Some x)
      from step.prems(1) obtain x' cx1 bs where x: "declock_expr K x (child a 0) cx = Inr (x', cx1)"
        and bs: "try_thread (\<lambda>(i, x). declock_expr K x (child a i)) (enumerate 1 as) cx1 = Inr (bs, cx')"
          "e' = Iterate k n (Some x') bs"
        by (auto simp: Iterate Some rbind_eq_Inr)
      have "P cx1" "unclocked x'" using kids [OF _ x step.prems(2)] Iterate Some by auto
      with list [OF _ this(1) bs(1)] Iterate Some show ?thesis by (auto simp: bs(2))
    qed
  next
    case (Tuple items)
    with step.prems list [OF _ step.prems(2), of items 0] show ?thesis by (auto simp: rbind_eq_Inr)
  next
    case (Array items)
    with step.prems list [OF _ step.prems(2), of items 0] show ?thesis by (auto simp: rbind_eq_Inr)
  qed (use step.prems kids in \<open>fastforce simp: rbind_eq_Inr\<close>)+
qed

lemma equation:
  assumes "declock_equation K eq a ck cx = Inr (eq', cx')" and "P cx"
  shows "P cx' \<and> unclocked (eq_rhs eq')"
  using assms(1)
proof (cases rule: declock_equationE)
  case (base rhs)
  with declock [OF base(2) assms(2)] show ?thesis by simp
next
  case (single rhs cx1 fl x t d)
  with declock [OF single(1) assms(2)] act [of cx1 ck] act_flag [OF single(2)] show ?thesis by simp
next
  case (held rhs cx1 fl)
  with declock [OF held(1) assms(2)] act [of cx1 ck] show ?thesis by simp
next
  case (conditional node args cx1 fl mts ds)
  with declock [OF conditional(1) assms(2)] act [of cx1 ck] act_flag [OF conditional(2)]
    unclocked_defaults_of [OF conditional(3)]
  show ?thesis by simp
qed

end

section \<open>Nothing is sampled afterwards\<close>

definition holds_unclocked :: "dk_state \<Rightarrow> bool" where
  "holds_unclocked cx \<longleftrightarrow> list_all (\<lambda>(n, t, e). unclocked e) (dk_holds cx)"

lemma act_expr_holds: "dk_holds (snd (act_expr ck cx)) = dk_holds cx"
  by (induction ck arbitrary: cx) (auto simp: Let_def fresh_def split: option.splits)

lemma first_expr_holds: "dk_holds (snd (first_expr ck cx)) = dk_holds cx"
  by (auto simp: first_expr_def Let_def fresh_def act_expr_holds split: option.splits)

interpretation hold_clocks: declock_invariant holds_unclocked
  by unfold_locales (auto simp: holds_unclocked_def act_expr_holds first_expr_holds push_hold_def fresh_eq)

lemma act_equation_unclocked: "act_equation cx kn = Inr eq \<Longrightarrow> unclocked (eq_rhs eq) \<and> eq_lhs eq = [snd kn]"
  by (auto simp: act_equation_def Let_def split: option.splits clock.splits)

lemma first_equation_unclocked: "first_equation cx kn = Inr eq \<Longrightarrow> unclocked (eq_rhs eq) \<and> eq_lhs eq = [snd kn]"
  by (auto simp: first_equation_def split: option.splits)

section \<open>New names\<close>

definition new_names :: "dk_state \<Rightarrow> string list" where
  "new_names cx = map snd (dk_acts cx) @ map snd (dk_firsts cx) @ map fst (dk_holds cx)"

text \<open>Everything taken was declared or is the name of one flag or hold.\<close>

definition names_ok :: "string list \<Rightarrow> dk_state \<Rightarrow> bool" where
  "names_ok declared cx \<longleftrightarrow>
     mset (dk_taken cx) = mset (new_names cx) + mset declared \<and> distinct (new_names cx) \<and>
     set (new_names cx) \<inter> set declared = {}"

lemma fresh_from_new: "fresh_from stem taken n \<notin> set taken"
  by (induction stem taken n rule: fresh_from.induct) (subst fresh_from.simps, simp)

lemma mset_bt_insert: "bt_get m k = None \<Longrightarrow> mset (bt_insert k v m) = add_mset (k, v) (mset m)"
  by (induction k v m rule: bt_insert.induct) (auto split: if_splits)

lemma names_ok_extend:
  assumes "names_ok declared cx" and "h \<notin> set (dk_taken cx)" and "dk_taken cx' = h # dk_taken cx"
    and "mset (new_names cx') = add_mset h (mset (new_names cx))"
  shows "names_ok declared cx'"
proof -
  have "set (dk_taken cx) = set (new_names cx) \<union> set declared"
    using assms(1) unfolding names_ok_def by (metis set_mset_mset set_mset_union)
  moreover have "set (new_names cx') = insert h (set (new_names cx))"
    using assms(4) by (metis set_mset_add_mset_insert set_mset_mset)
  moreover have "distinct (new_names cx')"
    using assms(1,2,4) calculation(1)
    by (metis Un_iff distinct.simps(2) mset.simps(2) mset_eq_imp_distinct_iff names_ok_def)
  ultimately show ?thesis using assms by (auto simp: names_ok_def)
qed

lemma act_expr_names: "names_ok declared cx \<Longrightarrow> names_ok declared (snd (act_expr ck cx))"
proof (induction ck arbitrary: cx)
  case (On c p parent)
  let ?cx = "snd (act_expr parent cx)" and ?key = "clock_key (On c p parent)"
  have 1: "names_ok declared ?cx" by (rule On.IH) (rule On.prems)
  show ?case
  proof (cases "bt_get (dk_acts ?cx) ?key")
    case None
    obtain h cx2 where h: "fresh ''ck'' ?cx = (h, cx2)" by force
    then have "names_ok declared (cx2\<lparr>dk_acts := bt_insert ?key h (dk_acts cx2),
        dk_clocks := hm_insert ?key (On c p parent) (dk_clocks cx2)\<rparr>)"
      using fresh_from_new [of "''ck''" "dk_taken ?cx" 0] None
      by (intro names_ok_extend [OF 1, of h]) (auto simp: fresh_eq new_names_def mset_bt_insert mset_map)
    with None h show ?thesis by (simp add: Let_def)
  next
    case (Some name)
    with 1 show ?thesis by (simp add: Let_def)
  qed
qed simp

lemma first_expr_names: "names_ok declared cx \<Longrightarrow> names_ok declared (snd (first_expr ck cx))"
proof -
  assume "names_ok declared cx"
  then have 1: "names_ok declared (snd (act_expr ck cx))" (is "names_ok declared ?cx") by (rule act_expr_names)
  show ?thesis
  proof (cases "bt_get (dk_firsts ?cx) (clock_key ck)")
    case None
    obtain h cx2 where h: "fresh ''first'' ?cx = (h, cx2)" by force
    then have "names_ok declared (cx2\<lparr>dk_firsts := bt_insert (clock_key ck) h (dk_firsts cx2)\<rparr>)"
      using fresh_from_new [of "''first''" "dk_taken ?cx" 0] None
      by (intro names_ok_extend [OF 1, of h]) (auto simp: fresh_eq new_names_def mset_bt_insert mset_map)
    with None h show ?thesis by (simp add: first_expr_def Let_def)
  next
    case (Some name)
    with 1 show ?thesis by (simp add: first_expr_def Let_def)
  qed
qed

lemma push_hold_names:
  assumes "names_ok declared cx" and "fresh stem cx = (h, cx')"
  shows "names_ok declared (push_hold h t rhs cx')"
  using assms fresh_from_new [of stem "dk_taken cx" 0]
  by (intro names_ok_extend [OF assms(1), of h]) (auto simp: fresh_eq new_names_def push_hold_def)

interpretation hold_names: declock_invariant "names_ok declared"
  by unfold_locales (auto intro: act_expr_names first_expr_names push_hold_names)

section \<open>The flags\<close>

text \<open>A flag stands for the clock of its key, and the clock's parent has a flag too.\<close>

definition flag_ok :: "dk_state \<Rightarrow> string \<Rightarrow> bool" where
  "flag_ok cx k \<longleftrightarrow>
     (case map_of (dk_clocks cx) k of
        Some (On c p parent) \<Rightarrow>
          clock_key (On c p parent) = k \<and> (parent = Base \<or> bt_get (dk_acts cx) (clock_key parent) \<noteq> None)
      | _ \<Rightarrow> False)"

definition flags_ok :: "dk_state \<Rightarrow> bool" where
  "flags_ok cx \<longleftrightarrow>
     (\<forall>k\<in>dom (bt_get (dk_acts cx)). flag_ok cx k) \<and> dom (bt_get (dk_firsts cx)) \<subseteq> dom (bt_get (dk_acts cx))"

lemma flag_ok_cong:
  "dk_acts cx' = dk_acts cx \<Longrightarrow> dk_clocks cx' = dk_clocks cx \<Longrightarrow> flag_ok cx' = flag_ok cx"
  by (rule ext) (simp add: flag_ok_def split: option.split clock.split)

lemma act_expr_flag:
  "ck \<noteq> Base \<Longrightarrow> \<exists>name. fst (act_expr ck cx) = Some (Var name) \<and>
     bt_get (dk_acts (snd (act_expr ck cx))) (clock_key ck) = Some name"
  by (cases ck) (auto simp: Let_def fresh_eq bt_get_insert split: option.splits prod.splits)

lemma act_expr_grows: "bt_get (dk_acts cx) k = Some n \<Longrightarrow> bt_get (dk_acts (snd (act_expr ck cx))) k = Some n"
  by (induction ck arbitrary: cx)
    (auto simp: Let_def fresh_eq bt_get_insert simp del: clock_key.simps split: option.splits prod.splits)

lemma act_expr_flags: "flags_ok cx \<Longrightarrow> flags_ok (snd (act_expr ck cx))"
proof (induction ck arbitrary: cx)
  case (On c p parent)
  let ?cx = "snd (act_expr parent cx)" and ?key = "clock_key (On c p parent)"
  have 1: "flags_ok ?cx" by (rule On.IH) (rule On.prems)
  show ?case
  proof (cases "bt_get (dk_acts ?cx) ?key")
    case None
    obtain h cx2 where h: "fresh ''ck'' ?cx = (h, cx2)" by force
    let ?cx' = "cx2\<lparr>dk_acts := bt_insert ?key h (dk_acts cx2),
        dk_clocks := hm_insert ?key (On c p parent) (dk_clocks cx2)\<rparr>"
    have new: "flag_ok ?cx' ?key"
      using act_expr_flag [of parent cx] h
      by (auto simp: flag_ok_def fresh_eq map_of_hm_insert bt_get_insert simp del: clock_key.simps)
    have "flag_ok ?cx' k" if "flag_ok ?cx k" "k \<noteq> ?key" for k
      using that h
      by (auto simp: flag_ok_def fresh_eq map_of_hm_insert bt_get_insert simp del: clock_key.simps
          split: option.splits clock.splits)
    with new 1 h have "flags_ok ?cx'"
      by (auto simp: flags_ok_def fresh_eq bt_get_insert simp del: clock_key.simps)
    with None h show ?thesis by (simp add: Let_def del: clock_key.simps)
  next
    case (Some name)
    with 1 show ?thesis by (simp add: Let_def)
  qed
qed simp

lemma first_expr_flags:
  assumes "flags_ok cx" and "ck \<noteq> Base"
  shows "flags_ok (snd (first_expr ck cx))"
proof -
  have 1: "flags_ok (snd (act_expr ck cx))" using assms(1) by (rule act_expr_flags)
  show ?thesis
  proof (cases "bt_get (dk_firsts (snd (act_expr ck cx))) (clock_key ck)")
    case None
    let ?cx = "snd (act_expr ck cx)"
    obtain h cx2 where h: "fresh ''first'' ?cx = (h, cx2)" by force
    let ?cx' = "cx2\<lparr>dk_firsts := bt_insert (clock_key ck) h (dk_firsts cx2)\<rparr>"
    have "dk_acts ?cx' = dk_acts ?cx" "flag_ok ?cx' = flag_ok ?cx"
      using h by (auto simp: fresh_eq intro: flag_ok_cong)
    with 1 h act_expr_flag [OF assms(2), of cx] have "flags_ok ?cx'"
      by (auto simp: flags_ok_def fresh_eq bt_get_insert)
    with None h show ?thesis by (simp add: first_expr_def Let_def)
  qed (use 1 in \<open>simp add: first_expr_def Let_def\<close>)
qed

interpretation hold_flags: declock_invariant flags_ok
proof unfold_locales
  fix cx ck stem h cx' rhs t
  show "flags_ok cx \<Longrightarrow> flags_ok (snd (act_expr ck cx))" by (rule act_expr_flags)
  show "flags_ok cx \<Longrightarrow> ck \<noteq> Base \<Longrightarrow> flags_ok (snd (first_expr ck cx))" by (rule first_expr_flags)
  show "flags_ok cx \<Longrightarrow> fresh stem cx = (h, cx') \<Longrightarrow> flags_ok (push_hold h t rhs cx')"
    using flag_ok_cong [of "push_hold h t rhs cx'" cx] by (simp add: fresh_eq push_hold_def flags_ok_def)
qed

section \<open>The rewriting never panics\<close>

lemma try_thread_Inl: "try_thread g xs s = Inl e \<Longrightarrow> \<exists>x\<in>set xs. \<exists>s. g x s = Inl e"
proof (induction xs arbitrary: s)
  case (Cons x xs)
  from Cons.prems show ?case by (auto simp: rbind_eq_Inl dest: Cons.IH)
qed simp

lemma numbered_Inl:
  "try_thread (\<lambda>(i, x). g x (child a i)) (enumerate n xs) s = Inl e \<Longrightarrow> \<exists>x\<in>set xs. \<exists>i s. g x (child a i) s = Inl e"
  by (fastforce dest!: try_thread_Inl simp: in_set_enumerate_eq)

lemma default_no_panic: "default_expr n p t \<noteq> Inl DeclockPanic"
proof (induction n arbitrary: t)
  case 0
  have "default_expr_with (\<lambda>_. Inl StackExhausted) t \<noteq> Inl DeclockPanic" for t
    by (induction t) (auto simp: rbind_eq_Inl)
  then show ?case by simp
next
  case (Suc n)
  have "default_fields (default_expr n p) fs \<noteq> Inl DeclockPanic" for fs
    using Suc.IH by (induction fs) (auto simp: rbind_eq_Inl split: option.splits)
  then have named: "default_expr_named p (default_expr n p) name \<noteq> Inl DeclockPanic" for name
    using Suc.IH by (auto simp: default_expr_named_def rbind_eq_Inl split: option.splits type_body.splits)
  have "default_expr_with (default_expr_named p (default_expr n p)) t \<noteq> Inl DeclockPanic" for t
    by (induction t) (auto simp: rbind_eq_Inl named)
  then show ?case by simp
qed

lemma defaults_no_panic: "defaults_of K mts \<noteq> Inl DeclockPanic"
  by (induction K mts rule: defaults_of.induct)
    (auto simp: rbind_eq_Inl default_no_panic dk_err_def split: option.splits)

lemma declock_expr_no_panic: "declock_expr K e a cx \<noteq> Inl DeclockPanic"
proof (induction e arbitrary: a cx rule: expr_children_induct)
  case (step e)
  have kids: "declock_expr K c (child a i) s \<noteq> Inl DeclockPanic" if "c \<in> set (children e)" for c i s
    using step.IH that by blast
  have list: "try_thread (\<lambda>(i, x). declock_expr K x (child a i)) (enumerate n es) s \<noteq> Inl DeclockPanic"
    if "set es \<subseteq> set (children e)" for es n s
    using kids that by (auto dest!: numbered_Inl)
  show ?case
  proof (cases e)
    case (Pre x)
    with kids [of x] show ?thesis
      by (auto simp: rbind_eq_Inl Let_def dk_err_def is_base_iff split: option.splits prod.splits)
  next
    case (Call node args)
    with list [of args] defaults_no_panic show ?thesis
      by (auto simp: rbind_eq_Inl Let_def is_base_iff split: option.splits prod.splits)
  next
    case (Struct t fis)
    with list [of "map snd fis"] show ?thesis by (auto simp: rbind_eq_Inl)
  next
    case (Iterate k n i as)
    with kids list [of as] show ?thesis by (cases i) (auto simp: rbind_eq_Inl subset_insertI)
  qed (use kids list in \<open>auto simp: rbind_eq_Inl Let_def split: prod.splits\<close>)
qed

lemma declock_equation_no_panic: "declock_equation K eq a ck cx \<noteq> Inl DeclockPanic"
  by (cases "eq_lhs eq" rule: remdups_adj.cases)
    (auto simp: declock_equation_def rbind_eq_Inl declock_expr_no_panic defaults_no_panic dk_err_def
      simp del: defaults_of.simps split: option.splits expr.splits prod.splits if_splits)

lemma act_equation_ok:
  assumes "flags_ok cx" and "kn \<in> set (dk_acts cx)"
  shows "act_equation cx kn \<noteq> Inl e"
proof -
  from assms(2) have "fst kn \<in> dom (bt_get (dk_acts cx))" by (simp add: dom_map_of_conv_image_fst)
  with assms(1) have "flag_ok cx (fst kn)" by (simp add: flags_ok_def)
  then show ?thesis by (auto simp: flag_ok_def act_equation_def Let_def split: option.splits clock.splits)
qed

lemma first_equation_ok:
  assumes "flags_ok cx" and "kn \<in> set (dk_firsts cx)"
  shows "first_equation cx kn \<noteq> Inl e"
proof -
  from assms(2) have "fst kn \<in> dom (bt_get (dk_firsts cx))" by (simp add: dom_map_of_conv_image_fst)
  with assms(1) have "fst kn \<in> dom (bt_get (dk_acts cx))" by (auto simp: flags_ok_def)
  then show ?thesis by (auto simp: first_equation_def)
qed

lemma try_map_Inl: "try_map f xs = Inl e \<Longrightarrow> \<exists>x\<in>set xs. f x = Inl e"
  by (induction xs) (auto simp: rbind_eq_Inl)

lemma assemble_ok: "flags_ok cx \<Longrightarrow> assemble node cx eqs \<noteq> Inl e"
  using act_equation_ok [of cx] first_equation_ok [of cx]
  by (fastforce simp: assemble_def rbind_eq_Inl dest!: try_map_Inl)

section \<open>Nodes\<close>

lemma init_ok:
  "holds_unclocked (dk_init node)" "names_ok (declared_names node) (dk_init node)" "flags_ok (dk_init node)"
  by (simp_all add: holds_unclocked_def names_ok_def flags_ok_def new_names_def dk_init_def)

context declock_invariant
begin

lemma node:
  assumes "rewritten K node = Inr (eqs, cx)" and "P (dk_init node)"
  shows "P cx \<and> list_all (\<lambda>eq. unclocked (eq_rhs eq)) eqs"
  by (rule try_thread_preserves [where P = P, OF assms(1) [unfolded rewritten_def] assms(2)])
    (use equation in \<open>auto split: prod.splits\<close>)

end

lemma rewrittenE:
  assumes "declock_node stack node p = Inr m" and "node_uses_clocks node"
  obtains eqs cx acts firsts where "rewritten (dk_context stack node p) node = Inr (eqs, cx)"
    "list_all2 (\<lambda>kn eq. act_equation cx kn = Inr eq) (dk_acts cx) acts"
    "list_all2 (\<lambda>kn eq. first_equation cx kn = Inr eq) (dk_firsts cx) firsts"
    "nd_equations m = acts @ firsts @ map (\<lambda>(n, t, e). \<lparr>eq_lhs = [n], eq_rhs = e\<rparr>) (dk_holds cx) @ eqs"
    "nd_locals m = nd_locals node @ map (bool_local \<circ> snd) (dk_acts cx) @ map (bool_local \<circ> snd) (dk_firsts cx) @
       map (\<lambda>(n, t, e). \<lparr>l_name = n, l_ty = t\<rparr>) (dk_holds cx)"
    "nd_inputs m = nd_inputs node" "nd_outputs m = nd_outputs node" "nd_name m = nd_name node"
  using assms
  by (auto simp: declock_node_def assemble_def Let_def rbind_eq_Inr try_map_Inr_iff split: list.splits)

lemma rewritten_lhs:
  assumes "rewritten K node = Inr (eqs, cx)"
  shows "map eq_lhs eqs = map eq_lhs (nd_equations node)"
proof -
  let ?f = "\<lambda>(i, eq). declock_equation K eq (root_addr (EquationRoot (nd_name node) i)) (equation_clocks (dp_info K) ! i)"
  have "try_thread ?f (enumerate n es) s = Inr (eqs, cx) \<Longrightarrow> map eq_lhs eqs = map eq_lhs es" for n es s
    by (induction es arbitrary: n s eqs) (auto simp: rbind_eq_Inr dest: declock_equation_lhs)
  with assms show ?thesis unfolding rewritten_def by blast
qed

lemma flags_all:
  assumes "list_all2 (\<lambda>kn eq. f kn = Inr eq) kns es" and "\<And>kn eq. f kn = Inr eq \<Longrightarrow> Q eq \<and> eq_lhs eq = [snd kn]"
  shows "list_all Q es" "concat (map eq_lhs es) = map snd kns"
  using assms(1) by (induction, auto dest: assms(2))

lemma declocked_base_clock:
  assumes "declock_node stack node p = Inr m"
  shows "\<not> node_uses_clocks m"
proof (cases "node_uses_clocks node")
  case True
  from assms True show ?thesis
  proof (rule rewrittenE)
    fix eqs cx acts firsts
    assume rw: "rewritten (dk_context stack node p) node = Inr (eqs, cx)"
      and acts: "list_all2 (\<lambda>kn eq. act_equation cx kn = Inr eq) (dk_acts cx) acts"
      and firsts: "list_all2 (\<lambda>kn eq. first_equation cx kn = Inr eq) (dk_firsts cx) firsts"
      and eqs: "nd_equations m = acts @ firsts @ map (\<lambda>(n, t, e). \<lparr>eq_lhs = [n], eq_rhs = e\<rparr>) (dk_holds cx) @ eqs"
    have "list_all (\<lambda>eq. unclocked (eq_rhs eq)) acts"
      by (rule flags_all(1) [OF acts]) (rule act_equation_unclocked)
    moreover have "list_all (\<lambda>eq. unclocked (eq_rhs eq)) firsts"
      by (rule flags_all(1) [OF firsts]) (rule first_equation_unclocked)
    ultimately show ?thesis
      using hold_clocks.node [OF rw init_ok(1)]
      by (auto simp: node_uses_clocks_iff eqs list_all_iff holds_unclocked_def)
  qed
qed (use assms in \<open>simp add: declock_node_def\<close>)

lemma declock_never_panics: "declock_node stack node p \<noteq> Inl DeclockPanic"
proof (cases "node_uses_clocks node")
  case True
  have "rewritten K node \<noteq> Inl DeclockPanic" for K
    unfolding rewritten_def by (auto dest!: try_thread_Inl simp: declock_equation_no_panic)
  with True show ?thesis
    using hold_flags.node [OF _ init_ok(3)] assemble_ok
    by (fastforce simp: declock_node_def Let_def rbind_eq_Inl dk_err_def split: list.splits)
qed (simp add: declock_node_def)

text \<open>The new locals are the new definitions; they were not declared and differ from each other.\<close>

lemma declocked_names:
  assumes "declock_node stack node p = Inr m"
  obtains new where "map l_name (nd_locals m) = map l_name (nd_locals node) @ new"
    "concat (map eq_lhs (nd_equations m)) = new @ concat (map eq_lhs (nd_equations node))"
    "distinct new" "set new \<inter> set (declared_names node) = {}"
    "nd_inputs m = nd_inputs node" "nd_outputs m = nd_outputs node" "nd_name m = nd_name node"
proof (cases "node_uses_clocks node")
  case True
  from assms True show ?thesis
  proof (rule rewrittenE)
    fix eqs cx acts firsts
    assume rw: "rewritten (dk_context stack node p) node = Inr (eqs, cx)"
      and acts: "list_all2 (\<lambda>kn eq. act_equation cx kn = Inr eq) (dk_acts cx) acts"
      and firsts: "list_all2 (\<lambda>kn eq. first_equation cx kn = Inr eq) (dk_firsts cx) firsts"
      and eqs: "nd_equations m = acts @ firsts @ map (\<lambda>(n, t, e). \<lparr>eq_lhs = [n], eq_rhs = e\<rparr>) (dk_holds cx) @ eqs"
      and locals: "nd_locals m = nd_locals node @ map (bool_local \<circ> snd) (dk_acts cx) @
        map (bool_local \<circ> snd) (dk_firsts cx) @ map (\<lambda>(n, t, e). \<lparr>l_name = n, l_ty = t\<rparr>) (dk_holds cx)"
      and same: "nd_inputs m = nd_inputs node" "nd_outputs m = nd_outputs node" "nd_name m = nd_name node"
    have "concat (map eq_lhs acts) = map snd (dk_acts cx)"
      by (rule flags_all(2) [OF acts]) (rule act_equation_unclocked)
    moreover have "concat (map eq_lhs firsts) = map snd (dk_firsts cx)"
      by (rule flags_all(2) [OF firsts]) (rule first_equation_unclocked)
    moreover have "concat (map (eq_lhs \<circ> (\<lambda>(n, t, e). \<lparr>eq_lhs = [n], eq_rhs = e\<rparr>)) hs) = map fst hs"
      for hs :: "(string \<times> ty \<times> expr) list"
      by (induction hs) auto
    ultimately have "concat (map eq_lhs (nd_equations m)) = new_names cx @ concat (map eq_lhs (nd_equations node))"
      using rewritten_lhs [OF rw] by (simp add: eqs new_names_def)
    moreover have "map l_name (nd_locals m) = map l_name (nd_locals node) @ new_names cx"
      by (auto simp: locals new_names_def bool_local_def split: prod.splits)
    ultimately show ?thesis
      using that same hold_names.node [OF rw init_ok(2)] by (simp add: names_ok_def)
  qed
next
  case False
  with assms have "m = node" by (simp add: declock_node_def)
  then show ?thesis using that [of "[]"] by simp
qed

end
