(* ===== verification/Lowering_Fixtures.thy ===== *)
theory Lowering_Fixtures
  imports Fixtures Activation_Laws Lowering Declock_Laws
begin

text \<open>
  Small activations and clocked nodes, on which the properties of lowering and of clock elimination are
  applied.
\<close>

definition limiter :: activation_def where
  "limiter =
     \<lparr>act_name = ''Lim'', act_outputs = [mk_port ''o'' TInt32],
      act_branches = [\<lparr>ab_name = ''High'', ab_condition = Binary BGt (Var ''i'') (int_lit 9),
        ab_equations = [mk_eq ''o'' (int_lit 9)]\<rparr>],
      act_else_equations = [mk_eq ''o'' (Arrow (Var ''i'') (Pre (Var ''i'')))], act_owner = ''lim''\<rparr>"

definition limiter_owner :: node_def where
  "limiter_owner = mk_node ''lim'' [mk_port ''i'' TInt32] [mk_port ''o'' TInt32] [] []"

definition limiter_project :: project where
  "limiter_project = (mk_project [limiter_owner])\<lparr>pj_packages :=
     [(mk_package [limiter_owner])\<lparr>pk_activations := [limiter]\<rparr>]\<rparr>"

definition limiter_env :: env where
  "limiter_env =
     [''i'' \<mapsto> VInt 12, ''c'' \<mapsto> VBool True, branch_flag ''Lim'' 0 \<mapsto> VBool True,
      scope_var ''Lim'' 1 0 ''o'' \<mapsto> VInt 9, scope_var ''Lim'' 1 1 ''o'' \<mapsto> VInt 7]"

lemma limiter_plain: "plain_activation limiter"
  by (simp add: plain_activation_def limiter_def mk_eq_def no_last_def int_lit_def visit.simps)

definition clocked_node :: node_def where
  "clocked_node = sampled_node [late_c, late_x, late_y, late_o]"

definition unclocked_node :: node_def where
  "unclocked_node = (case declock_node 2 clocked_node (mk_project [clocked_node]) of Inr m \<Rightarrow> m)"

lemma clocked_node_rewritten: "declock_node 2 clocked_node (mk_project [clocked_node]) = Inr unclocked_node"
proof -
  have "(case declock_node 2 clocked_node (mk_project [clocked_node]) of Inr _ \<Rightarrow> True | _ \<Rightarrow> False)"
    by code_simp
  then show ?thesis by (auto simp: unclocked_node_def split: sum.splits)
qed

end
