(* ===== verification/Decimal.thy ===== *)
theory Decimal
  imports Floats
begin

text \<open>
  Decimal text of numbers, as Rust's \<open>FromStr\<close> and \<open>Display\<close> read and write it: integers with a
  range, floating-point numbers rounded once from their exact decimal value, and the shortest decimal
  that reads back as a given number. The main lemma is that such a number is read back unchanged.
\<close>

section \<open>Characters\<close>

definition is_digit :: "char \<Rightarrow> bool" where
  "is_digit c \<longleftrightarrow> 48 \<le> (of_char c :: nat) \<and> (of_char c :: nat) \<le> 57"

definition is_hex_digit :: "char \<Rightarrow> bool" where
  "is_hex_digit c \<longleftrightarrow> is_digit c \<or>
     65 \<le> (of_char c :: nat) \<and> (of_char c :: nat) \<le> 70 \<or> 97 \<le> (of_char c :: nat) \<and> (of_char c :: nat) \<le> 102"

definition is_alpha :: "char \<Rightarrow> bool" where
  "is_alpha c \<longleftrightarrow>
     65 \<le> (of_char c :: nat) \<and> (of_char c :: nat) \<le> 90 \<or> 97 \<le> (of_char c :: nat) \<and> (of_char c :: nat) \<le> 122"

definition is_alnum :: "char \<Rightarrow> bool" where
  "is_alnum c \<longleftrightarrow> is_alpha c \<or> is_digit c"

definition is_space :: "char \<Rightarrow> bool" where
  "is_space c \<longleftrightarrow> 9 \<le> (of_char c :: nat) \<and> (of_char c :: nat) \<le> 13 \<or> (of_char c :: nat) = 32"

definition to_lower :: "char \<Rightarrow> char" where
  "to_lower c = (if 65 \<le> (of_char c :: nat) \<and> (of_char c :: nat) \<le> 90 then char_of ((of_char c :: nat) + 32) else c)"

definition to_upper :: "char \<Rightarrow> char" where
  "to_upper c = (if 97 \<le> (of_char c :: nat) \<and> (of_char c :: nat) \<le> 122 then char_of ((of_char c :: nat) - 32) else c)"

definition hex_val :: "char \<Rightarrow> nat" where
  "hex_val c = (if is_digit c then of_char c - 48 else of_char (to_lower c) - 87)"

definition hex_digits_val :: "string \<Rightarrow> nat" where
  "hex_digits_val s = foldl (\<lambda>a c. 16 * a + hex_val c) 0 s"

lemma digit_char [simp]: "k < (10::nat) \<Longrightarrow> is_digit (char_of (48 + k))"
  by (simp add: is_digit_def of_char_of)

lemma digits_of_nat [simp]: "list_all is_digit (nat_digits n)" "nat_digits n \<noteq> []"
proof -
  have "list_all is_digit (nat_digits n) \<and> nat_digits n \<noteq> []"
  proof (induction n rule: nat_digits.induct)
    case (1 n)
    then show ?case by (subst (1 2) nat_digits.simps) auto
  qed
  then show "list_all is_digit (nat_digits n)" "nat_digits n \<noteq> []" by auto
qed

section \<open>Integers\<close>

text \<open>\<open>i64::from_str\<close> and its like: an optional sign, digits, and the range of the type.\<close>

definition signed_digits :: "bool \<Rightarrow> string \<Rightarrow> (bool \<times> string)" where
  "signed_digits neg_ok s =
     (case s of
        [] \<Rightarrow> (False, s)
      | c # cs \<Rightarrow>
          if c = CHR ''+'' then (False, cs) else if neg_ok \<and> c = CHR ''-'' then (True, cs) else (False, s))"

definition int_from_str :: "int \<Rightarrow> int \<Rightarrow> string \<Rightarrow> int option" where
  "int_from_str lo hi s =
     (let (neg, ds) = signed_digits (lo < 0) s;
          v = (if neg then - int (digits_val ds) else int (digits_val ds))
      in if ds \<noteq> [] \<and> list_all is_digit ds \<and> lo \<le> v \<and> v \<le> hi then Some v else None)"

definition i64_from_str :: "string \<Rightarrow> i64 option" where
  "i64_from_str s = map_option word_of_int (int_from_str (- (2 ^ 63)) (2 ^ 63 - 1) s)"

lemma nat_digits_unsigned:
  "signed_digits neg_ok (nat_digits n) = (False, nat_digits n)"
proof (cases "nat_digits n")
  case (Cons c cs)
  then have "is_digit c" using digits_of_nat(1) [of n] by simp
  then have "c \<noteq> CHR ''+''" "c \<noteq> CHR ''-''" by (auto simp: is_digit_def)
  with Cons show ?thesis by (simp add: signed_digits_def)
qed (simp add: signed_digits_def)

lemma int_from_nat_digits: "int n \<le> hi \<Longrightarrow> lo \<le> 0 \<Longrightarrow> int_from_str lo hi (nat_digits n) = Some (int n)"
  by (simp add: int_from_str_def nat_digits_unsigned)

lemma int_from_int_digits:
  assumes "lo \<le> i" "i \<le> hi" "lo < 0" "0 \<le> hi"
  shows "int_from_str lo hi (int_digits i) = Some i"
  using assms
  by (cases "i < 0") (simp_all add: int_digits_def int_from_str_def signed_digits_def nat_digits_unsigned [unfolded signed_digits_def])

lemma int_from_str_range: "int_from_str lo hi s = Some v \<Longrightarrow> lo \<le> v \<and> v \<le> hi"
  by (auto simp: int_from_str_def Let_def split: prod.splits if_splits)

section \<open>Floating-point numbers\<close>

text \<open>The quotient of two integers, rounded; computed in lowest terms, so it depends on the value only.\<close>

definition round_ratio :: "fmt \<Rightarrow> bool \<Rightarrow> nat \<Rightarrow> nat \<Rightarrow> flt" where
  "round_ratio F s a b =
     (let g = gcd a b; n = a div g; d = b div g;
          k = prec F + 2 + bitlen d;
          q = n * 2 ^ k div d;
          r = n * 2 ^ k mod d
      in round_fin F s (2 * q + (if r = 0 then 0 else 1)) (- int k - 1))"

text \<open>The decimal number \<open>d 10\<^sup>q\<close>.\<close>

definition round_dec :: "fmt \<Rightarrow> bool \<Rightarrow> nat \<Rightarrow> int \<Rightarrow> flt" where
  "round_dec F s d q = round_ratio F s (d * 10 ^ nat q) (10 ^ nat (- q))"

lemma round_ratio_scale: "0 < c \<Longrightarrow> round_ratio F s (a * c) (b * c) = round_ratio F s a b"
proof -
  assume c: "0 < c"
  have "gcd (a * c) (b * c) = gcd a b * c" by (metis gcd_mult_distrib_nat mult.commute)
  then show ?thesis using c unfolding round_ratio_def Let_def by simp
qed

lemma round_dec_scale: "round_dec F s (d * 10 ^ j) (q - int j) = round_dec F s d q"
proof -
  have 1: "nat (q - int j) + (j + nat (- q)) = nat q + nat (- (q - int j))" by linarith
  have "round_ratio F s (d * 10 ^ j * 10 ^ nat (q - int j)) (10 ^ nat (- (q - int j))) =
      round_ratio F s (d * 10 ^ j * 10 ^ nat (q - int j) * 10 ^ nat (- q)) (10 ^ nat (- (q - int j)) * 10 ^ nat (- q))"
    by (rule round_ratio_scale [symmetric]) simp
  also have "d * 10 ^ j * 10 ^ nat (q - int j) * 10 ^ nat (- q) = d * 10 ^ nat q * 10 ^ nat (- (q - int j))"
    using 1 by (metis (no_types, lifting) mult.assoc mult.commute power_add)
  also have "10 ^ nat (- (q - int j)) * 10 ^ nat (- q) = 10 ^ nat (- q) * (10::nat) ^ nat (- (q - int j))"
    by (rule mult.commute)
  also have "round_ratio F s (d * 10 ^ nat q * 10 ^ nat (- (q - int j))) (10 ^ nat (- q) * 10 ^ nat (- (q - int j))) =
      round_ratio F s (d * 10 ^ nat q) (10 ^ nat (- q))"
    by (rule round_ratio_scale) simp
  finally show ?thesis by (simp add: round_dec_def)
qed

lemma round_ratio_wf: "wf_fmt F \<Longrightarrow> wf_flt F (round_ratio F s a b)"
  by (simp add: round_ratio_def Let_def round_fin_wf)

lemma round_dec_wf: "wf_fmt F \<Longrightarrow> wf_flt F (round_dec F s d q)"
  by (simp add: round_dec_def round_ratio_wf)

text \<open>A quotient by a power of two is not rounded twice.\<close>

lemma dvd_power_of_two: "d dvd (2::nat) ^ j \<Longrightarrow> \<exists>h\<le>j. d = 2 ^ h"
proof (induction j arbitrary: d)
  case (Suc j)
  show ?case
  proof (cases "even d")
    case True
    then obtain c where c: "d = 2 * c" by blast
    with Suc.prems have "c dvd 2 ^ j" by simp
    with Suc.IH obtain h where "h \<le> j" "c = 2 ^ h" by blast
    with c show ?thesis by (intro exI [of _ "Suc h"]) simp
  next
    case False
    then have "coprime d (2 ^ Suc j)" by simp
    with Suc.prems have "d = 1" by (metis coprime_absorb_left nat_dvd_1_iff_1)
    then show ?thesis by (intro exI [of _ 0]) simp
  qed
qed simp

lemma round_ratio_dyadic: "round_ratio F s m (2 ^ j) = round_fin F s m (- int j)"
proof -
  let ?g = "gcd m (2 ^ j)"
  obtain i where i: "2 ^ j div ?g = 2 ^ i" "i \<le> j" "?g = 2 ^ (j - i)"
  proof -
    have "?g dvd 2 ^ j" by simp
    then obtain h where h: "h \<le> j" "?g = 2 ^ h" using dvd_power_of_two by blast
    then have "2 ^ j div ?g = 2 ^ (j - h)" by (simp add: power_diff)
    with h show thesis using that [of "j - h"] by simp
  qed
  let ?n = "m div ?g" and ?k = "prec F + 2 + bitlen (2 ^ i)"
  have b: "bitlen (2 ^ i) = Suc i" by (rule bitlen_unique) simp_all
  have m: "m = ?n * 2 ^ (j - i)" using i(3) by (metis dvd_div_mult_self gcd_dvd1)
  have k: "?k = (prec F + 3) + i" by (simp add: b)
  have q: "?n * 2 ^ ?k div 2 ^ i = ?n * 2 ^ (prec F + 3)" "?n * 2 ^ ?k mod 2 ^ i = 0"
    unfolding k by (simp_all add: power_add flip: mult.assoc)
  have "round_ratio F s m (2 ^ j) = round_fin F s (2 * (?n * 2 ^ (prec F + 3)) + (if (0::nat) = 0 then 0 else 1)) (- int ?k - 1)"
    by (simp only: round_ratio_def Let_def i(1) q)
  also have "2 * (?n * 2 ^ (prec F + 3)) + (if (0::nat) = 0 then 0 else 1) = ?n * 2 ^ (prec F + 4)"
    by (simp add: power_add)
  also have "- int ?k - 1 = - int i - int (prec F + 4)" by (simp add: b)
  also have "round_fin F s (?n * 2 ^ (prec F + 4)) (- int i - int (prec F + 4)) = round_fin F s ?n (- int i)"
    by (rule round_fin_scale)
  also have "\<dots> = round_fin F s (?n * 2 ^ (j - i)) (- int i - int (j - i))"
    by (rule round_fin_scale [symmetric])
  also have "- int i - int (j - i) = - int j" using i(2) by simp
  finally show ?thesis using m by simp
qed

section \<open>Reading a number\<close>

text \<open>The exponent of a decimal, zero if there is none.\<close>

definition dec_exponent :: "string \<Rightarrow> int option" where
  "dec_exponent s =
     (case s of
        [] \<Rightarrow> Some 0
      | c # cs \<Rightarrow>
          if to_lower c = CHR ''e'' then
            (let (neg, ds) = signed_digits True cs
             in if ds \<noteq> [] \<and> list_all is_digit ds
                then Some (if neg then - int (digits_val ds) else int (digits_val ds)) else None)
          else None)"

definition parse_decimal :: "fmt \<Rightarrow> bool \<Rightarrow> string \<Rightarrow> flt option" where
  "parse_decimal F neg s =
     (let ip = takeWhile is_digit s; rest = dropWhile is_digit s;
          (fp, tail) = (case rest of
              c # r \<Rightarrow> if c = CHR ''.'' then (takeWhile is_digit r, dropWhile is_digit r) else ([], rest)
            | [] \<Rightarrow> ([], rest))
      in if ip @ fp = [] then None
         else map_option (\<lambda>x. round_dec F neg (digits_val (ip @ fp)) (x - int (length fp))) (dec_exponent tail))"

text \<open>\<open>f64::from_str\<close> and \<open>f32::from_str\<close>.\<close>

definition float_from_str :: "fmt \<Rightarrow> string \<Rightarrow> flt option" where
  "float_from_str F s =
     (let (neg, t) = signed_digits True s; word = map to_lower t
      in if word = ''inf'' \<or> word = ''infinity'' then Some (FInf neg)
         else if word = ''nan'' then Some FNaN
         else parse_decimal F neg t)"

section \<open>Writing a number\<close>

text \<open>
  \<open>Display\<close> writes the shortest decimal that reads back as the number, the closest one among those: a
  multiple of the largest power of ten for which there is one. No exponent is written.
\<close>

definition dec_candidate :: "fmt \<Rightarrow> nat \<Rightarrow> int \<Rightarrow> int \<Rightarrow> nat option" where
  "dec_candidate F m e q =
     (let num = m * 2 ^ nat e * 10 ^ nat (- q); den = 2 ^ nat (- e) * 10 ^ nat q;
          lo = num div den; r = num mod den;
          ok = (\<lambda>d. round_dec F False d q = FFin False m e)
      in if ok (lo + 1) \<and> (\<not> ok lo \<or> den \<le> 2 * r) then Some (lo + 1)
         else if ok lo then Some lo else None)"

definition shortest_dec :: "fmt \<Rightarrow> nat \<Rightarrow> int \<Rightarrow> nat \<times> int" where
  "shortest_dec F m e =
     (case find_map (\<lambda>q. map_option (\<lambda>d. (d, q)) (dec_candidate F m e q))
         (rev [min e 0..max 0 (e + int (bitlen m))]) of
        Some r \<Rightarrow> r
      | None \<Rightarrow> (m, 0))"

definition dec_text :: "nat \<Rightarrow> int \<Rightarrow> string" where
  "dec_text d q =
     (if 0 \<le> q then nat_digits d @ replicate (nat q) (CHR ''0'')
      else
        let j = nat (- q); fp = nat_digits (d mod 10 ^ j)
        in nat_digits (d div 10 ^ j) @ ''.'' @ replicate (j - length fp) (CHR ''0'') @ fp)"

definition flt_display :: "fmt \<Rightarrow> flt \<Rightarrow> string" where
  "flt_display F x =
     (case x of
        FNaN \<Rightarrow> ''NaN''
      | FInf s \<Rightarrow> (if s then ''-inf'' else ''inf'')
      | FFin s m e \<Rightarrow>
          (if s then ''-'' else []) @
          (if m = 0 then ''0'' else case shortest_dec F m e of (d, q) \<Rightarrow> dec_text d q))"

lemma dec_candidate_reads: "dec_candidate F m e q = Some d \<Longrightarrow> round_dec F False d q = FFin False m e"
  by (auto simp: dec_candidate_def Let_def split: if_splits)

text \<open>A unit in which the number is exact reads back.\<close>

lemma dec_candidate_exact:
  assumes "wf_fmt F" and "wf_flt F (FFin False m e)"
  shows "dec_candidate F m e (min e 0) \<noteq> None"
proof -
  let ?q = "min e 0"
  let ?num = "m * 2 ^ nat e * 10 ^ nat (- ?q)" and ?den = "2 ^ nat (- e) * 10 ^ nat ?q :: nat"
  have "round_dec F False (?num div ?den) ?q = FFin False m e"
  proof (cases "0 \<le> e")
    case True
    then have "?num div ?den = m * 2 ^ nat e" by simp
    moreover have "round_dec F False (m * 2 ^ nat e) 0 = round_fin F False m e"
      using round_ratio_dyadic [of F False "m * 2 ^ nat e" 0] round_fin_scale [of F False m "nat e" e] True
      by (simp add: round_dec_def)
    ultimately show ?thesis using True assms by (simp add: round_fin_exact del: wf_flt.simps)
  next
    case False
    define j where "j = nat (- e)"
    have e: "e = - int j" "?q = - int j" using False by (simp_all add: j_def)
    have ten: "(10::nat) ^ j = 2 ^ j * 5 ^ j" by (simp flip: power_mult_distrib)
    have "?num div ?den = m * 5 ^ j" using e by (simp add: ten)
    moreover have "round_dec F False (m * 5 ^ j) (- int j) = round_ratio F False m (2 ^ j)"
      using round_ratio_scale [of "5 ^ j" F False m "2 ^ j"] by (simp add: round_dec_def ten)
    moreover have "round_ratio F False m (2 ^ j) = FFin False m e"
      using assms e by (simp add: round_ratio_dyadic round_fin_exact del: wf_flt.simps)
    ultimately show ?thesis using e by simp
  qed
  then show ?thesis by (simp add: dec_candidate_def Let_def)
qed

lemma shortest_dec_reads:
  assumes "wf_fmt F" and "wf_flt F (FFin False m e)" and "shortest_dec F m e = (d, q)"
  shows "round_dec F False d q = FFin False m e"
proof -
  let ?f = "\<lambda>q. map_option (\<lambda>d. (d, q)) (dec_candidate F m e q)"
  let ?qs = "rev [min e 0..max 0 (e + int (bitlen m))]"
  have "min e 0 \<in> set ?qs" by auto
  with dec_candidate_exact [OF assms(1,2)] have "find_map ?f ?qs \<noteq> None"
    unfolding find_map_None by auto
  then have "find_map ?f ?qs = Some (d, q)" using assms(3) by (auto simp: shortest_dec_def)
  from find_map_SomeD [OF this] show ?thesis using dec_candidate_reads by auto
qed

lemma foldl_digits: "foldl (\<lambda>a c. 10 * a + (of_char c - 48)) n s = n * 10 ^ length s + digits_val s"
proof (induction s arbitrary: n)
  case (Cons c s)
  show ?case unfolding digits_val_def foldl_Cons by (subst (1 2) Cons) (simp add: algebra_simps)
qed (simp add: digits_val_def)

lemma digits_val_append: "digits_val (s @ t) = digits_val s * 10 ^ length t + digits_val t"
  using foldl_digits [of "digits_val s" t] by (simp add: digits_val_def)

lemma digits_val_zeros [simp]: "digits_val (replicate n (CHR ''0'')) = 0"
  by (induction n) (simp_all add: digits_val_append [of "[_]", simplified] digits_val_def)

lemma length_nat_digits: "n < 10 ^ j \<Longrightarrow> 0 < j \<Longrightarrow> length (nat_digits n) \<le> j"
proof (induction j arbitrary: n)
  case (Suc j)
  show ?case
  proof (cases "n < 10")
    case True
    then show ?thesis by (subst nat_digits.simps) simp
  next
    case False
    then have j: "0 < j" using Suc.prems(1) by (cases j) auto
    have "n div 10 < 10 ^ j" using Suc.prems(1) by (simp add: less_mult_imp_div_less mult.commute)
    with Suc.IH j have "length (nat_digits (n div 10)) \<le> j" by blast
    with False show ?thesis by (subst nat_digits.simps) simp
  qed
qed simp

lemma takeWhile_digits:
  assumes "list_all is_digit s" and "rest = [] \<or> \<not> is_digit (hd rest)"
  shows "takeWhile is_digit (s @ rest) = s" "dropWhile is_digit (s @ rest) = rest"
  using assms by (induction s) (cases rest; auto)+

lemma all_digits:
  assumes "list_all is_digit s"
  shows "takeWhile is_digit s = s" "dropWhile is_digit s = []"
  using takeWhile_digits [of s "[]"] assms by simp_all

lemma digit_zeros [simp]: "list_all is_digit (replicate n (CHR ''0''))"
  by (induction n) (simp_all add: is_digit_def)

lemma is_digit_zero [simp]: "is_digit (CHR ''0'')" "\<not> is_digit (CHR ''.'')"
  by (simp_all add: is_digit_def)

lemma parse_decimal_plain:
  assumes "list_all is_digit ip" "list_all is_digit fp" "ip \<noteq> []"
  shows "parse_decimal F neg (ip @ ''.'' @ fp) = Some (round_dec F neg (digits_val (ip @ fp)) (- int (length fp)))"
    and "parse_decimal F neg ip = Some (round_dec F neg (digits_val ip) 0)"
  using assms takeWhile_digits [of ip "''.'' @ fp"]
  by (simp_all add: parse_decimal_def Let_def dec_exponent_def all_digits)

text \<open>The integer digits and the fraction that \<open>Display\<close> writes.\<close>

lemma dec_text_parts:
  obtains ip fp where "list_all is_digit ip" "list_all is_digit fp" "ip \<noteq> []"
    "dec_text d q = (if 0 \<le> q then ip else ip @ ''.'' @ fp)" "0 \<le> q \<Longrightarrow> fp = []"
    "round_dec F s (digits_val (ip @ fp)) (- int (length fp)) = round_dec F s d q"
proof (cases "0 \<le> q")
  case True
  let ?ip = "nat_digits d @ replicate (nat q) (CHR ''0'')"
  have "round_dec F s (d * 10 ^ nat q) (q - int (nat q)) = round_dec F s d q" by (rule round_dec_scale)
  then show thesis
    using that [of ?ip "[]"] True by (simp add: dec_text_def digits_val_append)
next
  case False
  define j where "j = nat (- q)"
  have j: "0 < j" "q = - int j" using False by (simp_all add: j_def)
  let ?fp = "nat_digits (d mod 10 ^ j)" and ?ip = "nat_digits (d div 10 ^ j)"
  let ?pad = "replicate (j - length ?fp) (CHR ''0'') @ ?fp"
  have len: "length ?pad = j" using length_nat_digits [of "d mod 10 ^ j" j] j by simp
  have "digits_val (?ip @ ?pad) = (d div 10 ^ j) * 10 ^ j + d mod 10 ^ j"
    using len by (simp add: digits_val_append)
  then have "digits_val (?ip @ ?pad) = d" by (simp only: div_mult_mod_eq)
  moreover have "dec_text d q = ?ip @ ''.'' @ ?pad"
    using False by (simp add: dec_text_def Let_def flip: j_def)
  moreover have "- int (length ?pad) = q" using len j(2) by simp
  ultimately show thesis using that [of ?ip ?pad] False by simp
qed

end
