(* ===== verification/Lexer.thy ===== *)
theory Lexer
  imports IR_Project Decimal
begin

text \<open>
  The tokens of the textual expression syntax and the tokenizer (\<open>tokenize\<close> and \<open>read_escaped\<close> in
  \<open>ol_stdlib/src/parser.rs\<close>). A source text is the list of its UTF-8 bytes; positions in errors are
  byte offsets. The tokenizer ends because every token takes at least one byte.
\<close>

datatype parse_error =
    BadChar string nat
  | UnexpectedEof
  | Expected string string
  | Trailing string
  | UnknownType string

datatype tok =
    TokIdent string | TokInt i64 | TokFloat f64
  | TokArrow | TokFatArrow | TokLe | TokGe | TokNe | TokLt | TokGt | TokEq
  | TokPlus | TokMinus | TokStar | TokSlash | TokAmp | TokPipe | TokCaret | TokShl | TokShr
  | TokLParen | TokRParen | TokLBracket | TokRBracket | TokLBrace | TokRBrace
  | TokComma | TokSemi | TokColon | TokDot
  | TokChar u8 | TokStr string | TokTypedInt i64 ty | TokTypedFloat f64 ty

text \<open>A byte as a character of its own (\<open>b as char\<close>), in UTF-8.\<close>

definition latin1 :: "u8 \<Rightarrow> string" where
  "latin1 b = (if unat b < 128 then [char_of (unat b)] else [char_of (192 + unat b div 64), char_of (128 + unat b mod 64)])"

fun describe :: "tok \<Rightarrow> string" where
  "describe (TokIdent s) = s"
| "describe (TokInt n) = int_digits (sint n)"
| "describe (TokFloat f) = flt_display F64 f"
| "describe TokArrow = ''->''"
| "describe TokFatArrow = ''=>''"
| "describe TokLe = ''<=''"
| "describe TokGe = ''>=''"
| "describe TokNe = ''<>''"
| "describe TokLt = ''<''"
| "describe TokGt = ''>''"
| "describe TokEq = ''=''"
| "describe TokPlus = ''+''"
| "describe TokMinus = ''-''"
| "describe TokStar = ''*''"
| "describe TokSlash = ''/''"
| "describe TokAmp = ''&''"
| "describe TokPipe = ''|''"
| "describe TokCaret = ''^''"
| "describe TokShl = ''<<''"
| "describe TokShr = ''>>''"
| "describe TokLParen = ''(''"
| "describe TokRParen = '')''"
| "describe TokLBracket = ''[''"
| "describe TokRBracket = '']''"
| "describe TokLBrace = ''{''"
| "describe TokRBrace = ''}''"
| "describe TokComma = '',''"
| "describe TokSemi = '';''"
| "describe TokColon = '':''"
| "describe TokDot = ''.''"
| "describe (TokChar b) = [CHR 0x27] @ latin1 b @ [CHR 0x27]"
| "describe (TokStr s) = [CHR 0x22] @ s @ [CHR 0x22]"
| "describe (TokTypedInt n t) = int_digits (sint n) @ ''_'' @ lustre_name t"
| "describe (TokTypedFloat f t) = flt_display F64 f @ ''_'' @ lustre_name t"

definition numeric_suffix_type :: "string \<Rightarrow> ty option" where
  "numeric_suffix_type s =
     map_of [(''i8'', TInt8), (''i16'', TInt16), (''i32'', TInt32), (''i64'', TInt64),
       (''u8'', TUint8), (''u16'', TUint16), (''u32'', TUint32), (''u64'', TUint64),
       (''f32'', TFloat32), (''f64'', TFloat64)] s"

section \<open>Literals\<close>

definition read_escaped :: "string \<Rightarrow> (parse_error, u8 \<times> string) result" where
  "read_escaped s =
     (case s of
        [] \<Rightarrow> Inl UnexpectedEof
      | b # r \<Rightarrow>
          if b = CHR 0x5C then
            (case r of
               [] \<Rightarrow> Inl UnexpectedEof
             | e # r' \<Rightarrow>
                 Inr (if e = CHR ''n'' then 10 else if e = CHR ''t'' then 9
                      else if e = CHR ''r'' then 13 else if e = CHR ''0'' then 0 else of_char e, r'))
          else Inr (of_char b, r))"

lemma read_escaped_shorter: "read_escaped s = Inr (b, r) \<Longrightarrow> length r < length s"
  by (auto simp: read_escaped_def split: list.splits if_splits)

function read_string :: "string \<Rightarrow> (parse_error, string \<times> string) result" where
  "read_string s =
     (case s of
        [] \<Rightarrow> Inl UnexpectedEof
      | c # r \<Rightarrow>
          if c = CHR 0x22 then Inr ([], r)
          else rbind (read_escaped s) (\<lambda>(b, r'). rbind (read_string r') (\<lambda>(bs, r''). Inr (char_of (unat b) # bs, r''))))"
  by pat_completeness auto
termination by (relation "measure length") (auto dest: read_escaped_shorter)

declare read_string.simps [simp del]

lemma read_string_shorter: "read_string s = Inr (bs, r) \<Longrightarrow> length r < length s"
proof (induction s arbitrary: bs r rule: read_string.induct)
  case (1 s)
  show ?case
  proof (cases s)
    case (Cons c cs)
    show ?thesis
    proof (cases "c = CHR 0x22")
      case True
      with "1.prems" Cons show ?thesis by (subst (asm) read_string.simps) simp
    next
      case False
      with "1.prems" Cons obtain b r' bs' where r': "read_escaped s = Inr (b, r')" "read_string r' = Inr (bs', r)"
        by (subst (asm) read_string.simps) (auto simp: rbind_eq_Inr)
      with "1.IH" Cons False read_escaped_shorter [OF r'(1)] show ?thesis by fastforce
    qed
  qed (use "1.prems" in \<open>simp add: read_string.simps\<close>)
qed

definition read_char :: "string \<Rightarrow> (parse_error, tok \<times> string) result" where
  "read_char s =
     rbind (read_escaped s) (\<lambda>(b, r).
       case r of
         c # r' \<Rightarrow>
           if c = CHR 0x27 then Inr (TokChar b, r')
           else Inl (Expected (''closing '' @ [CHR 0x27] @ '' for a character literal'') (latin1 (of_char c)))
       | [] \<Rightarrow> Inl (Expected (''closing '' @ [CHR 0x27] @ '' for a character literal'') ''<eof>''))"

text \<open>A number at byte \<open>i\<close>: hexadecimal, or decimal with an optional fraction and type suffix.\<close>

definition hex_number :: "nat \<Rightarrow> string \<Rightarrow> (parse_error, tok \<times> string) result" where
  "hex_number i r =
     (let hs = takeWhile is_hex_digit r; v = hex_digits_val hs
      in if hs \<noteq> [] \<and> v < 2 ^ 63 then Inr (TokInt (word_of_nat v), dropWhile is_hex_digit r)
         else Inl (BadChar ''0'' i))"

definition type_suffix :: "string \<Rightarrow> ty option \<times> string" where
  "type_suffix s =
     (case s of
        [] \<Rightarrow> (None, s)
      | c # r \<Rightarrow>
          if c = CHR ''_'' then
            (case numeric_suffix_type (takeWhile is_alnum r) of
               Some t \<Rightarrow> (Some t, dropWhile is_alnum r)
             | None \<Rightarrow> (None, s))
          else (None, s))"

definition dec_number :: "nat \<Rightarrow> char \<Rightarrow> string \<Rightarrow> (parse_error, tok \<times> string) result" where
  "dec_number i c cs =
     (let ip = takeWhile is_digit (c # cs); rest = dropWhile is_digit (c # cs);
          bad = BadChar [c] i
      in case rest of
           d # r \<Rightarrow>
             if d = CHR ''.'' then
               (let text = ip @ ''.'' @ takeWhile is_digit r;
                    (suffix, r') = type_suffix (dropWhile is_digit r)
                in rbind (ok_or bad (float_from_str F64 text)) (\<lambda>x.
                   Inr (case suffix of Some t \<Rightarrow> TokTypedFloat x t | None \<Rightarrow> TokFloat x, r')))
             else
               (let (suffix, r') = type_suffix rest
                in rbind (ok_or bad (i64_from_str ip)) (\<lambda>n.
                   Inr (case suffix of Some t \<Rightarrow> TokTypedInt n t | None \<Rightarrow> TokInt n, r')))
         | [] \<Rightarrow> rbind (ok_or bad (i64_from_str ip)) (\<lambda>n. Inr (TokInt n, [])))"

section \<open>Tokens\<close>

definition punctuation :: "char \<Rightarrow> tok option" where
  "punctuation c =
     map_of [(CHR ''('', TokLParen), (CHR '')'', TokRParen), (CHR ''['', TokLBracket), (CHR '']'', TokRBracket),
       (CHR ''{'', TokLBrace), (CHR ''}'', TokRBrace), (CHR '';'', TokSemi), (CHR '':'', TokColon),
       (CHR '','', TokComma), (CHR ''.'', TokDot), (CHR ''+'', TokPlus), (CHR ''*'', TokStar),
       (CHR ''/'', TokSlash), (CHR ''&'', TokAmp), (CHR ''|'', TokPipe), (CHR ''^'', TokCaret)] c"

text \<open>The operators that one more character can make another operator.\<close>

definition compound :: "char \<Rightarrow> (tok \<times> (char \<times> tok) list) option" where
  "compound c =
     map_of [(CHR ''-'', TokMinus, [(CHR ''>'', TokArrow)]),
       (CHR ''='', TokEq, [(CHR ''>'', TokFatArrow)]),
       (CHR ''<'', TokLt, [(CHR ''='', TokLe), (CHR ''>'', TokNe), (CHR ''<'', TokShl)]),
       (CHR ''>'', TokGt, [(CHR ''='', TokGe), (CHR ''>'', TokShr)])] c"

definition is_ident_char :: "char \<Rightarrow> bool" where
  "is_ident_char c \<longleftrightarrow> is_alnum c \<or> c = CHR ''_''"

definition next_token :: "nat \<Rightarrow> char \<Rightarrow> string \<Rightarrow> (parse_error, tok \<times> string) result" where
  "next_token i c cs =
     (case punctuation c of
        Some t \<Rightarrow> Inr (t, cs)
      | None \<Rightarrow>
     (case compound c of
        Some (t, ts) \<Rightarrow>
          (case cs of
             d # r \<Rightarrow> (case map_of ts d of Some t' \<Rightarrow> Inr (t', r) | None \<Rightarrow> Inr (t, cs))
           | [] \<Rightarrow> Inr (t, cs))
      | None \<Rightarrow>
          if c = CHR 0x27 then read_char cs
          else if c = CHR 0x22 then rbind (read_string cs) (\<lambda>(bs, r). Inr (TokStr bs, r))
          else if is_digit c then
            (case cs of
               x # r \<Rightarrow> if c = CHR ''0'' \<and> (x = CHR ''x'' \<or> x = CHR ''X'') then hex_number i r else dec_number i c cs
             | [] \<Rightarrow> dec_number i c cs)
          else if is_alpha c \<or> c = CHR ''_'' then
            Inr (TokIdent (takeWhile is_ident_char (c # cs)), dropWhile is_ident_char (c # cs))
          else Inl (BadChar [c] i)))"

text \<open>The length of the UTF-8 character that starts with a byte that is not ASCII.\<close>

definition utf8_len :: "char \<Rightarrow> nat" where
  "utf8_len c = (if 240 \<le> (of_char c :: nat) then 4 else if 224 \<le> (of_char c :: nat) then 3 else 2)"

lemma type_suffix_shorter: "type_suffix s = (t, r) \<Longrightarrow> length r \<le> length s"
  using length_dropWhile_le [of is_alnum "tl s"]
  by (auto simp: type_suffix_def split: list.splits if_splits option.splits)

lemma dec_number_shorter:
  assumes *: "dec_number i c cs = Inr (t, r)" and c: "is_digit c"
  shows "length r \<le> length cs"
proof -
  have rest: "length (dropWhile is_digit cs) \<le> length cs" by (rule length_dropWhile_le)
  show ?thesis
  proof (cases "dropWhile is_digit cs")
    case (Cons d r')
    have drop: "length (dropWhile is_digit r') \<le> length r'" by (rule length_dropWhile_le)
    show ?thesis
    proof (cases "d = CHR ''.''")
      case True
      obtain sfx r2 where ts: "type_suffix (dropWhile is_digit r') = (sfx, r2)" by force
      with * c Cons True have "r = r2" by (auto simp: dec_number_def Let_def rbind_eq_Inr)
      with type_suffix_shorter [OF ts] drop rest Cons show ?thesis by simp
    next
      case False
      obtain sfx r2 where ts: "type_suffix (d # r') = (sfx, r2)" by force
      with * c Cons False have "r = r2" by (auto simp: dec_number_def Let_def rbind_eq_Inr)
      with type_suffix_shorter [OF ts] rest Cons show ?thesis by simp
    qed
  qed (use * c in \<open>auto simp: dec_number_def Let_def rbind_eq_Inr simp del: dropWhile_eq_Nil_conv\<close>)
qed

lemma read_char_shorter: "read_char s = Inr (t, r) \<Longrightarrow> length r \<le> length s"
proof -
  assume *: "read_char s = Inr (t, r)"
  then obtain b r1 where r1: "read_escaped s = Inr (b, r1)" by (auto simp: read_char_def rbind_eq_Inr)
  from read_escaped_shorter [OF r1] * r1 show ?thesis
    by (cases r1) (auto simp: read_char_def split: if_splits)
qed

lemma hex_number_shorter: "hex_number i s = Inr (t, r) \<Longrightarrow> length r \<le> length s"
  using length_dropWhile_le [of is_hex_digit s] by (auto simp: hex_number_def Let_def split: if_splits)

lemma next_token_shorter:
  assumes "next_token i c cs = Inr (t, r)"
  shows "length r \<le> length cs"
proof (cases "punctuation c")
  case (Some u)
  with assms show ?thesis by (simp add: next_token_def)
next
  case no_punctuation: None
  show ?thesis
  proof (cases "compound c")
    case (Some u)
    with assms no_punctuation show ?thesis
      by (auto simp: next_token_def split: list.splits option.splits prod.splits)
  next
    case None
    note basic = no_punctuation None
    consider "c = CHR 0x27" | "c = CHR 0x22" | (number) "is_digit c"
      | "c \<noteq> CHR 0x27" "c \<noteq> CHR 0x22" "\<not> is_digit c" by blast
    then show ?thesis
    proof cases
      case 1
      with assms basic show ?thesis by (simp add: next_token_def read_char_shorter)
    next
      case 2
      with assms basic show ?thesis
        by (auto simp: next_token_def rbind_eq_Inr dest!: read_string_shorter)
    next
      case number
      then have "c \<noteq> CHR 0x27" "c \<noteq> CHR 0x22" by (auto simp: is_digit_def)
      with assms basic number show ?thesis
        using dec_number_shorter [OF _ number, of i cs t r] hex_number_shorter [of i _ t r]
        by (auto simp: next_token_def intro: le_SucI split: list.splits if_splits)
    next
      case 4
      then have "length (dropWhile is_ident_char (c # cs)) \<le> length cs" if "is_alpha c \<or> c = CHR ''_''"
        using that by (auto simp: is_ident_char_def is_alnum_def length_dropWhile_le)
      with 4 assms basic show ?thesis by (auto simp: next_token_def split: if_splits)
    qed
  qed
qed

function tokenize_from :: "nat \<Rightarrow> string \<Rightarrow> (parse_error, tok list) result" where
  "tokenize_from i [] = Inr []"
| "tokenize_from i (c # cs) =
     (if 128 \<le> (of_char c :: nat) then Inl (BadChar (take (utf8_len c) (c # cs)) i)
      else if is_space c then tokenize_from (i + 1) cs
      else rbind (next_token i c cs) (\<lambda>(t, r).
        rbind (tokenize_from (i + (1 + length cs - length r)) r) (\<lambda>ts. Inr (t # ts))))"
  by pat_completeness auto
termination by (relation "measure (length \<circ> snd)") (auto dest: next_token_shorter)

definition tokenize :: "string \<Rightarrow> (parse_error, tok list) result" where
  "tokenize s = tokenize_from 0 s"

end
