(* ===== verification/Lustre_Text.thy ===== *)
theory Lustre_Text
  imports Clocks Lexer
begin

text \<open>
  The printer of expressions and the emitter of Lustre text (\<open>ol_lustre_emit/src/lib.rs\<close>). A text is the
  list of its UTF-8 bytes. The emitters of the source append to a buffer; the definitions here return
  what is appended.
\<close>

section \<open>Literals and operators\<close>

definition format_char_literal :: "u8 \<Rightarrow> string" where
  "format_char_literal b =
     [CHR 0x27] @
     (if b = 10 then [CHR 0x5C, CHR ''n'']
      else if b = 9 then [CHR 0x5C, CHR ''t'']
      else if b = 13 then [CHR 0x5C, CHR ''r'']
      else if b = 0 then [CHR 0x5C, CHR ''0'']
      else if b = 39 then [CHR 0x5C, CHR 0x27]
      else if b = 92 then [CHR 0x5C, CHR 0x5C]
      else latin1 b) @ [CHR 0x27]"

definition format_literal :: "literal \<Rightarrow> string" where
  "format_literal lit =
     (case lit of
        LBool b \<Rightarrow> (if b then ''true'' else ''false'')
      | LInt n \<Rightarrow> int_digits (sint n)
      | LFloat f \<Rightarrow> (let s = flt_display F64 f in if CHR ''.'' \<in> set s then s else s @ ''.0'')
      | LChar b \<Rightarrow> format_char_literal b)"

definition cast_type_name :: "ty \<Rightarrow> string" where
  "cast_type_name t =
     (case t of
        TInt8 \<Rightarrow> ''int8'' | TInt16 \<Rightarrow> ''int16'' | TInt32 \<Rightarrow> ''int32'' | TInt64 \<Rightarrow> ''int64''
      | TUint8 \<Rightarrow> ''uint8'' | TUint16 \<Rightarrow> ''uint16'' | TUint32 \<Rightarrow> ''uint32'' | TUint64 \<Rightarrow> ''uint64''
      | TFloat32 \<Rightarrow> ''float32'' | TFloat64 \<Rightarrow> ''float64''
      | _ \<Rightarrow> ''int32'')"

fun bin_op_syntax :: "bin_op \<Rightarrow> string \<times> nat" where
  "bin_op_syntax BOr = (''or'', 20)"
| "bin_op_syntax BXor = (''xor'', 20)"
| "bin_op_syntax BAnd = (''and'', 25)"
| "bin_op_syntax BImplies = (''=>'', 18)"
| "bin_op_syntax BEq = (''='', 30)"
| "bin_op_syntax BNeq = (''<>'', 30)"
| "bin_op_syntax BLt = (''<'', 30)"
| "bin_op_syntax BLe = (''<='', 30)"
| "bin_op_syntax BGt = (''>'', 30)"
| "bin_op_syntax BGe = (''>='', 30)"
| "bin_op_syntax BAdd = (''+'', 40)"
| "bin_op_syntax BSub = (''-'', 40)"
| "bin_op_syntax BMul = (''*'', 50)"
| "bin_op_syntax BDiv = (''/'', 50)"
| "bin_op_syntax BMod = (''mod'', 50)"
| "bin_op_syntax _ = (''?bit?'', 0)"

fun bit_op_name :: "bin_op \<Rightarrow> string option" where
  "bit_op_name BBitAnd = Some ''bit_and''"
| "bit_op_name BBitOr = Some ''bit_or''"
| "bit_op_name BBitXor = Some ''bit_xor''"
| "bit_op_name BShl = Some ''shift_left''"
| "bit_op_name BShr = Some ''shift_right''"
| "bit_op_name _ = None"

section \<open>Expressions\<close>

text \<open>The precedence of the text of an expression; a text below the context's precedence gets brackets.\<close>

fun prec_of :: "expr \<Rightarrow> nat" where
  "prec_of (Unary u a) = 90"
| "prec_of (Binary b l r) = (if bit_op_name b = None then snd (bin_op_syntax b) else 100)"
| "prec_of (IfThenElse c t e) = 5"
| "prec_of (Pre a) = 80"
| "prec_of (Arrow i b) = 15"
| "prec_of (When a clock on) = 16"
| "prec_of _ = 100"

definition iter_name :: "iter_kind \<Rightarrow> string" where
  "iter_name k = (case k of MapIter \<Rightarrow> ''map'' | FoldIter \<Rightarrow> ''fold'')"

function format_text :: "bool \<Rightarrow> expr \<Rightarrow> string"
and format_expr_prec :: "bool \<Rightarrow> nat \<Rightarrow> expr \<Rightarrow> string" where
  "format_text lustre (Const lit) =
     (case lit of
        LChar b \<Rightarrow> if lustre then nat_digits (unat b) else format_literal lit
      | _ \<Rightarrow> format_literal lit)"
| "format_text lustre (Var name) = name"
| "format_text lustre (Unary u a) =
     (case u of UNot \<Rightarrow> ''not '' | UNeg \<Rightarrow> ''- '') @ format_expr_prec lustre 90 a"
| "format_text lustre (Binary b l r) =
     (case bit_op_name b of
        Some fname \<Rightarrow>
          fname @ ''('' @ format_expr_prec lustre 0 l @ '', '' @ format_expr_prec lustre 0 r @ '')''
      | None \<Rightarrow>
          (case bin_op_syntax b of (symbol, p) \<Rightarrow>
             format_expr_prec lustre p l @ '' '' @ symbol @ '' '' @ format_expr_prec lustre (p + 1) r))"
| "format_text lustre (IfThenElse c t e) =
     ''if '' @ format_expr_prec lustre 0 c @ '' then '' @ format_expr_prec lustre 0 t @
     '' else '' @ format_expr_prec lustre 0 e"
| "format_text lustre (Pre a) = ''pre '' @ format_expr_prec lustre 80 a"
| "format_text lustre (Arrow i b) = format_expr_prec lustre 15 i @ '' -> '' @ format_expr_prec lustre 14 b"
| "format_text lustre (Call node args) =
     node @ ''('' @ join_with '', '' (map (format_expr_prec lustre 0) args) @ '')''"
| "format_text lustre (Field b f) = format_expr_prec lustre 100 b @ ''.'' @ f"
| "format_text lustre (Index b i) = format_expr_prec lustre 100 b @ ''['' @ format_expr_prec lustre 0 i @ '']''"
| "format_text lustre (Tuple items) = ''('' @ join_with '', '' (map (format_expr_prec lustre 0) items) @ '')''"
| "format_text lustre (Array items) =
     ''['' @ join_with (if lustre then '', '' else ''; '') (map (format_expr_prec lustre 0) items) @ '']''"
| "format_text lustre (Struct t fis) =
     t @ '' { '' @
     join_with (if lustre then ''; '' else '', '')
       (map (\<lambda>fi. fst fi @ (if lustre then '' = '' else '': '') @ format_expr_prec lustre 0 (snd fi)) fis) @ '' }''"
| "format_text lustre (Cast t a) =
     (if lustre then (if is_float t then ''real_cast'' else ''int_cast'') else cast_type_name t) @
     ''('' @ format_expr_prec lustre 0 a @ '')''"
| "format_text lustre (When a clock on) =
     format_expr_prec lustre 16 a @ (if on then '' when '' else '' when not '') @ clock"
| "format_text lustre (Merge clock a b) =
     (let t = format_expr_prec lustre 0 a; f = format_expr_prec lustre 0 b in
      if lustre then ''merge '' @ clock @ '' (true -> '' @ t @ '') (false -> '' @ f @ '')''
      else ''merge('' @ clock @ '', '' @ t @ '', '' @ f @ '')'')"
| "format_text lustre (Iterate kind node init arrays) =
     iter_name kind @ ''('' @
     join_with '', ''
       (node # (case init of None \<Rightarrow> [] | Some i \<Rightarrow> [format_expr_prec lustre 0 i]) @
        map (format_expr_prec lustre 0) arrays) @ '')''"
| "format_expr_prec lustre parent e =
     (if prec_of e < parent then ''('' @ format_text lustre e @ '')'' else format_text lustre e)"
  by pat_completeness auto
termination
  by (relation "measure (\<lambda>x. case x of Inl (l, e) \<Rightarrow> 2 * size e | Inr (l, p, e) \<Rightarrow> Suc (2 * size e))")
    (auto dest: size_field_init size_child_list split: option.splits)

definition format_expr :: "expr \<Rightarrow> string" where
  "format_expr e = format_expr_prec False 0 e"

definition format_expr_lustre :: "expr \<Rightarrow> string" where
  "format_expr_lustre e = format_expr_prec True 0 e"

section \<open>Declarations\<close>

definition line :: "string \<Rightarrow> string" where
  "line s = s @ [CHR 0x0A]"

definition emit_type :: "type_def \<Rightarrow> string" where
  "emit_type t =
     (case td_body t of
        EnumBody e \<Rightarrow> line (''type '' @ en_name e @ '' = enum { '' @ join_with '', '' (en_variants e) @ '' };'')
      | RecordBody name fs \<Rightarrow>
          line (''type '' @ name @ '' = struct { '' @
            join_with ''; '' (map (\<lambda>f. rf_name f @ '': '' @ lustre_name (rf_ty f)) fs) @ '' };'')
      | AliasBody name target \<Rightarrow> line (''type '' @ name @ '' = '' @ lustre_name target @ '';''))"

definition emit_declarations :: "package \<Rightarrow> string" where
  "emit_declarations pkg =
     (if pk_types pkg = [] then []
      else line (''-- package: '' @ pk_name pkg @ '' (types)'') @ concat (map emit_type (pk_types pkg)) @ line []) @
     (if pk_constants pkg = [] then []
      else line (''-- package: '' @ pk_name pkg @ '' (constants)'') @
        concat (map (\<lambda>c. line (''const '' @ c_name_of c @ '' : '' @ lustre_name (c_ty c) @ '' = '' @
          format_expr_lustre (c_value c) @ '';'')) (pk_constants pkg)) @ line [])"

section \<open>Nodes\<close>

record annotations =
  an_contract_import :: "string option"
  an_main :: bool
  an_lines :: "string list"

definition default_annotations :: annotations where
  "default_annotations = \<lparr>an_contract_import = None, an_main = False, an_lines = []\<rparr>"

definition node_keyword :: "node_kind \<Rightarrow> string" where
  "node_keyword k =
     (case k of Function \<Rightarrow> ''function'' | Operator \<Rightarrow> ''node'' | Imported \<Rightarrow> ''function imported'')"

definition emit_ports :: "port list \<Rightarrow> string" where
  "emit_ports ps = join_with ''; '' (map (\<lambda>p. p_name p @ '': '' @ lustre_name (p_ty p)) ps)"

text \<open>The innermost sampling condition of every variable that an equation on a clock defines.\<close>

definition clock_of :: "node_def \<Rightarrow> string \<rightharpoonup> string \<times> bool" where
  "clock_of node =
     (if node_uses_clocks node then
        fold (\<lambda>(eq, ck) m.
            if conditions ck = [] then m
            else fold (\<lambda>l m. m(l \<mapsto> last (conditions ck))) (eq_lhs eq) m)
          (zip (nd_equations node) (equation_clocks (infer_clocks (EquationRoot (nd_name node)) node))) Map.empty
      else Map.empty)"

definition emit_local :: "(string \<rightharpoonup> string \<times> bool) \<Rightarrow> local_var \<Rightarrow> string" where
  "emit_local clocks l =
     l_name l @ '': '' @ lustre_name (l_ty l) @
     (case clocks (l_name l) of
        Some (c, on) \<Rightarrow> (if on then '' when '' else '' when not '') @ c
      | None \<Rightarrow> [])"

definition emit_equation :: "equation \<Rightarrow> string" where
  "emit_equation eq =
     (let lhs = (case eq_lhs eq of [x] \<Rightarrow> x | xs \<Rightarrow> ''('' @ join_with '', '' xs @ '')'')
      in line (''  '' @ lhs @ '' = '' @ format_expr_lustre (eq_rhs eq) @ '';''))"

definition emit_node_annotated :: "node_def \<Rightarrow> annotations \<Rightarrow> string" where
  "emit_node_annotated node ann =
     line (node_keyword (nd_kind node) @ '' '' @ nd_name node @ ''('' @ emit_ports (nd_inputs node) @
       '') returns ('' @ emit_ports (nd_outputs node) @ '');'') @
     (case an_contract_import ann of None \<Rightarrow> [] | Some i \<Rightarrow> line (''(*@contract '' @ i @ '' *)'')) @
     (if is_imported node then line ''-- body is provided by external C (see manifest).''
      else
        (if nd_locals node = [] then []
         else line (''var '' @ join_with ''; '' (map (emit_local (clock_of node)) (nd_locals node)) @ '';'')) @
        line ''let'' @
        (if an_main ann then line ''  --%MAIN;'' else []) @
        concat (map emit_equation (nd_equations node)) @
        concat (map (\<lambda>l. line (''  '' @ l)) (an_lines ann)) @
        line ''tel'')"

definition emit_node :: "node_def \<Rightarrow> string" where
  "emit_node node = emit_node_annotated node default_annotations"

definition emit_package :: "package \<Rightarrow> string" where
  "emit_package pkg = emit_declarations pkg @ concat (map (\<lambda>n. emit_node n @ line []) (pk_nodes pkg))"

definition emit_project :: "project \<Rightarrow> string" where
  "emit_project project =
     line ''-- Generated by OpenLustre Studio.'' @
     line (''-- project: '' @ pj_name project) @ line [] @
     concat (map (\<lambda>pkg. emit_declarations pkg @
       concat (map (\<lambda>n. emit_node_annotated n (default_annotations\<lparr>an_main := pj_main project = Some (nd_name n)\<rparr>) @ line [])
         (pk_nodes pkg))) (pj_packages project))"

end
