(* ===== verification/Parser.thy ===== *)
theory Parser
  imports Lexer
begin

text \<open>
  The recursive-descent parser of expressions and types (\<open>Parser\<close>, \<open>parse_expr\<close> and \<open>parse_type\<close> in
  \<open>ol_stdlib/src/parser.rs\<close>), one definition per precedence level. A parser takes the tokens that are
  left and returns an expression and the rest. \<open>parse_expr\<close> calls itself inside brackets: \<open>parse_at\<close>
  has the number of such calls that may be open as an argument, and the loops the number of rounds.
  The lemmas show that the number of tokens is enough for both.
\<close>

datatype parse_failure = Syntax parse_error | NoFuel

type_synonym 'a tok_parser = "tok list \<Rightarrow> (parse_failure, 'a \<times> tok list) result"

definition refuse :: "string \<Rightarrow> string \<Rightarrow> (parse_failure, 'a) result" where
  "refuse expected found = Inl (Syntax (Expected expected found))"

section \<open>Tokens\<close>

definition found :: "tok list \<Rightarrow> string" where
  "found ts = (case ts of [] \<Rightarrow> ''<eof>'' | t # r \<Rightarrow> describe t)"

definition expect :: "tok \<Rightarrow> tok list \<Rightarrow> (parse_failure, tok list) result" where
  "expect t ts =
     (case ts of
        [] \<Rightarrow> Inl (Syntax UnexpectedEof)
      | u # r \<Rightarrow> if u = t then Inr r else refuse (describe t) (describe u))"

definition expect_kw :: "string \<Rightarrow> tok list \<Rightarrow> (parse_failure, tok list) result" where
  "expect_kw kw ts =
     (case ts of
        [] \<Rightarrow> refuse kw (found ts)
      | u # r \<Rightarrow> if u = TokIdent kw then Inr r else refuse kw (found ts))"

section \<open>Operators\<close>

fun binary_loop :: "nat \<Rightarrow> (tok \<Rightarrow> bin_op option) \<Rightarrow> expr tok_parser \<Rightarrow> expr \<Rightarrow> expr tok_parser" where
  "binary_loop 0 ops next lhs ts = Inl NoFuel"
| "binary_loop (Suc n) ops next lhs ts =
     (case ts of
        [] \<Rightarrow> Inr (lhs, ts)
      | t # r \<Rightarrow>
          (case ops t of
             None \<Rightarrow> Inr (lhs, ts)
           | Some b \<Rightarrow> rbind (next r) (\<lambda>(rhs, r'). binary_loop n ops next (Binary b lhs rhs) r')))"

definition binary_level :: "(tok \<Rightarrow> bin_op option) \<Rightarrow> expr tok_parser \<Rightarrow> expr tok_parser" where
  "binary_level ops next ts = rbind (next ts) (\<lambda>(lhs, r). binary_loop (Suc (length r)) ops next lhs r)"

definition mul_op :: "tok \<Rightarrow> bin_op option" where
  "mul_op t =
     (case t of
        TokStar \<Rightarrow> Some BMul
      | TokSlash \<Rightarrow> Some BDiv
      | TokIdent s \<Rightarrow> if s = ''div'' then Some BDiv else if s = ''mod'' then Some BMod else None
      | _ \<Rightarrow> None)"

definition add_op :: "tok \<Rightarrow> bin_op option" where
  "add_op t = (case t of TokPlus \<Rightarrow> Some BAdd | TokMinus \<Rightarrow> Some BSub | _ \<Rightarrow> None)"

definition shift_op :: "tok \<Rightarrow> bin_op option" where
  "shift_op t = (case t of TokShl \<Rightarrow> Some BShl | TokShr \<Rightarrow> Some BShr | _ \<Rightarrow> None)"

definition cmp_op :: "tok \<Rightarrow> bin_op option" where
  "cmp_op t =
     (case t of
        TokEq \<Rightarrow> Some BEq | TokNe \<Rightarrow> Some BNeq | TokLt \<Rightarrow> Some BLt
      | TokLe \<Rightarrow> Some BLe | TokGt \<Rightarrow> Some BGt | TokGe \<Rightarrow> Some BGe | _ \<Rightarrow> None)"

definition bit_and_op :: "tok \<Rightarrow> bin_op option" where
  "bit_and_op t = (case t of TokAmp \<Rightarrow> Some BBitAnd | _ \<Rightarrow> None)"

definition bit_xor_op :: "tok \<Rightarrow> bin_op option" where
  "bit_xor_op t = (case t of TokCaret \<Rightarrow> Some BBitXor | _ \<Rightarrow> None)"

definition bit_or_op :: "tok \<Rightarrow> bin_op option" where
  "bit_or_op t = (case t of TokPipe \<Rightarrow> Some BBitOr | _ \<Rightarrow> None)"

definition and_op :: "tok \<Rightarrow> bin_op option" where
  "and_op t = (if t = TokIdent ''and'' then Some BAnd else None)"

definition or_op :: "tok \<Rightarrow> bin_op option" where
  "or_op t = (if t = TokIdent ''or'' then Some BOr else if t = TokIdent ''xor'' then Some BXor else None)"

fun implies_chain :: "nat \<Rightarrow> expr tok_parser \<Rightarrow> expr tok_parser" where
  "implies_chain 0 next ts = Inl NoFuel"
| "implies_chain (Suc n) next ts =
     rbind (next ts) (\<lambda>(lhs, r).
       case r of
         [] \<Rightarrow> Inr (lhs, r)
       | t # r' \<Rightarrow>
           if t = TokFatArrow
           then rbind (implies_chain n next r') (\<lambda>(rhs, r''). Inr (e_implies lhs rhs, r''))
           else Inr (lhs, r))"

fun when_loop :: "nat \<Rightarrow> expr \<Rightarrow> expr tok_parser" where
  "when_loop 0 e ts = Inl NoFuel"
| "when_loop (Suc n) e ts =
     (case ts of
        [] \<Rightarrow> Inr (e, ts)
      | t # r \<Rightarrow>
          if t = TokIdent ''when'' then
            (let (on, r1) = (case r of
                 u # r' \<Rightarrow> if u = TokIdent ''not'' then (False, r') else (True, r)
               | [] \<Rightarrow> (True, r))
             in case r1 of
                  TokIdent clock # r2 \<Rightarrow> when_loop n (When e clock on) r2
                | _ \<Rightarrow> refuse ''clock variable name after `when`'' (found r1))
          else Inr (e, ts))"

fun parse_unary :: "expr tok_parser \<Rightarrow> expr tok_parser" where
  "parse_unary postfix [] = postfix []"
| "parse_unary postfix (t # r) =
     (if t = TokIdent ''not'' then rbind (parse_unary postfix r) (\<lambda>(e, r'). Inr (e_not e, r'))
      else if t = TokIdent ''pre'' then rbind (parse_unary postfix r) (\<lambda>(e, r'). Inr (Pre e, r'))
      else if t = TokMinus then rbind (parse_unary postfix r) (\<lambda>(e, r'). Inr (e_neg e, r'))
      else postfix (t # r))"

section \<open>Primary expressions\<close>

text \<open>Items up to a bracket, separated by a token; and the fields of a record literal.\<close>

fun parse_list :: "nat \<Rightarrow> tok \<Rightarrow> 'a tok_parser \<Rightarrow> 'a list tok_parser" where
  "parse_list 0 sep item ts = Inl NoFuel"
| "parse_list (Suc n) sep item ts =
     rbind (item ts) (\<lambda>(e, r).
       case r of
         [] \<Rightarrow> Inr ([e], r)
       | t # r' \<Rightarrow>
           if t = sep then rbind (parse_list n sep item r') (\<lambda>(es, r''). Inr (e # es, r''))
           else Inr ([e], r))"

definition parse_items :: "tok \<Rightarrow> tok \<Rightarrow> 'a tok_parser \<Rightarrow> 'a list tok_parser" where
  "parse_items sep close item ts =
     rbind (if ts \<noteq> [] \<and> hd ts = close then Inr ([], ts) else parse_list (Suc (length ts)) sep item ts)
       (\<lambda>(es, r). rbind (expect close r) (\<lambda>r'. Inr (es, r')))"

definition parse_field :: "expr tok_parser \<Rightarrow> field_init tok_parser" where
  "parse_field expr ts =
     (case ts of
        TokIdent f # r \<Rightarrow>
          rbind (expect TokColon r) (\<lambda>r'. rbind (expr r') (\<lambda>(e, r''). Inr ((f, e), r'')))
      | _ \<Rightarrow> refuse ''field name in struct literal'' (found ts))"

definition describe_expr :: "expr \<Rightarrow> string" where
  "describe_expr e =
     (case e of
        Const lit \<Rightarrow> ''a literal''
      | Call node args \<Rightarrow> ''a call to `'' @ node @ ''`''
      | _ \<Rightarrow> ''a compound expression'')"

definition numeric_type_name :: "string \<Rightarrow> ty option" where
  "numeric_type_name name =
     map_of [(''int8'', TInt8), (''int16'', TInt16), (''int'', TInt32), (''int32'', TInt32), (''int64'', TInt64),
       (''uint8'', TUint8), (''uint16'', TUint16), (''uint32'', TUint32), (''uint64'', TUint64),
       (''float32'', TFloat32), (''real'', TFloat64), (''float64'', TFloat64)] name"

definition arguments :: "nat \<Rightarrow> string" where
  "arguments n = nat_digits n @ '' arguments''"

text \<open>What a name applied to arguments stands for.\<close>

definition make_iterator :: "string \<Rightarrow> expr list \<Rightarrow> (parse_failure, expr) result" where
  "make_iterator name args =
     (case args of
        Var node # rest \<Rightarrow>
          if name = ''map'' then
            (if rest = [] then refuse (''map(F, array, '' @ [CHR 0xE2, CHR 0x80, CHR 0xA6] @ '') with at least one array'') ''no arrays''
             else Inr (Iterate MapIter node None rest))
          else
            (case rest of
               [i, a] \<Rightarrow> Inr (Iterate FoldIter node (Some i) [a])
             | _ \<Rightarrow> refuse ''fold(F, init, array)'' (arguments (length rest) @ '' after F''))
      | other # rest \<Rightarrow>
          refuse (''a function name as '' @ name @ [CHR 0x27] @ ''s first argument'') (describe_expr other)
      | [] \<Rightarrow> refuse (''a function name as '' @ name @ [CHR 0x27] @ ''s first argument'') ''no arguments'')"

definition make_call :: "string \<Rightarrow> expr list \<Rightarrow> (parse_failure, expr) result" where
  "make_call name args =
     (if name = ''map'' \<or> name = ''fold'' then make_iterator name args
      else if name = ''merge'' then
        (case args of
           [c, t, f] \<Rightarrow>
             (case c of
                Var clock \<Rightarrow> Inr (Merge clock t f)
              | other \<Rightarrow> refuse (''a clock variable name as merge'' @ [CHR 0x27] @ ''s first argument'') (describe_expr other))
         | _ \<Rightarrow> refuse ''merge(clock, on_true, on_false)'' (arguments (length args)))
      else
        (case numeric_type_name name of
           Some t \<Rightarrow>
             (case args of
                [a] \<Rightarrow> Inr (Cast t a)
              | _ \<Rightarrow> refuse (''exactly one argument for cast `'' @ name @ ''(...)`'') (arguments (length args)))
         | None \<Rightarrow> Inr (Call name args)))"

definition parse_name :: "expr tok_parser \<Rightarrow> string \<Rightarrow> expr tok_parser" where
  "parse_name expr name r =
     (if name = ''true'' then Inr (bool_lit True, r)
      else if name = ''false'' then Inr (bool_lit False, r)
      else if name = ''if'' then
        rbind (expr r) (\<lambda>(c, r1).
        rbind (expect_kw ''then'' r1) (\<lambda>r2.
        rbind (expr r2) (\<lambda>(t, r3).
        rbind (expect_kw ''else'' r3) (\<lambda>r4.
        rbind (expr r4) (\<lambda>(e, r5).
        Inr (IfThenElse c t e, r5))))))
      else
        (case r of
           TokLParen # r1 \<Rightarrow>
             rbind (parse_items TokComma TokRParen expr r1) (\<lambda>(args, r2).
             rbind (make_call name args) (\<lambda>e. Inr (e, r2)))
         | TokLBrace # r1 \<Rightarrow>
             rbind (parse_items TokComma TokRBrace (parse_field expr) r1) (\<lambda>(fis, r2). Inr (Struct name fis, r2))
         | _ \<Rightarrow> Inr (Var name, r)))"

definition parse_primary :: "expr tok_parser \<Rightarrow> expr tok_parser" where
  "parse_primary expr ts =
     (case ts of
        [] \<Rightarrow> Inl (Syntax UnexpectedEof)
      | t # r \<Rightarrow>
          (case t of
             TokLParen \<Rightarrow> rbind (expr r) (\<lambda>(e, r1). rbind (expect TokRParen r1) (\<lambda>r2. Inr (e, r2)))
           | TokInt n \<Rightarrow> Inr (Const (LInt n), r)
           | TokFloat x \<Rightarrow> Inr (Const (LFloat x), r)
           | TokTypedInt n ty \<Rightarrow> Inr (Cast ty (Const (LInt n)), r)
           | TokTypedFloat x ty \<Rightarrow> Inr (Cast ty (Const (LFloat x)), r)
           | TokChar b \<Rightarrow> Inr (Const (LChar b), r)
           | TokStr s \<Rightarrow> Inr (string_lit (map of_char s), r)
           | TokLBracket \<Rightarrow>
               rbind (parse_items TokSemi TokRBracket expr r) (\<lambda>(items, r1). Inr (Array items, r1))
           | TokIdent name \<Rightarrow> parse_name expr name r
           | other \<Rightarrow> refuse ''expression'' (describe other)))"

fun postfix_loop :: "nat \<Rightarrow> expr tok_parser \<Rightarrow> expr \<Rightarrow> expr tok_parser" where
  "postfix_loop 0 expr e ts = Inl NoFuel"
| "postfix_loop (Suc n) expr e ts =
     (case ts of
        TokDot # r \<Rightarrow>
          (case r of
             TokIdent f # r' \<Rightarrow> postfix_loop n expr (Field e f) r'
           | _ \<Rightarrow> refuse ''field name'' (found r))
      | TokLBracket # r \<Rightarrow>
          rbind (expr r) (\<lambda>(i, r1). rbind (expect TokRBracket r1) (\<lambda>r2. postfix_loop n expr (Index e i) r2))
      | _ \<Rightarrow> Inr (e, ts))"

definition parse_postfix :: "expr tok_parser \<Rightarrow> expr tok_parser" where
  "parse_postfix expr ts =
     rbind (parse_primary expr ts) (\<lambda>(e, r). postfix_loop (Suc (length r)) expr e r)"

section \<open>Levels\<close>

definition parse_mul :: "expr tok_parser \<Rightarrow> expr tok_parser" where
  "parse_mul expr = binary_level mul_op (parse_unary (parse_postfix expr))"

definition parse_add :: "expr tok_parser \<Rightarrow> expr tok_parser" where
  "parse_add expr = binary_level add_op (parse_mul expr)"

definition parse_shift :: "expr tok_parser \<Rightarrow> expr tok_parser" where
  "parse_shift expr = binary_level shift_op (parse_add expr)"

definition parse_cmp :: "expr tok_parser \<Rightarrow> expr tok_parser" where
  "parse_cmp expr ts =
     rbind (parse_shift expr ts) (\<lambda>(lhs, r).
       case r of
         [] \<Rightarrow> Inr (lhs, r)
       | t # r' \<Rightarrow>
           (case cmp_op t of
              None \<Rightarrow> Inr (lhs, r)
            | Some b \<Rightarrow> rbind (parse_shift expr r') (\<lambda>(rhs, r''). Inr (Binary b lhs rhs, r''))))"

definition parse_bit_and :: "expr tok_parser \<Rightarrow> expr tok_parser" where
  "parse_bit_and expr = binary_level bit_and_op (parse_cmp expr)"

definition parse_bit_xor :: "expr tok_parser \<Rightarrow> expr tok_parser" where
  "parse_bit_xor expr = binary_level bit_xor_op (parse_bit_and expr)"

definition parse_bit_or :: "expr tok_parser \<Rightarrow> expr tok_parser" where
  "parse_bit_or expr = binary_level bit_or_op (parse_bit_xor expr)"

definition parse_and :: "expr tok_parser \<Rightarrow> expr tok_parser" where
  "parse_and expr = binary_level and_op (parse_bit_or expr)"

definition parse_or :: "expr tok_parser \<Rightarrow> expr tok_parser" where
  "parse_or expr = binary_level or_op (parse_and expr)"

definition parse_implies :: "expr tok_parser \<Rightarrow> expr tok_parser" where
  "parse_implies expr ts = implies_chain (Suc (length ts)) (parse_or expr) ts"

definition parse_when :: "expr tok_parser \<Rightarrow> expr tok_parser" where
  "parse_when expr ts =
     rbind (parse_implies expr ts) (\<lambda>(e, r). when_loop (Suc (length r)) e r)"

definition parse_arrow :: "expr tok_parser \<Rightarrow> expr tok_parser" where
  "parse_arrow expr ts =
     rbind (parse_when expr ts) (\<lambda>(i, r).
       case r of
         [] \<Rightarrow> Inr (i, r)
       | t # r' \<Rightarrow>
           if t = TokArrow then rbind (expr r') (\<lambda>(b, r''). Inr (Arrow i b, r'')) else Inr (i, r))"

fun parse_at :: "nat \<Rightarrow> expr tok_parser" where
  "parse_at 0 ts = Inl NoFuel"
| "parse_at (Suc n) ts = parse_arrow (parse_at n) ts"

definition parse_tokens :: "tok list \<Rightarrow> (parse_failure, expr) result" where
  "parse_tokens toks =
     rbind (parse_at (Suc (length toks)) toks) (\<lambda>(e, r).
       if r \<noteq> [] then Inl (Syntax (Trailing (join_with '' '' (map describe r)))) else Inr e)"

definition parse_expr :: "string \<Rightarrow> (parse_failure, expr) result" where
  "parse_expr src = rbind (map_err Syntax (tokenize src)) parse_tokens"

section \<open>Types\<close>

text \<open>
  \<open>str::trim\<close> on UTF-8 bytes: the encodings of the white space of Unicode are taken from both ends.
\<close>

definition white_chars :: "string list" where
  "white_chars =
     map (\<lambda>n. [char_of n]) [9, 10, 11, 12, 13, 32::nat] @
     map (map char_of)
       ([[194, 133], [194, 160], [225, 154, 128], [226, 128, 168], [226, 128, 169], [226, 128, 175],
         [226, 129, 159], [227, 128, 128::nat]] @ map (\<lambda>n. [226, 128, n]) [128..<139])"

function strip_front :: "string list \<Rightarrow> string \<Rightarrow> string" where
  "strip_front ws s =
     (case find (\<lambda>w. w \<noteq> [] \<and> take (length w) s = w) ws of
        Some w \<Rightarrow> strip_front ws (drop (length w) s)
      | None \<Rightarrow> s)"
  by pat_completeness auto
termination
proof (relation "measure (length \<circ> snd)")
  fix ws s w
  assume "find (\<lambda>w. w \<noteq> [] \<and> take (length w) s = w) ws = Some w"
  then have "w \<noteq> []" "take (length w) s = w" by (auto dest: find_SomeD)
  then show "((ws, drop (length w) s), ws, s) \<in> measure (length \<circ> snd)" by (cases s) auto
qed simp

declare strip_front.simps [simp del]

definition trim :: "string \<Rightarrow> string" where
  "trim s = rev (strip_front (map rev white_chars) (rev (strip_front white_chars s)))"

lemma length_strip_front: "length (strip_front ws s) \<le> length s"
proof (induction ws s rule: strip_front.induct)
  case (1 ws s)
  show ?case
  proof (cases "find (\<lambda>w. w \<noteq> [] \<and> take (length w) s = w) ws")
    case (Some w)
    have "strip_front ws s = strip_front ws (drop (length w) s)"
      by (subst strip_front.simps) (simp only: Some option.case)
    with "1.IH" [OF Some] show ?thesis by simp
  next
    case None
    have "strip_front ws s = s" by (subst strip_front.simps) (simp only: None option.case)
    then show ?thesis by simp
  qed
qed

lemma length_trim: "length (trim s) \<le> length s"
  unfolding trim_def length_rev
  by (rule le_trans [OF length_strip_front]) (simp add: length_strip_front)

definition base_type :: "string \<Rightarrow> ty" where
  "base_type s =
     (if s = ''bool'' then TBool
      else if s = ''char'' then TChar
      else case numeric_type_name s of Some t \<Rightarrow> t | None \<Rightarrow> TNamed s)"

function parse_type :: "string \<Rightarrow> (parse_error, ty) result" where
  "parse_type src =
     (let s = trim src in
      if CHR ''['' \<in> set s then
        (if last s \<noteq> CHR '']'' then Inl (UnknownType s)
         else
           let elem = takeWhile (\<lambda>c. c \<noteq> CHR ''['') s;
               len_str = butlast (tl (dropWhile (\<lambda>c. c \<noteq> CHR ''['') s))
           in rbind (ok_or (UnknownType s) (int_from_str 0 (2 ^ 32 - 1) (trim len_str))) (\<lambda>len.
              rbind (parse_type elem) (\<lambda>t. Inr (TArray t (word_of_int len)))))
      else if s = [] then Inl (UnknownType s)
      else Inr (base_type s))"
  by pat_completeness auto
termination
proof (relation "measure length")
  fix src s elem len_str
  assume "s = trim src" "CHR ''['' \<in> set s" "elem = takeWhile (\<lambda>c. c \<noteq> CHR ''['') s"
  then have "elem \<noteq> s" by (auto simp: takeWhile_eq_all_conv)
  moreover have "elem @ dropWhile (\<lambda>c. c \<noteq> CHR ''['') s = s"
    unfolding \<open>elem = _\<close> by (rule takeWhile_dropWhile_id)
  ultimately have "length elem < length s" by (metis append_Nil2 length_append length_greater_0_conv less_add_same_cancel1)
  then show "(elem, src) \<in> measure length" using length_trim [of src] \<open>s = trim src\<close> by simp
qed simp

declare parse_type.simps [simp del]

end
