(* ===== verification/Text_Tokens.thy ===== *)
theory Text_Tokens
  imports Lustre_Text Parser
begin

text \<open>
  The tokens of printed expressions. \<open>toks\<close> gives the tokens that stand for the text of an expression;
  the lemmas show that the tokenizer finds exactly these in the text the printer writes, for every
  expression that has a text of its own in the surface syntax (\<open>printable\<close>).
\<close>

section \<open>Printable expressions\<close>

definition ident :: "string \<Rightarrow> bool" where
  "ident s \<longleftrightarrow> s \<noteq> [] \<and> (is_alpha (hd s) \<or> hd s = CHR ''_'') \<and> list_all is_ident_char s"

definition is_name :: "string \<Rightarrow> bool" where
  "is_name s \<longleftrightarrow> ident s \<and> s \<notin> {''true'', ''false'', ''if'', ''not'', ''pre''}"

definition literal_ok :: "literal \<Rightarrow> bool" where
  "literal_ok lit =
     (case lit of
        LBool b \<Rightarrow> True
      | LInt n \<Rightarrow> 0 \<le> sint n
      | LFloat x \<Rightarrow> (case x of FFin s m e \<Rightarrow> \<not> s \<and> wf_flt F64 x | _ \<Rightarrow> False)
      | LChar b \<Rightarrow> unat b < 128)"

text \<open>
  The expressions whose text stands for them: literals that are a token, names that are identifiers, the
  operators of the surface syntax, and no operand that the grammar would associate the other way.
\<close>

fun printable :: "expr \<Rightarrow> bool" where
  "printable (Const lit) = literal_ok lit"
| "printable (Var name) = is_name name"
| "printable (Unary u a) = printable a"
| "printable (Binary b l r) =
     (bit_op_name b = None \<and> printable l \<and> printable r \<and>
      (snd (bin_op_syntax b) \<in> {18, 30} \<longrightarrow> prec_of l \<noteq> snd (bin_op_syntax b)))"
| "printable (IfThenElse c t e) = (printable c \<and> printable t \<and> printable e)"
| "printable (Pre a) = printable a"
| "printable (Arrow i b) = (printable i \<and> printable b \<and> prec_of i \<noteq> 15)"
| "printable (Call node args) =
     (is_name node \<and> node \<notin> {''map'', ''fold'', ''merge''} \<and> numeric_type_name node = None \<and> list_all printable args)"
| "printable (Field b f) = (ident f \<and> printable b \<and> (case b of Const (LInt n) \<Rightarrow> False | _ \<Rightarrow> True))"
| "printable (Index b i) = (printable b \<and> printable i)"
| "printable (Tuple items) = False"
| "printable (Array items) = list_all printable items"
| "printable (Struct t fis) = (is_name t \<and> list_all (\<lambda>fi. ident (fst fi) \<and> printable (snd fi)) fis)"
| "printable (Cast t a) = (is_numeric t \<and> printable a)"
| "printable (When a clock on) = (ident clock \<and> clock \<noteq> ''not'' \<and> printable a)"
| "printable (Merge clock a b) = (is_name clock \<and> printable a \<and> printable b)"
| "printable (Iterate kind node init arrays) =
     (is_name node \<and> list_all printable arrays \<and>
      (case init of
         None \<Rightarrow> kind = MapIter \<and> arrays \<noteq> []
       | Some i \<Rightarrow> kind = FoldIter \<and> printable i \<and> length arrays = 1))"

section \<open>The tokens of an expression\<close>

fun join_toks :: "tok \<Rightarrow> tok list list \<Rightarrow> tok list" where
  "join_toks t [] = []"
| "join_toks t [x] = x"
| "join_toks t (x # y # xs) = x @ t # join_toks t (y # xs)"

definition lit_tok :: "literal \<Rightarrow> tok" where
  "lit_tok lit =
     (case lit of
        LBool b \<Rightarrow> TokIdent (if b then ''true'' else ''false'')
      | LInt n \<Rightarrow> TokInt n
      | LFloat x \<Rightarrow> TokFloat x
      | LChar b \<Rightarrow> TokChar b)"

fun op_tok :: "bin_op \<Rightarrow> tok" where
  "op_tok BOr = TokIdent ''or''"
| "op_tok BXor = TokIdent ''xor''"
| "op_tok BAnd = TokIdent ''and''"
| "op_tok BImplies = TokFatArrow"
| "op_tok BEq = TokEq"
| "op_tok BNeq = TokNe"
| "op_tok BLt = TokLt"
| "op_tok BLe = TokLe"
| "op_tok BGt = TokGt"
| "op_tok BGe = TokGe"
| "op_tok BAdd = TokPlus"
| "op_tok BSub = TokMinus"
| "op_tok BMul = TokStar"
| "op_tok BDiv = TokSlash"
| "op_tok BMod = TokIdent ''mod''"
| "op_tok BBitAnd = TokAmp"
| "op_tok BBitOr = TokPipe"
| "op_tok BBitXor = TokCaret"
| "op_tok BShl = TokShl"
| "op_tok BShr = TokShr"

function text_toks :: "expr \<Rightarrow> tok list"
and toks :: "nat \<Rightarrow> expr \<Rightarrow> tok list" where
  "text_toks (Const lit) = [lit_tok lit]"
| "text_toks (Var name) = [TokIdent name]"
| "text_toks (Unary u a) = (case u of UNot \<Rightarrow> TokIdent ''not'' | UNeg \<Rightarrow> TokMinus) # toks 90 a"
| "text_toks (Binary b l r) =
     toks (snd (bin_op_syntax b)) l @ op_tok b # toks (snd (bin_op_syntax b) + 1) r"
| "text_toks (IfThenElse c t e) =
     TokIdent ''if'' # toks 0 c @ TokIdent ''then'' # toks 0 t @ TokIdent ''else'' # toks 0 e"
| "text_toks (Pre a) = TokIdent ''pre'' # toks 80 a"
| "text_toks (Arrow i b) = toks 15 i @ TokArrow # toks 14 b"
| "text_toks (Call node args) =
     TokIdent node # TokLParen # join_toks TokComma (map (toks 0) args) @ [TokRParen]"
| "text_toks (Field b f) = toks 100 b @ [TokDot, TokIdent f]"
| "text_toks (Index b i) = toks 100 b @ TokLBracket # toks 0 i @ [TokRBracket]"
| "text_toks (Tuple items) = TokLParen # join_toks TokComma (map (toks 0) items) @ [TokRParen]"
| "text_toks (Array items) = TokLBracket # join_toks TokSemi (map (toks 0) items) @ [TokRBracket]"
| "text_toks (Struct t fis) =
     TokIdent t # TokLBrace #
     join_toks TokComma (map (\<lambda>fi. TokIdent (fst fi) # TokColon # toks 0 (snd fi)) fis) @ [TokRBrace]"
| "text_toks (Cast t a) = TokIdent (cast_type_name t) # TokLParen # toks 0 a @ [TokRParen]"
| "text_toks (When a clock on) =
     toks 16 a @ TokIdent ''when'' # (if on then [] else [TokIdent ''not'']) @ [TokIdent clock]"
| "text_toks (Merge clock a b) =
     TokIdent ''merge'' # TokLParen # TokIdent clock # TokComma # toks 0 a @ TokComma # toks 0 b @ [TokRParen]"
| "text_toks (Iterate kind node init arrays) =
     TokIdent (iter_name kind) # TokLParen #
     join_toks TokComma
       ([TokIdent node] # (case init of None \<Rightarrow> [] | Some i \<Rightarrow> [toks 0 i]) @ map (toks 0) arrays) @ [TokRParen]"
| "toks parent e = (if prec_of e < parent then TokLParen # text_toks e @ [TokRParen] else text_toks e)"
  by pat_completeness auto
termination
  by (relation "measure (\<lambda>x. case x of Inl e \<Rightarrow> 2 * size e | Inr (p, e) \<Rightarrow> Suc (2 * size e))")
    (auto dest: size_field_init size_child_list split: option.splits)

section \<open>Texts and their tokens\<close>

definition lexes :: "string \<Rightarrow> tok list \<Rightarrow> bool" where
  "lexes s ts \<longleftrightarrow> (\<forall>i. tokenize_from i s = Inr ts)"

text \<open>What may follow a token that further characters could extend: no identifier character, and a dot only where that is harmless.\<close>

definition stop_char :: "bool \<Rightarrow> string \<Rightarrow> bool" where
  "stop_char d rest \<longleftrightarrow> rest = [] \<or> \<not> is_ident_char (hd rest) \<and> (d \<or> hd rest \<noteq> CHR ''.'')"

lemma lexes_Nil [simp]: "lexes [] []"
  by (simp add: lexes_def)

lemma stop_char_simps [simp]:
  "stop_char d []"
  "stop_char d (c # s) \<longleftrightarrow> \<not> is_ident_char c \<and> (d \<or> c \<noteq> CHR ''.'')"
  by (simp_all add: stop_char_def)

lemma stop_char_mono: "stop_char False rest \<Longrightarrow> stop_char d rest"
  by (auto simp: stop_char_def)

lemma not_ident_char [simp]:
  "\<not> is_ident_char (CHR '' '')" "\<not> is_ident_char (CHR '')'')" "\<not> is_ident_char (CHR '']'')"
  "\<not> is_ident_char (CHR '','')" "\<not> is_ident_char (CHR '';'')" "\<not> is_ident_char (CHR '':'')"
  "\<not> is_ident_char (CHR ''('')" "\<not> is_ident_char (CHR ''['')" "\<not> is_ident_char (CHR ''.'')"
  by (simp_all add: is_ident_char_def is_alnum_def is_alpha_def is_digit_def)

lemma lexes_token:
  assumes "(of_char c :: nat) < 128" "\<not> is_space c" "\<And>i. next_token i c cs = Inr (t, r)" "lexes r ts"
  shows "lexes (c # cs) (t # ts)"
  using assms by (simp add: lexes_def)

lemma lexes_space [simp]: "lexes s ts \<Longrightarrow> lexes (CHR '' '' # s) ts"
  by (simp add: lexes_def is_space_def)

lemma lexes_punctuation: "punctuation c = Some t \<Longrightarrow> lexes s ts \<Longrightarrow> lexes (c # s) (t # ts)"
proof (rule lexes_token)
  assume c: "punctuation c = Some t"
  then show "next_token i c s = Inr (t, s)" for i by (simp add: next_token_def)
  have "c \<in> fst ` set [(CHR ''('', TokLParen), (CHR '')'', TokRParen), (CHR ''['', TokLBracket), (CHR '']'', TokRBracket),
       (CHR ''{'', TokLBrace), (CHR ''}'', TokRBrace), (CHR '';'', TokSemi), (CHR '':'', TokColon),
       (CHR '','', TokComma), (CHR ''.'', TokDot), (CHR ''+'', TokPlus), (CHR ''*'', TokStar),
       (CHR ''/'', TokSlash), (CHR ''&'', TokAmp), (CHR ''|'', TokPipe), (CHR ''^'', TokCaret)]"
    using map_of_SomeD [OF c [unfolded punctuation_def]] by (rule image_eqI [rotated]) simp
  then show "(of_char c :: nat) < 128" "\<not> is_space c" by (auto simp: is_space_def)
qed

lemma lexes_brackets [simp]:
  assumes "lexes s ts"
  shows
    "lexes (CHR ''('' # s) (TokLParen # ts)"
    "lexes (CHR '')'' # s) (TokRParen # ts)"
    "lexes (CHR ''['' # s) (TokLBracket # ts)"
    "lexes (CHR '']'' # s) (TokRBracket # ts)"
    "lexes (CHR ''{'' # s) (TokLBrace # ts)"
    "lexes (CHR ''}'' # s) (TokRBrace # ts)"
    "lexes (CHR '','' # s) (TokComma # ts)"
    "lexes (CHR '';'' # s) (TokSemi # ts)"
    "lexes (CHR '':'' # s) (TokColon # ts)"
    "lexes (CHR ''.'' # s) (TokDot # ts)"
  using assms by (auto intro!: lexes_punctuation simp: punctuation_def)

lemma ident_char_takeWhile:
  assumes "list_all is_ident_char w" "stop_char True rest"
  shows "takeWhile is_ident_char (w @ rest) = w" "dropWhile is_ident_char (w @ rest) = rest"
  using assms by (induction w) (cases rest; auto)+

lemma plain_char:
  assumes "c \<notin> {CHR ''('', CHR '')'', CHR ''['', CHR '']'', CHR ''{'', CHR ''}'', CHR '';'', CHR '':'', CHR '','',
      CHR ''.'', CHR ''+'', CHR ''*'', CHR ''/'', CHR ''&'', CHR ''|'', CHR ''^'', CHR ''-'', CHR ''='', CHR ''<'', CHR ''>''}"
  shows "punctuation c = None" "compound c = None"
  using assms by (simp_all add: punctuation_def compound_def)

lemma word_char_plain:
  assumes "is_alpha c \<or> c = CHR ''_''"
  shows "punctuation c = None" "compound c = None" "c \<noteq> CHR 0x27" "c \<noteq> CHR 0x22" "\<not> is_digit c"
proof -
  show "punctuation c = None" "compound c = None"
    by (rule plain_char; use assms in \<open>auto simp: is_alpha_def\<close>)+
  show "c \<noteq> CHR 0x27" "c \<noteq> CHR 0x22" "\<not> is_digit c"
    using assms by (auto simp: is_alpha_def is_digit_def)
qed

lemma lexes_ident:
  assumes w: "ident w" and rest: "stop_char True rest" "lexes rest ts"
  shows "lexes (w @ rest) (TokIdent w # ts)"
proof -
  obtain c w' where c: "w = c # w'" "is_alpha c \<or> c = CHR ''_''" "list_all is_ident_char (c # w')"
    using w by (cases w) (auto simp: ident_def)
  have ascii: "(of_char c :: nat) < 128" "\<not> is_space c" using c(2) by (auto simp: is_alpha_def is_space_def)
  have none: "punctuation c = None" "compound c = None" "c \<noteq> CHR 0x27" "c \<noteq> CHR 0x22" "\<not> is_digit c"
    using word_char_plain [OF c(2)] by auto
  have "next_token i c (w' @ rest) = Inr (TokIdent w, rest)" for i
    using ident_char_takeWhile [OF c(3) rest(1)] none c(1,2) by (auto simp: next_token_def)
  with lexes_token [OF ascii _ rest(2)] show ?thesis by (simp add: c(1))
qed

lemma keyword_ident [simp]:
  "ident ''if''" "ident ''then''" "ident ''else''" "ident ''not''" "ident ''pre''" "ident ''when''" "ident ''or''"
  "ident ''xor''" "ident ''and''" "ident ''mod''" "ident ''true''" "ident ''false''" "ident ''merge''"
  "ident ''map''" "ident ''fold''"
  by (simp_all add: ident_def is_ident_char_def is_alnum_def is_alpha_def)

lemma cast_name_ident [simp]: "ident (cast_type_name t)"
  by (cases t) (simp_all add: cast_type_name_def ident_def is_ident_char_def is_alnum_def is_alpha_def is_digit_def)

lemma is_name_ident [simp]: "is_name s \<Longrightarrow> ident s"
  by (simp add: is_name_def)

lemma lexes_operator:
  assumes "bit_op_name b = None" "lexes s ts"
  shows "lexes (fst (bin_op_syntax b) @ CHR '' '' # s) (op_tok b # ts)"
proof -
  have symbol: "lexes (c # CHR '' '' # s) (t # ts)" if "punctuation c = Some t \<or> (\<exists>l. compound c = Some (t, l) \<and> map_of l (CHR '' '') = None)" for c t
  proof (rule lexes_token)
    show "(of_char c :: nat) < 128" "\<not> is_space c"
      using that by (auto simp: punctuation_def compound_def is_space_def split: if_splits)
    show "next_token i c (CHR '' '' # s) = Inr (t, CHR '' '' # s)" for i
      using that by (auto simp: next_token_def punctuation_def compound_def split: if_splits)
    show "lexes (CHR '' '' # s) ts" using assms(2) by simp
  qed
  have pair: "lexes (c # d # CHR '' '' # s) (t # ts)"
    if "punctuation c = None" "compound c = Some (u, l)" "map_of l d = Some t" for c d t u l
  proof (rule lexes_token)
    show "(of_char c :: nat) < 128" "\<not> is_space c"
      using that(2) by (auto simp: compound_def is_space_def split: if_splits)
    show "next_token i c (d # CHR '' '' # s) = Inr (t, CHR '' '' # s)" for i
      using that by (simp add: next_token_def)
    show "lexes (CHR '' '' # s) ts" using assms(2) by simp
  qed
  have word: "lexes (w @ CHR '' '' # s) (TokIdent w # ts)" if "ident w" for w
    using that assms(2) by (intro lexes_ident) auto
  show ?thesis
    using assms(1) word [of "''or''"] word [of "''xor''"] word [of "''and''"] word [of "''mod''"]
    by (cases b) (auto intro!: symbol pair simp: punctuation_def compound_def)
qed

lemma lexes_minus [simp]: "lexes s ts \<Longrightarrow> lexes (CHR ''-'' # CHR '' '' # s) (TokMinus # ts)"
  using lexes_operator [of BSub] by simp

lemma lexes_arrow [simp]: "lexes s ts \<Longrightarrow> lexes (CHR ''-'' # CHR ''>'' # s) (TokArrow # ts)"
  by (rule lexes_token) (auto simp: is_space_def next_token_def punctuation_def compound_def)

lemma lexes_keyword:
  "lexes s ts \<Longrightarrow> ident w \<Longrightarrow> lexes (w @ CHR '' '' # s) (TokIdent w # ts)"
  by (rule lexes_ident) auto

lemmas lexes_keywords [simp] =
  lexes_keyword [OF _ keyword_ident(1), simplified] lexes_keyword [OF _ keyword_ident(2), simplified]
  lexes_keyword [OF _ keyword_ident(3), simplified] lexes_keyword [OF _ keyword_ident(4), simplified]
  lexes_keyword [OF _ keyword_ident(5), simplified] lexes_keyword [OF _ keyword_ident(6), simplified]

subsection \<open>Literals\<close>

lemma digit_plain:
  assumes "is_digit c"
  shows "punctuation c = None" "compound c = None" "c \<noteq> CHR 0x27" "c \<noteq> CHR 0x22"
    "(of_char c :: nat) < 128" "\<not> is_space c" "is_ident_char c" "c \<noteq> CHR ''x''" "c \<noteq> CHR ''X''" "c \<noteq> CHR ''.''"
proof -
  show "punctuation c = None" "compound c = None"
    by (rule plain_char; use assms in \<open>auto simp: is_digit_def\<close>)+
qed (use assms in \<open>auto simp: is_digit_def is_space_def is_ident_char_def is_alnum_def\<close>)

text \<open>A number that starts with a digit, if what follows does not make it hexadecimal.\<close>

lemma lexes_number:
  assumes c: "is_digit c" and x: "cs = [] \<or> hd cs \<noteq> CHR ''x'' \<and> hd cs \<noteq> CHR ''X''"
    and t: "\<And>i. dec_number i c cs = Inr (t, rest)" and rest: "lexes rest ts"
  shows "lexes (c # cs) (t # ts)"
  using digit_plain [OF c] x c t rest
  by (intro lexes_token) (auto simp: next_token_def split: list.split)

lemma digits_then:
  assumes ds: "list_all is_digit (c # ds)" and rest: "stop_char d rest"
  shows "ds @ rest = [] \<or> hd (ds @ rest) \<noteq> CHR ''x'' \<and> hd (ds @ rest) \<noteq> CHR ''X''"
    and "rest = [] \<or> \<not> is_digit (hd rest)"
proof -
  have "is_ident_char (CHR ''x'')" "is_ident_char (CHR ''X'')"
    by (simp_all add: is_ident_char_def is_alnum_def is_alpha_def)
  then show "ds @ rest = [] \<or> hd (ds @ rest) \<noteq> CHR ''x'' \<and> hd (ds @ rest) \<noteq> CHR ''X''"
    using ds rest digit_plain(8,9) by (cases ds; cases rest) auto
  show "rest = [] \<or> \<not> is_digit (hd rest)"
    using rest digit_plain(7) by (auto simp: stop_char_def)
qed

lemma no_suffix: "stop_char d rest \<Longrightarrow> type_suffix rest = (None, rest)"
  by (cases rest) (auto simp: type_suffix_def is_ident_char_def)

lemma lexes_int:
  assumes n: "0 \<le> sint n" and rest: "stop_char False rest" "lexes rest ts"
  shows "lexes (int_digits (sint n) @ rest) (TokInt n # ts)"
proof -
  obtain c ds where ds: "int_digits (sint n) = c # ds" "list_all is_digit (c # ds)"
    using digits_of_nat [of "nat (sint n)"] n by (cases "nat_digits (nat (sint n))") (auto simp: int_digits_def)
  have "sint n < 2 ^ 63" using sint_lt [of n] by simp
  then have read: "i64_from_str (c # ds) = Some n"
    using int_from_int_digits [of "- (2 ^ 63)" "sint n" "2 ^ 63 - 1"] n ds(1) by (simp add: i64_from_str_def)
  note after = digits_then [OF ds(2) rest(1)]
  have "takeWhile is_digit (c # ds @ rest) = c # ds" "dropWhile is_digit (c # ds @ rest) = rest"
    using takeWhile_digits [OF ds(2) after(2)] by simp_all
  then have "dec_number i c (ds @ rest) = Inr (TokInt n, rest)" for i
    using rest(1) no_suffix [OF rest(1)] read
    by (cases rest) (auto simp: dec_number_def Let_def)
  then show ?thesis using lexes_number [of c "ds @ rest"] after(1) ds rest(2) by simp
qed

lemma lexes_decimal:
  assumes ip: "list_all is_digit ip" "ip \<noteq> []" and fp: "list_all is_digit fp"
    and x: "float_from_str F64 (ip @ ''.'' @ fp) = Some x" and rest: "stop_char True rest" "lexes rest ts"
  shows "lexes (ip @ ''.'' @ fp @ rest) (TokFloat x # ts)"
proof -
  obtain c ds where ds: "ip = c # ds" "list_all is_digit (c # ds)" using ip by (cases ip) auto
  have dot: "stop_char True (''.'' @ fp @ rest)" by simp
  note after = digits_then [OF ds(2) dot]
  have "rest = [] \<or> \<not> is_digit (hd rest)" using rest(1) digit_plain(7) by (auto simp: stop_char_def)
  then have "takeWhile is_digit (fp @ rest) = fp" "dropWhile is_digit (fp @ rest) = rest"
    using takeWhile_digits [OF fp] by blast+
  moreover have "takeWhile is_digit (c # ds @ ''.'' @ fp @ rest) = c # ds"
    "dropWhile is_digit (c # ds @ ''.'' @ fp @ rest) = ''.'' @ fp @ rest"
    using takeWhile_digits [OF ds(2) after(2)] by simp_all
  ultimately have "dec_number i c (ds @ ''.'' @ fp @ rest) = Inr (TokFloat x, rest)" for i
    using no_suffix [OF rest(1)] x by (simp add: dec_number_def Let_def ds(1))
  then show ?thesis using lexes_number [of c "ds @ ''.'' @ fp @ rest"] after(1) ds rest(2) by simp
qed

lemma float_from_digits:
  assumes "list_all is_digit ip" "ip \<noteq> []"
  shows "float_from_str F (ip @ s) = parse_decimal F False (ip @ s)"
proof -
  obtain c ds where c: "ip = c # ds" "is_digit c" using assms by (cases ip) auto
  have "c \<noteq> CHR ''+''" "c \<noteq> CHR ''-''" "to_lower c = c" "c \<noteq> CHR ''i''" "c \<noteq> CHR ''n''"
    using c(2) by (auto simp: is_digit_def to_lower_def)
  then show ?thesis by (simp add: float_from_str_def signed_digits_def c(1))
qed

text \<open>The text of a finite number has digits on both sides of a point, and reads back.\<close>

lemma float_text:
  assumes x: "wf_flt F64 (FFin False m e)"
  obtains ip fp where "list_all is_digit ip" "ip \<noteq> []" "list_all is_digit fp"
    "format_literal (LFloat (FFin False m e)) = ip @ ''.'' @ fp"
    "float_from_str F64 (ip @ ''.'' @ fp) = Some (FFin False m e)"
proof -
  note parts_given = that
  have point: "CHR ''.'' \<notin> set ip" if "list_all is_digit ip" for ip
    using that by (induction ip) auto
  have whole: thesis
    if ip: "list_all is_digit ip" "ip \<noteq> []" "flt_display F64 (FFin False m e) = ip"
      and v: "round_dec F64 False (digits_val ip) 0 = FFin False m e" for ip
  proof (rule parts_given [of ip "''0''"])
    have "digits_val (ip @ ''0'') = digits_val ip * 10 ^ 1" by (simp add: digits_val_append digits_val_def)
    then have "round_dec F64 False (digits_val (ip @ ''0'')) (- 1) = FFin False m e"
      using round_dec_scale [of F64 False "digits_val ip" 1 0] v by simp
    then show "float_from_str F64 (ip @ ''.'' @ ''0'') = Some (FFin False m e)"
      using float_from_digits [OF ip(1,2), of F64 "''.'' @ ''0''"] parse_decimal_plain(1) [of ip "''0''" F64 False] ip
      by simp
  qed (use ip point in \<open>auto simp: format_literal_def\<close>)
  show thesis
  proof (cases "m = 0")
    case True
    have "round_dec F64 False 0 0 = FFin False m e"
      using x True by (simp add: round_dec_def round_ratio_def round_fin_def)
    with True show thesis by (intro whole [of "''0''"]) (simp_all add: flt_display_def digits_val_def)
  next
    case False
    obtain d q where dq: "shortest_dec F64 m e = (d, q)" by force
    have v: "round_dec F64 False d q = FFin False m e" by (rule shortest_dec_reads [OF _ x dq]) simp
    obtain ip fp where parts: "list_all is_digit ip" "list_all is_digit fp" "ip \<noteq> []"
      "dec_text d q = (if 0 \<le> q then ip else ip @ ''.'' @ fp)" "0 \<le> q \<longrightarrow> fp = []"
      "round_dec F64 False (digits_val (ip @ fp)) (- int (length fp)) = round_dec F64 False d q"
      by (rule dec_text_parts [of d q F64 False]) blast
    have display: "flt_display F64 (FFin False m e) = dec_text d q" using False dq by (simp add: flt_display_def)
    show thesis
    proof (cases "0 \<le> q")
      case True
      with parts v display show thesis by (intro whole [of ip]) auto
    next
      case False
      with parts display v show thesis
        using float_from_digits [OF parts(1,3), of F64 "''.'' @ fp"] parse_decimal_plain(1) [of ip fp F64 False]
        by (intro parts_given [of ip fp]) (auto simp: format_literal_def)
    qed
  qed
qed

lemma lexes_float:
  assumes x: "wf_flt F64 (FFin False m e)" and rest: "stop_char True rest" "lexes rest ts"
  shows "lexes (format_literal (LFloat (FFin False m e)) @ rest) (TokFloat (FFin False m e) # ts)"
proof -
  obtain ip fp where "list_all is_digit ip" "ip \<noteq> []" "list_all is_digit fp"
    "format_literal (LFloat (FFin False m e)) = ip @ ''.'' @ fp"
    "float_from_str F64 (ip @ ''.'' @ fp) = Some (FFin False m e)"
    by (rule float_text [OF x])
  then show ?thesis using lexes_decimal rest by simp
qed

lemma lexes_char:
  assumes b: "unat b < 128" and rest: "lexes rest ts"
  shows "lexes (format_char_literal b @ rest) (TokChar b # ts)"
proof -
  have "next_token i (CHR 0x27) (s @ CHR 0x27 # rest) = Inr (TokChar b, rest)"
    if "read_escaped (s @ CHR 0x27 # rest) = Inr (b, CHR 0x27 # rest)" for i s
    using that by (simp add: next_token_def punctuation_def compound_def read_char_def)
  then have quoted: "lexes (CHR 0x27 # s @ CHR 0x27 # rest) (TokChar b # ts)"
    if "read_escaped (s @ CHR 0x27 # rest) = Inr (b, CHR 0x27 # rest)" for s
    using that rest by (intro lexes_token) (auto simp: is_space_def)
  have plain: "of_char (char_of (unat b)) = b"
    using b of_nat_of_char [of "char_of (unat b)", where ?'a = "8 word"] by (simp add: of_char_of)
  have escape: "lexes (CHR 0x27 # CHR 0x5C # c # CHR 0x27 # rest) (TokChar b # ts)"
    if "b = (if c = CHR ''n'' then 10 else if c = CHR ''t'' then 9 else if c = CHR ''r'' then 13
        else if c = CHR ''0'' then 0 else of_char c)" for c
    using quoted [of "[CHR 0x5C, c]"] that by (simp add: read_escaped_def)
  show ?thesis
  proof (cases "b \<in> {10, 9, 13, 0, 39, 92}")
    case True
    then show ?thesis
      using escape [of "CHR ''n''"] escape [of "CHR ''t''"] escape [of "CHR ''r''"] escape [of "CHR ''0''"]
        escape [of "CHR 0x27"] escape [of "CHR 0x5C"]
      by (auto simp: format_char_literal_def)
  next
    case False
    have "char_of (unat b) \<noteq> CHR 0x5C"
    proof
      assume "char_of (unat b) = CHR 0x5C"
      then have "b = of_char (CHR 0x5C)" using plain by metis
      with False show False by simp
    qed
    then have "lexes (CHR 0x27 # char_of (unat b) # CHR 0x27 # rest) (TokChar b # ts)"
      using quoted [of "[char_of (unat b)]"] plain by (simp add: read_escaped_def)
    with False b show ?thesis by (simp add: format_char_literal_def latin1_def)
  qed
qed

lemma lexes_literal:
  assumes "literal_ok lit" "lexes rest ts" "stop_char (\<forall>n. lit \<noteq> LInt n) rest"
  shows "lexes (format_literal lit @ rest) (lit_tok lit # ts)"
proof (cases lit)
  case (LBool b)
  with assms show ?thesis
    using lexes_ident [of "''true''" rest ts] lexes_ident [of "''false''" rest ts]
    by (simp add: format_literal_def lit_tok_def)
next
  case (LInt n)
  with assms show ?thesis using lexes_int [of n rest ts] by (simp add: format_literal_def lit_tok_def literal_ok_def)
next
  case (LFloat x)
  with assms(1) obtain m e where x: "x = FFin False m e" "wf_flt F64 x"
    by (cases x) (auto simp: literal_ok_def)
  with assms LFloat show ?thesis using lexes_float [of m e rest ts] by (simp add: lit_tok_def)
next
  case (LChar b)
  with assms show ?thesis using lexes_char [of b rest ts] by (simp add: format_literal_def lit_tok_def literal_ok_def)
qed

subsection \<open>Expressions\<close>

text \<open>A dot may follow the text of an expression in the context of a field access, but not an integer.\<close>

definition dot_ok :: "nat \<Rightarrow> expr \<Rightarrow> bool" where
  "dot_ok p e \<longleftrightarrow> p = 100 \<and> (case e of Const (LInt n) \<Rightarrow> False | _ \<Rightarrow> True)"

definition lexes_as :: "expr \<Rightarrow> bool" where
  "lexes_as e \<longleftrightarrow>
     (\<forall>p rest ts. stop_char (dot_ok p e) rest \<longrightarrow> lexes rest ts \<longrightarrow>
        lexes (format_expr_prec False p e @ rest) (toks p e @ ts))"

lemma lexes_asD:
  "lexes_as e \<Longrightarrow> stop_char (dot_ok p e) rest \<Longrightarrow> lexes rest ts \<Longrightarrow>
     lexes (format_expr_prec False p e @ rest) (toks p e @ ts)"
  by (simp add: lexes_as_def)

lemma prec_of_le: "prec_of e \<le> 100"
proof (cases e)
  case (Binary b l r)
  then show ?thesis by (cases b) auto
qed auto

lemma bin_prec_le: "snd (bin_op_syntax b) \<le> 50"
  by (cases b) auto

text \<open>Brackets are put around the text of a compound expression.\<close>

declare format_expr_prec.simps [simp del] toks.simps [simp del]

lemma lexes_as_text:
  assumes plain: "\<And>rest ts. stop_char (dot_ok (prec_of e) e) rest \<Longrightarrow> lexes rest ts \<Longrightarrow>
      lexes (format_text False e @ rest) (text_toks e @ ts)"
  shows "lexes_as e"
  unfolding lexes_as_def
proof (intro allI impI)
  fix p rest ts
  assume *: "stop_char (dot_ok p e) rest" "lexes rest ts"
  show "lexes (format_expr_prec False p e @ rest) (toks p e @ ts)"
  proof (cases "prec_of e < p")
    case True
    then show ?thesis using plain [of "'')'' @ rest" "TokRParen # ts"] *(2)
      by (simp add: format_expr_prec.simps toks.simps)
  next
    case False
    then have "stop_char (dot_ok (prec_of e) e) rest"
      using *(1) prec_of_le [of e] by (auto simp: dot_ok_def stop_char_def split: if_splits)
    with False plain [OF _ *(2)] show ?thesis by (simp add: format_expr_prec.simps toks.simps)
  qed
qed

lemma lexes_join:
  assumes items: "\<And>x rest ts. x \<in> set xs \<Longrightarrow> stop_char False rest \<Longrightarrow> lexes rest ts \<Longrightarrow> lexes (f x @ rest) (g x @ ts)"
    and c: "punctuation c = Some t" "\<not> is_ident_char c" "c \<noteq> CHR ''.''"
    and rest: "stop_char False rest" "lexes rest ts"
  shows "lexes (join_with [c, CHR '' ''] (map f xs) @ rest) (join_toks t (map g xs) @ ts)"
  using items
proof (induction xs rule: induct_list012)
  case (3 x y xs)
  have "lexes (c # CHR '' '' # join_with [c, CHR '' ''] (map f (y # xs)) @ rest)
      (t # join_toks t (map g (y # xs)) @ ts)"
    by (rule lexes_punctuation [OF c(1)], rule lexes_space, rule 3) (use "3.prems" in auto)
  then show ?case using "3.prems" [of x] c(2,3) by simp
qed (use rest in simp_all)

lemma lexes_as_binary:
  assumes "lexes_as l" "lexes_as r" "bit_op_name b = None"
  shows "lexes_as (Binary b l r)"
proof (rule lexes_as_text)
  fix rest ts
  assume rest: "stop_char (dot_ok (prec_of (Binary b l r)) (Binary b l r)) rest" "lexes rest ts"
  then have "stop_char False rest" using assms(3) bin_prec_le [of b] by (simp add: dot_ok_def)
  then show "lexes (format_text False (Binary b l r) @ rest) (text_toks (Binary b l r) @ ts)"
    using lexes_operator [OF assms(3)] bin_prec_le [of b] assms(3) rest(2)
      lexes_asD [OF assms(1) stop_char_mono] lexes_asD [OF assms(2) stop_char_mono]
    by (cases "bin_op_syntax b") simp
qed

lemma lexes_printable: "printable e \<Longrightarrow> lexes_as e"
proof (induction e rule: expr_children_induct)
  case (step e)
  have sub: "lexes (format_expr_prec False p c @ rest) (toks p c @ ts)"
    if "c \<in> set (children e)" "printable c" "stop_char (dot_ok p c) rest" "lexes rest ts" for p c rest ts
    using step.IH [OF that(1,2)] that(3,4) by (rule lexes_asD)
  note sub' = sub [OF _ _ stop_char_mono]
  show ?case
  proof (rule lexes_as_text)
    fix rest ts
    assume rest: "stop_char (dot_ok (prec_of e) e) rest" "lexes rest ts"
    then have stop: "stop_char True rest" by (auto simp: stop_char_def)
    have list: "lexes (join_with [c, CHR '' ''] (map (format_expr_prec False 0) es) @ rest')
        (join_toks t (map (toks 0) es) @ ts')"
      if "set es \<subseteq> set (children e)" "list_all printable es" "punctuation c = Some t" "\<not> is_ident_char c"
        "c \<noteq> CHR ''.''" "stop_char False rest'" "lexes rest' ts'" for c es rest' ts' t
      by (rule lexes_join) (use that sub' in \<open>auto simp: list_all_iff\<close>)
    show "lexes (format_text False e @ rest) (text_toks e @ ts)"
    proof (cases e)
      case (Const lit)
      with step.prems rest lexes_literal [of lit rest ts] show ?thesis
        by (cases lit) (auto simp: dot_ok_def literal_ok_def)
    next
      case (Var x)
      with step.prems stop rest show ?thesis by (simp add: lexes_ident)
    next
      case (Unary u a)
      with step.prems rest show ?thesis
        by (cases u) (auto simp: sub' dot_ok_def)
    next
      case (Binary b l r)
      with step.prems have "lexes_as (Binary b l r)" using step.IH by (intro lexes_as_binary) auto
      from lexes_asD [OF this, of "prec_of e" rest ts] rest Binary show ?thesis
        by (simp add: format_expr_prec.simps toks.simps)
    next
      case (IfThenElse c t f)
      with step.prems rest show ?thesis by (simp add: sub' dot_ok_def)
    next
      case (Pre a)
      with step.prems rest show ?thesis by (simp add: sub' dot_ok_def)
    next
      case (Arrow i b)
      with step.prems rest show ?thesis by (simp add: sub' dot_ok_def)
    next
      case (Call node args)
      with step.prems rest show ?thesis
        by (simp add: lexes_ident list punctuation_def)
    next
      case (Field b f)
      with step.prems rest stop show ?thesis by (simp add: sub lexes_ident dot_ok_def split: expr.splits literal.splits)
    next
      case (Index b i)
      with step.prems rest show ?thesis by (simp add: sub' dot_ok_def)
    next
      case (Array items)
      with step.prems rest show ?thesis
        by (simp add: list punctuation_def)
    next
      case (Struct t fis)
      have "lexes (join_with '', '' (map (\<lambda>fi. fst fi @ '': '' @ format_expr_prec False 0 (snd fi)) fis) @ '' }'' @ rest)
          (join_toks TokComma (map (\<lambda>fi. TokIdent (fst fi) # TokColon # toks 0 (snd fi)) fis) @ TokRBrace # ts)"
        by (rule lexes_join)
          (use Struct step.prems rest in \<open>auto simp: list_all_iff lexes_ident sub' punctuation_def\<close>)
      with Struct step.prems show ?thesis by (simp add: lexes_ident)
    next
      case (Cast t a)
      with step.prems rest show ?thesis by (simp add: sub' lexes_ident)
    next
      case (When a clock on)
      with step.prems rest stop show ?thesis by (simp add: sub' lexes_ident)
    next
      case (Merge clock a b)
      with step.prems rest lexes_ident [of "''merge''"] show ?thesis by (simp add: sub' lexes_ident)
    next
      case (Iterate k node i arrays)
      let ?es = "Var node # (case i of None \<Rightarrow> [] | Some x \<Rightarrow> [x]) @ arrays"
      have var: "format_expr_prec False 0 (Var node) = node" "toks 0 (Var node) = [TokIdent node]"
        by (simp_all add: format_expr_prec.simps toks.simps)
      have kids: "set ?es - {Var node} \<subseteq> set (children e)" "list_all printable (tl ?es)" "ident node"
        using Iterate step.prems by (auto split: option.splits)
      have "lexes (join_with '', '' (map (format_expr_prec False 0) ?es) @ '')'' @ rest)
          (join_toks TokComma (map (toks 0) ?es) @ TokRParen # ts)"
      proof (rule lexes_join)
        fix x rest' ts'
        assume *: "x \<in> set ?es" "stop_char False rest'" "lexes rest' ts'"
        show "lexes (format_expr_prec False 0 x @ rest') (toks 0 x @ ts')"
        proof (cases "x = Var node")
          case True
          with * kids(3) stop_char_mono show ?thesis by (auto simp: var intro: lexes_ident)
        next
          case False
          with * kids show ?thesis by (intro sub') (auto simp: list_all_iff)
        qed
      qed (use rest in \<open>simp_all add: punctuation_def\<close>)
      then show ?thesis
        using lexes_ident [of "iter_name k"] Iterate
        by (cases i; cases k) (auto simp: var iter_name_def)
    qed (use step.prems in simp)
  qed
qed

lemma tokenize_format:
  assumes "lexes_as e"
  shows "tokenize (format_expr e) = Inr (toks 0 e)"
  using lexes_asD [OF assms, of 0 "[]" "[]"]
  by (simp add: tokenize_def format_expr_def lexes_def)

end
