(* ===== verification/Parser_Laws.thy ===== *)
theory Parser_Laws
  imports Parser
begin

text \<open>
  The parser of expressions returns: a parser that succeeds has taken at least one token, and the bounds
  on the nesting and on the rounds of the loops, which are numbers of tokens, are never used up.
\<close>

lemma expect_outcomes [simp]:
  "expect t ts \<noteq> Inl NoFuel"
  "expect t ts = Inr r \<longleftrightarrow> ts = t # r"
  by (auto simp: expect_def refuse_def split: list.splits)

lemma expect_kw_outcomes [simp]:
  "expect_kw kw ts \<noteq> Inl NoFuel"
  "expect_kw kw ts = Inr r \<longleftrightarrow> ts = TokIdent kw # r"
  by (auto simp: expect_kw_def refuse_def split: list.splits)

lemma refuse_outcomes [simp]: "refuse a b \<noteq> Inl NoFuel" "refuse a b \<noteq> Inr x"
  by (simp_all add: refuse_def)

section \<open>The contract of a parser\<close>

text \<open>
  What every parser of the module promises to the parsers that call it: a result comes with fewer tokens
  than were given, and with fewer than \<open>n\<close> tokens left the bounds are large enough.
\<close>

locale bounded =
  fixes p :: "'a tok_parser" and n :: nat
  assumes shorter: "p ts = Inr (e, r) \<Longrightarrow> length r < length ts"
    and fuelled: "length ts < n \<Longrightarrow> p ts \<noteq> Inl NoFuel"
begin

lemma list_returns: "length ts < m \<Longrightarrow> length ts < n \<Longrightarrow> parse_list m sep p ts \<noteq> Inl NoFuel"
proof (induction m arbitrary: ts)
  case (Suc m)
  have "parse_list m sep p r' \<noteq> Inl NoFuel" if "p ts = Inr (e, t # r')" for e t r'
    using shorter [OF that] Suc.prems by (intro Suc.IH) auto
  with fuelled [OF Suc.prems(2)] show ?case by (auto simp: rbind_eq_Inl split: list.splits)
qed simp

lemma list_shorter: "parse_list m sep p ts = Inr (es, r) \<Longrightarrow> length r < length ts"
proof (induction m arbitrary: ts es)
  case (Suc m)
  from Suc.prems obtain e r1 where r1: "p ts = Inr (e, r1)" by (auto simp: rbind_eq_Inr)
  have "length r < length r'" if "parse_list m sep p r' = Inr (es', r)" for r' es'
    using that by (rule Suc.IH)
  with shorter [OF r1] Suc.prems r1 show ?case
    by (fastforce simp: rbind_eq_Inr split: list.splits if_splits)
qed simp

lemma items_shorter: "parse_items sep close p ts = Inr (es, r) \<Longrightarrow> length r < length ts"
proof -
  assume "parse_items sep close p ts = Inr (es, r)"
  then show ?thesis
    using list_shorter [of "Suc (length ts)" sep ts es "close # r"]
    by (auto simp: parse_items_def rbind_eq_Inr simp del: parse_list.simps split: if_splits)
qed

lemma items_return: "length ts < n \<Longrightarrow> parse_items sep close p ts \<noteq> Inl NoFuel"
  using list_returns [of ts "Suc (length ts)" sep]
  by (auto simp: parse_items_def rbind_eq_Inl simp del: parse_list.simps)

end

locale bounded_expr = bounded p n for p :: "expr tok_parser" and n
begin

lemma binary_loop_returns: "length ts < m \<Longrightarrow> length ts \<le> n \<Longrightarrow> binary_loop m ops p lhs ts \<noteq> Inl NoFuel"
proof (induction m arbitrary: ts lhs)
  case (Suc m)
  show ?case
  proof (cases ts)
    case (Cons t r)
    have "binary_loop m ops p e r' \<noteq> Inl NoFuel" if "p r = Inr (x, r')" for e x r'
      using shorter [OF that] Suc.prems Cons by (intro Suc.IH) auto
    moreover have "p r \<noteq> Inl NoFuel" using Suc.prems Cons by (intro fuelled) simp
    ultimately show ?thesis using Cons by (auto simp: rbind_eq_Inl split: option.splits)
  qed simp
qed simp

lemma binary_loop_shorter: "binary_loop m ops p lhs ts = Inr (e, r) \<Longrightarrow> length r \<le> length ts"
proof (induction m arbitrary: ts lhs)
  case (Suc m)
  show ?case
  proof (cases ts)
    case (Cons t r1)
    show ?thesis
    proof (cases "ops t")
      case (Some b)
      with Suc.prems Cons obtain x r' where r': "p r1 = Inr (x, r')" "binary_loop m ops p (Binary b lhs x) r' = Inr (e, r)"
        by (auto simp: rbind_eq_Inr)
      from shorter [OF r'(1)] Suc.IH [OF r'(2)] Cons show ?thesis by simp
    qed (use Suc.prems Cons in auto)
  qed (use Suc.prems in auto)
qed simp

text \<open>The number of rounds does not matter once it exceeds the number of tokens.\<close>

lemma binary_loop_fuel:
  "length ts < m \<Longrightarrow> length ts < m' \<Longrightarrow> binary_loop m ops p lhs ts = binary_loop m' ops p lhs ts"
proof (induction m arbitrary: m' ts lhs)
  case (Suc m)
  then obtain k where k: "m' = Suc k" by (cases m') auto
  have "binary_loop m ops p e r' = binary_loop k ops p e r'" if "ts = t # r" "p r = Inr (x, r')" for e t r x r'
    using shorter [OF that(2)] Suc.prems k that(1) by (intro Suc.IH) auto
  then show ?case unfolding k
    by (auto intro!: arg_cong2 [where f = rbind] rbind_cong split: list.splits option.splits)
qed simp

lemma binary_bounded: "bounded_expr (binary_level ops p) n"
proof unfold_locales
  fix ts e r
  assume "binary_level ops p ts = Inr (e, r)"
  then obtain lhs r1 where "p ts = Inr (lhs, r1)" "binary_loop (Suc (length r1)) ops p lhs r1 = Inr (e, r)"
    by (auto simp: binary_level_def rbind_eq_Inr)
  from shorter [OF this(1)] binary_loop_shorter [OF this(2)] show "length r < length ts" by simp
next
  fix ts :: "tok list"
  assume ts: "length ts < n"
  have "binary_loop (Suc (length r)) ops p lhs r \<noteq> Inl NoFuel" if "p ts = Inr (lhs, r)" for lhs r
    using shorter [OF that] ts by (intro binary_loop_returns) auto
  then show "binary_level ops p ts \<noteq> Inl NoFuel"
    using fuelled [OF ts] by (auto simp: binary_level_def rbind_eq_Inl)
qed

lemma implies_returns: "length ts < m \<Longrightarrow> length ts < n \<Longrightarrow> implies_chain m p ts \<noteq> Inl NoFuel"
proof (induction m arbitrary: ts)
  case (Suc m)
  have "implies_chain m p r' \<noteq> Inl NoFuel" if "p ts = Inr (e, t # r')" for e t r'
    using shorter [OF that] Suc.prems by (intro Suc.IH) auto
  with fuelled [OF Suc.prems(2)] show ?case by (auto simp: rbind_eq_Inl split: list.splits)
qed simp

lemma implies_shorter: "implies_chain m p ts = Inr (e, r) \<Longrightarrow> length r < length ts"
proof (induction m arbitrary: ts e)
  case (Suc m)
  from Suc.prems obtain lhs r1 where r1: "p ts = Inr (lhs, r1)" by (auto simp: rbind_eq_Inr)
  have "length r < length r'" if "implies_chain m p r' = Inr (e', r)" for r' e'
    using that by (rule Suc.IH)
  with shorter [OF r1] Suc.prems r1 show ?case
    by (fastforce simp: rbind_eq_Inr split: list.splits if_splits)
qed simp

lemma implies_fuel:
  "length ts < m \<Longrightarrow> length ts < m' \<Longrightarrow> implies_chain m p ts = implies_chain m' p ts"
proof (induction m arbitrary: m' ts)
  case (Suc m)
  then obtain k where k: "m' = Suc k" by (cases m') auto
  have "implies_chain m p r' = implies_chain k p r'" if "p ts = Inr (lhs, t # r')" for lhs t r'
    using shorter [OF that] Suc.prems k by (intro Suc.IH) auto
  then show ?case unfolding k
    by (auto intro!: rbind_cong split: list.splits)
qed simp

end

section \<open>Loops over tokens\<close>

lemma when_loop_returns: "length ts < m \<Longrightarrow> when_loop m e ts \<noteq> Inl NoFuel"
proof (induction m arbitrary: e ts)
  case (Suc m)
  have "when_loop m e' r \<noteq> Inl NoFuel" if "length r < length ts" for e' r
    using that Suc.prems by (intro Suc.IH) auto
  then show ?case by (auto simp: Let_def split: list.splits tok.splits)
qed simp

lemma when_loop_shorter: "when_loop m e ts = Inr (e', r) \<Longrightarrow> length r \<le> length ts"
proof (induction m arbitrary: e ts)
  case (Suc m)
  have "length r \<le> length r1" if "when_loop m e1 r1 = Inr (e', r)" for e1 r1
    using that by (rule Suc.IH)
  with Suc.prems show ?case
    by (fastforce simp: Let_def split: list.splits tok.splits if_splits)
qed simp

lemma when_loop_fuel: "length ts < m \<Longrightarrow> length ts < m' \<Longrightarrow> when_loop m e ts = when_loop m' e ts"
proof (induction m arbitrary: m' e ts)
  case (Suc m)
  then obtain k where k: "m' = Suc k" by (cases m') auto
  have "length r < length ts \<Longrightarrow> when_loop m e' r = when_loop k e' r" for e' r
    using Suc.prems k by (intro Suc.IH) auto
  then show ?case unfolding k by (auto simp: Let_def split: list.splits tok.splits)
qed simp

section \<open>The levels of the grammar\<close>

context bounded_expr
begin

lemma postfix_loop_returns: "length ts < m \<Longrightarrow> length ts \<le> n \<Longrightarrow> postfix_loop m p e ts \<noteq> Inl NoFuel"
proof (induction m arbitrary: e ts)
  case (Suc m)
  have IH: "length r < length ts \<Longrightarrow> postfix_loop m p e' r \<noteq> Inl NoFuel" for e' r
    using Suc.prems by (intro Suc.IH) auto
  have "p r \<noteq> Inl NoFuel" "p r = Inr (i, TokRBracket # r') \<Longrightarrow> postfix_loop m p e' r' \<noteq> Inl NoFuel"
    if "ts = TokLBracket # r" for r i r' e'
    using that fuelled [of r] shorter [of r i "TokRBracket # r'"] Suc.prems(2) IH [of r' e'] by auto
  then show ?case
    using IH by (auto simp: rbind_eq_Inl split: list.splits tok.splits)
qed simp

lemma postfix_loop_shorter: "postfix_loop m p e ts = Inr (e', r) \<Longrightarrow> length r \<le> length ts"
proof (induction m arbitrary: e ts)
  case (Suc m)
  have IH: "length r \<le> length r1" if "postfix_loop m p e1 r1 = Inr (e', r)" for e1 r1
    using that by (rule Suc.IH)
  from Suc.prems show ?case
    by (auto simp: rbind_eq_Inr split: list.splits tok.splits dest!: IH shorter)
qed simp

lemma postfix_loop_fuel:
  "length ts < m \<Longrightarrow> length ts < m' \<Longrightarrow> postfix_loop m p e ts = postfix_loop m' p e ts"
proof (induction m arbitrary: m' ts e)
  case (Suc m)
  then obtain k where k: "m' = Suc k" by (cases m') auto
  have field: "postfix_loop m p e' r = postfix_loop k p e' r" if "length r < length ts" for e' r
    using Suc.prems k that by (intro Suc.IH) auto
  have "rbind (p r) (\<lambda>(i, r1). rbind (expect TokRBracket r1) (\<lambda>r2. postfix_loop m p (Index e i) r2)) =
      rbind (p r) (\<lambda>(i, r1). rbind (expect TokRBracket r1) (\<lambda>r2. postfix_loop k p (Index e i) r2))"
    if "ts = TokLBracket # r" for r
    using that by (auto intro!: rbind_cong field dest!: shorter)
  then show ?case unfolding k
    by (auto intro!: field split: list.splits tok.splits)
qed simp

lemma field_bounded: "bounded (parse_field p) n"
proof unfold_locales
  fix ts e r
  assume "parse_field p ts = Inr (e, r)"
  then show "length r < length ts"
    by (auto simp: parse_field_def rbind_eq_Inr split: list.splits tok.splits dest!: shorter)
next
  fix ts :: "tok list"
  assume "length ts < n"
  then have "p r \<noteq> Inl NoFuel" if "length r < length ts" for r
    using that by (intro fuelled) auto
  then show "parse_field p ts \<noteq> Inl NoFuel"
    by (auto simp: parse_field_def rbind_eq_Inl split: list.splits tok.splits)
qed

lemma call_returns [simp]: "make_call name args \<noteq> Inl NoFuel"
  by (auto simp: make_call_def make_iterator_def split: list.splits expr.splits option.splits)

lemma if_returns:
  assumes "length r < n"
  shows "parse_name p ''if'' r \<noteq> Inl NoFuel"
proof -
  have p: "length r' \<le> length r \<Longrightarrow> p r' \<noteq> Inl NoFuel" for r'
    using assms by (intro fuelled) auto
  show ?thesis
    by (auto simp: parse_name_def rbind_eq_Inl rbind_eq_Inr p dest!: shorter intro: p)
qed

lemma name_returns:
  assumes r: "length r < n"
  shows "parse_name p name r \<noteq> Inl NoFuel"
proof (cases "name = ''if''")
  case False
  have "parse_items TokComma TokRParen p r1 \<noteq> Inl NoFuel \<and>
      parse_items TokComma TokRBrace (parse_field p) r1 \<noteq> Inl NoFuel"
    if "r = t # r1" for t r1
    using that r bounded.items_return [OF field_bounded, of r1] items_return [of r1] by auto
  with False show ?thesis
    by (auto simp: parse_name_def rbind_eq_Inl split: list.splits tok.splits)
qed (use if_returns assms in simp)

lemma name_shorter: "parse_name p name r = Inr (e, r') \<Longrightarrow> length r' \<le> length r"
  by (auto simp: parse_name_def rbind_eq_Inr split: if_splits list.splits tok.splits
      dest!: shorter items_shorter bounded.items_shorter [OF field_bounded])

lemma primary_bounded: "bounded_expr (parse_primary p) (Suc n)"
proof unfold_locales
  fix ts e r
  assume "parse_primary p ts = Inr (e, r)"
  then show "length r < length ts"
    by (auto simp: parse_primary_def rbind_eq_Inr less_Suc_eq_le split: list.splits tok.splits
        dest!: shorter items_shorter name_shorter)
next
  fix ts :: "tok list"
  assume ts: "length ts < Suc n"
  show "parse_primary p ts \<noteq> Inl NoFuel"
  proof (cases ts)
    case (Cons t r)
    with ts fuelled [of r] items_return [of r] name_returns [of r] show ?thesis
      by (auto simp: parse_primary_def rbind_eq_Inl split: tok.splits)
  qed (simp add: parse_primary_def)
qed

lemma postfix_bounded: "bounded_expr (parse_postfix p) (Suc n)"
proof unfold_locales
  fix ts e r
  assume "parse_postfix p ts = Inr (e, r)"
  then obtain e1 r1 where "parse_primary p ts = Inr (e1, r1)" "postfix_loop (Suc (length r1)) p e1 r1 = Inr (e, r)"
    by (auto simp: parse_postfix_def rbind_eq_Inr)
  from bounded.shorter [OF bounded_expr.axioms [OF primary_bounded] this(1)] postfix_loop_shorter [OF this(2)]
  show "length r < length ts" by simp
next
  fix ts :: "tok list"
  assume ts: "length ts < Suc n"
  have "postfix_loop (Suc (length r)) p e r \<noteq> Inl NoFuel" if "parse_primary p ts = Inr (e, r)" for e r
    using bounded.shorter [OF bounded_expr.axioms [OF primary_bounded] that] ts
    by (intro postfix_loop_returns) auto
  then show "parse_postfix p ts \<noteq> Inl NoFuel"
    using bounded.fuelled [OF bounded_expr.axioms [OF primary_bounded] ts]
    by (auto simp: parse_postfix_def rbind_eq_Inl)
qed

lemma unary_bounded: "bounded_expr (parse_unary p) n"
proof unfold_locales
  fix ts e r
  show "parse_unary p ts = Inr (e, r) \<Longrightarrow> length r < length ts"
    by (induction ts arbitrary: e) (fastforce simp: rbind_eq_Inr split: if_splits dest: shorter)+
next
  fix ts :: "tok list"
  show "length ts < n \<Longrightarrow> parse_unary p ts \<noteq> Inl NoFuel"
    by (induction ts) (auto simp: rbind_eq_Inl fuelled)
qed

lemma cmp_bounded: "bounded_expr
  (\<lambda>ts. rbind (p ts) (\<lambda>(lhs, r). case r of [] \<Rightarrow> Inr (lhs, r) | t # r' \<Rightarrow>
     (case cmp_op t of None \<Rightarrow> Inr (lhs, r)
      | Some b \<Rightarrow> rbind (p r') (\<lambda>(rhs, r''). Inr (Binary b lhs rhs, r''))))) n"
proof unfold_locales
  fix ts :: "tok list"
  assume ts: "length ts < n"
  have "p r' \<noteq> Inl NoFuel" if "p ts = Inr (lhs, t # r')" for lhs t r'
    using shorter [OF that] ts by (intro fuelled) simp
  then show "rbind (p ts) (\<lambda>(lhs, r). case r of [] \<Rightarrow> Inr (lhs, r) | t # r' \<Rightarrow>
     (case cmp_op t of None \<Rightarrow> Inr (lhs, r)
      | Some b \<Rightarrow> rbind (p r') (\<lambda>(rhs, r''). Inr (Binary b lhs rhs, r'')))) \<noteq> Inl NoFuel"
    using fuelled [OF ts] by (auto simp: rbind_eq_Inl split: list.splits option.splits)
next
  fix ts e r
  assume *: "rbind (p ts) (\<lambda>(lhs, r). case r of [] \<Rightarrow> Inr (lhs, r) | t # r' \<Rightarrow>
     (case cmp_op t of None \<Rightarrow> Inr (lhs, r)
      | Some b \<Rightarrow> rbind (p r') (\<lambda>(rhs, r''). Inr (Binary b lhs rhs, r'')))) = Inr (e, r)"
  then obtain lhs r1 where r1: "p ts = Inr (lhs, r1)" by (auto simp: rbind_eq_Inr)
  from * shorter [OF r1] show "length r < length ts"
    by (cases r1) (auto simp: r1 rbind_eq_Inr split: option.splits dest!: shorter)
qed

lemma when_bounded: "bounded_expr (\<lambda>ts. rbind (p ts) (\<lambda>(e, r). when_loop (Suc (length r)) e r)) n"
proof unfold_locales
  fix ts e r
  assume "rbind (p ts) (\<lambda>(e, r). when_loop (Suc (length r)) e r) = Inr (e, r)"
  then obtain e1 r1 where "p ts = Inr (e1, r1)" "when_loop (Suc (length r1)) e1 r1 = Inr (e, r)"
    by (auto simp: rbind_eq_Inr)
  from shorter [OF this(1)] when_loop_shorter [OF this(2)] show "length r < length ts" by simp
next
  fix ts :: "tok list"
  assume "length ts < n"
  with fuelled [OF this] when_loop_returns
  show "rbind (p ts) (\<lambda>(e, r). when_loop (Suc (length r)) e r) \<noteq> Inl NoFuel"
    by (auto simp: rbind_eq_Inl simp del: when_loop.simps)
qed

lemma implies_bounded: "bounded_expr (\<lambda>ts. implies_chain (Suc (length ts)) p ts) n"
  by unfold_locales (auto dest: implies_shorter simp: implies_returns simp del: implies_chain.simps)

text \<open>From the calls in brackets to the whole grammar.\<close>

lemma mul_bounded: "bounded_expr (parse_mul p) (Suc n)"
  unfolding parse_mul_def by (intro bounded_expr.binary_bounded bounded_expr.unary_bounded postfix_bounded)

lemma add_bounded: "bounded_expr (parse_add p) (Suc n)"
  unfolding parse_add_def by (rule bounded_expr.binary_bounded) (rule mul_bounded)

lemma shift_bounded: "bounded_expr (parse_shift p) (Suc n)"
  unfolding parse_shift_def by (rule bounded_expr.binary_bounded) (rule add_bounded)

lemma parse_cmp_bounded: "bounded_expr (parse_cmp p) (Suc n)"
  unfolding parse_cmp_def [abs_def] by (rule bounded_expr.cmp_bounded) (rule shift_bounded)

lemma bit_and_bounded: "bounded_expr (parse_bit_and p) (Suc n)"
  unfolding parse_bit_and_def by (rule bounded_expr.binary_bounded) (rule parse_cmp_bounded)

lemma bit_xor_bounded: "bounded_expr (parse_bit_xor p) (Suc n)"
  unfolding parse_bit_xor_def by (rule bounded_expr.binary_bounded) (rule bit_and_bounded)

lemma bit_or_bounded: "bounded_expr (parse_bit_or p) (Suc n)"
  unfolding parse_bit_or_def by (rule bounded_expr.binary_bounded) (rule bit_xor_bounded)

lemma and_bounded: "bounded_expr (parse_and p) (Suc n)"
  unfolding parse_and_def by (rule bounded_expr.binary_bounded) (rule bit_or_bounded)

lemma or_bounded: "bounded_expr (parse_or p) (Suc n)"
  unfolding parse_or_def by (rule bounded_expr.binary_bounded) (rule and_bounded)

lemma parse_implies_bounded: "bounded_expr (parse_implies p) (Suc n)"
  unfolding parse_implies_def [abs_def] by (rule bounded_expr.implies_bounded) (rule or_bounded)

lemma parse_when_bounded: "bounded_expr (parse_when p) (Suc n)"
  unfolding parse_when_def [abs_def] by (rule bounded_expr.when_bounded) (rule parse_implies_bounded)

lemma parse_arrow_bounded: "bounded_expr (parse_arrow p) (Suc n)"
proof unfold_locales
  note when_shorter = bounded.shorter [OF bounded_expr.axioms [OF parse_when_bounded]]
  fix ts e r
  assume *: "parse_arrow p ts = Inr (e, r)"
  then obtain i r1 where r1: "parse_when p ts = Inr (i, r1)" by (auto simp: parse_arrow_def rbind_eq_Inr)
  from * when_shorter [OF r1] show "length r < length ts"
    by (cases r1) (auto simp: r1 parse_arrow_def rbind_eq_Inr split: if_splits dest!: shorter)
next
  note when_bounded = bounded_expr.axioms [OF parse_when_bounded]
  fix ts :: "tok list"
  assume ts: "length ts < Suc n"
  have "p r' \<noteq> Inl NoFuel" if "parse_when p ts = Inr (i, t # r')" for i t r'
    using bounded.shorter [OF when_bounded that] ts by (intro fuelled) simp
  then show "parse_arrow p ts \<noteq> Inl NoFuel"
    using bounded.fuelled [OF when_bounded ts]
    by (auto simp: parse_arrow_def rbind_eq_Inl split: list.splits)
qed

end

lemma parse_at_bounded: "bounded_expr (parse_at n) n"
proof (induction n)
  case (Suc n)
  then have "bounded_expr (parse_arrow (parse_at n)) (Suc n)" by (rule bounded_expr.parse_arrow_bounded)
  moreover have "parse_at (Suc n) = parse_arrow (parse_at n)" by (rule ext) simp
  ultimately show ?case by simp
qed (unfold_locales, auto)

interpretation nested: bounded_expr "parse_at n" n for n
  by (rule parse_at_bounded)

text \<open>The parser always returns an expression or an error of the source.\<close>

lemma parse_tokens_returns: "parse_tokens ts \<noteq> Inl NoFuel"
  using nested.fuelled [of ts "Suc (length ts)"] by (auto simp: parse_tokens_def rbind_eq_Inl)

lemma parse_expr_returns: "parse_expr s \<noteq> Inl NoFuel"
  using parse_tokens_returns by (auto simp: parse_expr_def rbind_eq_Inl map_err_def split: sum.splits)

end
