(* ===== verification/Round_Trip.thy ===== *)
theory Round_Trip
  imports Text_Tokens Parser_Laws
begin

text \<open>
  Printed expressions are read back. The precedence levels of the parser are numbered from the lowest,
  0 for \<open>->\<close>, to the highest, 13 for the postfix operators; a token continues an expression at one level
  at most. An expression printed for a precedence is parsed at every level up to the one its text has,
  as long as no token that belongs to the text follows.
\<close>

section \<open>Levels\<close>

definition level :: "nat \<Rightarrow> expr tok_parser \<Rightarrow> expr tok_parser" where
  "level k =
     [parse_arrow, parse_when, parse_implies, parse_or, parse_and, parse_bit_or, parse_bit_xor, parse_bit_and,
      parse_cmp, parse_shift, parse_add, parse_mul, \<lambda>q. parse_unary (parse_postfix q), parse_postfix] ! k"

lemma level_simps [simp]:
  "level 0 = parse_arrow" "level (Suc 0) = parse_when" "level (Suc (Suc 0)) = parse_implies" "level 2 = parse_implies" "level 3 = parse_or"
  "level 4 = parse_and" "level 5 = parse_bit_or" "level 6 = parse_bit_xor" "level 7 = parse_bit_and"
  "level 8 = parse_cmp" "level 9 = parse_shift" "level 10 = parse_add" "level 11 = parse_mul"
  "level 12 = (\<lambda>q. parse_unary (parse_postfix q))" "level 13 = parse_postfix"
  by (simp_all add: level_def)

lemma expect_same [simp]: "expect t (t # r) = Inr r"
  by (simp add: expect_def)

text \<open>One more than the level at which a token continues an expression.\<close>

definition tok_level :: "tok \<Rightarrow> nat" where
  "tok_level t =
     (case t of
        TokArrow \<Rightarrow> 1 | TokFatArrow \<Rightarrow> 3 | TokPipe \<Rightarrow> 6 | TokCaret \<Rightarrow> 7 | TokAmp \<Rightarrow> 8
      | TokEq \<Rightarrow> 9 | TokNe \<Rightarrow> 9 | TokLt \<Rightarrow> 9 | TokLe \<Rightarrow> 9 | TokGt \<Rightarrow> 9 | TokGe \<Rightarrow> 9
      | TokShl \<Rightarrow> 10 | TokShr \<Rightarrow> 10 | TokPlus \<Rightarrow> 11 | TokMinus \<Rightarrow> 11 | TokStar \<Rightarrow> 12 | TokSlash \<Rightarrow> 12
      | TokDot \<Rightarrow> 14 | TokLBracket \<Rightarrow> 14 | TokLParen \<Rightarrow> 15 | TokLBrace \<Rightarrow> 15
      | TokIdent s \<Rightarrow>
          if s = ''when'' then 2 else if s = ''or'' \<or> s = ''xor'' then 4 else if s = ''and'' then 5
          else if s = ''div'' \<or> s = ''mod'' then 12 else 0
      | _ \<Rightarrow> 0)"

definition stops :: "nat \<Rightarrow> tok list \<Rightarrow> bool" where
  "stops k rest \<longleftrightarrow> rest = [] \<or> tok_level (hd rest) \<le> k"

lemma stops_simps [simp]:
  "stops k []"
  "stops k (t # ts) \<longleftrightarrow> tok_level t \<le> k"
  by (simp_all add: stops_def)

lemma stops_mono: "stops k rest \<Longrightarrow> k \<le> l \<Longrightarrow> stops l rest"
  by (auto simp: stops_def)

lemma op_levels:
  "or_op t \<noteq> None \<Longrightarrow> tok_level t = 4"
  "and_op t \<noteq> None \<Longrightarrow> tok_level t = 5"
  "bit_or_op t \<noteq> None \<Longrightarrow> tok_level t = 6"
  "bit_xor_op t \<noteq> None \<Longrightarrow> tok_level t = 7"
  "bit_and_op t \<noteq> None \<Longrightarrow> tok_level t = 8"
  "cmp_op t \<noteq> None \<Longrightarrow> tok_level t = 9"
  "shift_op t \<noteq> None \<Longrightarrow> tok_level t = 10"
  "add_op t \<noteq> None \<Longrightarrow> tok_level t = 11"
  "mul_op t \<noteq> None \<Longrightarrow> tok_level t = 12"
  by (auto simp: or_op_def and_op_def bit_or_op_def bit_xor_op_def bit_and_op_def cmp_op_def shift_op_def
      add_op_def mul_op_def tok_level_def split: tok.splits if_splits)

text \<open>The loop of a level, started with what it has read so far; the other levels have none.\<close>

definition loop_op :: "nat \<Rightarrow> (tok \<Rightarrow> bin_op option) option" where
  "loop_op k =
     map_of [(3, or_op), (4, and_op), (5, bit_or_op), (6, bit_xor_op), (7, bit_and_op), (9, shift_op),
       (10, add_op), (11, mul_op)] k"

definition has_loop :: "nat \<Rightarrow> bool" where
  "has_loop k \<longleftrightarrow> k \<in> {1, 3, 4, 5, 6, 7, 9, 10, 11, 13}"

definition tail :: "nat \<Rightarrow> expr tok_parser \<Rightarrow> expr \<Rightarrow> expr tok_parser" where
  "tail k q e rest =
     (if k = 1 then when_loop (Suc (length rest)) e rest
      else if k = 13 then postfix_loop (Suc (length rest)) q e rest
      else case loop_op k of
        Some ops \<Rightarrow> binary_loop (Suc (length rest)) ops (level (Suc k) q) e rest
      | None \<Rightarrow> Inr (e, rest))"

text \<open>What may follow an expression that is read at a level: for a loop, a token that continues it.\<close>

definition follows :: "nat \<Rightarrow> tok list \<Rightarrow> bool" where
  "follows k rest \<longleftrightarrow> stops (if has_loop k then Suc k else k) rest"

lemma follows_stops: "follows k rest \<Longrightarrow> stops (Suc k) rest"
  by (auto simp: follows_def stops_def split: if_splits)

lemma stops_follows: "stops k rest \<Longrightarrow> follows k rest"
  by (auto simp: follows_def stops_def split: if_splits)

lemma binary_loop_stop:
  assumes "\<And>t r. rest = t # r \<Longrightarrow> ops t = None"
  shows "binary_loop (Suc m) ops next e rest = Inr (e, rest)"
  using assms by (cases rest) auto

lemma tail_other:
  assumes "rest = [] \<or> tok_level (hd rest) \<noteq> Suc k"
  shows "tail k q e rest = Inr (e, rest)"
proof (cases rest)
  case (Cons t r)
  with assms have t: "tok_level t \<noteq> Suc k" by simp
  have "binary_loop (Suc m) ops nxt e rest = Inr (e, rest)" if "loop_op k = Some ops" for m ops nxt
  proof (rule binary_loop_stop)
    fix t' r'
    assume "rest = t' # r'"
    with Cons have "t' = t" by simp
    show "ops t' = None"
      using that t op_levels [of t] unfolding \<open>t' = t\<close> by (fastforce simp: loop_op_def split: if_splits)
  qed
  moreover have "k = 1 \<Longrightarrow> t \<noteq> TokIdent ''when''" "k = 13 \<Longrightarrow> t \<noteq> TokDot \<and> t \<noteq> TokLBracket"
    using t by (auto simp: tok_level_def)
  ultimately show ?thesis
    using Cons by (auto simp: tail_def split: option.splits tok.splits)
qed (auto simp: tail_def split: option.split)

lemma tail_stops: "stops k rest \<Longrightarrow> tail k q e rest = Inr (e, rest)"
  by (rule tail_other) (auto simp: stops_def)

lemma follows_le: "follows k rest \<Longrightarrow> k \<le> l \<Longrightarrow> follows l rest"
proof (cases "k = l")
  case False
  assume "follows k rest" "k \<le> l"
  then show ?thesis using False stops_mono [OF follows_stops, of k rest l] by (auto intro: stops_follows)
qed simp

section \<open>From a level to the lower ones\<close>

text \<open>A text that does not start with a prefix operator.\<close>

definition plain_head :: "tok list \<Rightarrow> bool" where
  "plain_head ts \<longleftrightarrow> ts \<noteq> [] \<and> hd ts \<notin> {TokIdent ''not'', TokIdent ''pre'', TokMinus}"

lemma plain_bracket [simp]: "plain_head (TokLParen # ts)" "plain_head (TokLBracket # ts)"
  by (simp_all add: plain_head_def)

lemma plain_name [simp]: "is_name s \<Longrightarrow> plain_head (TokIdent s # ts)"
  by (auto simp: plain_head_def is_name_def)

lemma plain_lit [simp]: "plain_head (lit_tok lit # ts)"
  by (auto simp: lit_tok_def plain_head_def split: literal.split)

lemma plain_head_append: "plain_head ts \<Longrightarrow> plain_head (ts @ us)"
  by (cases ts) (auto simp: plain_head_def)

lemma unary_plain: "plain_head ts \<Longrightarrow> parse_unary next ts = next ts"
  by (cases ts) (auto simp: plain_head_def)

text \<open>What may follow: at a level without a loop, no token that continues the expression there.\<close>

lemma climb_step:
  assumes k: "k < 13" and up: "level (Suc k) q ts = Inr (e, rest)"
    and rest: "has_loop k \<or> rest = [] \<or> tok_level (hd rest) \<noteq> Suc k"
    and head: "k = 12 \<Longrightarrow> plain_head ts"
  shows "level k q ts = tail k q e rest"
proof -
  have cases: "k \<in> {0, 1, 2, 3, 4, 5, 6, 7, 8, 9, 10, 11, 12}" using k by simp presburger
  have none: "rest = [] \<or> hd rest \<noteq> TokArrow" if "k = 0"
    using rest that by (auto simp: has_loop_def tok_level_def)
  have none': "rest = [] \<or> hd rest \<noteq> TokFatArrow" if "k = 2"
    using rest that by (auto simp: has_loop_def tok_level_def)
  have none'': "rest = [] \<or> cmp_op (hd rest) = None" if "k = 8"
    using rest that op_levels(6) [of "hd rest"] by (fastforce simp: has_loop_def)
  note loops = tail_def loop_op_def binary_level_def
  from cases show ?thesis
  proof (elim insertE emptyE)
    assume "k = 0"
    with up none show ?thesis by (cases rest) (simp_all add: loops parse_arrow_def)
  next
    assume "k = 1"
    with up show ?thesis by (simp add: tail_def parse_when_def del: when_loop.simps)
  next
    assume "k = 2"
    with up none' show ?thesis by (cases rest) (simp_all add: loops parse_implies_def)
  next
    assume "k = 8"
    with up none'' show ?thesis by (cases rest) (simp_all add: loops parse_cmp_def)
  next
    assume "k = 12"
    with up head show ?thesis by (simp add: loops unary_plain)
  qed (use up in \<open>simp_all add: loops parse_or_def parse_and_def parse_bit_or_def parse_bit_xor_def
      parse_bit_and_def parse_shift_def parse_add_def parse_mul_def del: binary_loop.simps\<close>)
qed

lemma climb:
  assumes top: "level K q ts = tail K q e rest" and k: "k \<le> K" "K \<le> 13" and rest: "follows k rest"
    and head: "K = 13 \<Longrightarrow> plain_head ts"
  shows "level k q ts = tail k q e rest"
  using k(1) rest
proof (induction k rule: inc_induct)
  case (step m)
  have "level (Suc m) q ts = tail (Suc m) q e rest" using step by (intro step.IH) (auto intro: follows_le)
  also have "\<dots> = Inr (e, rest)" using step.prems by (intro tail_stops follows_stops)
  finally show ?case using step k(2) head
    by (intro climb_step) (auto simp: follows_def stops_def split: if_splits)
qed (rule top)

text \<open>An expression that is complete at the postfix level, whatever follows.\<close>

lemma postfix_of_primary: "parse_primary q ts = Inr (e, rest) \<Longrightarrow> level 13 q ts = tail 13 q e rest"
  by (simp add: parse_postfix_def tail_def)

section \<open>What is read for a printed expression\<close>

definition plevel :: "nat \<Rightarrow> nat" where
  "plevel p =
     (if 100 \<le> p then 13 else if 80 \<le> p then 12 else if 50 \<le> p then 11 else if 40 \<le> p then 10
      else if 30 \<le> p then 8 else if 25 \<le> p then 4 else if 20 \<le> p then 3 else if 18 \<le> p then 2
      else if 16 \<le> p then 1 else 0)"

definition text_level :: "nat \<Rightarrow> expr \<Rightarrow> nat" where
  "text_level p e = (if prec_of e < p then 13 else plevel (prec_of e))"

definition reads :: "expr \<Rightarrow> bool" where
  "reads e \<longleftrightarrow>
     (\<forall>p n rest k. k \<le> text_level p e \<longrightarrow> length (toks p e @ rest) \<le> n \<longrightarrow> follows k rest \<longrightarrow>
        level k (parse_at n) (toks p e @ rest) = tail k (parse_at n) e rest)"

lemma readsD:
  "reads e \<Longrightarrow> k \<le> text_level p e \<Longrightarrow> length (toks p e @ rest) \<le> n \<Longrightarrow> follows k rest \<Longrightarrow>
     level k (parse_at n) (toks p e @ rest) = tail k (parse_at n) e rest"
  by (simp add: reads_def)

lemma reads_nested:
  assumes "reads e" "length (toks p e @ rest) < n" "stops 0 rest"
  shows "parse_at n (toks p e @ rest) = Inr (e, rest)"
proof -
  obtain m where n: "n = Suc m" using assms(2) by (cases n) auto
  have "level 0 (parse_at m) (toks p e @ rest) = tail 0 (parse_at m) e rest"
    using assms n by (intro readsD) (auto intro: stops_follows)
  with tail_stops [OF assms(3)] show ?thesis by (simp add: n)
qed

lemma plevel_le: "plevel p \<le> 13"
  by (simp add: plevel_def)

lemma reads_text:
  assumes top: "\<And>n rest. length (text_toks e @ rest) \<le> n \<Longrightarrow> follows (plevel (prec_of e)) rest \<Longrightarrow>
      level (plevel (prec_of e)) (parse_at n) (text_toks e @ rest) = tail (plevel (prec_of e)) (parse_at n) e rest"
    and head: "plevel (prec_of e) = 13 \<Longrightarrow> plain_head (text_toks e)"
  shows "reads e"
  unfolding reads_def
proof (intro allI impI)
  fix p n rest k
  assume *: "k \<le> text_level p e" "length (toks p e @ rest) \<le> n" "follows k rest"
  have body: "level j (parse_at m) (text_toks e @ r) = tail j (parse_at m) e r"
    if "j \<le> plevel (prec_of e)" "length (text_toks e @ r) \<le> m" "follows j r" for j m r
  proof (rule climb [OF top _ plevel_le])
    show "plain_head (text_toks e @ r)" if "plevel (prec_of e) = 13"
      using head [OF that] by (auto simp: plain_head_def)
  qed (use that in \<open>auto intro: follows_le\<close>)
  show "level k (parse_at n) (toks p e @ rest) = tail k (parse_at n) e rest"
  proof (cases "prec_of e < p")
    case True
    then have ts: "toks p e @ rest = TokLParen # text_toks e @ TokRParen # rest" by (simp add: toks.simps)
    obtain m where n: "n = Suc m" using *(2) ts by (cases n) auto
    have "level 0 (parse_at m) (text_toks e @ TokRParen # rest) = tail 0 (parse_at m) e (TokRParen # rest)"
      using *(2) ts n by (intro body) (auto simp: follows_def tok_level_def)
    also have "\<dots> = Inr (e, TokRParen # rest)" by (rule tail_stops) (simp add: tok_level_def)
    finally have "parse_primary (parse_at n) (toks p e @ rest) = Inr (e, rest)"
      by (simp add: ts n parse_primary_def)
    from postfix_of_primary [OF this] show ?thesis
      by (rule climb) (use * True in \<open>auto simp: text_level_def ts\<close>)
  next
    case False
    with * show ?thesis using body by (simp add: toks.simps text_level_def)
  qed
qed

section \<open>The first token\<close>

definition closers :: "tok set" where
  "closers = {TokRParen, TokRBracket, TokRBrace}"

lemma not_closer [simp]: "TokLParen \<notin> closers" "TokIdent s \<notin> closers" "TokMinus \<notin> closers" "TokLBracket \<notin> closers"
  "lit_tok lit \<notin> closers"
  by (auto simp: closers_def lit_tok_def split: literal.split)

lemma toks_head: "toks p e \<noteq> [] \<and> hd (toks p e) \<notin> closers"
proof (induction e arbitrary: p rule: expr_children_induct)
  case (step e)
  have sub: "toks q c \<noteq> []" "hd (toks q c @ ts) \<notin> closers" "toks q c @ ts \<noteq> []"
    if "c \<in> set (children e)" for q c ts
    using step.IH [OF that, of q] by auto
  have "text_toks e \<noteq> [] \<and> hd (text_toks e) \<notin> closers"
    using sub by (cases e) (auto split: unary_op.splits)
  then show ?case by (simp add: toks.simps)
qed

lemma call_names [simp]: "is_name ''map''" "is_name ''fold''" "is_name ''merge''" "is_name ''if''  \<longleftrightarrow> False"
  by (simp_all add: is_name_def)

lemma cast_name [simp]: "is_name (cast_type_name t)"
  using cast_name_ident [of t] unfolding is_name_def by (cases t) (simp_all add: cast_type_name_def)

lemma text_head:
  assumes "printable e" "prec_of e = 100"
  shows "plain_head (text_toks e)"
  using assms
proof (induction e rule: expr_children_induct)
  case (step e)
  have sub: "plain_head (toks 100 c @ ts)" if "c \<in> set (children e)" "printable c" for c ts
    using step.IH [OF that] prec_of_le [of c]
    by (intro plain_head_append) (auto simp: toks.simps)
  show ?case
  proof (cases e)
    case (Iterate k node i arrays)
    then show ?thesis by (cases k) (simp_all add: iter_name_def)
  next
    case (Binary b l r)
    with step.prems bin_prec_le [of b] show ?thesis by (auto split: if_splits)
  qed (use step.prems sub in \<open>auto\<close>)
qed

section \<open>Lists of items\<close>

lemma parse_items_reads:
  assumes items: "\<And>x rest. x \<in> set xs \<Longrightarrow> length (g x @ rest) \<le> n \<Longrightarrow> stops 0 rest \<Longrightarrow> item (g x @ rest) = Inr (x, rest)"
    and head: "\<And>x. x \<in> set xs \<Longrightarrow> g x \<noteq> [] \<and> hd (g x) \<noteq> close"
    and sep: "tok_level sep = 0" "tok_level close = 0" "sep \<noteq> close"
    and fuel: "length (join_toks sep (map g xs) @ close # rest) \<le> n"
  shows "parse_items sep close item (join_toks sep (map g xs) @ close # rest) = Inr (xs, rest)"
proof (cases xs)
  case Nil
  then show ?thesis by (simp add: parse_items_def)
next
  case (Cons x xs')
  have list: "parse_list m sep item (join_toks sep (map g (y # ys)) @ close # rest) = Inr (y # ys, close # rest)"
    if "set (y # ys) \<subseteq> set xs" "length (join_toks sep (map g (y # ys)) @ close # rest) \<le> n" "length ys < m" for y ys m
    using that
  proof (induction ys arbitrary: y m)
    case Nil
    then obtain m' where m: "m = Suc m'" by (cases m) auto
    from Nil items [of y "close # rest"] sep show ?case by (simp add: m)
  next
    case (Cons z zs)
    then obtain m' where m: "m = Suc m'" by (cases m) auto
    have "item (g y @ sep # join_toks sep (map g (z # zs)) @ close # rest) =
        Inr (y, sep # join_toks sep (map g (z # zs)) @ close # rest)"
      using Cons.prems sep by (intro items) auto
    with Cons.IH [of z m'] Cons.prems show ?case by (simp add: m)
  qed
  have len: "length ys < length (join_toks sep (map g (y # ys)) @ close # rest)" for y ys
  proof (induction ys arbitrary: y)
    case (Cons z zs)
    from Cons.IH [of z] show ?case by simp
  qed simp
  have "hd (join_toks sep (map g xs) @ close # rest) \<noteq> close"
    using head [of x] Cons by (cases xs') auto
  with list [of x xs'] fuel len [of xs' x] Cons show ?thesis
    by (simp add: parse_items_def del: parse_list.simps)
qed

lemma closer_level: "close \<in> closers \<Longrightarrow> tok_level close = 0"
  by (auto simp: closers_def tok_level_def)

lemma expressions_read:
  assumes "\<And>x. x \<in> set es \<Longrightarrow> reads x" and "close \<in> closers" "tok_level sep = 0" "sep \<notin> closers"
    and "length (join_toks sep (map (toks 0) es) @ close # rest) < n"
  shows "parse_items sep close (parse_at n) (join_toks sep (map (toks 0) es) @ close # rest) = Inr (es, rest)"
proof (rule parse_items_reads [where n = "n - 1"])
  fix x r
  assume "x \<in> set es" "length (toks 0 x @ r) \<le> n - 1" "stops 0 r"
  then show "parse_at n (toks 0 x @ r) = Inr (x, r)" using assms(1,5) by (intro reads_nested) auto
qed (use assms toks_head closer_level in auto)

lemma fields_read:
  assumes "\<And>fi. fi \<in> set fis \<Longrightarrow> reads (snd fi)"
    and "length (join_toks TokComma (map (\<lambda>fi. TokIdent (fst fi) # TokColon # toks 0 (snd fi)) fis) @ TokRBrace # rest) < n"
  shows "parse_items TokComma TokRBrace (parse_field (parse_at n))
      (join_toks TokComma (map (\<lambda>fi. TokIdent (fst fi) # TokColon # toks 0 (snd fi)) fis) @ TokRBrace # rest) = Inr (fis, rest)"
proof (rule parse_items_reads [where n = "n - 1"])
  fix fi :: field_init and r
  assume *: "fi \<in> set fis" "length ((TokIdent (fst fi) # TokColon # toks 0 (snd fi)) @ r) \<le> n - 1" "stops 0 r"
  then have "parse_at n (toks 0 (snd fi) @ r) = Inr (snd fi, r)" using assms by (intro reads_nested) auto
  then show "parse_field (parse_at n) ((TokIdent (fst fi) # TokColon # toks 0 (snd fi)) @ r) = Inr (fi, r)"
    by (simp add: parse_field_def)
qed (use assms in \<open>auto simp: tok_level_def\<close>)

section \<open>Reading a printed expression\<close>

subsection \<open>Complete expressions\<close>

lemma reads_primary:
  assumes "plevel (prec_of e) = 13" "plain_head (text_toks e)"
    and "\<And>n rest. length (text_toks e @ rest) \<le> n \<Longrightarrow> stops 14 rest \<Longrightarrow>
      parse_primary (parse_at n) (text_toks e @ rest) = Inr (e, rest)"
  shows "reads e"
  by (rule reads_text) (use assms in \<open>simp_all add: postfix_of_primary [simplified] follows_def has_loop_def\<close>)

lemma reads_const: "reads (Const lit)"
proof (rule reads_primary)
  fix n rest
  show "parse_primary (parse_at n) (text_toks (Const lit) @ rest) = Inr (Const lit, rest)"
    by (cases lit) (simp_all add: lit_tok_def parse_primary_def parse_name_def bool_lit_def)
qed (simp_all add: plevel_def)

lemma parse_name_plain:
  assumes "is_name s"
  shows "parse_primary q (TokIdent s # rest) =
     (case rest of
        TokLParen # r \<Rightarrow> rbind (parse_items TokComma TokRParen q r) (\<lambda>(args, r'). rbind (make_call s args) (\<lambda>e. Inr (e, r')))
      | TokLBrace # r \<Rightarrow> rbind (parse_items TokComma TokRBrace (parse_field q) r) (\<lambda>(fis, r'). Inr (Struct s fis, r'))
      | _ \<Rightarrow> Inr (Var s, rest))"
proof -
  have "s \<noteq> ''true''" "s \<noteq> ''false''" "s \<noteq> ''if''" using assms by (auto simp: is_name_def)
  then show ?thesis by (simp add: parse_primary_def parse_name_def)
qed

lemma reads_var: "is_name s \<Longrightarrow> reads (Var s)"
proof (rule reads_primary)
  fix n rest
  assume s: "is_name s" and rest: "stops 14 rest"
  show "parse_primary (parse_at n) (text_toks (Var s) @ rest) = Inr (Var s, rest)"
  proof (cases rest)
    case (Cons t r)
    with rest s show ?thesis by (cases t) (simp_all add: parse_name_plain tok_level_def)
  qed (simp add: parse_name_plain s)
qed (auto simp: plevel_def)

text \<open>Everything that is written as a call.\<close>

lemma reads_call:
  assumes args: "\<And>x. x \<in> set args \<Longrightarrow> reads x" and name: "is_name f" and e: "make_call f args = Inr e"
    and ts: "text_toks e = TokIdent f # TokLParen # join_toks TokComma (map (toks 0) args) @ [TokRParen]"
      "prec_of e = 100"
  shows "reads e"
proof (rule reads_primary)
  fix n rest
  assume "length (text_toks e @ rest) \<le> n"
  then have "parse_items TokComma TokRParen (parse_at n) (join_toks TokComma (map (toks 0) args) @ TokRParen # rest) = Inr (args, rest)"
    by (intro expressions_read) (auto simp: args ts closers_def tok_level_def)
  then show "parse_primary (parse_at n) (text_toks e @ rest) = Inr (e, rest)"
    by (simp add: ts parse_name_plain name e)
qed (use ts name in \<open>auto simp: plevel_def\<close>)

lemma cast_type_read: "is_numeric t \<Longrightarrow> make_call (cast_type_name t) [a] = Inr (Cast t a)"
  by (cases t) (simp_all add: make_call_def cast_type_name_def numeric_type_name_def)

lemma reads_array:
  assumes "\<And>x. x \<in> set items \<Longrightarrow> reads x"
  shows "reads (Array items)"
proof (rule reads_primary)
  fix n rest
  assume "length (text_toks (Array items) @ rest) \<le> n"
  then have "parse_items TokSemi TokRBracket (parse_at n) (join_toks TokSemi (map (toks 0) items) @ TokRBracket # rest) = Inr (items, rest)"
    by (intro expressions_read) (auto simp: assms closers_def tok_level_def)
  then show "parse_primary (parse_at n) (text_toks (Array items) @ rest) = Inr (Array items, rest)"
    by (simp add: parse_primary_def)
qed (simp_all add: plevel_def)

lemma reads_struct:
  assumes "is_name s" "\<And>fi. fi \<in> set fis \<Longrightarrow> reads (snd fi)"
  shows "reads (Struct s fis)"
proof (rule reads_primary)
  fix n rest
  assume "length (text_toks (Struct s fis) @ rest) \<le> n"
  with fields_read [OF assms(2), of fis rest n]
  show "parse_primary (parse_at n) (text_toks (Struct s fis) @ rest) = Inr (Struct s fis, rest)"
    by (simp add: parse_name_plain assms(1))
qed (use assms in \<open>auto simp: plevel_def\<close>)

lemma postfix_rounds:
  "length rest < m \<Longrightarrow> postfix_loop (Suc m) (parse_at n) b (TokDot # TokIdent f # rest) = tail 13 (parse_at n) (Field b f) rest"
  "length rest < m \<Longrightarrow> parse_at n r = Inr (i, TokRBracket # rest) \<Longrightarrow>
     postfix_loop (Suc m) (parse_at n) b (TokLBracket # r) = tail 13 (parse_at n) (Index b i) rest"
  using nested.postfix_loop_fuel [of rest m "Suc (length rest)" n] by (simp_all add: tail_def del: postfix_loop.simps(2))
    (simp_all only: postfix_loop.simps tok.case list.case rbind_simps prod.case expect_same)

text \<open>A postfix operator continues the loop of its operand.\<close>

lemma reads_field:
  assumes "reads b" "printable (Field b f)"
  shows "reads (Field b f)"
proof (rule reads_text)
  fix n rest
  assume n: "length (text_toks (Field b f) @ rest) \<le> n"
  have "level 13 (parse_at n) (toks 100 b @ TokDot # TokIdent f # rest) = tail 13 (parse_at n) b (TokDot # TokIdent f # rest)"
    using assms(1) n prec_of_le [of b]
    by (intro readsD) (auto simp: text_level_def plevel_def follows_def has_loop_def tok_level_def)
  also have "\<dots> = tail 13 (parse_at n) (Field b f) rest"
    by (subst tail_def) (simp add: postfix_rounds(1) del: postfix_loop.simps)
  finally show "level (plevel (prec_of (Field b f))) (parse_at n) (text_toks (Field b f) @ rest) =
      tail (plevel (prec_of (Field b f))) (parse_at n) (Field b f) rest"
    by (simp add: plevel_def)
qed (use text_head [OF assms(2)] in simp)

lemma reads_index:
  assumes "reads b" "reads i" "printable (Index b i)"
  shows "reads (Index b i)"
proof (rule reads_text)
  fix n rest
  assume n: "length (text_toks (Index b i) @ rest) \<le> n"
  let ?r = "toks 0 i @ TokRBracket # rest"
  have "level 13 (parse_at n) (toks 100 b @ TokLBracket # ?r) = tail 13 (parse_at n) b (TokLBracket # ?r)"
    using assms(1) n prec_of_le [of b]
    by (intro readsD) (auto simp: text_level_def plevel_def follows_def has_loop_def tok_level_def)
  also have "parse_at n ?r = Inr (i, TokRBracket # rest)"
    using assms(2) n by (intro reads_nested) (auto simp: tok_level_def)
  then have "tail 13 (parse_at n) b (TokLBracket # ?r) = tail 13 (parse_at n) (Index b i) rest"
    by (subst tail_def) (simp add: postfix_rounds(2) del: postfix_loop.simps)
  finally show "level (plevel (prec_of (Index b i))) (parse_at n) (text_toks (Index b i) @ rest) =
      tail (plevel (prec_of (Index b i))) (parse_at n) (Index b i) rest"
    by (simp add: plevel_def)
qed (use text_head [OF assms(3)] in simp)

subsection \<open>Conditionals\<close>

lemma ident_level [simp]:
  "tok_level (TokIdent ''then'') = 0" "tok_level (TokIdent ''else'') = 0" "tok_level (TokIdent ''when'') = 2"
  by (simp_all add: tok_level_def)

lemma reads_if:
  assumes "reads c" "reads t" "reads e"
  shows "reads (IfThenElse c t e)"
proof (rule reads_text)
  fix n rest
  assume n: "length (text_toks (IfThenElse c t e) @ rest) \<le> n"
    and rest: "follows (plevel (prec_of (IfThenElse c t e))) rest"
  from rest have stop: "stops 0 rest" by (simp add: plevel_def follows_def has_loop_def)
  let ?e = "toks 0 e @ rest" and ?ts = "text_toks (IfThenElse c t e) @ rest"
  let ?t = "toks 0 t @ TokIdent ''else'' # ?e"
  have "parse_at n ?e = Inr (e, rest)"
    "parse_at n ?t = Inr (t, TokIdent ''else'' # ?e)"
    "parse_at n (toks 0 c @ TokIdent ''then'' # ?t) = Inr (c, TokIdent ''then'' # ?t)"
    by (rule reads_nested; use assms n stop in simp)+
  then have "parse_primary (parse_at n) ?ts = Inr (IfThenElse c t e, rest)"
    by (simp add: parse_primary_def parse_name_def expect_kw_def)
  from climb [OF postfix_of_primary [OF this], of 0] rest
  show "level (plevel (prec_of (IfThenElse c t e))) (parse_at n) ?ts =
      tail (plevel (prec_of (IfThenElse c t e))) (parse_at n) (IfThenElse c t e) rest"
    by (simp add: plevel_def plain_head_def)
qed (simp add: plevel_def)

subsection \<open>Prefix operators\<close>

lemma reads_prefix:
  assumes a: "reads a" "80 \<le> p" and e: "text_toks e = t # toks p a" "plevel (prec_of e) = 12"
    and step: "\<And>next r. parse_unary next (t # r) = rbind (parse_unary next r) (\<lambda>(x, r'). Inr (f x, r'))" "f a = e"
  shows "reads e"
proof (rule reads_text)
  fix n rest
  assume n: "length (text_toks e @ rest) \<le> n" and rest: "follows (plevel (prec_of e)) rest"
  have "level 12 (parse_at n) (toks p a @ rest) = tail 12 (parse_at n) a rest"
    using a e n rest by (intro readsD) (auto simp: text_level_def plevel_def)
  then show "level (plevel (prec_of e)) (parse_at n) (text_toks e @ rest) = tail (plevel (prec_of e)) (parse_at n) e rest"
    by (simp add: e step tail_def loop_op_def del: parse_unary.simps)
qed (simp add: e)

lemma prefix_steps:
  "parse_unary next (TokIdent ''not'' # r) = rbind (parse_unary next r) (\<lambda>(x, r'). Inr (Unary UNot x, r'))"
  "parse_unary next (TokMinus # r) = rbind (parse_unary next r) (\<lambda>(x, r'). Inr (Unary UNeg x, r'))"
  "parse_unary next (TokIdent ''pre'' # r) = rbind (parse_unary next r) (\<lambda>(x, r'). Inr (Pre x, r'))"
  by (simp_all add: e_not_def e_neg_def)

subsection \<open>Binary operators\<close>

definition precs :: "nat list" where
  "precs = [5, 15, 16, 18, 20, 25, 30, 40, 50, 80, 90, 100]"

lemma prec_values: "prec_of e \<in> set precs"
proof (cases e)
  case (Binary b l r)
  then show ?thesis by (cases b) (auto simp: precs_def)
qed (auto simp: precs_def)

lemma plevel_steps:
  assumes "p \<in> set precs" "15 \<le> p" "p \<le> 50" "m \<in> set precs" "p < m"
  shows "Suc (plevel p) \<le> plevel m"
proof -
  have "list_all (\<lambda>p. list_all (\<lambda>m. 15 \<le> p \<and> p \<le> 50 \<and> p < m \<longrightarrow> Suc (plevel p) \<le> plevel m) precs) precs"
    by code_simp
  with assms show ?thesis by (simp add: list_all_iff)
qed

lemma text_level_left: "p \<in> set precs \<Longrightarrow> 15 \<le> p \<Longrightarrow> p \<le> 50 \<Longrightarrow> plevel p \<le> text_level p e"
  using plevel_steps [OF _ _ _ prec_values, of p e] plevel_le [of p]
  by (cases "p = prec_of e") (auto simp: text_level_def)

lemma text_level_right:
  "p \<in> set precs \<Longrightarrow> 15 \<le> p \<Longrightarrow> p \<le> 50 \<Longrightarrow> Suc (plevel p) \<le> text_level (p + 1) e"
  using plevel_steps [OF _ _ _ prec_values, of p e]
  by (auto simp: text_level_def) (auto simp: plevel_def)

lemma text_level_strict:
  "p \<in> set precs \<Longrightarrow> 15 \<le> p \<Longrightarrow> p \<le> 50 \<Longrightarrow> prec_of e \<noteq> p \<Longrightarrow> Suc (plevel p) \<le> text_level p e"
  using plevel_steps [OF _ _ _ prec_values, of p e]
  by (auto simp: text_level_def) (auto simp: plevel_def)

lemma level_bounded:
  assumes "k \<le> 13" "0 < k"
  shows "bounded_expr (level k (parse_at n)) (Suc n)"
proof -
  have "k \<in> {1, 2, 3, 4, 5, 6, 7, 8, 9, 10, 11, 12, 13}" using assms by simp presburger
  then show ?thesis
    by (elim insertE emptyE)
      (simp_all add: nested.parse_when_bounded nested.parse_implies_bounded nested.or_bounded nested.and_bounded
        nested.bit_or_bounded nested.bit_xor_bounded nested.bit_and_bounded nested.parse_cmp_bounded
        nested.shift_bounded nested.add_bounded nested.mul_bounded nested.postfix_bounded
        bounded_expr.unary_bounded [OF nested.postfix_bounded])
qed

text \<open>A left-associative operator: the loop of its level is entered with the left operand.\<close>

lemma reads_left:
  assumes l: "reads l" and r: "reads r" and b: "bit_op_name b = None"
    and k: "k = plevel (snd (bin_op_syntax b))" "loop_op k = Some ops" "ops (op_tok b) = Some b" "tok_level (op_tok b) = Suc k"
  shows "reads (Binary b l r)"
proof (rule reads_text)
  fix n rest
  let ?p = "snd (bin_op_syntax b)"
  assume n: "length (text_toks (Binary b l r) @ rest) \<le> n" and "follows (plevel (prec_of (Binary b l r))) rest"
  then have rest: "follows k rest" "plevel (prec_of (Binary b l r)) = k" using b k(1) by auto
  have k': "k \<in> {3, 4, 10, 11}" using k(1,2) b by (cases b) (auto simp: plevel_def loop_op_def)
  then have loop: "has_loop k" "k \<noteq> 1" "k \<noteq> 13" "Suc k \<le> 13" by (auto simp: has_loop_def)
  let ?q = "parse_at n" and ?r = "toks (?p + 1) r @ rest"
  have p: "?p \<in> set precs" "15 \<le> ?p" "?p \<le> 50" using b by (cases b; simp add: precs_def)+
  have left: "level k ?q (toks ?p l @ op_tok b # ?r) = tail k ?q l (op_tok b # ?r)"
    using l n k text_level_left [OF p, of l] loop by (intro readsD) (auto simp: follows_def)
  have "level (Suc k) ?q ?r = tail (Suc k) ?q r rest"
    using r n text_level_right [OF p, of r] k(1) rest(1)
    by (intro readsD) (auto intro: follows_le)
  also have "tail (Suc k) ?q r rest = Inr (r, rest)"
    using rest loop by (intro tail_stops follows_stops)
  finally have right: "level (Suc k) ?q ?r = Inr (r, rest)" .
  note left
  also have "tail k ?q l (op_tok b # ?r) =
      binary_loop (length (op_tok b # ?r)) ops (level (Suc k) ?q) (Binary b l r) rest"
    using k(2,3) loop right by (simp add: tail_def)
  also have "\<dots> = tail k ?q (Binary b l r) rest"
    using k(2) loop bounded_expr.binary_loop_fuel [OF level_bounded [of "Suc k" n]]
    by (simp add: tail_def del: binary_loop.simps)
  finally show "level (plevel (prec_of (Binary b l r))) ?q (text_toks (Binary b l r) @ rest) =
      tail (plevel (prec_of (Binary b l r))) ?q (Binary b l r) rest"
    unfolding rest(2) by simp
qed (use b in \<open>cases b; simp add: plevel_def\<close>)

text \<open>The operand of a level without a loop is read at the next level, up to the operator.\<close>

lemma operand_read:
  assumes "reads e" "prec_of e \<noteq> p" "p \<in> set precs" "15 \<le> p" "p \<le> 50" "length (toks p e @ rest) \<le> n"
    and "stops (Suc (plevel p)) rest"
  shows "level (Suc (plevel p)) (parse_at n) (toks p e @ rest) = Inr (e, rest)"
proof -
  have "level (Suc (plevel p)) (parse_at n) (toks p e @ rest) = tail (Suc (plevel p)) (parse_at n) e rest"
    using assms text_level_strict by (intro readsD) (auto intro: stops_follows)
  with tail_stops [OF assms(7)] show ?thesis by simp
qed

lemma reads_comparison:
  assumes l: "reads l" "prec_of l \<noteq> 30" and r: "reads r" and b: "snd (bin_op_syntax b) = 30"
  shows "reads (Binary b l r)"
proof (rule reads_text)
  have op: "cmp_op (op_tok b) = Some b" "tok_level (op_tok b) = 9" "bit_op_name b = None"
    using b by (cases b; simp add: cmp_op_def tok_level_def)+
  fix n rest
  assume n: "length (text_toks (Binary b l r) @ rest) \<le> n" and "follows (plevel (prec_of (Binary b l r))) rest"
  then have rest: "stops 8 rest" using op(3) b by (simp add: plevel_def follows_def has_loop_def)
  let ?q = "parse_at n" and ?r = "toks 31 r @ rest"
  have "level (Suc (plevel 30)) ?q (toks 30 l @ op_tok b # ?r) = Inr (l, op_tok b # ?r)"
    using l n b op by (intro operand_read) (auto simp: precs_def plevel_def)
  then have left: "parse_shift ?q (toks 30 l @ op_tok b # ?r) = Inr (l, op_tok b # ?r)" by (simp add: plevel_def)
  have "level 9 ?q ?r = tail 9 ?q r rest"
    using r n b rest text_level_right [of 30 r]
    by (intro readsD) (auto simp: precs_def plevel_def intro: follows_le stops_follows)
  also have "\<dots> = Inr (r, rest)" by (rule tail_stops) (rule stops_mono [OF rest], simp)
  finally have "parse_cmp ?q (toks 30 l @ op_tok b # ?r) = Inr (Binary b l r, rest)"
    by (simp add: parse_cmp_def left op)
  with tail_stops [OF rest] show "level (plevel (prec_of (Binary b l r))) ?q (text_toks (Binary b l r) @ rest) =
      tail (plevel (prec_of (Binary b l r))) ?q (Binary b l r) rest"
    by (simp add: b op plevel_def)
qed (use b in \<open>cases b; simp add: plevel_def\<close>)

lemma reads_implies:
  assumes l: "reads l" "prec_of l \<noteq> 18" and r: "reads r"
  shows "reads (Binary BImplies l r)"
proof (rule reads_text)
  fix n rest
  assume n: "length (text_toks (Binary BImplies l r) @ rest) \<le> n" and "follows (plevel (prec_of (Binary BImplies l r))) rest"
  then have rest: "stops 2 rest" by (simp add: plevel_def follows_def has_loop_def)
  let ?q = "parse_at n" and ?r = "toks 19 r @ rest"
  have "level (Suc (plevel 18)) ?q (toks 18 l @ TokFatArrow # ?r) = Inr (l, TokFatArrow # ?r)"
    using l n by (intro operand_read) (auto simp: precs_def plevel_def tok_level_def)
  then have left: "parse_or ?q (toks 18 l @ TokFatArrow # ?r) = Inr (l, TokFatArrow # ?r)" by (simp add: plevel_def)
  have "level 2 ?q ?r = tail 2 ?q r rest"
    using r n rest text_level_right [of 18 r]
    by (intro readsD) (auto simp: precs_def plevel_def intro: stops_follows)
  also have "\<dots> = Inr (r, rest)" by (rule tail_stops [OF rest])
  finally have "implies_chain (Suc (length ?r)) (parse_or ?q) ?r = Inr (r, rest)"
    by (simp add: parse_implies_def del: implies_chain.simps)
  then have right: "implies_chain m (parse_or ?q) ?r = Inr (r, rest)" if "length ?r < m" for m
    using bounded_expr.implies_fuel [OF nested.or_bounded that, of "Suc (length ?r)"] by simp
  have "parse_implies ?q (toks 18 l @ TokFatArrow # ?r) = Inr (Binary BImplies l r, rest)"
    unfolding parse_implies_def
    by (subst implies_chain.simps) (simp add: left right e_implies_def del: implies_chain.simps)
  with tail_stops [OF rest] show "level (plevel (prec_of (Binary BImplies l r))) ?q (text_toks (Binary BImplies l r) @ rest) =
      tail (plevel (prec_of (Binary BImplies l r))) ?q (Binary BImplies l r) rest"
    by (simp add: plevel_def)
qed (simp add: plevel_def)

lemma reads_when:
  assumes a: "reads a" and clock: "clock \<noteq> ''not''"
  shows "reads (When a clock on)"
proof (rule reads_text)
  fix n rest
  assume n: "length (text_toks (When a clock on) @ rest) \<le> n"
  let ?q = "parse_at n" and ?r = "TokIdent ''when'' # (if on then [] else [TokIdent ''not'']) @ TokIdent clock # rest"
  have "level 1 ?q (toks 16 a @ ?r) = tail 1 ?q a ?r"
    using a n text_level_left [of 16 a]
    by (intro readsD) (auto simp: precs_def plevel_def follows_def has_loop_def)
  also have "\<dots> = when_loop (length ?r) (When a clock on) rest"
    using clock by (simp add: tail_def del: when_loop.simps) (simp add: when_loop.simps(2) [where n = "Suc _"] del: when_loop.simps)
  also have "\<dots> = tail 1 ?q (When a clock on) rest"
    unfolding tail_def by (simp del: when_loop.simps) (intro when_loop_fuel conjI impI; simp)
  finally show "level (plevel (prec_of (When a clock on))) ?q (text_toks (When a clock on) @ rest) =
      tail (plevel (prec_of (When a clock on))) ?q (When a clock on) rest"
    by (simp add: plevel_def)
qed (simp add: plevel_def)

lemma reads_arrow:
  assumes i: "reads i" "prec_of i \<noteq> 15" and b: "reads b"
  shows "reads (Arrow i b)"
proof (rule reads_text)
  fix n rest
  assume n: "length (text_toks (Arrow i b) @ rest) \<le> n" and "follows (plevel (prec_of (Arrow i b))) rest"
  then have rest: "stops 0 rest" by (simp add: plevel_def follows_def has_loop_def)
  let ?q = "parse_at n" and ?r = "toks 14 b @ rest"
  have "level (Suc (plevel 15)) ?q (toks 15 i @ TokArrow # ?r) = Inr (i, TokArrow # ?r)"
    using i n by (intro operand_read) (auto simp: precs_def plevel_def tok_level_def)
  moreover have "parse_at n ?r = Inr (b, rest)"
    using b n rest by (intro reads_nested) auto
  ultimately have "parse_arrow ?q (toks 15 i @ TokArrow # ?r) = Inr (Arrow i b, rest)"
    by (simp add: parse_arrow_def plevel_def)
  with tail_stops [OF rest] show "level (plevel (prec_of (Arrow i b))) ?q (text_toks (Arrow i b) @ rest) =
      tail (plevel (prec_of (Arrow i b))) ?q (Arrow i b) rest"
    by (simp add: plevel_def)
qed (simp add: plevel_def)

lemma reads_binary:
  assumes "reads l" "reads r" "bit_op_name b = None"
    and "snd (bin_op_syntax b) \<in> {18, 30} \<Longrightarrow> prec_of l \<noteq> snd (bin_op_syntax b)"
  shows "reads (Binary b l r)"
proof -
  consider "snd (bin_op_syntax b) = 30" | "b = BImplies" | k ops where
    "k = plevel (snd (bin_op_syntax b))" "loop_op k = Some ops" "ops (op_tok b) = Some b" "tok_level (op_tok b) = Suc k"
    using assms(3) that
    by (cases b) (simp_all add: plevel_def loop_op_def or_op_def and_op_def add_op_def mul_op_def tok_level_def)
  then show ?thesis
  proof cases
    case 1
    with assms show ?thesis by (intro reads_comparison) auto
  next
    case 2
    with assms show ?thesis by (auto intro: reads_implies)
  next
    case 3
    show ?thesis by (rule reads_left [OF assms(1-3) 3])
  qed
qed

lemma reads_printable: "printable e \<Longrightarrow> reads e"
proof (induction e rule: expr_children_induct)
  case (step e)
  have sub: "reads c" if "c \<in> set (children e)" "printable c" for c
    using step.IH that by blast
  show ?case
  proof (cases e)
    case (Const lit)
    then show ?thesis by (simp add: reads_const)
  next
    case (Var s)
    with step.prems show ?thesis by (simp add: reads_var)
  next
    case (Unary u a)
    with step.prems sub have a: "reads a" by simp
    show ?thesis
    proof (cases u)
      case UNot
      show ?thesis unfolding Unary UNot
        by (rule reads_prefix [OF a _ _ _ prefix_steps(1), of 90]) (simp_all add: plevel_def)
    next
      case UNeg
      show ?thesis unfolding Unary UNeg
        by (rule reads_prefix [OF a _ _ _ prefix_steps(2), of 90]) (simp_all add: plevel_def)
    qed
  next
    case (Pre a)
    with step.prems sub have a: "reads a" by simp
    show ?thesis unfolding Pre
      by (rule reads_prefix [OF a _ _ _ prefix_steps(3), of 80]) (simp_all add: plevel_def)
  next
    case (Binary b l r)
    with step.prems sub show ?thesis by (auto intro!: reads_binary)
  next
    case (IfThenElse c t f)
    with step.prems sub show ?thesis by (auto intro!: reads_if)
  next
    case (Arrow i b)
    with step.prems sub show ?thesis by (auto intro!: reads_arrow)
  next
    case (Call node args)
    with step.prems have "make_call node args = Inr e" "is_name node" "\<And>x. x \<in> set args \<Longrightarrow> reads x"
      using sub by (auto simp: make_call_def list_all_iff)
    then show ?thesis unfolding Call by - (rule reads_call, auto)
  next
    case (Field b f)
    with step.prems sub show ?thesis by (auto intro!: reads_field)
  next
    case (Index b i)
    with step.prems sub show ?thesis by (auto intro!: reads_index)
  next
    case (Array items)
    with step.prems sub show ?thesis by (auto simp: list_all_iff intro!: reads_array)
  next
    case (Struct s fis)
    with step.prems sub show ?thesis by (auto simp: list_all_iff intro!: reads_struct)
  next
    case (Cast t a)
    with step.prems sub have "is_numeric t" "reads a" by auto
    then show ?thesis unfolding Cast
      by - (rule reads_call [OF _ cast_name cast_type_read], auto)
  next
    case (When a clock on)
    with step.prems sub show ?thesis by (auto intro!: reads_when)
  next
    case (Merge clock a b)
    with step.prems sub have "reads (Var clock)" "reads a" "reads b" by (auto intro: reads_var)
    then show ?thesis unfolding Merge
      by - (rule reads_call [where args = "[Var clock, a, b]" and f = "''merge''"],
        auto simp: make_call_def toks.simps)
  next
    case (Iterate k node i arrays)
    let ?args = "Var node # (case i of None \<Rightarrow> [] | Some x \<Rightarrow> [x]) @ arrays"
    have "reads x" if "x \<in> set ?args" for x
      using that Iterate step.prems sub by (auto simp: list_all_iff reads_var split: option.splits)
    moreover have "make_call (iter_name k) ?args = Inr e"
      using Iterate step.prems
      by (auto simp: make_call_def make_iterator_def iter_name_def length_Suc_conv split: option.splits)
    moreover have "text_toks e = TokIdent (iter_name k) # TokLParen # join_toks TokComma (map (toks 0) ?args) @ [TokRParen]"
      unfolding Iterate by (cases i) (simp_all add: toks.simps)
    moreover have "is_name (iter_name k)" "prec_of e = 100" using Iterate by (cases k; simp add: iter_name_def)+
    ultimately show ?thesis by - (rule reads_call)
  qed (use step.prems in simp)
qed

theorem parse_format:
  assumes "printable e"
  shows "parse_expr (format_expr e) = Inr e"
proof -
  have "parse_at (Suc (length (toks 0 e))) (toks 0 e @ []) = Inr (e, [])"
    by (rule reads_nested [OF reads_printable [OF assms]]) simp_all
  then show ?thesis
    by (simp add: parse_expr_def tokenize_format [OF lexes_printable [OF assms]] map_err_def parse_tokens_def)
qed

end
