(* ===== verification/Round_Trip_Limits.thy ===== *)
theory Round_Trip_Limits
  imports Round_Trip
begin

text \<open>
  What is read back for the operators that the printer does not write as it means them: a comparison or an
  implication as the left operand of another one, which gets no brackets, the bit operators, which are
  written as calls, and negative integer literals.
\<close>

lemma climb_other:
  assumes top: "level K q ts = Inr (e, rest)" and k: "k \<le> K" "K \<le> 12"
    and rest: "\<And>j. k \<le> j \<Longrightarrow> j < K \<Longrightarrow> rest = [] \<or> tok_level (hd rest) \<noteq> Suc j"
  shows "level k q ts = Inr (e, rest)"
  using k(1) rest
proof (induction k rule: inc_induct)
  case (step m)
  have "level (Suc m) q ts = Inr (e, rest)" using step.prems by (intro step.IH) auto
  then have "level m q ts = tail m q e rest" using step k(2) by (intro climb_step) auto
  with step.prems [of m] step.hyps show ?case by (simp add: tail_other)
qed (rule top)

section \<open>Comparisons\<close>

lemma comparison_op:
  "snd (bin_op_syntax b) = 30 \<Longrightarrow> cmp_op (op_tok b) = Some b \<and> tok_level (op_tok b) = 9 \<and> bit_op_name b = None"
  by (cases b) (simp_all add: cmp_op_def tok_level_def)

text \<open>A comparison is read up to the next comparison operator.\<close>

lemma comparison_read:
  assumes a: "reads a" "prec_of a \<noteq> 30" and b: "reads b" and p: "snd (bin_op_syntax p) = 30"
    and n: "length (toks 30 a @ op_tok p # toks 31 b @ rest) \<le> n" and rest: "stops 9 rest"
  shows "level 8 (parse_at n) (toks 30 a @ op_tok p # toks 31 b @ rest) = Inr (Binary p a b, rest)"
proof -
  note op = comparison_op [OF p]
  let ?q = "parse_at n" and ?r = "toks 31 b @ rest"
  have "level (Suc (plevel 30)) ?q (toks 30 a @ op_tok p # ?r) = Inr (a, op_tok p # ?r)"
    using a n op by (intro operand_read) (auto simp: precs_def plevel_def)
  then have left: "parse_shift ?q (toks 30 a @ op_tok p # ?r) = Inr (a, op_tok p # ?r)" by (simp add: plevel_def)
  have "level 9 ?q ?r = tail 9 ?q b rest"
    using b n rest text_level_right [of 30 b]
    by (intro readsD) (auto simp: precs_def plevel_def intro: stops_follows)
  also have "\<dots> = Inr (b, rest)" by (rule tail_stops [OF rest])
  finally show ?thesis by (simp add: parse_cmp_def left op)
qed

lemma comparison_chain_rejected:
  assumes printable: "printable a" "printable b" "printable c" "prec_of a \<noteq> 30"
    and ops: "snd (bin_op_syntax p) = 30" "snd (bin_op_syntax q) = 30"
  shows "parse_expr (format_expr (Binary q (Binary p a b) c)) =
     Inl (Syntax (Trailing (join_with '' '' (map describe (op_tok q # toks 31 c)))))"
proof -
  let ?e = "Binary q (Binary p a b) c" and ?rest = "op_tok q # toks 31 c"
  note op = comparison_op [OF ops(1)] comparison_op [OF ops(2)]
  have "lexes_as ?e"
    using printable op by (simp add: lexes_as_binary [OF lexes_as_binary] lexes_printable del: printable.simps)
  moreover have ts: "toks 0 ?e = toks 30 a @ op_tok p # toks 31 b @ ?rest"
    using ops op by (simp add: toks.simps)
  moreover have "level 8 (parse_at (length (toks 0 ?e))) (toks 0 ?e) = Inr (Binary p a b, ?rest)"
    unfolding ts using printable ops op by (intro comparison_read reads_printable) simp_all
  then have "level 0 (parse_at (length (toks 0 ?e))) (toks 0 ?e) = Inr (Binary p a b, ?rest)"
    by (rule climb_other) (use op in auto)
  ultimately show ?thesis
    by (simp add: parse_expr_def tokenize_format map_err_def parse_tokens_def)
qed

section \<open>Implications\<close>

lemma implication_step:
  assumes e: "reads e" and p: "p = 19 \<or> p = 18 \<and> prec_of e \<noteq> 18"
    and n: "length (toks p e @ TokFatArrow # ts) \<le> n"
  shows "implies_chain (Suc m) (parse_or (parse_at n)) (toks p e @ TokFatArrow # ts) =
     rbind (implies_chain m (parse_or (parse_at n)) ts) (\<lambda>(rhs, r). Inr (e_implies e rhs, r))"
proof -
  have "Suc (plevel 18) \<le> text_level p e"
    using p text_level_strict [of 18 e] text_level_right [of 18 e] by (auto simp: precs_def)
  then have "level 3 (parse_at n) (toks p e @ TokFatArrow # ts) = tail 3 (parse_at n) e (TokFatArrow # ts)"
    using e n by (intro readsD) (auto simp: plevel_def follows_def has_loop_def tok_level_def)
  also have "\<dots> = Inr (e, TokFatArrow # ts)" by (rule tail_stops) (simp add: tok_level_def)
  finally show ?thesis by (subst implies_chain.simps) (simp del: implies_chain.simps)
qed

lemma implication_last:
  assumes e: "reads e" and n: "length (toks 19 e) \<le> n"
  shows "implies_chain (Suc m) (parse_or (parse_at n)) (toks 19 e) = Inr (e, [])"
proof -
  have "level 3 (parse_at n) (toks 19 e @ []) = tail 3 (parse_at n) e []"
    using e n text_level_right [of 18 e] by (intro readsD) (auto simp: plevel_def precs_def follows_def)
  also have "\<dots> = Inr (e, [])" by (rule tail_stops) simp
  finally show ?thesis by simp
qed

lemma implication_chain_regrouped:
  assumes printable: "printable a" "printable b" "printable c" "prec_of a \<noteq> 18"
  shows "parse_expr (format_expr (e_implies (e_implies a b) c)) = Inr (e_implies a (e_implies b c))"
proof -
  let ?e = "e_implies (e_implies a b) c"
  have "lexes_as ?e" unfolding e_implies_def
    using printable by (simp add: lexes_as_binary [OF lexes_as_binary] lexes_printable del: printable.simps)
  moreover have ts: "toks 0 ?e = toks 18 a @ TokFatArrow # toks 19 b @ TokFatArrow # toks 19 c"
    by (simp add: toks.simps e_implies_def)
  have "level 2 (parse_at (length (toks 0 ?e))) (toks 0 ?e) = Inr (e_implies a (e_implies b c), [])"
    unfolding ts using printable
    by (simp add: parse_implies_def implication_step implication_last reads_printable del: implies_chain.simps)
  then have "level 0 (parse_at (length (toks 0 ?e))) (toks 0 ?e) = Inr (e_implies a (e_implies b c), [])"
    by (rule climb_other) auto
  ultimately show ?thesis
    by (simp add: parse_expr_def tokenize_format map_err_def parse_tokens_def)
qed

section \<open>Bit operators and negative literals\<close>

text \<open>A bit operator is written as a call of a function, and read back as that call.\<close>

lemma bit_operator_read_as_call:
  assumes "bit_op_name b = Some f" "printable l" "printable r"
  shows "parse_expr (format_expr (Binary b l r)) = Inr (Call f [l, r])"
proof -
  have "format_expr (Binary b l r) = format_expr (Call f [l, r])"
    using assms(1) by (simp add: format_expr_def format_expr_prec.simps)
  moreover have "is_name f \<and> f \<notin> {''map'', ''fold'', ''merge''} \<and> numeric_type_name f = None"
    using assms(1)
    by (cases b; simp; elim subst)
      (simp_all add: numeric_type_name_def is_name_def ident_def is_ident_char_def is_alnum_def is_alpha_def)
  then have "printable (Call f [l, r])" using assms(2,3) by simp
  ultimately show ?thesis using parse_format by simp
qed

end
