(* ===== verification/Sim_Input.thy ===== *)
theory Sim_Input
  imports Values Parser
begin

text \<open>
  Typed simulation inputs (\<open>ol_sim/src/input.rs\<close>): the size bound and the schema of an input type, the
  neutral placeholders, and the parsers that read a value of a declared type from text or from JSON.
  \<open>serde_json::from_str\<close> is the parameter \<open>from_json\<close>. A path or a message is a list of UTF-8 bytes.
\<close>

section \<open>Types\<close>

definition MAX_DEPTH :: nat where "MAX_DEPTH = 64"
definition MAX_SCHEMA_NODES :: nat where "MAX_SCHEMA_NODES = 10000"
definition MAX_PLACEHOLDER_VALUES :: nat where "MAX_PLACEHOLDER_VALUES = 10000"

definition tick :: "string \<Rightarrow> string" where
  "tick s = [CHR 0x60] @ s @ [CHR 0x60]"

definition in_input :: "string \<Rightarrow> string \<Rightarrow> string" where
  "in_input path msg = ''input '' @ tick path @ '': '' @ msg"

definition depth_ok :: "nat \<Rightarrow> string \<Rightarrow> (string, unit) result" where
  "depth_ok depth path =
     (if MAX_DEPTH < depth
      then Inl (in_input path (''type nesting exceeds '' @ nat_digits MAX_DEPTH @
        ''; recursive or deeper input types are unsupported''))
      else Inr ())"

fun type_name :: "ty \<Rightarrow> string" where
  "type_name TBool = ''bool''"
| "type_name TInt8 = ''int8''"
| "type_name TInt16 = ''int16''"
| "type_name TInt32 = ''int32''"
| "type_name TInt64 = ''int64''"
| "type_name TUint8 = ''uint8''"
| "type_name TUint16 = ''uint16''"
| "type_name TUint32 = ''uint32''"
| "type_name TUint64 = ''uint64''"
| "type_name TFloat32 = ''float32''"
| "type_name TFloat64 = ''float64''"
| "type_name TChar = ''char''"
| "type_name (TArray elem len) = type_name elem @ ''['' @ nat_digits (unat len) @ '']''"
| "type_name (TNamed name) = name"

definition named :: "string \<Rightarrow> project \<Rightarrow> string \<Rightarrow> (string, type_body) result" where
  "named name p path =
     ok_or (in_input path (''named type '' @ tick name @ '' is not defined''))
       (map_option td_body (find_type p name))"

text \<open>Nested types end because every recursive call is one level deeper and the depth is checked first.\<close>

lemma depth_ok_Inr: "depth_ok depth path = Inr u \<longleftrightarrow> depth \<le> MAX_DEPTH"
  by (simp add: depth_ok_def)

definition too_large :: "string \<Rightarrow> string" where
  "too_large path =
     ''simulation type '' @ tick path @ '': initialized struct/array shape exceeds '' @
     nat_digits MAX_PLACEHOLDER_VALUES @
     '' values; this input, local or output type is too large for interactive simulation''"

text \<open>The sizes of the fields of a record, added up to the bound: \<open>checked_add\<close> and the filter.\<close>

fun add_sizes :: "(record_field \<Rightarrow> (string, nat) result) \<Rightarrow> string \<Rightarrow> record_field list \<Rightarrow> nat \<Rightarrow> (string, nat) result" where
  "add_sizes size_of msg [] n = Inr n"
| "add_sizes size_of msg (f # fs) n =
     rbind (size_of f) (\<lambda>k.
       if n + k < 2 ^ 64 \<and> n + k \<le> MAX_PLACEHOLDER_VALUES then add_sizes size_of msg fs (n + k) else Inl msg)"

lemma add_sizes_cong [fundef_cong]:
  "fs = gs \<Longrightarrow> n = m \<Longrightarrow> msg = msg' \<Longrightarrow> (\<And>f. f \<in> set gs \<Longrightarrow> s f = t f) \<Longrightarrow>
     add_sizes s msg fs n = add_sizes t msg' gs m"
proof (induction gs arbitrary: fs n m)
  case (Cons g gs)
  then have "s g = t g" "\<And>k. add_sizes s msg gs k = add_sizes t msg' gs k" by auto
  with Cons.prems(1,2,3) show ?case by (auto intro!: rbind_cong simp: if_distrib)
qed simp

function shape_size :: "ty \<Rightarrow> project \<Rightarrow> string \<Rightarrow> nat \<Rightarrow> (string, nat) result" where
  "shape_size t p path depth =
     rbind (depth_ok depth path) (\<lambda>_.
     rbind (case t of
        TArray elem len \<Rightarrow>
          rbind (shape_size elem p (path @ ''[]'') (depth + 1)) (\<lambda>n.
            if n * unat len + 1 < 2 ^ 64 then Inr (n * unat len + 1) else Inl (too_large path))
      | TNamed name \<Rightarrow>
          rbind (named name p path) (\<lambda>body.
            case body of
              EnumBody e \<Rightarrow> Inr 1
            | AliasBody _ target \<Rightarrow> shape_size target p path (depth + 1)
            | RecordBody _ fs \<Rightarrow>
                add_sizes (\<lambda>f. shape_size (rf_ty f) p (path @ ''.'' @ rf_name f) (depth + 1)) (too_large path) fs 1)
      | _ \<Rightarrow> Inr 1)
     (\<lambda>n. if MAX_PLACEHOLDER_VALUES < n then Inl (too_large path) else Inr n))"
  by pat_completeness auto
termination
  by (relation "measure (\<lambda>(t, p, path, depth). Suc MAX_DEPTH - depth)") (auto simp: depth_ok_Inr)

declare shape_size.simps [simp del]

definition simulation_type_size :: "ty \<Rightarrow> project \<Rightarrow> (string, nat) result" where
  "simulation_type_size t p = shape_size t p (type_name t) 0"

section \<open>Schemas\<close>

definition take_budget :: "string \<Rightarrow> nat \<Rightarrow> (string, nat) result" where
  "take_budget msg budget = (if budget = 0 then Inl msg else Inr (budget - 1))"

definition schema_limit :: "string \<Rightarrow> string" where
  "schema_limit path =
     in_input path (''type inspection exceeds '' @ nat_digits MAX_SCHEMA_NODES @
       '' schema nodes; deeply repeated struct types are unsupported in the input inspector'')"

function schema :: "ty \<Rightarrow> project \<Rightarrow> string \<Rightarrow> nat \<Rightarrow> nat \<Rightarrow> (string, json \<times> nat) result" where
  "schema t p path depth budget =
     rbind (depth_ok depth path) (\<lambda>_.
     rbind (take_budget (schema_limit path) budget) (\<lambda>b.
       let label = JString (type_name t) in
       case t of
         TArray elem len \<Rightarrow>
           rbind (schema elem p (path @ ''[]'') (depth + 1) b) (\<lambda>(j, b').
             Inr (JObject [(''kind'', JString ''array''), (''type'', label), (''len'', JInt (int (unat len))), (''elem'', j)], b'))
       | TNamed name \<Rightarrow>
           rbind (named name p path) (\<lambda>body.
             case body of
               EnumBody e \<Rightarrow>
                 Inr (JObject [(''kind'', JString ''enum''), (''type'', label), (''name'', JString name),
                   (''variants'', JArray (map JString (en_variants e)))], b)
             | AliasBody _ target \<Rightarrow>
                 rbind (schema target p path (depth + 1) b) (\<lambda>(j, b').
                   Inr (JObject [(''kind'', JString ''alias''), (''type'', label), (''name'', JString name), (''target'', j)], b'))
             | RecordBody _ fs \<Rightarrow>
                 rbind (try_thread (\<lambda>f c.
                     rbind (schema (rf_ty f) p (path @ ''.'' @ rf_name f) (depth + 1) c) (\<lambda>(j, c').
                       Inr (JObject [(''name'', JString (rf_name f)), (''type'', JString (type_name (rf_ty f))), (''schema'', j)], c')))
                   fs b) (\<lambda>(js, b').
                   Inr (JObject [(''kind'', JString ''struct''), (''type'', label), (''name'', JString name), (''fields'', JArray js)], b')))
       | _ \<Rightarrow> Inr (JObject [(''kind'', JString ''scalar''), (''type'', label)], b)))"
  by pat_completeness auto
termination
  by (relation "measure (\<lambda>(t, p, path, depth, budget). Suc MAX_DEPTH - depth)") (auto simp: depth_ok_Inr)

declare schema.simps [simp del]

definition input_schema :: "ty \<Rightarrow> project \<Rightarrow> (string, json) result" where
  "input_schema t p = rbind (schema t p (type_name t) 0 MAX_SCHEMA_NODES) (\<lambda>(j, b). Inr j)"

section \<open>Placeholders\<close>

definition neutral_names :: "string list" where
  "neutral_names = [''DISARMED'', ''NONE'', ''OFF'', ''UNKNOWN'', ''INVALID'', ''UNAVAILABLE'']"

definition is_neutral :: "string \<Rightarrow> bool" where
  "is_neutral v \<longleftrightarrow> map to_upper (rev (takeWhile (\<lambda>c. c \<noteq> CHR ''_'') (rev v))) \<in> set neutral_names"

definition placeholder_limit :: "string \<Rightarrow> string" where
  "placeholder_limit path =
     in_input path (''generated placeholders are limited to '' @ nat_digits MAX_PLACEHOLDER_VALUES @
       '' values; enter this input explicitly'')"

definition insert_all :: "('k::linorder \<times> 'v) list \<Rightarrow> ('k, 'v) btree" where
  "insert_all kvs = fold (\<lambda>(k, v). bt_insert k v) kvs []"

function placeholder :: "ty \<Rightarrow> project \<Rightarrow> string \<Rightarrow> nat \<Rightarrow> nat \<Rightarrow> (string, val \<times> nat) result" where
  "placeholder t p path depth budget =
     rbind (depth_ok depth path) (\<lambda>_.
     rbind (take_budget (placeholder_limit path) budget) (\<lambda>b.
       case t of
         TBool \<Rightarrow> Inr (VBool False, b)
       | TFloat32 \<Rightarrow> Inr (VFloat32 (flt_of_int F32 0), b)
       | TFloat64 \<Rightarrow> Inr (VFloat (flt_of_int F64 0), b)
       | TArray elem len \<Rightarrow>
           if b < unat len
           then Inl (in_input path (''array length '' @ nat_digits (unat len) @
             '' exceeds the remaining generated placeholder budget of '' @ nat_digits b @ ''; enter this input explicitly''))
           else
             rbind (try_thread (\<lambda>i c. placeholder elem p (path @ ''['' @ nat_digits i @ '']'') (depth + 1) c) [0..<unat len] b)
               (\<lambda>(vs, b'). Inr (VArray vs, b'))
       | TNamed name \<Rightarrow>
           rbind (named name p path) (\<lambda>body.
             case body of
               AliasBody _ target \<Rightarrow> placeholder target p path (depth + 1) b
             | RecordBody _ fs \<Rightarrow>
                 rbind (try_thread (\<lambda>f c.
                     rbind (placeholder (rf_ty f) p (path @ ''.'' @ rf_name f) (depth + 1) c) (\<lambda>(v, c').
                       Inr ((rf_name f, v), c'))) fs b)
                   (\<lambda>(kvs, b'). Inr (VRecord (insert_all kvs), b'))
             | EnumBody e \<Rightarrow>
                 (case filter is_neutral (en_variants e) of
                    [v] \<Rightarrow> Inr (VEnum v, b)
                  | _ \<Rightarrow> Inl (in_input path (''choose a variant of enum '' @ tick name @ '' ('' @
                      join_with '', '' (en_variants e) @ ''); no unambiguous neutral placeholder is defined''))))
       | _ \<Rightarrow> Inr (VInt 0, b)))"
  by pat_completeness auto
termination
  by (relation "measure (\<lambda>(t, p, path, depth, budget). Suc MAX_DEPTH - depth)") (auto simp: depth_ok_Inr)

declare placeholder.simps [simp del]

definition input_placeholder :: "ty \<Rightarrow> project \<Rightarrow> (string, val) result" where
  "input_placeholder t p =
     rbind (placeholder t p (type_name t) 0 MAX_PLACEHOLDER_VALUES) (\<lambda>(v, b). Inr v)"

section \<open>Values from text\<close>

definition expected :: "string \<Rightarrow> ty \<Rightarrow> string \<Rightarrow> string" where
  "expected path t detail = in_input path (''expected '' @ type_name t @ ''; '' @ detail)"

definition int_range :: "ty \<Rightarrow> (int \<times> int) option" where
  "int_range t =
     (case t of
        TInt8 \<Rightarrow> Some (- 128, 127)
      | TInt16 \<Rightarrow> Some (- 32768, 32767)
      | TInt32 \<Rightarrow> Some (- (2 ^ 31), 2 ^ 31 - 1)
      | TInt64 \<Rightarrow> Some (- (2 ^ 63), 2 ^ 63 - 1)
      | TUint8 \<Rightarrow> Some (0, 255)
      | TUint16 \<Rightarrow> Some (0, 65535)
      | TUint32 \<Rightarrow> Some (0, 2 ^ 32 - 1)
      | TUint64 \<Rightarrow> Some (0, 2 ^ 63 - 1)
      | _ \<Rightarrow> None)"

definition checked_int :: "i64 \<Rightarrow> ty \<Rightarrow> string \<Rightarrow> (string, val) result" where
  "checked_int v t path =
     (case int_range t of
        Some (lo, hi) \<Rightarrow>
          if sint v < lo \<or> hi < sint v
          then Inl (expected path t (int_digits (sint v) @ '' is outside the declared range; enter an integer from '' @
            int_digits lo @ '' to '' @ int_digits hi))
          else Inr (VInt v)
      | None \<Rightarrow> Inr (VInt v))"

text \<open>A finite number, which is the only kind an input may have.\<close>

definition finite_flt :: "flt \<Rightarrow> bool" where
  "finite_flt x \<longleftrightarrow> (case x of FFin s m e \<Rightarrow> True | _ \<Rightarrow> False)"

definition finite_or :: "string \<Rightarrow> flt option \<Rightarrow> (string, flt) result" where
  "finite_or msg x = (case x of Some v \<Rightarrow> if finite_flt v then Inr v else Inl msg | None \<Rightarrow> Inl msg)"

text \<open>
  \<open>split_items\<close>: the items between semicolons that are outside quotes and brackets. \<open>cur\<close> is the text since
  the last separator.
\<close>

definition mismatched :: "string \<Rightarrow> string" where
  "mismatched path = in_input path ''mismatched struct/array brackets''"

definition unclosed :: "string \<Rightarrow> string" where
  "unclosed path = in_input path ''unclosed quote or struct/array bracket''"

fun split_from :: "string \<Rightarrow> string \<Rightarrow> bool \<Rightarrow> bool \<Rightarrow> string \<Rightarrow> string \<Rightarrow> (string, string list) result" where
  "split_from path stack quoted escaped cur [] =
     (if quoted \<or> stack \<noteq> [] then Inl (unclosed path) else Inr [trim cur])"
| "split_from path stack quoted escaped cur (c # cs) =
     (if quoted then
        (if escaped then split_from path stack True False (cur @ [c]) cs
         else if c = CHR 0x5C then split_from path stack True True (cur @ [c]) cs
         else if c = CHR 0x22 then split_from path stack False False (cur @ [c]) cs
         else split_from path stack True False (cur @ [c]) cs)
      else if c = CHR 0x22 then split_from path stack True escaped (cur @ [c]) cs
      else if c = CHR ''['' \<or> c = CHR ''{'' then split_from path (c # stack) False escaped (cur @ [c]) cs
      else if c = CHR '']'' \<or> c = CHR ''}'' then
        (case stack of
           d # st \<Rightarrow>
             if d = (if c = CHR '']'' then CHR ''['' else CHR ''{'')
             then split_from path st False escaped (cur @ [c]) cs
             else Inl (mismatched path)
         | [] \<Rightarrow> Inl (mismatched path))
      else if c = CHR '';'' \<and> stack = [] then
        rbind (split_from path [] False escaped [] cs) (\<lambda>parts. Inr (trim cur # parts))
      else split_from path stack False escaped (cur @ [c]) cs)"

definition split_items :: "string \<Rightarrow> string \<Rightarrow> (string, string list) result" where
  "split_items inner path =
     (if trim inner = [] then Inr [] else split_from path [] False False [] inner)"

text \<open>\<open>strip_prefix\<close> and \<open>strip_suffix\<close> with a bracket each.\<close>

definition strip_brackets :: "char \<Rightarrow> char \<Rightarrow> string \<Rightarrow> string option" where
  "strip_brackets l r s =
     (case s of
        c # cs \<Rightarrow> if c = l \<and> cs \<noteq> [] \<and> last cs = r then Some (butlast cs) else None
      | [] \<Rightarrow> None)"

definition split_once :: "char \<Rightarrow> string \<Rightarrow> (string \<times> string) option" where
  "split_once c s =
     (case dropWhile (\<lambda>d. d \<noteq> c) s of
        [] \<Rightarrow> None
      | x # rest \<Rightarrow> Some (takeWhile (\<lambda>d. d \<noteq> c) s, rest))"

text \<open>The texts of the fields of a struct, by name.\<close>

fun read_entries ::
  "string \<Rightarrow> ty \<Rightarrow> string \<Rightarrow> record_field list \<Rightarrow> string list \<Rightarrow> (string, string) btree \<Rightarrow>
   (string, (string, string) btree) result" where
  "read_entries path t name fs [] m = Inr m"
| "read_entries path t name fs (item # items) m =
     (case split_once (CHR ''='') item of
        None \<Rightarrow> Inl (expected path t ''each struct field needs field=value'')
      | Some (k, v) \<Rightarrow>
          let key = trim k in
          if key \<notin> set (map rf_name fs) then
            Inl (''input '' @ tick (path @ ''.'' @ key) @ '': unexpected field in struct '' @ tick name)
          else if bt_get m key \<noteq> None then
            Inl (''input '' @ tick (path @ ''.'' @ key) @ '': duplicate field in struct '' @ tick name)
          else read_entries path t name fs items (bt_insert key (trim v) m))"

definition missing_field :: "string \<Rightarrow> string \<Rightarrow> record_field \<Rightarrow> string" where
  "missing_field path name f =
     in_input (path @ ''.'' @ rf_name f)
       (''missing required field of type '' @ type_name (rf_ty f) @ '' in struct '' @ tick name)"

section \<open>Values from JSON\<close>

definition json_kind :: "json \<Rightarrow> string" where
  "json_kind v =
     (case v of
        JNull \<Rightarrow> ''null'' | JBool b \<Rightarrow> ''Boolean'' | JInt i \<Rightarrow> ''number'' | JFloat x \<Rightarrow> ''number''
      | JString s \<Rightarrow> ''string'' | JArray vs \<Rightarrow> ''array'' | JObject fs \<Rightarrow> ''object'')"

definition j_as_bool :: "json \<Rightarrow> bool option" where
  "j_as_bool v = (case v of JBool b \<Rightarrow> Some b | _ \<Rightarrow> None)"

definition j_as_f64 :: "json \<Rightarrow> f64 option" where
  "j_as_f64 v = (case v of JInt i \<Rightarrow> Some (flt_of_int F64 i) | JFloat x \<Rightarrow> Some x | _ \<Rightarrow> None)"

definition j_as_i64 :: "json \<Rightarrow> i64 option" where
  "j_as_i64 v =
     (case v of JInt i \<Rightarrow> if - (2 ^ 63) \<le> i \<and> i < 2 ^ 63 then Some (word_of_int i) else None | _ \<Rightarrow> None)"

definition j_as_u64 :: "json \<Rightarrow> nat option" where
  "j_as_u64 v = (case v of JInt i \<Rightarrow> if 0 \<le> i \<and> i < 2 ^ 64 then Some (nat i) else None | _ \<Rightarrow> None)"

definition choose_variant :: "enum_def \<Rightarrow> string" where
  "choose_variant e = ''choose an enum variant: '' @ join_with '', '' (en_variants e)"

function parse_json :: "project \<Rightarrow> json \<Rightarrow> ty \<Rightarrow> string \<Rightarrow> nat \<Rightarrow> (string, val) result" where
  "parse_json p v t path depth =
     rbind (depth_ok depth path) (\<lambda>_.
     let wrong = expected path t (''got JSON '' @ json_kind v @ ''; use the declared field type'') in
     case t of
       TBool \<Rightarrow> ok_or wrong (map_option VBool (j_as_bool v))
     | TFloat32 \<Rightarrow>
         rbind (finite_or (expected path t ''JSON value must be a finite float32 number; strings, NaN, infinity and overflow are unsupported inputs'')
           (map_option (flt_to F32) (j_as_f64 v))) (\<lambda>x. Inr (VFloat32 x))
     | TFloat64 \<Rightarrow>
         rbind (finite_or (expected path t ''JSON value must be a finite float64 number; strings, NaN and infinity are unsupported inputs'')
           (j_as_f64 v)) (\<lambda>x. Inr (VFloat x))
     | TChar \<Rightarrow>
         (case j_as_u64 v of
            Some n \<Rightarrow> if n \<le> 255 then Inr (VInt (word_of_nat n))
              else Inl (expected path t ''JSON value must be a character byte from 0 to 255'')
          | None \<Rightarrow> Inl (expected path t ''JSON value must be a character byte from 0 to 255''))
     | TArray elem len \<Rightarrow>
         rbind (ok_or wrong (j_as_array v)) (\<lambda>vs.
           if length vs \<noteq> unat len
           then Inl (expected path t (''array requires '' @ nat_digits (unat len) @ '' elements, got '' @ nat_digits (length vs)))
           else rbind (try_map (\<lambda>(i, x). parse_json p x elem (path @ ''['' @ nat_digits i @ '']'') (depth + 1)) (enumerate 0 vs))
             (\<lambda>xs. Inr (VArray xs)))
     | TNamed name \<Rightarrow>
         rbind (named name p path) (\<lambda>body.
           case body of
             AliasBody _ target \<Rightarrow> parse_json p v target path (depth + 1)
           | EnumBody e \<Rightarrow>
               rbind (ok_or wrong (j_as_str v)) (\<lambda>s.
                 if s \<in> set (en_variants e) then Inr (VEnum s) else Inl (expected path t (choose_variant e)))
           | RecordBody _ fs \<Rightarrow>
               (case v of
                  JObject entries \<Rightarrow>
                    (case find (\<lambda>k. k \<notin> set (map rf_name fs)) (map fst entries) of
                       Some key \<Rightarrow> Inl (''input '' @ tick (path @ ''.'' @ key) @ '': unexpected field in struct '' @ tick name)
                     | None \<Rightarrow>
                         rbind (try_map (\<lambda>f.
                             rbind (ok_or (missing_field path name f) (j_get v (rf_name f))) (\<lambda>x.
                             rbind (parse_json p x (rf_ty f) (path @ ''.'' @ rf_name f) (depth + 1)) (\<lambda>y.
                             Inr (rf_name f, y)))) fs)
                           (\<lambda>kvs. Inr (VRecord (insert_all kvs))))
                | _ \<Rightarrow> Inl (expected path t (''struct requires a JSON object with named fields; got JSON '' @ json_kind v))))
     | _ \<Rightarrow>
         rbind (ok_or (expected path t ''JSON value must be an integer representable as signed 64-bit; strings, fractions and larger uint64 inputs are unsupported'')
           (j_as_i64 v)) (\<lambda>i. checked_int i t path))"
  by pat_completeness auto
termination
  by (relation "measure (\<lambda>(p, v, t, path, depth). Suc MAX_DEPTH - depth)") (auto simp: depth_ok_Inr)

declare parse_json.simps [simp del]

function parse_text ::
  "(string \<Rightarrow> (string, json) result) \<Rightarrow> project \<Rightarrow> string \<Rightarrow> ty \<Rightarrow> string \<Rightarrow> nat \<Rightarrow> (string, val) result" where
  "parse_text from_json p text t path depth =
     rbind (depth_ok depth path) (\<lambda>_.
     let raw = trim text in
     case t of
       TBool \<Rightarrow>
         (let w = map to_lower raw in
          if w \<in> {''true'', ''1'', ''t''} then Inr (VBool True)
          else if w \<in> {''false'', ''0'', ''f''} then Inr (VBool False)
          else Inl (expected path t ''enter true or false''))
     | TFloat32 \<Rightarrow>
         rbind (finite_or (expected path t ''enter a finite float32 number; NaN, infinity and overflow are unsupported inputs'')
           (float_from_str F32 raw)) (\<lambda>x. Inr (VFloat32 x))
     | TFloat64 \<Rightarrow>
         rbind (finite_or (expected path t ''enter a finite float64 number; NaN, infinity and overflow are unsupported inputs'')
           (float_from_str F64 raw)) (\<lambda>x. Inr (VFloat x))
     | TChar \<Rightarrow>
         rbind (ok_or (expected path t ''enter a character byte as an integer from 0 to 255'') (int_from_str 0 255 raw))
           (\<lambda>i. Inr (VInt (word_of_int i)))
     | TArray elem len \<Rightarrow>
         (case from_json raw of
            Inr v \<Rightarrow> parse_json p v t path depth
          | Inl _ \<Rightarrow>
              rbind (ok_or (expected path t ''enter an array [value;...] or a JSON array'') (strip_brackets (CHR ''['') (CHR '']'') raw)) (\<lambda>inner.
              rbind (split_items inner path) (\<lambda>parts.
                if length parts \<noteq> unat len
                then Inl (expected path t (''array requires '' @ nat_digits (unat len) @ '' elements, got '' @ nat_digits (length parts)))
                else rbind (try_map (\<lambda>(i, r). parse_text from_json p r elem (path @ ''['' @ nat_digits i @ '']'') (depth + 1)) (enumerate 0 parts))
                  (\<lambda>xs. Inr (VArray xs)))))
     | TNamed name \<Rightarrow>
         rbind (named name p path) (\<lambda>body.
           case body of
             AliasBody _ target \<Rightarrow> parse_text from_json p raw target path (depth + 1)
           | EnumBody e \<Rightarrow>
               (let variant = (case from_json raw of Inr (JString s) \<Rightarrow> s | _ \<Rightarrow> raw) in
                if variant \<in> set (en_variants e) then Inr (VEnum variant) else Inl (expected path t (choose_variant e)))
           | RecordBody _ fs \<Rightarrow>
               (case from_json raw of
                  Inr v \<Rightarrow> parse_json p v t path depth
                | Inl err \<Rightarrow>
                    rbind (ok_or (expected path t ''enter a struct with named fields, as a JSON object or {field=value;...}'')
                      (strip_brackets (CHR ''{'') (CHR ''}'') raw)) (\<lambda>inner.
                    if take 1 (strip_front white_chars inner) = [CHR 0x22]
                    then Inl (expected path t (''invalid struct JSON: '' @ err))
                    else
                      rbind (split_items inner path) (\<lambda>items.
                      rbind (read_entries path t name fs items []) (\<lambda>entries.
                      rbind (try_map (\<lambda>f.
                          rbind (ok_or (missing_field path name f) (bt_get entries (rf_name f))) (\<lambda>r.
                          rbind (parse_text from_json p r (rf_ty f) (path @ ''.'' @ rf_name f) (depth + 1)) (\<lambda>y.
                          Inr (rf_name f, y)))) fs)
                        (\<lambda>kvs. Inr (VRecord (insert_all kvs))))))))
     | _ \<Rightarrow>
         rbind (ok_or (expected path t ''enter an integer representable as signed 64-bit; larger uint64 inputs are unsupported'')
           (i64_from_str raw)) (\<lambda>i. checked_int i t path))"
  by pat_completeness auto
termination
  by (relation "measure (\<lambda>(from_json, p, text, t, path, depth). Suc MAX_DEPTH - depth)") (auto simp: depth_ok_Inr)

declare parse_text.simps [simp del]

definition parse_value :: "(string \<Rightarrow> (string, json) result) \<Rightarrow> project \<Rightarrow> string \<Rightarrow> ty \<Rightarrow> string \<Rightarrow> (string, val) result" where
  "parse_value from_json p raw t path = parse_text from_json p raw t path 0"

end
