(* ===== verification/Sim_Input_Laws.thy ===== *)
theory Sim_Input_Laws
  imports Sim_Input Fixtures
begin

text \<open>
  What the input parsers promise: a value that they return has the declared type, with every integer in
  its range and every struct complete, and the simulator stores such a value unchanged.
\<close>

section \<open>Values of a type\<close>

inductive typed :: "project \<Rightarrow> ty \<Rightarrow> val \<Rightarrow> bool" for p where
  typed_bool: "typed p TBool (VBool b)"
| typed_int: "int_range t = Some (lo, hi) \<Longrightarrow> lo \<le> sint i \<Longrightarrow> sint i \<le> hi \<Longrightarrow> typed p t (VInt i)"
| typed_char: "0 \<le> sint i \<Longrightarrow> sint i \<le> 255 \<Longrightarrow> typed p TChar (VInt i)"
| typed_f32: "finite_flt x \<Longrightarrow> typed p TFloat32 (VFloat32 x)"
| typed_f64: "finite_flt x \<Longrightarrow> typed p TFloat64 (VFloat x)"
| typed_array: "length vs = unat len \<Longrightarrow> (\<forall>v\<in>set vs. typed p elem v) \<Longrightarrow> typed p (TArray elem len) (VArray vs)"
| typed_alias: "find_type p name = Some td \<Longrightarrow> td_body td = AliasBody n target \<Longrightarrow> typed p target v \<Longrightarrow> typed p (TNamed name) v"
| typed_enum: "find_type p name = Some td \<Longrightarrow> td_body td = EnumBody e \<Longrightarrow> s \<in> set (en_variants e) \<Longrightarrow> typed p (TNamed name) (VEnum s)"
| typed_record:
    "find_type p name = Some td \<Longrightarrow> td_body td = RecordBody n fs \<Longrightarrow> bt_ok m \<Longrightarrow>
     set (map fst m) = set (map rf_name fs) \<Longrightarrow>
     (\<forall>f\<in>set fs. \<exists>v. bt_get m (rf_name f) = Some v \<and> typed p (rf_ty f) v) \<Longrightarrow> typed p (TNamed name) (VRecord m)"

text \<open>The fields of every struct type have different names.\<close>

definition distinct_fields :: "project \<Rightarrow> bool" where
  "distinct_fields p \<longleftrightarrow>
     list_all (\<lambda>td. case td_body td of RecordBody n fs \<Rightarrow> distinct (map rf_name fs) | _ \<Rightarrow> True) (all_types p)"

lemma distinct_fieldsD:
  "distinct_fields p \<Longrightarrow> find_type p name = Some td \<Longrightarrow> td_body td = RecordBody n fs \<Longrightarrow> distinct (map rf_name fs)"
  using find_SomeD [of "\<lambda>t. td_name t = name" "all_types p" td]
  by (auto simp: distinct_fields_def list_all_iff find_type_eq)

lemma named_Inr: "named name p path = Inr body \<longleftrightarrow> (\<exists>td. find_type p name = Some td \<and> td_body td = body)"
  by (cases "find_type p name") (auto simp: named_def)

section \<open>Structs\<close>

lemma bt_ok_insert_all: "bt_ok (insert_all kvs)"
  unfolding insert_all_def by (rule btree_map.ok_fold_put) simp

lemma bt_get_insert_all: "bt_get (insert_all kvs) = map_of (rev kvs)"
  unfolding insert_all_def by (subst btree_map.get_fold_put) simp_all

lemma bt_get_insert_distinct: "distinct (map fst kvs) \<Longrightarrow> bt_get (insert_all kvs) = map_of kvs"
  unfolding bt_get_insert_all by (subst map_of_inject_set) (simp_all add: rev_map [symmetric])

lemma keys_insert_all: "set (map fst (insert_all kvs)) = set (map fst kvs)"
proof -
  have "set (map fst (fold (\<lambda>(k, v). bt_insert k v) kvs m)) = set (map fst kvs) \<union> set (map fst m)" for m
  proof (induction kvs arbitrary: m)
    case (Cons kv kvs)
    then show ?case by (cases kv) (auto simp: set_keys_bt_insert)
  qed simp
  then show ?thesis by (simp add: insert_all_def)
qed

text \<open>The fields that are read one after the other make up a struct of the type.\<close>

lemma list_all2_in_set: "list_all2 P xs ys \<Longrightarrow> x \<in> set xs \<Longrightarrow> \<exists>y\<in>set ys. P x y"
  by (induction rule: list_all2_induct) auto

lemma typed_struct:
  assumes td: "find_type p name = Some td" "td_body td = RecordBody n fs" "distinct_fields p"
    and kvs: "list_all2 (\<lambda>f kv. fst kv = rf_name f \<and> typed p (rf_ty f) (snd kv)) fs kvs"
  shows "typed p (TNamed name) (VRecord (insert_all kvs))"
proof (rule typed_record [OF td(1,2) bt_ok_insert_all])
  have keys: "map fst kvs = map rf_name fs"
    using kvs by (induction rule: list_all2_induct) auto
  then show "set (map fst (insert_all kvs)) = set (map rf_name fs)" by (simp only: keys_insert_all)
  have distinct: "distinct (map fst kvs)" using distinct_fieldsD [OF td(3,1,2)] keys by simp
  show "\<forall>f\<in>set fs. \<exists>v. bt_get (insert_all kvs) (rf_name f) = Some v \<and> typed p (rf_ty f) v"
  proof
    fix f
    assume "f \<in> set fs"
    from list_all2_in_set [OF kvs this] obtain kv
      where kv: "kv \<in> set kvs" "fst kv = rf_name f" "typed p (rf_ty f) (snd kv)" by blast
    then have "map_of kvs (rf_name f) = Some (snd kv)"
      using distinct by (metis map_of_is_SomeI prod.collapse)
    with kv(3) show "\<exists>v. bt_get (insert_all kvs) (rf_name f) = Some v \<and> typed p (rf_ty f) v"
      by (auto simp: bt_get_insert_distinct [OF distinct])
  qed
qed

lemma checked_int_typed: "is_integer t \<Longrightarrow> checked_int i t path = Inr v \<Longrightarrow> typed p t v"
  by (cases t) (auto simp: checked_int_def int_range_def split: if_splits intro!: typed_int)

lemma finite_or_Inr: "finite_or msg x = Inr y \<longleftrightarrow> x = Some y \<and> finite_flt y"
  by (auto simp: finite_or_def split: option.splits)

lemma small_nat_sint: "n \<le> 255 \<Longrightarrow> sint (word_of_nat n :: i64) = int n"
  using sint_word_of_int_i64 [of "int n"] by simp

section \<open>Parsed values\<close>

lemma try_map_typed:
  assumes "try_map f xs = Inr ys" "\<And>x y. x \<in> set xs \<Longrightarrow> f x = Inr y \<Longrightarrow> Q y"
  shows "\<forall>y\<in>set ys. Q y" "length ys = length xs"
proof -
  have all: "list_all2 (\<lambda>x y. f x = Inr y) xs ys" using assms(1) by (simp add: try_map_Inr_iff)
  then have "list_all2 (\<lambda>x y. f x = Inr y) xs ys \<Longrightarrow> (\<And>x y. x \<in> set xs \<Longrightarrow> f x = Inr y \<Longrightarrow> Q y) \<Longrightarrow> \<forall>y\<in>set ys. Q y"
    by (induction rule: list_all2_induct) auto
  with all assms(2) show "\<forall>y\<in>set ys. Q y" by blast
  from all show "length ys = length xs" by (simp add: list_all2_lengthD)
qed

lemma try_map_fields:
  assumes "try_map (\<lambda>f. rbind (ok_or (e f) (look f)) (\<lambda>x. rbind (g f x) (\<lambda>y. Inr (rf_name f, y)))) fs = Inr kvs"
    and "\<And>f x y. f \<in> set fs \<Longrightarrow> look f = Some x \<Longrightarrow> g f x = Inr y \<Longrightarrow> typed p (rf_ty f) y"
  shows "list_all2 (\<lambda>f kv. fst kv = rf_name f \<and> typed p (rf_ty f) (snd kv)) fs kvs"
proof -
  have "list_all2 (\<lambda>f kv. rbind (ok_or (e f) (look f)) (\<lambda>x. rbind (g f x) (\<lambda>y. Inr (rf_name f, y))) = Inr kv) fs kvs"
    using assms(1) by (simp add: try_map_Inr_iff)
  then show ?thesis
    by (rule list.rel_mono_strong) (use assms(2) in \<open>auto simp: rbind_eq_Inr\<close>)
qed

lemma parse_json_typed:
  assumes fields: "distinct_fields p"
  shows "parse_json p v t path depth = Inr y \<Longrightarrow> typed p t y"
proof (induction "Suc MAX_DEPTH - depth" arbitrary: v t path depth y rule: less_induct)
  case less
  note parsed = less.prems [unfolded parse_json.simps [of p v t path depth]]
  then have depth: "depth \<le> MAX_DEPTH" by (auto simp: rbind_eq_Inr depth_ok_Inr)
  have sub: "typed p t' y'" if "parse_json p v' t' path' (Suc depth) = Inr y'" for v' t' path' y'
    using less.hyps [OF _ that] depth by simp
  have ok: "depth_ok depth path = Inr ()" using depth by (simp add: depth_ok_def)
  note parsed = parsed [unfolded ok rbind_simps Let_def]
  show ?case
  proof (cases t)
    case TBool
    with parsed show ?thesis by (cases "j_as_bool v") (auto intro: typed_bool)
  next
    case TChar
    with parsed show ?thesis by (auto split: option.splits if_splits intro!: typed_char simp: small_nat_sint)
  next
    case TFloat32
    with parsed show ?thesis by (auto simp: rbind_eq_Inr finite_or_Inr intro!: typed_f32)
  next
    case TFloat64
    with parsed show ?thesis by (auto simp: rbind_eq_Inr finite_or_Inr intro!: typed_f64)
  next
    case (TArray elem len)
    with parsed obtain vs xs where vs: "length vs = unat len" "y = VArray xs"
      "try_map (\<lambda>(i, x). parse_json p x elem (path @ ''['' @ nat_digits i @ '']'') (depth + 1)) (enumerate 0 vs) = Inr xs"
      by (auto simp: rbind_eq_Inr split: if_splits)
    from try_map_typed [OF vs(3), of "typed p elem"] sub vs(1) show ?thesis
      unfolding TArray vs(2) by (auto intro!: typed_array)
  next
    case (TNamed name)
    with parsed obtain td where td: "find_type p name = Some td"
      by (auto simp: rbind_eq_Inr named_Inr)
    show ?thesis
    proof (cases "td_body td")
      case (EnumBody e)
      with parsed TNamed td show ?thesis
        by (auto simp: rbind_eq_Inr named_def split: if_splits intro!: typed_enum)
    next
      case (AliasBody n target)
      with parsed TNamed td sub show ?thesis by (auto simp: named_def intro!: typed_alias)
    next
      case (RecordBody n fs)
      with parsed TNamed td obtain kvs where kvs: "y = VRecord (insert_all kvs)"
        "try_map (\<lambda>f. rbind (ok_or (missing_field path name f) (j_get v (rf_name f))) (\<lambda>x.
            rbind (parse_json p x (rf_ty f) (path @ ''.'' @ rf_name f) (depth + 1)) (\<lambda>y. Inr (rf_name f, y)))) fs = Inr kvs"
        by (auto simp: rbind_eq_Inr named_def split: json.splits option.splits)
      from try_map_fields [OF kvs(2), of p] sub show ?thesis
        unfolding TNamed kvs(1) by (intro typed_struct [OF td RecordBody fields]) auto
    qed
  qed (use parsed checked_int_typed in \<open>auto simp: rbind_eq_Inr\<close>)
qed

lemma parse_text_typed:
  assumes fields: "distinct_fields p"
  shows "parse_text from_json p raw t path depth = Inr y \<Longrightarrow> typed p t y"
proof (induction "Suc MAX_DEPTH - depth" arbitrary: raw t path depth y rule: less_induct)
  case less
  note parsed = less.prems [unfolded parse_text.simps [of from_json p raw t path depth]]
  then have depth: "depth \<le> MAX_DEPTH" by (auto simp: rbind_eq_Inr depth_ok_Inr)
  have sub: "typed p t' y'" if "parse_text from_json p raw' t' path' (Suc depth) = Inr y'" for raw' t' path' y'
    using less.hyps [OF _ that] depth by simp
  have ok: "depth_ok depth path = Inr ()" using depth by (simp add: depth_ok_def)
  note parsed = parsed [unfolded ok rbind_simps Let_def]
  note json = parse_json_typed [OF fields]
  show ?case
  proof (cases t)
    case TBool
    with parsed show ?thesis by (auto split: if_splits intro: typed_bool)
  next
    case TChar
    with parsed show ?thesis
      using int_from_str_range [of 0 255 "trim raw"]
      by (auto simp: rbind_eq_Inr sint_word_of_int_i64 intro!: typed_char)
  next
    case TFloat32
    with parsed show ?thesis by (auto simp: rbind_eq_Inr finite_or_Inr intro!: typed_f32)
  next
    case TFloat64
    with parsed show ?thesis by (auto simp: rbind_eq_Inr finite_or_Inr intro!: typed_f64)
  next
    case (TArray elem len)
    show ?thesis
    proof (cases "from_json (trim raw)")
      case (Inl err)
      with parsed TArray obtain parts xs where vs: "length parts = unat len" "y = VArray xs"
        "try_map (\<lambda>(i, r). parse_text from_json p r elem (path @ ''['' @ nat_digits i @ '']'') (depth + 1)) (enumerate 0 parts) = Inr xs"
        by (auto simp: rbind_eq_Inr split: if_splits)
      from try_map_typed [OF vs(3), of "typed p elem"] sub vs(1) show ?thesis
        unfolding TArray vs(2) by (auto intro!: typed_array)
    qed (use parsed TArray json in auto)
  next
    case (TNamed name)
    with parsed obtain td where td: "find_type p name = Some td"
      by (auto simp: rbind_eq_Inr named_Inr)
    show ?thesis
    proof (cases "td_body td")
      case (EnumBody e)
      with parsed TNamed td show ?thesis
        by (auto simp: named_def split: if_splits intro!: typed_enum)
    next
      case (AliasBody n target)
      with parsed TNamed td sub show ?thesis by (auto simp: named_def intro!: typed_alias)
    next
      case (RecordBody n fs)
      show ?thesis
      proof (cases "from_json (trim raw)")
        case (Inl err)
        with parsed TNamed td RecordBody obtain entries kvs where kvs: "y = VRecord (insert_all kvs)"
          "try_map (\<lambda>f. rbind (ok_or (missing_field path name f) (bt_get entries (rf_name f))) (\<lambda>r.
              rbind (parse_text from_json p r (rf_ty f) (path @ ''.'' @ rf_name f) (depth + 1)) (\<lambda>y. Inr (rf_name f, y)))) fs = Inr kvs"
          by (auto simp: rbind_eq_Inr named_def split: if_splits)
        from try_map_fields [OF kvs(2), of p] sub show ?thesis
          unfolding TNamed kvs(1) by (intro typed_struct [OF td RecordBody fields]) auto
      qed (use parsed TNamed td RecordBody json in \<open>auto simp: named_def\<close>)
    qed
  qed (use parsed checked_int_typed in \<open>auto simp: rbind_eq_Inr\<close>)
qed

section \<open>Storing a parsed value\<close>

lemma fit_fields_same:
  "bt_ok m \<Longrightarrow> (\<And>f y w. f \<in> set fs \<Longrightarrow> bt_get m (rf_name f) = Some y \<Longrightarrow> g (rf_ty f) y = Some w \<Longrightarrow> w = y) \<Longrightarrow>
   fit_fields g fs m = Some m' \<Longrightarrow> m' = m"
proof (induction fs)
  case (Cons f fs)
  show ?case
  proof (cases "bt_get m (rf_name f)")
    case (Some y)
    with Cons.prems(3) obtain w where w: "g (rf_ty f) y = Some w" by (auto split: option.splits)
    with Cons.prems(2) Some have "w = y" by auto
    with Cons w Some show ?thesis by (auto simp: bt_reinsert)
  qed (use Cons in auto)
qed simp

lemma opt_map_same: "opt_map f xs = Some ys \<Longrightarrow> (\<And>x y. x \<in> set xs \<Longrightarrow> f x = Some y \<Longrightarrow> y = x) \<Longrightarrow> ys = xs"
  by (induction xs arbitrary: ys) (auto split: option.splits)

lemma fit_at_array: "fit_at n p (TArray elem len) (VArray vs) = map_option VArray (opt_map (fit_at n p elem) vs)"
proof (cases n)
  case 0
  moreover have "fit_at 0 p elem = fit_with (\<lambda>_ _. None) elem" by (rule ext) simp
  ultimately show ?thesis by simp
next
  case (Suc m)
  moreover have "fit_at (Suc m) p elem = fit_with (fit_named p (fit_at m p)) elem" by (rule ext) simp
  ultimately show ?thesis by simp
qed

lemma typed_fits: "typed p t v \<Longrightarrow> fit_at n p t v = Some w \<Longrightarrow> w = v"
proof (induction arbitrary: n w rule: typed.induct)
  case (typed_int t lo hi i)
  have "narrow_int t i = i"
  proof (cases "int_values t")
    case (Some r)
    with typed_int(1) have "r = (lo, hi)" by (cases t) (auto simp: int_range_def)
    with Some typed_int(2,3) show ?thesis by (intro narrow_int_in_range) auto
  next
    case None
    with typed_int(1) show ?thesis by (cases t) (auto simp: int_range_def)
  qed
  with typed_int(1,4) show ?case by (cases n; cases t) (auto simp: int_range_def)
next
  case (typed_array vs len elem)
  from typed_array.prems obtain ws where ws: "opt_map (fit_at n p elem) vs = Some ws" "w = VArray ws"
    by (auto simp: fit_at_array)
  have "ws = vs" by (rule opt_map_same [OF ws(1)]) (use typed_array.IH in auto)
  with ws(2) show ?case by simp
next
  case (typed_alias name td n' target v)
  then show ?case by (cases n) (auto simp: fit_named_def)
next
  case (typed_enum name td e s)
  then show ?case by (cases n) (auto simp: fit_named_def)
next
  case (typed_record name td n' fs m)
  then show ?case by (cases n) (auto simp: fit_named_def dest!: fit_fields_same [rotated 2])
next
  case (typed_bool b)
  then show ?case by (cases n) auto
next
  case (typed_char i)
  then show ?case by (cases n) auto
next
  case (typed_f32 x)
  then show ?case by (cases n) auto
next
  case (typed_f64 x)
  then show ?case by (cases n) auto
qed

text \<open>A value that a parser returned is stored as it is, unless the nesting of its type exceeds the stack.\<close>

lemma parse_value_fits:
  assumes "distinct_fields (cf_project cf)" "parse_value from_json (cf_project cf) raw t path = Inr v"
  shows "typed (cf_project cf) t v \<and> (fit_to cf t v = None \<or> fit_to cf t v = Some v)"
proof -
  from assms have "typed (cf_project cf) t v" unfolding parse_value_def by (rule parse_text_typed)
  with typed_fits [OF this, of "cf_stack cf"] show ?thesis
    by (cases "fit_to cf t v") (auto simp: fit_to_def)
qed

section \<open>A concrete input\<close>

definition gains_body :: type_body where
  "gains_body = RecordBody ''Gains'' [\<lparr>rf_name = ''k'', rf_ty = TInt8\<rparr>, \<lparr>rf_name = ''on'', rf_ty = TArray TBool 2\<rparr>]"

definition gains_project :: project where
  "gains_project = (mk_project [])\<lparr>pj_packages := [(mk_package [])\<lparr>pk_types := [\<lparr>td_body = gains_body\<rparr>]\<rparr>]\<rparr>"

definition gains_value :: val where
  "gains_value = VRecord [(''k'', VInt (- 128)), (''on'', VArray [VBool True, VBool False])]"

lemma gains_lookup: "named ''Gains'' gains_project path = Inr gains_body"
  by (simp add: named_def find_type_eq all_types_def gains_project_def gains_body_def mk_project_def mk_package_def
    td_name_def)

lemma gains_distinct: "distinct_fields gains_project"
  by (simp add: distinct_fields_def all_types_def gains_project_def gains_body_def mk_project_def mk_package_def)

text \<open>A text that begins and ends with a visible ASCII character is not trimmed.\<close>

definition visible :: "char \<Rightarrow> bool" where
  "visible c \<longleftrightarrow> 32 < (of_char c :: nat) \<and> (of_char c :: nat) < 127"

lemma strip_front_same: "\<forall>w\<in>set ws. w \<noteq> [] \<and> \<not> visible (hd w) \<Longrightarrow> visible c \<Longrightarrow> strip_front ws (c # s) = c # s"
proof -
  assume ws: "\<forall>w\<in>set ws. w \<noteq> [] \<and> \<not> visible (hd w)" and c: "visible c"
  have "take (length w) (c # s) \<noteq> w" if "w \<in> set ws" for w
    using ws c that by (cases w) auto
  then have "find (\<lambda>w. w \<noteq> [] \<and> take (length w) (c # s) = w) ws = None" by (auto simp: find_None_iff)
  then show ?thesis by (subst strip_front.simps) (simp only: option.case)
qed

lemma white_ends: "\<forall>w\<in>set white_chars. w \<noteq> [] \<and> \<not> visible (hd w) \<and> \<not> visible (last w)"
  by (auto simp: white_chars_def visible_def)

lemma trim_visible:
  assumes "s \<noteq> []" "visible (hd s)" "visible (last s)"
  shows "trim s = s"
proof -
  have "strip_front white_chars s = s"
    using strip_front_same [of white_chars "hd s" "tl s"] white_ends assms by auto
  moreover have "strip_front (map rev white_chars) (rev s) = rev s"
    using strip_front_same [of "map rev white_chars" "last s" "rev (butlast s)"] white_ends assms
    by (cases s rule: rev_cases) (auto simp: hd_rev)
  ultimately show ?thesis by (simp add: trim_def)
qed

lemma gains_texts:
  "split_items ''on=[true;0];k=-128'' path = Inr [''on=[true;0]'', ''k=-128'']"
  "split_items ''true;0'' path = Inr [''true'', ''0'']"
  by (simp_all add: split_items_def trim_visible visible_def)

lemma gains_number: "i64_from_str ''-128'' = Some (- 128)"
  by code_simp

lemma gains_start: "strip_front white_chars ''on=[true;0];k=-128'' = ''on=[true;0];k=-128''"
  by (rule strip_front_same) (use white_ends in \<open>auto simp: visible_def\<close>)

lemma gains_parsed:
  "parse_value (\<lambda>_. Inl ''no JSON'') gains_project ''{on=[true;0];k=-128}'' (TNamed ''Gains'') ''g'' = Inr gains_value"
  by (simp add: parse_value_def parse_text.simps gains_texts gains_number gains_start gains_lookup trim_visible visible_def gains_body_def gains_value_def depth_ok_def
    MAX_DEPTH_def checked_int_def int_range_def strip_brackets_def split_once_def insert_all_def enumerate_eq_zip to_lower_def)

end
