(* ===== verification/Slice.thy ===== *)
theory Slice
  imports IR_Project
begin

text \<open>
  Selective code generation (\<open>ol_ir/src/slice.rs\<close>): the part of a project that a root node uses. The
  deserialisers \<open>serde_json::from_value::<Expr>\<close> and \<open>::<Type>\<close> are the parameters \<open>to_expr\<close> and \<open>to_type\<close>,
  collected in a record; a failed decoding is \<open>None\<close>, since the code ignores its message.
\<close>

record decoder =
  to_expr :: "json \<Rightarrow> expr option"
  to_type :: "json \<Rightarrow> ty option"

section \<open>What declarations refer to\<close>

fun call_of :: "expr \<Rightarrow> string option" where
  "call_of (Call node args) = Some node"
| "call_of (Iterate kind node init arrays) = Some node"
| "call_of _ = None"

text \<open>The callees that \<open>enqueue_calls\<close> pushes, in the order of the visit.\<close>

definition calls_in :: "expr \<Rightarrow> string list" where
  "calls_in e = List.map_filter call_of (visit e)"

fun push_named :: "ty \<Rightarrow> string list" where
  "push_named (TNamed name) = [name]"
| "push_named (TArray elem len) = push_named elem"
| "push_named _ = []"

definition find_contract_raw :: "project \<Rightarrow> string \<Rightarrow> json option" where
  "find_contract_raw p name = find (\<lambda>raw. j_name raw = Some name) (concat (map pk_contracts (pj_packages p)))"

text \<open>\<open>raw.get(key).and_then(|v| v.as_array())\<close>, without elements when there is none.\<close>

definition j_items :: "json \<Rightarrow> string \<Rightarrow> json list" where
  "j_items raw key = (case Option.bind (j_get raw key) j_as_array of None \<Rightarrow> [] | Some xs \<Rightarrow> xs)"

definition decoded :: "(json \<Rightarrow> 'a option) \<Rightarrow> json option \<Rightarrow> 'a list" where
  "decoded d v = (case Option.bind v d of None \<Rightarrow> [] | Some x \<Rightarrow> [x])"

definition contract_exprs :: "decoder \<Rightarrow> project \<Rightarrow> string \<Rightarrow> expr list" where
  "contract_exprs d p name =
     (case find_contract_raw p name of
        None \<Rightarrow> []
      | Some raw \<Rightarrow>
          concat (map (\<lambda>key. concat (map (\<lambda>item. decoded (to_expr d) (j_get item ''expr'')) (j_items raw key)))
            [''assumptions'', ''guarantees'']) @
          concat (map (\<lambda>m. concat (map (\<lambda>key. concat (map (\<lambda>item. decoded (to_expr d) (Some item)) (j_items m key)))
            [''requires'', ''ensures''])) (j_items raw ''modes'')) @
          concat (map (\<lambda>g. decoded (to_expr d) (j_get g ''definition'')) (j_items raw ''ghost_vars'')))"

definition ghost_types :: "decoder \<Rightarrow> project \<Rightarrow> string \<Rightarrow> ty list" where
  "ghost_types d p name =
     (case find_contract_raw p name of
        None \<Rightarrow> []
      | Some raw \<Rightarrow> concat (map (\<lambda>g. decoded (to_type d) (j_get g ''ty'')) (j_items raw ''ghost_vars'')))"

definition contract_imports :: "project \<Rightarrow> string \<Rightarrow> string list" where
  "contract_imports p name =
     (case find_contract_raw p name of
        None \<Rightarrow> []
      | Some raw \<Rightarrow> concat (map (\<lambda>imp. decoded j_as_str (j_get imp ''contract'')) (j_items raw ''imports'')))"

definition node_calls :: "decoder \<Rightarrow> project \<Rightarrow> string \<Rightarrow> string list" where
  "node_calls d p name =
     (case find_node p name of
        None \<Rightarrow> []
      | Some n \<Rightarrow>
          concat (map (\<lambda>eq. calls_in (eq_rhs eq)) (nd_equations n)) @
          (case nd_contract n of
             None \<Rightarrow> []
           | Some c \<Rightarrow> concat (map calls_in (contract_exprs d p c))))"

definition body_types :: "type_body \<Rightarrow> string list" where
  "body_types body =
     (case body of
        RecordBody name fs \<Rightarrow> concat (map (\<lambda>f. push_named (rf_ty f)) fs)
      | AliasBody name target \<Rightarrow> push_named target
      | EnumBody e \<Rightarrow> [])"

definition type_refs :: "project \<Rightarrow> string \<Rightarrow> string list" where
  "type_refs p name = concat (map (\<lambda>t. if td_name t \<noteq> name then [] else body_types (td_body t)) (all_types p))"

section \<open>The work lists\<close>

text \<open>
  The three loops that empty a queue of names differ in what a name refers to only. A project has
  finitely many references, so that each of them ends.
\<close>

datatype link = Calls | Imports | Types

definition refs :: "link \<Rightarrow> decoder \<Rightarrow> project \<Rightarrow> string \<Rightarrow> string list" where
  "refs k d p name = (case k of Calls \<Rightarrow> node_calls d p name | Imports \<Rightarrow> contract_imports p name | Types \<Rightarrow> type_refs p name)"

definition all_refs :: "link \<Rightarrow> decoder \<Rightarrow> project \<Rightarrow> string set" where
  "all_refs k d p = (\<Union>name. set (refs k d p name))"

lemma finite_option_range: "finite (range g) \<Longrightarrow> finite (\<Union>x. set (case g x of None \<Rightarrow> [] | Some y \<Rightarrow> f y))"
proof -
  assume g: "finite (range g)"
  have "(\<Union>x. set (case g x of None \<Rightarrow> [] | Some y \<Rightarrow> f y)) =
      (\<Union>v\<in>range g. set (case v of None \<Rightarrow> [] | Some y \<Rightarrow> f y))" by auto
  also have "finite \<dots>" using g by (rule finite_UN_I) (rule finite_set)
  finally show ?thesis .
qed

lemma finite_partial_range:
  assumes "\<And>x y. g x = Some y \<Longrightarrow> y \<in> set ys"
  shows "finite (range g)"
proof (rule finite_subset)
  show "range g \<subseteq> insert None (Some ` set ys)"
  proof
    fix v
    assume "v \<in> range g"
    then show "v \<in> insert None (Some ` set ys)" using assms by (cases v) auto
  qed
qed simp

lemma finite_all_refs: "finite (all_refs k d p)"
proof (cases k)
  case Calls
  have "finite (range (find_node p))" by (rule finite_partial_range) (rule find_node_Some(1))
  with Calls show ?thesis
    unfolding all_refs_def refs_def node_calls_def link.case by (simp only: link.case finite_option_range)
next
  case Imports
  have "finite (range (find_contract_raw p))"
    by (rule finite_partial_range) (auto simp: find_contract_raw_def dest: find_SomeD)
  with Imports show ?thesis
    unfolding all_refs_def refs_def contract_imports_def by (simp only: link.case finite_option_range)
next
  case Types
  then have "all_refs k d p \<subseteq> (\<Union>t\<in>set (all_types p). set (body_types (td_body t)))"
    by (auto simp: all_refs_def refs_def type_refs_def split: if_splits)
  then show ?thesis by (rule finite_subset) simp
qed

lemma refs_in_all: "x \<in> set (refs k d p name) \<Longrightarrow> x \<in> all_refs k d p"
  by (auto simp: all_refs_def)

text \<open>\<open>while let Some(name) = queue.pop_front()\<close>: a name that is kept for the first time queues its references.\<close>

function drain :: "link \<Rightarrow> decoder \<Rightarrow> project \<Rightarrow> string list \<Rightarrow> string list \<Rightarrow> string list" where
  "drain k d p [] kept = kept"
| "drain k d p (name # queue) kept =
     (if name \<in> set kept then drain k d p queue kept
      else drain k d p (queue @ refs k d p name) (bs_insert name kept))"
  by pat_completeness auto
termination
proof (relation "(\<lambda>(k, d, p, queue, kept). card (all_refs k d p \<union> set queue - set kept)) <*mlex*>
    measure (\<lambda>(k, d, p, queue, kept). length queue)", goal_cases)
  case 1
  show ?case by (intro wf_mlex wf_measure)
next
  case (2 k d p name queue kept)
  then have "all_refs k d p \<union> set (name # queue) - set kept = all_refs k d p \<union> set queue - set kept" by auto
  then show ?case by (auto intro: mlex_leq)
next
  case (3 k d p name queue kept)
  have "card (all_refs k d p \<union> set (queue @ refs k d p name) - set (bs_insert name kept))
      < card (all_refs k d p \<union> set (name # queue) - set kept)"
  proof (rule psubset_card_mono)
    show "finite (all_refs k d p \<union> set (name # queue) - set kept)" by (simp add: finite_all_refs)
    show "all_refs k d p \<union> set (queue @ refs k d p name) - set (bs_insert name kept)
        \<subset> all_refs k d p \<union> set (name # queue) - set kept"
      using 3 refs_in_all [of _ k d p name] by auto
  qed
  then show ?case by (auto intro: mlex_less)
qed

section \<open>The fixpoint\<close>

record closure =
  sl_nodes :: "string list"
  sl_contracts :: "string list"
  sl_vars :: "string list"
  sl_types :: "ty list"
  sl_consts :: "string list"

text \<open>Parts 1 to 3 of an iteration: the nodes, the contracts, and the names and types they mention.\<close>

definition close_nodes :: "decoder \<Rightarrow> project \<Rightarrow> string list \<Rightarrow> closure \<Rightarrow> closure" where
  "close_nodes d p queue s =
     (let nodes = drain Calls d p queue (sl_nodes s);
          found = List.map_filter (find_node p) nodes;
          contracts = drain Imports d p (List.map_filter nd_contract found) (sl_contracts s);
          exprs = concat (map (\<lambda>n. map eq_rhs (nd_equations n)) found) @ concat (map (contract_exprs d p) contracts)
      in \<lparr>sl_nodes = nodes, sl_contracts = contracts,
          sl_vars = fold bs_insert (concat (map free_vars exprs)) (sl_vars s),
          sl_types = sl_types s @
            concat (map (\<lambda>n. map p_ty (nd_inputs n @ nd_outputs n) @ map l_ty (nd_locals n)) found) @
            concat (map (ghost_types d p) contracts),
          sl_consts = sl_consts s\<rparr>)"

text \<open>Does the value of a constant mention a name?\<close>

definition project_const_value_refs :: "project \<Rightarrow> string \<Rightarrow> string \<Rightarrow> bool" where
  "project_const_value_refs p const_name target =
     (case find (\<lambda>c. c_name_of c = const_name) (all_constants p) of
        None \<Rightarrow> False
      | Some c \<Rightarrow> target \<in> set (free_vars (c_value c)))"

text \<open>
  Part 4: a round over the constants of all packages. Beside the closure it returns the names that are pushed to
  the queue of nodes and whether a constant was kept.
\<close>

definition keep_const :: "project \<Rightarrow> const_def \<Rightarrow> closure \<times> string list \<times> bool \<Rightarrow> closure \<times> string list \<times> bool" where
  "keep_const p c st =
     (let (s, queue, round) = st in
      if c_name_of c \<in> set (sl_consts s) then st
      else if c_name_of c \<in> set (sl_vars s) \<or> list_ex (\<lambda>k. project_const_value_refs p k (c_name_of c)) (sl_consts s)
      then (s\<lparr>sl_consts := bs_insert (c_name_of c) (sl_consts s),
              sl_types := sl_types s @ [c_ty c],
              sl_vars := fold bs_insert (free_vars (c_value c)) (sl_vars s)\<rparr>,
            queue @ calls_in (c_value c), True)
      else st)"

definition const_round :: "project \<Rightarrow> closure \<Rightarrow> string list \<Rightarrow> closure \<times> string list \<times> bool" where
  "const_round p s queue = fold (keep_const p) (all_constants p) (s, queue, False)"

text \<open>The names of constants that are not kept yet bound both loops.\<close>

definition unkept :: "project \<Rightarrow> closure \<Rightarrow> string set" where
  "unkept p s = c_name_of ` set (all_constants p) - set (sl_consts s)"

definition const_progress :: "project \<Rightarrow> closure \<Rightarrow> closure \<times> string list \<times> bool \<Rightarrow> bool" where
  "const_progress p s st \<longleftrightarrow>
     (case st of (s', queue, round) \<Rightarrow> unkept p s' \<subseteq> unkept p s \<and> (round \<longrightarrow> unkept p s' \<subset> unkept p s))"

lemma keep_const_progress:
  "c \<in> set (all_constants p) \<Longrightarrow> const_progress p s st \<Longrightarrow> const_progress p s (keep_const p c st)"
  by (cases st) (auto simp: const_progress_def keep_const_def unkept_def Let_def)

lemma const_round_progress: "const_progress p s (const_round p s queue)"
proof -
  have "set cs \<subseteq> set (all_constants p) \<Longrightarrow> const_progress p s st \<Longrightarrow> const_progress p s (fold (keep_const p) cs st)" for cs st
    by (induction cs arbitrary: st) (simp_all add: keep_const_progress)
  then show ?thesis by (auto simp: const_round_def const_progress_def)
qed

lemma finite_unkept [simp]: "finite (unkept p s)"
  by (simp add: unkept_def)

function const_loop :: "project \<Rightarrow> closure \<Rightarrow> string list \<Rightarrow> bool \<Rightarrow> closure \<times> string list \<times> bool" where
  "const_loop p s queue grew =
     (case const_round p s queue of
        (s', queue', round) \<Rightarrow> if round then const_loop p s' queue' True else (s', queue', grew))"
  by pat_completeness auto
termination
proof (relation "measure (\<lambda>(p, s, queue, grew). card (unkept p s))", goal_cases)
  case (2 p s queue grew s' rest queue' round)
  then have "unkept p s' \<subset> unkept p s"
    using const_round_progress [of p s queue] by (auto simp: const_progress_def)
  then show ?case by (auto intro: psubset_card_mono)
qed simp

declare const_loop.simps [simp del]

lemma const_loop_progress:
  "const_loop p s queue grew = (s', queue', grew') \<Longrightarrow>
     unkept p s' \<subseteq> unkept p s \<and> (grew' \<longrightarrow> grew \<or> unkept p s' \<subset> unkept p s)"
proof (induction p s queue grew rule: const_loop.induct)
  case (1 p s queue grew)
  obtain s1 q1 round where round: "const_round p s queue = (s1, q1, round)" by (cases "const_round p s queue")
  with const_round_progress [of p s queue]
  have progress: "unkept p s1 \<subseteq> unkept p s" "round \<longrightarrow> unkept p s1 \<subset> unkept p s"
    by (auto simp: const_progress_def)
  show ?case
  proof (cases round)
    case True
    with 1 round have "unkept p s' \<subseteq> unkept p s1" by (simp add: const_loop.simps [of p s])
    with progress True show ?thesis by auto
  next
    case False
    with 1(2) round progress show ?thesis by (auto simp: const_loop.simps [of p s])
  qed
qed

lemma unkept_close_nodes [simp]: "unkept p (close_nodes d p queue s) = unkept p s"
  by (simp add: unkept_def close_nodes_def Let_def)

text \<open>The outer loop: it ends when no node is queued and no constant was added. Only a constant queues a node.\<close>

lemma keep_const_queue:
  "(case st of (s, queue, round) \<Rightarrow> queue = q \<or> round) \<Longrightarrow> (case keep_const p c st of (s, queue, round) \<Rightarrow> queue = q \<or> round)"
  by (cases st) (auto simp: keep_const_def)

lemma const_round_queue: "const_round p s q = (s', queue, round) \<Longrightarrow> queue = q \<or> round"
proof -
  have "(case st of (s, queue, round) \<Rightarrow> queue = q \<or> round) \<Longrightarrow>
      (case fold (keep_const p) cs st of (s, queue, round) \<Rightarrow> queue = q \<or> round)" for cs st
  proof (induction cs arbitrary: st)
    case (Cons c cs)
    from Cons.IH [OF keep_const_queue [OF Cons.prems]] show ?case by simp
  qed simp
  from this [of "(s, q, False)" "all_constants p"]
  show "const_round p s q = (s', queue, round) \<Longrightarrow> queue = q \<or> round" by (simp add: const_round_def)
qed

lemma const_loop_queue: "const_loop p s q grew = (s', queue, grew') \<Longrightarrow> (grew \<longrightarrow> grew') \<and> (queue = q \<or> grew')"
proof (induction p s q grew rule: const_loop.induct)
  case (1 p s q grew)
  obtain s1 q1 round where round: "const_round p s q = (s1, q1, round)" by (cases "const_round p s q")
  from 1(2) show ?case
    using "1.IH" [OF round [symmetric] refl] const_round_queue [OF round] round
    by (auto simp: const_loop.simps [of p s] split: if_splits)
qed

function close_all :: "decoder \<Rightarrow> project \<Rightarrow> string list \<Rightarrow> closure \<Rightarrow> closure" where
  "close_all d p queue s =
     (case const_loop p (close_nodes d p queue s) [] False of
        (s', queue', grew) \<Rightarrow> if queue' = [] \<and> \<not> grew then s' else close_all d p queue' s')"
  by pat_completeness auto
termination
proof (relation "measure (\<lambda>(d, p, queue, s). card (unkept p s))", goal_cases)
  case (2 d p queue s s' rest queue' grew)
  then have loop: "const_loop p (close_nodes d p queue s) [] False = (s', queue', grew)" by simp
  from const_loop_queue [OF loop] 2 have grew by auto
  with const_loop_progress [OF loop] have "unkept p s' \<subset> unkept p s" by auto
  then show ?case by (auto intro: psubset_card_mono)
qed simp

declare close_all.simps [simp del]

definition close_from :: "decoder \<Rightarrow> project \<Rightarrow> string \<Rightarrow> closure" where
  "close_from d p root =
     close_all d p [root] \<lparr>sl_nodes = [], sl_contracts = [], sl_vars = [], sl_types = [], sl_consts = []\<rparr>"

text \<open>Part 5: the types, from the ones mentioned and from the enumerations with a variant that is mentioned.\<close>

definition variant_types :: "project \<Rightarrow> string list \<Rightarrow> string list" where
  "variant_types p vars =
     concat (map (\<lambda>t. case td_body t of
         EnumBody e \<Rightarrow> if list_ex (\<lambda>v. v \<in> set vars) (en_variants e) then [en_name e] else []
       | _ \<Rightarrow> []) (all_types p))"

definition close_types :: "decoder \<Rightarrow> project \<Rightarrow> closure \<Rightarrow> string list" where
  "close_types d p s = drain Types d p (concat (map push_named (sl_types s)) @ variant_types p (sl_vars s)) []"

section \<open>The slice\<close>

text \<open>Part 6: every package is filtered, and dropped when nothing of it is kept.\<close>

definition keeps_name :: "string list \<Rightarrow> json \<Rightarrow> bool" where
  "keeps_name kept raw = (case j_name raw of None \<Rightarrow> False | Some name \<Rightarrow> name \<in> set kept)"

definition slice_package :: "closure \<Rightarrow> string list \<Rightarrow> package \<Rightarrow> package" where
  "slice_package s types pkg =
     \<lparr>pk_name = pk_name pkg,
      pk_types = filter (\<lambda>t. td_name t \<in> set types) (pk_types pkg),
      pk_constants = filter (\<lambda>c. c_name_of c \<in> set (sl_consts s)) (pk_constants pkg),
      pk_nodes = filter (\<lambda>n. nd_name n \<in> set (sl_nodes s)) (pk_nodes pkg),
      pk_contracts = filter (keeps_name (sl_contracts s)) (pk_contracts pkg),
      pk_imported_operators = filter (keeps_name (sl_nodes s)) (pk_imported_operators pkg),
      pk_state_machines = filter (\<lambda>m. sm_name m \<in> set (sl_nodes s)) (pk_state_machines pkg),
      pk_activations = filter (\<lambda>a. act_owner a \<in> set (sl_nodes s)) (pk_activations pkg)\<rparr>"

definition empty_package :: "package \<Rightarrow> bool" where
  "empty_package pkg \<longleftrightarrow>
     pk_nodes pkg = [] \<and> pk_types pkg = [] \<and> pk_constants pkg = [] \<and> pk_contracts pkg = [] \<and>
     pk_imported_operators pkg = [] \<and> pk_state_machines pkg = [] \<and> pk_activations pkg = []"

definition slice_for_root :: "decoder \<Rightarrow> project \<Rightarrow> string \<Rightarrow> (string, project) result" where
  "slice_for_root d p root =
     (case selected_node_name p root of
        None \<Rightarrow> Inl (''root node '' @ [CHR 0x60] @ root @ [CHR 0x60] @ '' not found in project'')
      | Some root' \<Rightarrow>
          (let s = close_from d p root';
               types = close_types d p s;
               packages = filter (\<lambda>pkg. \<not> empty_package pkg) (map (slice_package s types) (pj_packages p))
           in Inr \<lparr>pj_name = pj_name p, pj_packages = packages, pj_main = Some root', pj_includes = [],
                pj_origins = filter (\<lambda>r. list_ex (\<lambda>pkg. co_node r \<in> set (map nd_name (pk_nodes pkg))) packages) (pj_origins p),
                pj_resolution = pj_resolution p\<rparr>))"

end
