(* ===== verification/Slice_Laws.thy ===== *)
theory Slice_Laws
  imports Slice Fixtures
begin

text \<open>
  The slice of a project holds exactly what its root uses: the loops of \<open>slice_for_root\<close> compute the least set of
  declarations that is closed under references.
\<close>

section \<open>Draining a work list\<close>

text \<open>What a client of a closure computation relies on: the result is closed, and least.\<close>

locale reachability =
  fixes succ :: "'a \<Rightarrow> 'a list"
    and run :: "'a list \<Rightarrow> 'a list \<Rightarrow> 'a list"
  assumes run_extends: "set queue \<union> set kept \<subseteq> set (run queue kept)"
    and run_closed: "\<forall>x\<in>set kept. set (succ x) \<subseteq> set kept \<union> set queue \<Longrightarrow> x \<in> set (run queue kept) \<Longrightarrow>
      set (succ x) \<subseteq> set (run queue kept)"
    and run_least: "set queue \<union> set kept \<subseteq> S \<Longrightarrow> (\<And>x. x \<in> S \<Longrightarrow> set (succ x) \<subseteq> S) \<Longrightarrow> set (run queue kept) \<subseteq> S"
begin

definition reaches :: "'a \<Rightarrow> 'a \<Rightarrow> bool" where
  "reaches = (\<lambda>x y. y \<in> set (succ x))\<^sup>*\<^sup>*"

lemma run_reaches: "set (run queue []) = {y. \<exists>x\<in>set queue. reaches x y}"
proof
  show "set (run queue []) \<subseteq> {y. \<exists>x\<in>set queue. reaches x y}"
    by (rule run_least) (auto simp: reaches_def intro: rtranclp.rtrancl_into_rtrancl)
  show "{y. \<exists>x\<in>set queue. reaches x y} \<subseteq> set (run queue [])"
  proof clarify
    fix x y
    assume x: "x \<in> set queue" and "reaches x y"
    from this(2) show "y \<in> set (run queue [])"
      unfolding reaches_def
    proof (induction rule: rtranclp_induct)
      case base
      then show ?case using run_extends [of queue "[]"] x by auto
    next
      case (step y z)
      then show ?case using run_closed [of "[]" queue y] by auto
    qed
  qed
qed

end

lemma drain_extends: "set queue \<union> set kept \<subseteq> set (drain k d p queue kept)"
  by (induction k d p queue kept rule: drain.induct) auto

lemma drain_closed:
  "\<forall>x\<in>set kept. set (refs k d p x) \<subseteq> set kept \<union> set queue \<Longrightarrow> x \<in> set (drain k d p queue kept) \<Longrightarrow>
   set (refs k d p x) \<subseteq> set (drain k d p queue kept)"
proof (induction k d p queue kept arbitrary: x rule: drain.induct)
  case (2 k d p name queue kept)
  show ?case
  proof (cases "name \<in> set kept")
    case True
    then have "\<forall>x\<in>set kept. set (refs k d p x) \<subseteq> set kept \<union> set queue" using 2(3) by auto
    with 2 True show ?thesis by simp
  next
    case False
    then have "\<forall>x\<in>set (bs_insert name kept). set (refs k d p x) \<subseteq>
        set (bs_insert name kept) \<union> set (queue @ refs k d p name)"
      using 2(3) by auto
    with 2(2) [OF False this] 2(4) False show ?thesis by simp
  qed
qed simp

lemma drain_least:
  "set queue \<union> set kept \<subseteq> S \<Longrightarrow> (\<And>x. x \<in> S \<Longrightarrow> set (refs k d p x) \<subseteq> S) \<Longrightarrow> set (drain k d p queue kept) \<subseteq> S"
proof (induction k d p queue kept rule: drain.induct)
  case (2 k d p name queue kept)
  then show ?case by (cases "name \<in> set kept") auto
qed simp

interpretation work_list: reachability "refs k d p" "drain k d p" for k d p
  by unfold_locales (rule drain_extends, erule (1) drain_closed, erule drain_least)

section \<open>What a root uses\<close>

datatype item = ANode string | AContract string | AName string | AConst string

inductive used :: "decoder \<Rightarrow> project \<Rightarrow> string \<Rightarrow> item \<Rightarrow> bool" for d p root where
  used_root: "used d p root (ANode root)"
| used_call: "used d p root (ANode n) \<Longrightarrow> m \<in> set (node_calls d p n) \<Longrightarrow> used d p root (ANode m)"
| used_contract: "used d p root (ANode n) \<Longrightarrow> find_node p n = Some nd \<Longrightarrow> nd_contract nd = Some c \<Longrightarrow> used d p root (AContract c)"
| used_import: "used d p root (AContract c) \<Longrightarrow> c' \<in> set (contract_imports p c) \<Longrightarrow> used d p root (AContract c')"
| used_name: "used d p root (ANode n) \<Longrightarrow> find_node p n = Some nd \<Longrightarrow> eq \<in> set (nd_equations nd) \<Longrightarrow>
    v \<in> set (free_vars (eq_rhs eq)) \<Longrightarrow> used d p root (AName v)"
| used_contract_name: "used d p root (AContract c) \<Longrightarrow> e \<in> set (contract_exprs d p c) \<Longrightarrow> v \<in> set (free_vars e) \<Longrightarrow>
    used d p root (AName v)"
| used_const: "used d p root (AName v) \<Longrightarrow> c \<in> set (all_constants p) \<Longrightarrow> c_name_of c = v \<Longrightarrow> used d p root (AConst v)"
| used_const_name: "used d p root (AConst k) \<Longrightarrow> c \<in> set (all_constants p) \<Longrightarrow> c_name_of c = k \<Longrightarrow>
    v \<in> set (free_vars (c_value c)) \<Longrightarrow> used d p root (AName v)"
| used_const_call: "used d p root (AConst k) \<Longrightarrow> c \<in> set (all_constants p) \<Longrightarrow> c_name_of c = k \<Longrightarrow>
    m \<in> set (calls_in (c_value c)) \<Longrightarrow> used d p root (ANode m)"

text \<open>The types that the used declarations are declared with, and the names of types they lead to.\<close>

inductive declared_with :: "decoder \<Rightarrow> project \<Rightarrow> string \<Rightarrow> ty \<Rightarrow> bool" for d p root where
  declared_port: "used d p root (ANode n) \<Longrightarrow> find_node p n = Some nd \<Longrightarrow> po \<in> set (nd_inputs nd) \<union> set (nd_outputs nd) \<Longrightarrow>
    declared_with d p root (p_ty po)"
| declared_local: "used d p root (ANode n) \<Longrightarrow> find_node p n = Some nd \<Longrightarrow> l \<in> set (nd_locals nd) \<Longrightarrow>
    declared_with d p root (l_ty l)"
| declared_ghost: "used d p root (AContract c) \<Longrightarrow> t \<in> set (ghost_types d p c) \<Longrightarrow> declared_with d p root t"
| declared_const: "used d p root (AConst k) \<Longrightarrow> c \<in> set (all_constants p) \<Longrightarrow> c_name_of c = k \<Longrightarrow> declared_with d p root (c_ty c)"

inductive used_type :: "decoder \<Rightarrow> project \<Rightarrow> string \<Rightarrow> string \<Rightarrow> bool" for d p root where
  used_declared: "declared_with d p root t \<Longrightarrow> name \<in> set (push_named t) \<Longrightarrow> used_type d p root name"
| used_variant: "td \<in> set (all_types p) \<Longrightarrow> td_body td = EnumBody e \<Longrightarrow> v \<in> set (en_variants e) \<Longrightarrow>
    used d p root (AName v) \<Longrightarrow> used_type d p root (en_name e)"
| used_inside: "used_type d p root name \<Longrightarrow> td \<in> set (all_types p) \<Longrightarrow> td_name td = name \<Longrightarrow>
    name' \<in> set (body_types (td_body td)) \<Longrightarrow> used_type d p root name'"

section \<open>Everything kept is used\<close>

definition all_used :: "decoder \<Rightarrow> project \<Rightarrow> string \<Rightarrow> string list \<Rightarrow> closure \<Rightarrow> bool" where
  "all_used d p root queue s \<longleftrightarrow>
     (\<forall>n\<in>set queue \<union> set (sl_nodes s). used d p root (ANode n)) \<and>
     (\<forall>c\<in>set (sl_contracts s). used d p root (AContract c)) \<and>
     (\<forall>v\<in>set (sl_vars s). used d p root (AName v)) \<and>
     (\<forall>k\<in>set (sl_consts s). used d p root (AConst k)) \<and>
     (\<forall>t\<in>set (sl_types s). declared_with d p root t)"

lemma set_map_filter: "set (List.map_filter f xs) = {y. \<exists>x\<in>set xs. f x = Some y}"
  by (auto simp: List.map_filter_def image_iff) (metis option.sel option.distinct(1))

lemma set_fold_insert [simp]: "set (fold bs_insert xs s) = set xs \<union> set s"
  by (induction xs arbitrary: s) auto

lemma close_nodes_used:
  assumes "all_used d p root queue s"
  shows "all_used d p root [] (close_nodes d p queue s)"
proof -
  let ?nodes = "drain Calls d p queue (sl_nodes s)"
  have "set ?nodes \<subseteq> {n. used d p root (ANode n)}"
    using assms by (intro drain_least) (auto simp: all_used_def refs_def intro: used_call)
  then have nodes: "used d p root (ANode n)" if "n \<in> set ?nodes" for n using that by auto
  let ?cs = "List.map_filter nd_contract (List.map_filter (find_node p) ?nodes)"
  have "set (drain Imports d p ?cs (sl_contracts s)) \<subseteq> {c. used d p root (AContract c)}"
    using assms nodes
    by (intro drain_least) (auto simp: all_used_def refs_def set_map_filter intro: used_import used_contract)
  then have contracts: "used d p root (AContract c)" if "c \<in> set (drain Imports d p ?cs (sl_contracts s))" for c
    using that by auto
  from assms nodes contracts show ?thesis
    unfolding close_nodes_def all_used_def Let_def
    by (auto simp: set_map_filter intro: used_name used_contract_name declared_port declared_local declared_ghost)
qed

lemma const_value_refs:
  "project_const_value_refs p k target \<Longrightarrow> \<exists>c\<in>set (all_constants p). c_name_of c = k \<and> target \<in> set (free_vars (c_value c))"
  by (auto simp: project_const_value_refs_def split: option.splits dest!: find_SomeD)

lemma keep_const_used:
  assumes "c \<in> set (all_constants p)" "all_used d p root queue s" "keep_const p c (s, queue, round) = (s', queue', round')"
  shows "all_used d p root queue' s'"
proof (cases "(s', queue') = (s, queue)")
  case False
  with assms(3) have kept: "c_name_of c \<in> set (sl_vars s) \<or> list_ex (\<lambda>k. project_const_value_refs p k (c_name_of c)) (sl_consts s)"
    and new: "s' = s\<lparr>sl_consts := bs_insert (c_name_of c) (sl_consts s), sl_types := sl_types s @ [c_ty c],
        sl_vars := fold bs_insert (free_vars (c_value c)) (sl_vars s)\<rparr>" "queue' = queue @ calls_in (c_value c)"
    by (auto simp: keep_const_def split: if_splits)
  from kept have "used d p root (AName (c_name_of c))"
    using assms(2) by (auto simp: all_used_def list_ex_iff dest!: const_value_refs intro: used_const_name)
  then have "used d p root (AConst (c_name_of c))" by (rule used_const [OF _ assms(1) refl])
  with assms(1,2) show ?thesis
    unfolding new all_used_def by (auto intro: used_const_name used_const_call declared_const)
qed (use assms(2) in simp)

lemma const_round_used:
  assumes "all_used d p root queue s" "const_round p s queue = (s', queue', round)"
  shows "all_used d p root queue' s'"
proof -
  have "set cs \<subseteq> set (all_constants p) \<Longrightarrow> all_used d p root (fst (snd st)) (fst st) \<Longrightarrow>
      all_used d p root (fst (snd (fold (keep_const p) cs st))) (fst (fold (keep_const p) cs st))" for cs st
  proof (induction cs arbitrary: st)
    case (Cons c cs)
    obtain s1 q1 r1 where st: "st = (s1, q1, r1)" by (cases st)
    obtain s2 q2 r2 where step: "keep_const p c st = (s2, q2, r2)" by (cases "keep_const p c st")
    from keep_const_used [OF _ _ step [unfolded st]] Cons.prems st step have "all_used d p root q2 s2" by simp
    with Cons step show ?case by simp
  qed simp
  from this [of "all_constants p" "(s, queue, False)"] assms show ?thesis by (simp add: const_round_def)
qed

lemma const_loop_used:
  "all_used d p root queue s \<Longrightarrow> const_loop p s queue grew = (s', queue', grew') \<Longrightarrow> all_used d p root queue' s'"
proof (induction p s queue grew rule: const_loop.induct)
  case (1 p s queue grew)
  obtain s1 q1 round where round: "const_round p s queue = (s1, q1, round)" by (cases "const_round p s queue")
  from const_round_used [OF "1.prems"(1) round] "1.IH" [OF round [symmetric] refl] "1.prems"(2) round
  show ?case by (auto simp: const_loop.simps [of p s] split: if_splits)
qed

lemma close_all_used: "all_used d p root queue s \<Longrightarrow> all_used d p root [] (close_all d p queue s)"
proof (induction d p queue s rule: close_all.induct)
  case (1 d p queue s)
  obtain s' queue' grew where loop: "const_loop p (close_nodes d p queue s) [] False = (s', queue', grew)"
    by (cases "const_loop p (close_nodes d p queue s) [] False")
  have "all_used d p root queue' s'"
    by (rule const_loop_used [OF close_nodes_used [OF "1.prems"] loop])
  with "1.IH" [OF loop [symmetric] refl] loop show ?case by (auto simp: close_all.simps [of d p queue])
qed

section \<open>Everything used is kept\<close>

definition unique_constants :: "project \<Rightarrow> bool" where
  "unique_constants p \<longleftrightarrow> distinct (map c_name_of (all_constants p))"

lemma unique_constantsD:
  "unique_constants p \<Longrightarrow> c \<in> set (all_constants p) \<Longrightarrow> c' \<in> set (all_constants p) \<Longrightarrow> c_name_of c = c_name_of c' \<Longrightarrow> c = c'"
  unfolding unique_constants_def by (auto simp: distinct_map dest: inj_onD)

text \<open>The kept sets are closed under the references of their members, which may still be queued.\<close>

definition const_closed :: "string list \<Rightarrow> closure \<Rightarrow> const_def \<Rightarrow> bool" where
  "const_closed queue s c \<longleftrightarrow>
     set (free_vars (c_value c)) \<subseteq> set (sl_vars s) \<and> set (calls_in (c_value c)) \<subseteq> set (sl_nodes s) \<union> set queue \<and>
     c_ty c \<in> set (sl_types s)"

definition closed_under :: "decoder \<Rightarrow> project \<Rightarrow> string \<Rightarrow> string list \<Rightarrow> closure \<Rightarrow> bool" where
  "closed_under d p root queue s \<longleftrightarrow>
     root \<in> set queue \<union> set (sl_nodes s) \<and>
     (\<forall>n\<in>set (sl_nodes s). set (node_calls d p n) \<subseteq> set (sl_nodes s)) \<and>
     (\<forall>c\<in>set (sl_contracts s). set (contract_imports p c) \<subseteq> set (sl_contracts s)) \<and>
     (\<forall>c\<in>set (all_constants p). c_name_of c \<in> set (sl_consts s) \<longrightarrow> const_closed queue s c)"

lemma close_nodes_nodes:
  assumes "closed_under d p root queue s"
  shows "set queue \<union> set (sl_nodes s) \<subseteq> set (sl_nodes (close_nodes d p queue s))"
    and "n \<in> set (sl_nodes (close_nodes d p queue s)) \<Longrightarrow>
      set (node_calls d p n) \<subseteq> set (sl_nodes (close_nodes d p queue s))"
    and "c \<in> set (sl_contracts (close_nodes d p queue s)) \<Longrightarrow>
      set (contract_imports p c) \<subseteq> set (sl_contracts (close_nodes d p queue s))"
    and "n \<in> set (sl_nodes (close_nodes d p queue s)) \<Longrightarrow> find_node p n = Some nd \<Longrightarrow> nd_contract nd = Some c \<Longrightarrow>
      c \<in> set (sl_contracts (close_nodes d p queue s))"
proof -
  show "set queue \<union> set (sl_nodes s) \<subseteq> set (sl_nodes (close_nodes d p queue s))"
    unfolding close_nodes_def Let_def closure.simps by (rule drain_extends)
  show "n \<in> set (sl_nodes (close_nodes d p queue s)) \<Longrightarrow>
      set (node_calls d p n) \<subseteq> set (sl_nodes (close_nodes d p queue s))"
    unfolding close_nodes_def Let_def closure.simps
    using assms drain_closed [of "sl_nodes s" Calls d p queue n] by (auto simp: closed_under_def refs_def)
  show "c \<in> set (sl_contracts (close_nodes d p queue s)) \<Longrightarrow>
      set (contract_imports p c) \<subseteq> set (sl_contracts (close_nodes d p queue s))"
    unfolding close_nodes_def Let_def closure.simps
    using assms drain_closed [of "sl_contracts s" Imports d p _ c] by (simp add: closed_under_def refs_def) blast
  show "n \<in> set (sl_nodes (close_nodes d p queue s)) \<Longrightarrow> find_node p n = Some nd \<Longrightarrow> nd_contract nd = Some c \<Longrightarrow>
      c \<in> set (sl_contracts (close_nodes d p queue s))"
    unfolding close_nodes_def Let_def closure.simps
    by (rule subsetD [OF drain_extends]) (auto simp: set_map_filter)
qed

lemma close_nodes_closed:
  assumes "closed_under d p root queue s"
  shows "closed_under d p root [] (close_nodes d p queue s)"
  unfolding closed_under_def
proof (intro conjI ballI impI)
  note nodes = close_nodes_nodes [OF assms]
  show "root \<in> set [] \<union> set (sl_nodes (close_nodes d p queue s))"
    using nodes(1) assms by (auto simp: closed_under_def)
  show "set (node_calls d p n) \<subseteq> set (sl_nodes (close_nodes d p queue s))"
    if "n \<in> set (sl_nodes (close_nodes d p queue s))" for n using that by (rule nodes(2))
  show "set (contract_imports p c) \<subseteq> set (sl_contracts (close_nodes d p queue s))"
    if "c \<in> set (sl_contracts (close_nodes d p queue s))" for c using that by (rule nodes(3))
  fix c
  assume c: "c \<in> set (all_constants p)" "c_name_of c \<in> set (sl_consts (close_nodes d p queue s))"
  then have "const_closed queue s c" using assms by (simp add: closed_under_def close_nodes_def Let_def)
  moreover have "set (sl_vars s) \<subseteq> set (sl_vars (close_nodes d p queue s))"
    "set (sl_types s) \<subseteq> set (sl_types (close_nodes d p queue s))"
    by (auto simp: close_nodes_def Let_def)
  ultimately show "const_closed [] (close_nodes d p queue s) c" using nodes(1) by (auto simp: const_closed_def)
qed

lemma keep_const_closed:
  assumes "unique_constants p" "c \<in> set (all_constants p)" "closed_under d p root queue s"
    "keep_const p c (s, queue, round) = (s', queue', round')"
  shows "closed_under d p root queue' s'"
proof (cases "(s', queue') = (s, queue)")
  case False
  with assms(4) have new: "s' = s\<lparr>sl_consts := bs_insert (c_name_of c) (sl_consts s), sl_types := sl_types s @ [c_ty c],
        sl_vars := fold bs_insert (free_vars (c_value c)) (sl_vars s)\<rparr>" "queue' = queue @ calls_in (c_value c)"
    by (auto simp: keep_const_def split: if_splits)
  show ?thesis
    unfolding closed_under_def
  proof (intro conjI ballI impI)
    fix c'
    assume c': "c' \<in> set (all_constants p)" "c_name_of c' \<in> set (sl_consts s')"
    show "const_closed queue' s' c'"
    proof (cases "c_name_of c' = c_name_of c")
      case True
      then have "c' = c" using unique_constantsD [OF assms(1) c'(1) assms(2)] by simp
      then show ?thesis by (auto simp: new const_closed_def)
    next
      case False
      with c' assms(3) have "const_closed queue s c'" by (auto simp: closed_under_def new)
      then show ?thesis by (auto simp: new const_closed_def)
    qed
  qed (use assms(3) in \<open>auto simp: closed_under_def new\<close>)
qed (use assms(3) in simp)

text \<open>A round that keeps no constant changes nothing, because no constant that is mentioned was left out.\<close>

definition consts_settled :: "project \<Rightarrow> closure \<Rightarrow> bool" where
  "consts_settled p s \<longleftrightarrow> (\<forall>c\<in>set (all_constants p). c_name_of c \<in> set (sl_vars s) \<longrightarrow> c_name_of c \<in> set (sl_consts s))"

lemma const_round_settled: "const_round p s queue = (s', queue', False) \<Longrightarrow> s' = s \<and> queue' = queue \<and> consts_settled p s"
proof -
  have "fold (keep_const p) cs st = (s', queue', False) \<Longrightarrow>
      st = (s', queue', False) \<and> (\<forall>c\<in>set cs. c_name_of c \<in> set (sl_vars s') \<longrightarrow> c_name_of c \<in> set (sl_consts s'))" for cs st
  proof (induction cs arbitrary: st)
    case (Cons c cs)
    from Cons.prems have "fold (keep_const p) cs (keep_const p c st) = (s', queue', False)" by simp
    from Cons.IH [OF this] have step: "keep_const p c st = (s', queue', False)"
      and rest: "\<forall>c\<in>set cs. c_name_of c \<in> set (sl_vars s') \<longrightarrow> c_name_of c \<in> set (sl_consts s')" by simp_all
    from step have "st = (s', queue', False) \<and> (c_name_of c \<in> set (sl_vars s') \<longrightarrow> c_name_of c \<in> set (sl_consts s'))"
      by (cases st) (auto simp: keep_const_def split: if_splits)
    with rest show ?case by simp
  qed simp
  from this [of "all_constants p" "(s, queue, False)"]
  show "const_round p s queue = (s', queue', False) \<Longrightarrow> s' = s \<and> queue' = queue \<and> consts_settled p s"
    by (auto simp: const_round_def consts_settled_def)
qed

lemma const_round_closed:
  assumes "unique_constants p" "closed_under d p root queue s" "const_round p s queue = (s', queue', round)"
  shows "closed_under d p root queue' s'"
proof -
  have "set cs \<subseteq> set (all_constants p) \<Longrightarrow> closed_under d p root (fst (snd st)) (fst st) \<Longrightarrow>
      closed_under d p root (fst (snd (fold (keep_const p) cs st))) (fst (fold (keep_const p) cs st))" for cs st
  proof (induction cs arbitrary: st)
    case (Cons c cs)
    obtain s1 q1 r1 where st: "st = (s1, q1, r1)" by (cases st)
    obtain s2 q2 r2 where step: "keep_const p c st = (s2, q2, r2)" by (cases "keep_const p c st")
    from keep_const_closed [OF assms(1) _ _ step [unfolded st]] Cons.prems st have "closed_under d p root q2 s2" by simp
    with Cons step show ?case by simp
  qed simp
  from this [of "all_constants p" "(s, queue, False)"] assms(2,3) show ?thesis by (simp add: const_round_def)
qed

lemma const_loop_closed:
  "unique_constants p \<Longrightarrow> closed_under d p root queue s \<Longrightarrow> const_loop p s queue grew = (s', queue', grew') \<Longrightarrow>
   closed_under d p root queue' s' \<and> (\<not> grew' \<longrightarrow> s' = s \<and> queue' = queue \<and> consts_settled p s)"
proof (induction p s queue grew rule: const_loop.induct)
  case (1 p s queue grew)
  obtain s1 q1 round where round: "const_round p s queue = (s1, q1, round)" by (cases "const_round p s queue")
  note closed = const_round_closed [OF "1.prems"(1,2) round]
  show ?case
  proof (cases round)
    case True
    with round "1.prems"(3) have rest: "const_loop p s1 q1 True = (s', queue', grew')"
      by (simp add: const_loop.simps [of p s])
    from const_loop_queue [OF rest] have grew' by simp
    with "1.IH" [OF round [symmetric] refl True "1.prems"(1) closed rest] show ?thesis by simp
  next
    case False
    with round "1.prems"(3) closed const_round_settled [of p s queue s1 q1] show ?thesis
      by (auto simp: const_loop.simps [of p s])
  qed
qed

lemma close_all_final:
  "unique_constants p \<Longrightarrow> closed_under d p root queue s \<Longrightarrow>
   \<exists>q0 s0. closed_under d p root q0 s0 \<and> close_all d p queue s = close_nodes d p q0 s0 \<and>
     consts_settled p (close_nodes d p q0 s0)"
proof (induction d p queue s rule: close_all.induct)
  case (1 d p queue s)
  obtain s' queue' grew where loop: "const_loop p (close_nodes d p queue s) [] False = (s', queue', grew)"
    by (cases "const_loop p (close_nodes d p queue s) [] False")
  from const_loop_closed [OF "1.prems"(1) close_nodes_closed [OF "1.prems"(2)] loop]
  have closed: "closed_under d p root queue' s'"
    and stop: "\<not> grew \<Longrightarrow> s' = close_nodes d p queue s \<and> consts_settled p (close_nodes d p queue s)" by auto
  show ?case
  proof (cases "queue' = [] \<and> \<not> grew")
    case True
    then have "close_all d p queue s = s'" using loop by (simp add: close_all.simps [of d p queue])
    with stop True "1.prems"(2) show ?thesis by blast
  next
    case False
    then have "close_all d p queue s = close_all d p queue' s'" using loop by (subst close_all.simps) (simp only: prod.case False if_False)
    with "1.IH" [OF loop [symmetric] refl False "1.prems"(1) closed] show ?thesis by simp
  qed
qed

fun kept :: "closure \<Rightarrow> item \<Rightarrow> bool" where
  "kept s (ANode n) \<longleftrightarrow> n \<in> set (sl_nodes s)"
| "kept s (AContract c) \<longleftrightarrow> c \<in> set (sl_contracts s)"
| "kept s (AName v) \<longleftrightarrow> v \<in> set (sl_vars s)"
| "kept s (AConst k) \<longleftrightarrow> k \<in> set (sl_consts s)"

lemma used_kept:
  assumes closed: "closed_under d p root q0 s0" and s: "s = close_nodes d p q0 s0" and settled: "consts_settled p s"
  shows "used d p root i \<Longrightarrow> kept s i"
proof (induction rule: used.induct)
  note nodes = close_nodes_nodes [OF closed, folded s]
  have final: "closed_under d p root [] s" unfolding s by (rule close_nodes_closed [OF closed])
  {
    case used_root
    then show ?case using final by (simp add: closed_under_def)
  next
    case (used_call n m)
    then show ?case using nodes(2) by auto
  next
    case (used_contract n nd c)
    then show ?case using nodes(4) by auto
  next
    case (used_import c c')
    then show ?case using nodes(3) by auto
  next
    case (used_name n nd eq v)
    then show ?case unfolding s by (auto simp: close_nodes_def Let_def set_map_filter)
  next
    case (used_contract_name c e v)
    then show ?case unfolding s by (auto simp: close_nodes_def Let_def)
  next
    case (used_const v c)
    then show ?case using settled by (auto simp: consts_settled_def)
  next
    case (used_const_name k c v)
    then show ?case using final by (auto simp: closed_under_def const_closed_def)
  next
    case (used_const_call k c m)
    then show ?case using final by (auto simp: closed_under_def const_closed_def)
  }
qed

lemma declared_kept:
  assumes closed: "closed_under d p root q0 s0" and s: "s = close_nodes d p q0 s0" and settled: "consts_settled p s"
  shows "declared_with d p root t \<Longrightarrow> t \<in> set (sl_types s)"
proof (induction rule: declared_with.induct)
  note kept = used_kept [OF closed s settled]
  have final: "closed_under d p root [] s" unfolding s by (rule close_nodes_closed [OF closed])
  {
    case (declared_port n nd po)
    then show ?case using kept [of "ANode n"] unfolding s by (auto simp: close_nodes_def Let_def set_map_filter)
  next
    case (declared_local n nd l)
    then show ?case using kept [of "ANode n"] unfolding s by (auto simp: close_nodes_def Let_def set_map_filter)
  next
    case (declared_ghost c t)
    then show ?case using kept [of "AContract c"] unfolding s by (auto simp: close_nodes_def Let_def)
  next
    case (declared_const k c)
    then show ?case using kept [of "AConst k"] final by (auto simp: closed_under_def const_closed_def)
  }
qed

section \<open>The slice\<close>

theorem close_from_exact:
  assumes "unique_constants p"
  shows "kept (close_from d p root) i \<longleftrightarrow> used d p root i"
    and "t \<in> set (sl_types (close_from d p root)) \<longleftrightarrow> declared_with d p root t"
proof -
  let ?s = "\<lparr>sl_nodes = [], sl_contracts = [], sl_vars = [], sl_types = [], sl_consts = []\<rparr>"
  have "closed_under d p root [root] ?s" by (simp add: closed_under_def)
  from close_all_final [OF assms this] obtain q0 s0 where final: "closed_under d p root q0 s0"
    "close_from d p root = close_nodes d p q0 s0" "consts_settled p (close_nodes d p q0 s0)"
    by (auto simp: close_from_def)
  have "all_used d p root [root] ?s" by (simp add: all_used_def used_root)
  then have sound: "all_used d p root [] (close_from d p root)" unfolding close_from_def by (rule close_all_used)
  note settled = final(3) [folded final(2)]
  show "kept (close_from d p root) i \<longleftrightarrow> used d p root i"
    using used_kept [OF final(1,2) settled, of i] sound by (cases i) (auto simp: all_used_def)
  show "t \<in> set (sl_types (close_from d p root)) \<longleftrightarrow> declared_with d p root t"
    using declared_kept [OF final(1,2) settled, of t] sound by (auto simp: all_used_def)
qed

lemma set_variant_types:
  "x \<in> set (variant_types p vars) \<longleftrightarrow>
     (\<exists>td e v. td \<in> set (all_types p) \<and> td_body td = EnumBody e \<and> v \<in> set (en_variants e) \<and> v \<in> set vars \<and> x = en_name e)"
proof -
  have variant: "x \<in> set (case td_body td of EnumBody e \<Rightarrow> if list_ex (\<lambda>v. v \<in> set vars) (en_variants e) then [en_name e] else [] | _ \<Rightarrow> [])
      \<longleftrightarrow> (\<exists>e v. td_body td = EnumBody e \<and> v \<in> set (en_variants e) \<and> v \<in> set vars \<and> x = en_name e)" for td
    by (cases "td_body td") (auto simp: list_ex_iff)
  show ?thesis
    unfolding variant_types_def by (simp only: set_concat set_map image_image UN_iff variant) blast
qed

lemma close_types_exact:
  assumes "unique_constants p"
  shows "name \<in> set (close_types d p (close_from d p root)) \<longleftrightarrow> used_type d p root name"
proof
  let ?start = "concat (map push_named (sl_types (close_from d p root))) @ variant_types p (sl_vars (close_from d p root))"
  note exact = close_from_exact [OF assms, where d = d and root = root]
  have vars: "v \<in> set (sl_vars (close_from d p root)) \<longleftrightarrow> used d p root (AName v)" for v using exact(1) [where i = "AName v"] by simp
  have start: "x \<in> set ?start \<longleftrightarrow>
      (\<exists>t. declared_with d p root t \<and> x \<in> set (push_named t)) \<or>
      (\<exists>td e v. td \<in> set (all_types p) \<and> td_body td = EnumBody e \<and> v \<in> set (en_variants e) \<and> used d p root (AName v) \<and> x = en_name e)" for x
    by (simp only: set_append Un_iff set_variant_types vars) (auto simp: exact(2))
  have inside: "x \<in> set (type_refs p n) \<longleftrightarrow> (\<exists>td\<in>set (all_types p). td_name td = n \<and> x \<in> set (body_types (td_body td)))" for x n
    by (auto simp: type_refs_def split: if_splits)
  show "used_type d p root name" if "name \<in> set (close_types d p (close_from d p root))"
  proof -
    have "set ?start \<subseteq> {n. used_type d p root n}"
    proof
      fix x
      assume "x \<in> set ?start"
      then show "x \<in> {n. used_type d p root n}" using start [of x] by (auto intro: used_declared used_variant)
    qed
    then have "set (drain Types d p ?start []) \<subseteq> {n. used_type d p root n}"
      by (intro drain_least) (auto simp: refs_def inside intro: used_inside)
    with that show ?thesis by (auto simp: close_types_def)
  qed
  show "name \<in> set (close_types d p (close_from d p root))" if "used_type d p root name"
    using that unfolding close_types_def
  proof (induction rule: used_type.induct)
    case (used_declared t name)
    then show ?case using drain_extends [of ?start "[]" Types d p] start [of name] by blast
  next
    case (used_variant td e v)
    then show ?case using drain_extends [of ?start "[]" Types d p] start [of "en_name e"] by blast
  next
    case (used_inside name td name')
    then have "name' \<in> set (refs Types d p name)" by (auto simp: refs_def inside)
    with used_inside.IH show ?case using drain_closed [of "[]" Types d p ?start name] by auto
  qed
qed

lemma concat_kept_packages:
  assumes "\<And>pkg. empty_package pkg \<Longrightarrow> get pkg = []" "\<And>pkg. get (f pkg) = filter P (get pkg)"
  shows "concat (map get (filter (\<lambda>pkg. \<not> empty_package pkg) (map f ps))) = filter P (concat (map get ps))"
proof (induction ps)
  case (Cons pkg ps)
  have "filter P (get pkg) = []" if "empty_package (f pkg)" using assms(1) [OF that] assms(2) by simp
  with Cons show ?case by (simp add: assms(2))
qed simp

theorem slice_exact:
  assumes "unique_constants p" "slice_for_root d p root = Inr q"
  shows "\<exists>r. selected_node_name p root = Some r \<and> pj_main q = Some r \<and>
    all_nodes q = filter (\<lambda>n. used d p r (ANode (nd_name n))) (all_nodes p) \<and>
    all_constants q = filter (\<lambda>c. used d p r (AConst (c_name_of c))) (all_constants p) \<and>
    all_types q = filter (\<lambda>t. used_type d p r (td_name t)) (all_types p) \<and>
    concat (map pk_contracts (pj_packages q)) =
      filter (\<lambda>raw. \<exists>c. j_name raw = Some c \<and> used d p r (AContract c)) (concat (map pk_contracts (pj_packages p)))"
proof -
  from assms(2) obtain r where r: "selected_node_name p root = Some r"
    and q: "pj_main q = Some r" "pj_packages q = filter (\<lambda>pkg. \<not> empty_package pkg)
      (map (slice_package (close_from d p r) (close_types d p (close_from d p r))) (pj_packages p))"
    by (auto simp: slice_for_root_def Let_def split: option.splits)
  let ?s = "close_from d p r"
  note exact = close_from_exact(1) [OF assms(1), where d = d and root = r]
  have nodes: "x \<in> set (sl_nodes ?s) \<longleftrightarrow> used d p r (ANode x)" and constants: "x \<in> set (sl_consts ?s) \<longleftrightarrow> used d p r (AConst x)"
    and contracts: "x \<in> set (sl_contracts ?s) \<longleftrightarrow> used d p r (AContract x)" for x
    using exact [where i = "ANode x"] exact [where i = "AConst x"] exact [where i = "AContract x"] by auto
  have named: "keeps_name (sl_contracts ?s) = (\<lambda>raw. \<exists>c. j_name raw = Some c \<and> used d p r (AContract c))"
    by (auto simp: keeps_name_def fun_eq_iff contracts split: option.splits)
  note packages = concat_kept_packages [where f = "slice_package ?s (close_types d p ?s)"]
  show ?thesis
  proof (intro exI conjI)
    show "all_nodes q = filter (\<lambda>n. used d p r (ANode (nd_name n))) (all_nodes p)"
      unfolding all_nodes_def q(2) by (rule packages) (simp_all add: empty_package_def slice_package_def nodes)
    show "all_constants q = filter (\<lambda>c. used d p r (AConst (c_name_of c))) (all_constants p)"
      unfolding all_constants_def q(2) by (rule packages) (simp_all add: empty_package_def slice_package_def constants)
    show "all_types q = filter (\<lambda>t. used_type d p r (td_name t)) (all_types p)"
      unfolding all_types_def q(2)
      by (rule packages) (simp_all add: empty_package_def slice_package_def close_types_exact [OF assms(1)])
    show "concat (map pk_contracts (pj_packages q)) =
        filter (\<lambda>raw. \<exists>c. j_name raw = Some c \<and> used d p r (AContract c)) (concat (map pk_contracts (pj_packages p)))"
      unfolding q(2) by (rule packages) (simp_all add: empty_package_def slice_package_def named)
  qed (fact r, fact q(1))
qed

section \<open>Concrete slices\<close>

definition no_json :: decoder where
  "no_json = \<lparr>to_expr = \<lambda>_. None, to_type = \<lambda>_. None\<rparr>"

lemmas slice_eval =
  slice_for_root_def selected_node_name_def close_from_def close_all.simps const_loop.simps close_nodes_def const_round_def
  keep_const_def project_const_value_refs_def refs_def node_calls_def resolved_node_name_def find_node_eq all_nodes_def
  all_constants_def all_types_def List.map_filter_def calls_in_def free_vars_def push_unique_def close_types_def
  variant_types_def slice_package_def empty_package_def

text \<open>A node, the node and the constant that it uses, and two declarations that it does not use.\<close>

definition gain_main :: node_def where
  "gain_main = mk_node ''Main'' [mk_port ''x'' TInt32] [mk_port ''y'' TInt32] [] [mk_eq ''y'' (Call ''Scale'' [Var ''x''])]"

definition gain_scale :: node_def where
  "gain_scale = mk_node ''Scale'' [mk_port ''u'' TInt32] [mk_port ''v'' TInt32] []
     [mk_eq ''v'' (Binary BMul (Var ''u'') (Var ''GAIN''))]"

definition gain_project :: project where
  "gain_project = (mk_project [])\<lparr>pj_packages := [(mk_package [mk_node ''Spare'' [] [] [] [], gain_main, gain_scale])
     \<lparr>pk_constants := [\<lparr>c_name_of = ''GAIN'', c_ty = TInt32, c_value = int_lit 2\<rparr>,
       \<lparr>c_name_of = ''OTHER'', c_ty = TInt32, c_value = int_lit 1\<rparr>]\<rparr>]\<rparr>"

lemma gain_slice:
  "\<exists>q. slice_for_root no_json gain_project ''Main'' = Inr q \<and> all_nodes q = [gain_main, gain_scale] \<and>
     map c_name_of (all_constants q) = [''GAIN'']"
  by (simp add: slice_eval gain_project_def gain_main_def gain_scale_def fixture_defs int_lit_def Let_def)

lemma gain_unique: "unique_constants gain_project"
  by (simp add: unique_constants_def all_constants_def gain_project_def fixture_defs)

text \<open>The type of a struct literal is not kept when no port, local or constant is declared with it.\<close>

definition point_node :: node_def where
  "point_node = mk_node ''Main'' [] [mk_port ''y'' TInt32] [] [mk_eq ''y'' (Field (Struct ''Point'' [(''a'', int_lit 1)]) ''a'')]"

definition point_project :: project where
  "point_project = (mk_project [])\<lparr>pj_packages := [(mk_package [point_node])
     \<lparr>pk_types := [\<lparr>td_body = RecordBody ''Point'' [\<lparr>rf_name = ''a'', rf_ty = TInt32\<rparr>]\<rparr>]\<rparr>]\<rparr>"

lemma literal_type_dropped:
  "\<exists>q. slice_for_root no_json point_project ''Main'' = Inr q \<and> all_nodes q = [point_node] \<and> all_types q = []"
  by (simp add: slice_eval point_project_def point_node_def fixture_defs int_lit_def Let_def)

text \<open>A node that is called only in a contract that another contract imports is not kept, although the contract is.\<close>

definition import_json :: decoder where
  "import_json = \<lparr>to_expr = \<lambda>v. if v = JString ''Limit()'' then Some (Call ''Limit'' []) else None, to_type = \<lambda>_. None\<rparr>"

definition import_contracts :: "json list" where
  "import_contracts =
     [JObject [(''name'', JString ''Own''), (''imports'', JArray [JObject [(''contract'', JString ''Shared'')]])],
      JObject [(''name'', JString ''Shared''), (''guarantees'', JArray [JObject [(''expr'', JString ''Limit()'')]])]]"

definition import_project :: project where
  "import_project = (mk_project [])\<lparr>pj_packages := [(mk_package
     [(mk_node ''Main'' [] [] [] [])\<lparr>nd_contract := Some ''Own''\<rparr>, mk_node ''Limit'' [] [] [] []])
     \<lparr>pk_contracts := import_contracts\<rparr>]\<rparr>"

lemma imported_contract_call_dropped:
  "\<exists>q. slice_for_root import_json import_project ''Main'' = Inr q \<and>
     concat (map pk_contracts (pj_packages q)) = import_contracts \<and> map nd_name (all_nodes q) = [''Main'']"
  by (simp add: slice_eval contract_imports_def contract_exprs_def ghost_types_def find_contract_raw_def j_name_def j_items_def
    decoded_def keeps_name_def import_json_def import_project_def import_contracts_def fixture_defs Let_def)

end
