(* ===== verification/Occurrence.thy ===== *)
theory Occurrence
  imports IR_Project
begin

text \<open>
  What an expression is made of, stated apart from the traversals of the code: its operands with their positions,
  the subexpressions with their addresses, and the names that occur in it. The properties of the scheduler, the
  cycle check, the clock check, slicing and coverage are stated with these relations.
\<close>

section \<open>Operands\<close>

text \<open>\<open>operand e i x\<close>: \<open>x\<close> is the operand of \<open>e\<close> at position \<open>i\<close>.\<close>

inductive operand :: "expr \<Rightarrow> nat \<Rightarrow> expr \<Rightarrow> bool" where
  unary: "operand (Unary op x) 0 x"
| left: "operand (Binary op l r) 0 l"
| right: "operand (Binary op l r) (Suc 0) r"
| condition: "operand (IfThenElse c t f) 0 c"
| on_true: "operand (IfThenElse c t f) (Suc 0) t"
| on_false: "operand (IfThenElse c t f) (Suc (Suc 0)) f"
| delayed: "operand (Pre x) 0 x"
| initial: "operand (Arrow i b) 0 i"
| body: "operand (Arrow i b) (Suc 0) b"
| argument: "i < length args \<Longrightarrow> operand (Call node args) i (args ! i)"
| base: "operand (Field b f) 0 b"
| array: "operand (Index b j) 0 b"
| index: "operand (Index b j) (Suc 0) j"
| item: "i < length items \<Longrightarrow> operand (Tuple items) i (items ! i)"
| element: "i < length items \<Longrightarrow> operand (Array items) i (items ! i)"
| field: "i < length fis \<Longrightarrow> operand (Struct t fis) i (snd (fis ! i))"
| cast: "operand (Cast t x) 0 x"
| sampled: "operand (When x clock on) 0 x"
| merged_true: "operand (Merge clock x y) 0 x"
| merged_false: "operand (Merge clock x y) (Suc 0) y"
| mapped: "i < length arrays \<Longrightarrow> operand (Iterate kind node None arrays) i (arrays ! i)"
| seed: "operand (Iterate kind node (Some s) arrays) 0 s"
| folded: "i < length arrays \<Longrightarrow> operand (Iterate kind node (Some s) arrays) (Suc i) (arrays ! i)"

lemma operand_iff: "operand e i x \<longleftrightarrow> i < length (children e) \<and> x = children e ! i"
proof
  show "operand e i x \<Longrightarrow> i < length (children e) \<and> x = children e ! i" by (induction rule: operand.induct) auto
next
  assume *: "i < length (children e) \<and> x = children e ! i"
  show "operand e i x"
  proof (cases e)
    case (Iterate kind node init arrays)
    with * show ?thesis by (cases init; cases i) (auto intro: operand.intros)
  next
    case (Struct t fis)
    with * show ?thesis using operand.field [of i fis t] by simp
  next
    case (IfThenElse c t f)
    with * show ?thesis by (auto simp: less_Suc_eq nth_Cons' intro: operand.intros)
  qed (use * in \<open>auto simp: less_Suc_eq intro: operand.intros\<close>)
qed

lemma operand_child: "operand e i x \<Longrightarrow> x \<in> set (children e)"
  by (simp add: operand_iff)

lemma child_operand: "x \<in> set (children e) \<Longrightarrow> \<exists>i. operand e i x"
  by (auto simp: operand_iff in_set_conv_nth)

section \<open>Subexpressions\<close>

text \<open>\<open>stands_at a e b y\<close>: at address \<open>b\<close> of an expression \<open>e\<close> at address \<open>a\<close> stands \<open>y\<close>.\<close>

inductive stands_at :: "addr \<Rightarrow> expr \<Rightarrow> addr \<Rightarrow> expr \<Rightarrow> bool" where
  here: "stands_at a e a e"
| inside: "operand e i x \<Longrightarrow> stands_at (child a i) x b y \<Longrightarrow> stands_at a e b y"

inductive part_of :: "expr \<Rightarrow> expr \<Rightarrow> bool" where
  whole: "part_of e e"
| part: "operand e i x \<Longrightarrow> part_of y x \<Longrightarrow> part_of y e"

lemma part_of_visit: "part_of y e \<longleftrightarrow> y \<in> set (visit e)"
proof
  show "part_of y e \<Longrightarrow> y \<in> set (visit e)"
    by (induction rule: part_of.induct) (auto intro: visit_child dest: operand_child)
  show "y \<in> set (visit e) \<Longrightarrow> part_of y e"
  proof (induction e rule: expr_children_induct)
    case (step e)
    from step.prems consider "y = e" | x where "x \<in> set (children e)" "y \<in> set (visit x)" by (subst (asm) visit_children) auto
    then show ?case
    proof cases
      case (2 x)
      with child_operand obtain i where "operand e i x" by blast
      with step.IH [OF 2] show ?thesis by (blast intro: part_of.part)
    qed (simp add: whole)
  qed
qed

section \<open>Names read in a cycle\<close>

text \<open>
  \<open>occurs w e x\<close>: the value of \<open>e\<close> in a cycle is computed from the value of \<open>x\<close> in the same cycle. What stands
  under a \<open>pre\<close> does not count. The body of an arrow counts if \<open>w\<close> holds: in the first cycle only the initial
  value is taken.
\<close>

inductive occurs :: "bool \<Rightarrow> expr \<Rightarrow> string \<Rightarrow> bool" for w where
  name: "occurs w (Var x) x"
| sampling: "occurs w (When e x on) x"
| merging: "occurs w (Merge x t f) x"
| operand: "operand e i y \<Longrightarrow> \<not> (\<exists>p. e = Pre p) \<Longrightarrow> i = 0 \<or> w \<or> \<not> (\<exists>p b. e = Arrow p b) \<Longrightarrow> occurs w y x \<Longrightarrow> occurs w e x"

inductive_cases occursE: "occurs w e x"

lemma occurs_mono: "occurs False e x \<Longrightarrow> occurs True e x"
  by (induction rule: occurs.induct) (auto intro: occurs.intros)

end
