(* ===== verification/Slice_Spec.thy ===== *)
theory Slice_Spec
  imports Slice_Laws Occurrence
begin

text \<open>
  The references that a slice follows, stated on the declarations themselves and not by the traversals of the code.
\<close>

section \<open>References\<close>

text \<open>The names an expression mentions, wherever they stand in it, and the nodes that it calls or iterates.\<close>

definition mentions :: "expr \<Rightarrow> string \<Rightarrow> bool" where
  "mentions e v \<longleftrightarrow> part_of (Var v) e \<or> (\<exists>x on. part_of (When x v on) e) \<or> (\<exists>x y. part_of (Merge v x y) e)"

definition applies :: "expr \<Rightarrow> string \<Rightarrow> bool" where
  "applies e m \<longleftrightarrow> (\<exists>args. part_of (Call m args) e) \<or> (\<exists>kind init arrays. part_of (Iterate kind m init arrays) e)"

inductive names_type :: "ty \<Rightarrow> string \<Rightarrow> bool" where
  named_type: "names_type (TNamed name) name"
| element_type: "names_type t name \<Longrightarrow> names_type (TArray t k) name"

text \<open>The first contract of a name, and the expressions that a contract states.\<close>

definition contract_named :: "project \<Rightarrow> string \<Rightarrow> json \<Rightarrow> bool" where
  "contract_named p c raw \<longleftrightarrow> (\<exists>before after. concat (map pk_contracts (pj_packages p)) = before @ raw # after \<and>
     j_name raw = Some c \<and> (\<forall>r\<in>set before. j_name r \<noteq> Some c))"

inductive clause_of :: "decoder \<Rightarrow> json \<Rightarrow> expr \<Rightarrow> bool" for d where
  clause: "key = ''assumptions'' \<or> key = ''guarantees'' \<Longrightarrow> item \<in> set (j_items raw key) \<Longrightarrow> j_get item ''expr'' = Some v \<Longrightarrow>
    to_expr d v = Some e \<Longrightarrow> clause_of d raw e"
| mode_clause: "mode \<in> set (j_items raw ''modes'') \<Longrightarrow> key = ''requires'' \<or> key = ''ensures'' \<Longrightarrow> v \<in> set (j_items mode key) \<Longrightarrow>
    to_expr d v = Some e \<Longrightarrow> clause_of d raw e"
| ghost: "g \<in> set (j_items raw ''ghost_vars'') \<Longrightarrow> j_get g ''definition'' = Some v \<Longrightarrow> to_expr d v = Some e \<Longrightarrow> clause_of d raw e"

text \<open>
  What is reached from the root. Calls are followed in equations, in the node's own contract and in the values of
  constants; names in equations, in all contracts that are reached, and in the values of constants.
\<close>

inductive reached :: "decoder \<Rightarrow> project \<Rightarrow> string \<Rightarrow> item \<Rightarrow> bool" for d p root where
  start: "reached d p root (ANode root)"
| equation_call: "reached d p root (ANode n) \<Longrightarrow> find_node p n = Some nd \<Longrightarrow> eq \<in> set (nd_equations nd) \<Longrightarrow> applies (eq_rhs eq) m \<Longrightarrow>
    reached d p root (ANode m)"
| contract_call: "reached d p root (ANode n) \<Longrightarrow> find_node p n = Some nd \<Longrightarrow> nd_contract nd = Some c \<Longrightarrow> contract_named p c raw \<Longrightarrow>
    clause_of d raw e \<Longrightarrow> applies e m \<Longrightarrow> reached d p root (ANode m)"
| own_contract: "reached d p root (ANode n) \<Longrightarrow> find_node p n = Some nd \<Longrightarrow> nd_contract nd = Some c \<Longrightarrow> reached d p root (AContract c)"
| imported: "reached d p root (AContract c) \<Longrightarrow> contract_named p c raw \<Longrightarrow> imp \<in> set (j_items raw ''imports'') \<Longrightarrow>
    j_get imp ''contract'' = Some v \<Longrightarrow> j_as_str v = Some c' \<Longrightarrow> reached d p root (AContract c')"
| equation_name: "reached d p root (ANode n) \<Longrightarrow> find_node p n = Some nd \<Longrightarrow> eq \<in> set (nd_equations nd) \<Longrightarrow> mentions (eq_rhs eq) v \<Longrightarrow>
    reached d p root (AName v)"
| contract_name: "reached d p root (AContract c) \<Longrightarrow> contract_named p c raw \<Longrightarrow> clause_of d raw e \<Longrightarrow> mentions e v \<Longrightarrow>
    reached d p root (AName v)"
| constant_value: "reached d p root (AName v) \<Longrightarrow> c \<in> set (all_constants p) \<Longrightarrow> c_name_of c = v \<Longrightarrow> reached d p root (AConst v)"
| constant_name: "reached d p root (AConst k) \<Longrightarrow> c \<in> set (all_constants p) \<Longrightarrow> c_name_of c = k \<Longrightarrow> mentions (c_value c) v \<Longrightarrow>
    reached d p root (AName v)"
| constant_call: "reached d p root (AConst k) \<Longrightarrow> c \<in> set (all_constants p) \<Longrightarrow> c_name_of c = k \<Longrightarrow> applies (c_value c) m \<Longrightarrow>
    reached d p root (ANode m)"

text \<open>
  The types of the declarations that are reached: of ports, locals, ghost variables and constants, of the enumerations
  whose variants are mentioned, and the types these are made of.
\<close>

inductive reached_type :: "decoder \<Rightarrow> project \<Rightarrow> string \<Rightarrow> string \<Rightarrow> bool" for d p root where
  port_type: "reached d p root (ANode n) \<Longrightarrow> find_node p n = Some nd \<Longrightarrow> q \<in> set (nd_inputs nd) \<union> set (nd_outputs nd) \<Longrightarrow>
    names_type (p_ty q) name \<Longrightarrow> reached_type d p root name"
| local_type: "reached d p root (ANode n) \<Longrightarrow> find_node p n = Some nd \<Longrightarrow> l \<in> set (nd_locals nd) \<Longrightarrow> names_type (l_ty l) name \<Longrightarrow>
    reached_type d p root name"
| ghost_variable: "reached d p root (AContract c) \<Longrightarrow> contract_named p c raw \<Longrightarrow> g \<in> set (j_items raw ''ghost_vars'') \<Longrightarrow>
    j_get g ''ty'' = Some v \<Longrightarrow> to_type d v = Some t \<Longrightarrow> names_type t name \<Longrightarrow> reached_type d p root name"
| constant_type: "reached d p root (AConst k) \<Longrightarrow> c \<in> set (all_constants p) \<Longrightarrow> c_name_of c = k \<Longrightarrow> names_type (c_ty c) name \<Longrightarrow>
    reached_type d p root name"
| variant_type: "td \<in> set (all_types p) \<Longrightarrow> td_body td = EnumBody e \<Longrightarrow> v \<in> set (en_variants e) \<Longrightarrow> reached d p root (AName v) \<Longrightarrow>
    reached_type d p root (en_name e)"
| field_type: "reached_type d p root name \<Longrightarrow> td \<in> set (all_types p) \<Longrightarrow> td_name td = name \<Longrightarrow> td_body td = RecordBody rn fs \<Longrightarrow>
    f \<in> set fs \<Longrightarrow> names_type (rf_ty f) name' \<Longrightarrow> reached_type d p root name'"
| alias_type: "reached_type d p root name \<Longrightarrow> td \<in> set (all_types p) \<Longrightarrow> td_name td = name \<Longrightarrow> td_body td = AliasBody an t \<Longrightarrow>
    names_type t name' \<Longrightarrow> reached_type d p root name'"

section \<open>The traversals of the code follow them\<close>

lemma mentions_free: "mentions e v \<longleftrightarrow> v \<in> set (free_vars e)"
proof -
  have var: "free_var_of x = Some v \<longleftrightarrow> x = Var v \<or> (\<exists>y on. x = When y v on) \<or> (\<exists>y z. x = Merge v y z)" for x
    by (cases x) auto
  show ?thesis unfolding mentions_def part_of_visit set_free_vars mem_Collect_eq var by blast
qed

lemma applies_calls: "applies e m \<longleftrightarrow> m \<in> set (calls_in e)"
proof -
  have call: "call_of x = Some m \<longleftrightarrow> (\<exists>args. x = Call m args) \<or> (\<exists>kind init arrays. x = Iterate kind m init arrays)" for x
    by (cases x) auto
  show ?thesis unfolding applies_def part_of_visit calls_in_def set_map_filter mem_Collect_eq call by blast
qed

lemma names_pushed: "names_type t name \<longleftrightarrow> name \<in> set (push_named t)"
proof
  show "names_type t name \<Longrightarrow> name \<in> set (push_named t)" by (induction rule: names_type.induct) auto
  show "name \<in> set (push_named t) \<Longrightarrow> names_type t name" by (induction t rule: push_named.induct) (auto intro: names_type.intros)
qed

lemma find_first_iff: "find P xs = Some x \<longleftrightarrow> (\<exists>before after. xs = before @ x # after \<and> P x \<and> (\<forall>y\<in>set before. \<not> P y))"
proof (induction xs)
  case (Cons y ys)
  have split: "y # ys = before @ x # after \<longleftrightarrow>
      (before = [] \<and> y = x \<and> ys = after) \<or> (\<exists>rest. before = y # rest \<and> ys = rest @ x # after)" for before after
    by (cases before) auto
  show ?case
  proof (cases "P y")
    case True
    then show ?thesis unfolding split by auto
  next
    case False
    then have "find P (y # ys) = Some x \<longleftrightarrow> (\<exists>before after. ys = before @ x # after \<and> P x \<and> (\<forall>y\<in>set before. \<not> P y))"
      using Cons.IH by simp
    also have "\<dots> \<longleftrightarrow> (\<exists>before after. y # ys = before @ x # after \<and> P x \<and> (\<forall>y\<in>set before. \<not> P y))"
    proof
      assume "\<exists>before after. ys = before @ x # after \<and> P x \<and> (\<forall>y\<in>set before. \<not> P y)"
      then obtain before after where "y # ys = (y # before) @ x # after" "P x" "\<forall>z\<in>set (y # before). \<not> P z"
        using False by auto
      then show "\<exists>before after. y # ys = before @ x # after \<and> P x \<and> (\<forall>y\<in>set before. \<not> P y)" by blast
    qed (unfold split, use False in auto)
    finally show ?thesis .
  qed
qed simp

lemma named_found: "contract_named p c raw \<longleftrightarrow> find_contract_raw p c = Some raw"
  unfolding contract_named_def find_contract_raw_def find_first_iff ..

lemma in_decoded: "x \<in> set (decoded f v) \<longleftrightarrow> (\<exists>w. v = Some w \<and> f w = Some x)"
  by (cases v) (auto simp: decoded_def split: option.splits)

lemma states_exprs:
  assumes raw: "find_contract_raw p c = Some raw"
  shows "clause_of d raw e \<longleftrightarrow> e \<in> set (contract_exprs d p c)"
proof
  let ?exprs = "set (contract_exprs d p c)"
  have items: "e \<in> ?exprs" if "key = ''assumptions'' \<or> key = ''guarantees''" "item \<in> set (j_items raw key)"
      "j_get item ''expr'' = Some v" "to_expr d v = Some e" for key item v
    using that unfolding contract_exprs_def raw by (auto simp: in_decoded)
  have modes: "e \<in> ?exprs" if "mode \<in> set (j_items raw ''modes'')" "key = ''requires'' \<or> key = ''ensures''"
      "v \<in> set (j_items mode key)" "to_expr d v = Some e" for mode key v
    using that unfolding contract_exprs_def raw by (auto simp: in_decoded)
  have ghosts: "e \<in> ?exprs" if "g \<in> set (j_items raw ''ghost_vars'')" "j_get g ''definition'' = Some v" "to_expr d v = Some e" for g v
    using that unfolding contract_exprs_def raw by (auto simp: in_decoded)
  show "e \<in> ?exprs" if "clause_of d raw e"
    using that by cases (fact items, fact modes, fact ghosts)
  show "clause_of d raw e" if "e \<in> ?exprs"
    using that by (auto simp: contract_exprs_def raw in_decoded
      intro: clause [where key = "''assumptions''"] clause [where key = "''guarantees''"]
        mode_clause [where key = "''requires''"] mode_clause [where key = "''ensures''"] ghost)
qed

lemma stated: "(\<exists>raw. contract_named p c raw \<and> clause_of d raw e) \<longleftrightarrow> e \<in> set (contract_exprs d p c)"
  by (cases "find_contract_raw p c") (simp_all add: named_found states_exprs, simp add: contract_exprs_def)

lemma imports_named:
  "c' \<in> set (contract_imports p c) \<longleftrightarrow>
     (\<exists>raw imp v. contract_named p c raw \<and> imp \<in> set (j_items raw ''imports'') \<and> j_get imp ''contract'' = Some v \<and> j_as_str v = Some c')"
  by (cases "find_contract_raw p c") (auto simp: contract_imports_def named_found in_decoded)

lemma ghosts_named:
  "t \<in> set (ghost_types d p c) \<longleftrightarrow>
     (\<exists>raw g v. contract_named p c raw \<and> g \<in> set (j_items raw ''ghost_vars'') \<and> j_get g ''ty'' = Some v \<and> to_type d v = Some t)"
  by (cases "find_contract_raw p c") (auto simp: ghost_types_def named_found in_decoded)

lemma calls_named:
  "m \<in> set (node_calls d p n) \<longleftrightarrow>
     (\<exists>nd. find_node p n = Some nd \<and>
       ((\<exists>eq\<in>set (nd_equations nd). applies (eq_rhs eq) m) \<or>
        (\<exists>c raw e. nd_contract nd = Some c \<and> contract_named p c raw \<and> clause_of d raw e \<and> applies e m)))"
proof (cases "find_node p n")
  case None
  then show ?thesis by (simp add: node_calls_def)
next
  case (Some nd)
  have "(\<exists>raw e. contract_named p c raw \<and> clause_of d raw e \<and> applies e m) \<longleftrightarrow> (\<exists>e\<in>set (contract_exprs d p c). m \<in> set (calls_in e))" for c
    using stated [of p c d] unfolding applies_calls by blast
  then show ?thesis using Some by (cases "nd_contract nd") (auto simp: node_calls_def applies_calls)
qed

lemma reached_used: "reached d p root i \<longleftrightarrow> used d p root i"
proof
  show "used d p root i" if "reached d p root i"
    using that
  proof (induction rule: reached.induct)
    case (contract_name c raw e v)
    then show ?case using stated [of p c d e] mentions_free used_contract_name by blast
  next
    case (equation_call n nd eq m)
    then show ?case using calls_named [of m d p n] used_call by blast
  next
    case (contract_call n nd c raw e m)
    then show ?case using calls_named [of m d p n] used_call by blast
  qed (auto simp: mentions_free applies_calls
    intro: used_root used_contract used_name used_const used_const_name used_const_call
      used_import [OF _ imports_named [THEN iffD2]])
  show "reached d p root i" if "used d p root i"
    using that
  proof (induction rule: used.induct)
    case (used_call n m)
    then show ?case using calls_named [of m d p n] equation_call contract_call by blast
  next
    case (used_import c c')
    then show ?case using imports_named [of c' p c] imported by blast
  next
    case (used_contract_name c e v)
    then show ?case using stated [of p c d e] mentions_free contract_name by blast
  qed (auto simp: mentions_free [symmetric] applies_calls [symmetric]
    intro: start own_contract equation_name constant_value constant_name constant_call)
qed

lemma body_types_iff:
  "name \<in> set (body_types body) \<longleftrightarrow>
     (\<exists>rn fs f. body = RecordBody rn fs \<and> f \<in> set fs \<and> names_type (rf_ty f) name) \<or>
     (\<exists>an t. body = AliasBody an t \<and> names_type t name)"
  by (cases body) (auto simp: body_types_def names_pushed)

lemma reached_used_type: "reached_type d p root name \<longleftrightarrow> used_type d p root name"
proof
  show "used_type d p root name" if "reached_type d p root name"
    using that
  proof (induction rule: reached_type.induct)
    case (ghost_variable c raw g v t name)
    then have "declared_with d p root t" using ghosts_named declared_ghost unfolding reached_used by blast
    with ghost_variable show ?case by (auto simp: names_pushed intro: used_declared)
  next
    case (field_type name td rn fs f name')
    then have "name' \<in> set (body_types (td_body td))" unfolding body_types_iff by blast
    with field_type show ?case by (auto intro: used_inside)
  qed (auto simp: names_pushed reached_used body_types_iff
    intro: used_declared declared_port declared_local declared_const used_variant used_inside)
  show "reached_type d p root name" if "used_type d p root name"
    using that
  proof (induction rule: used_type.induct)
    case (used_declared t name)
    then have "names_type t name" by (simp add: names_pushed)
    with used_declared(1) show ?case
    proof (cases rule: declared_with.cases)
      case (declared_ghost c)
      then show ?thesis using \<open>names_type t name\<close> ghosts_named [of t d p c] ghost_variable unfolding reached_used by blast
    qed (use \<open>names_type t name\<close> in \<open>auto simp: reached_used intro: port_type local_type constant_type\<close>)
  next
    case (used_inside name td name')
    from used_inside(4) [unfolded body_types_iff] show ?case
    proof (elim disjE exE conjE)
      fix rn fs f
      assume "td_body td = RecordBody rn fs" "f \<in> set fs" "names_type (rf_ty f) name'"
      with used_inside show ?thesis by (blast intro: field_type)
    next
      fix an t
      assume "td_body td = AliasBody an t" "names_type t name'"
      with used_inside show ?thesis by (blast intro: alias_type)
    qed
  qed (auto simp: reached_used intro: variant_type)
qed

end
