(* ===== verification/Clock_Sites.thy ===== *)
theory Clock_Sites
  imports Clocks Occurrence
begin

text \<open>
  The sites of temporal operators: where they stand and on which clock, stated apart from the traversal of the
  clock check.
\<close>

section \<open>The clock of a position\<close>

text \<open>
  \<open>placed vc ck a e ck' b y\<close>: when \<open>e\<close> at address \<open>a\<close> is evaluated on clock \<open>ck\<close>, then \<open>y\<close> at address \<open>b\<close> inside it is
  evaluated on \<open>ck'\<close>. A \<open>when\<close> takes its operand from the parent of its clock. On another clock, which the check
  reports, its operand is followed on its natural clock.
\<close>

inductive placed :: "var_clocks \<Rightarrow> clock \<Rightarrow> addr \<Rightarrow> expr \<Rightarrow> clock \<Rightarrow> addr \<Rightarrow> expr \<Rightarrow> bool" for vc where
  here: "placed vc ck a e ck a e"
| plain: "operand e i x \<Longrightarrow> \<not> (\<exists>y c on. e = When y c on) \<Longrightarrow> \<not> (\<exists>c y z. e = Merge c y z) \<Longrightarrow>
     placed vc ck (child a i) x ck' b y \<Longrightarrow> placed vc ck a e ck' b y"
| sample: "placed vc parent (child a 0) x ck' b y \<Longrightarrow> placed vc (On clock on parent) a (When x clock on) ck' b y"
| off: "\<not> (\<exists>parent. ck = On clock on parent) \<Longrightarrow>
     placed vc (case natural_clock x vc of None \<Rightarrow> Base | Some p \<Rightarrow> p) (child a 0) x ck' b y \<Longrightarrow>
     placed vc ck a (When x clock on) ck' b y"
| merge_true: "placed vc (On clock True ck) (child a 0) t ck' b y \<Longrightarrow> placed vc ck a (Merge clock t f) ck' b y"
| merge_false: "placed vc (On clock False ck) (child a (Suc 0)) f ck' b y \<Longrightarrow> placed vc ck a (Merge clock t f) ck' b y"

inductive_cases placedE: "placed vc ck a e ck' b y"

text \<open>The operators with memory.\<close>

definition temporal :: "expr \<Rightarrow> bool" where
  "temporal e \<longleftrightarrow> (\<exists>x. e = Pre x) \<or> (\<exists>i b. e = Arrow i b)"

definition hosted :: "var_clocks \<Rightarrow> clock \<Rightarrow> addr \<Rightarrow> expr \<Rightarrow> (addr \<times> clock) set" where
  "hosted vc ck a e = {s. \<exists>y. placed vc ck a e (snd s) (fst s) y \<and> temporal y}"

section \<open>The sites of an expression\<close>

definition at_or_below :: "addr \<Rightarrow> addr set" where
  "at_or_below a = {b. \<exists>path. b = (fst a, path @ snd a)}"

lemma below_self [simp]: "a \<in> at_or_below a"
  by (auto simp: at_or_below_def intro!: exI [of _ "[]"] prod_eqI)

lemma below_child_subset: "at_or_below (child a i) \<subseteq> at_or_below a"
proof
  fix b assume "b \<in> at_or_below (child a i)"
  then obtain path where "b = (fst a, path @ [i] @ snd a)" by (auto simp: at_or_below_def child_def)
  then have "b = (fst a, (path @ [i]) @ snd a)" by simp
  then show "b \<in> at_or_below a" unfolding at_or_below_def by blast
qed

lemma child_not_below: "a \<notin> at_or_below (child a i)"
proof
  assume "a \<in> at_or_below (child a i)"
  then obtain path where "a = (fst a, path @ i # snd a)" by (auto simp: at_or_below_def child_def)
  then have "snd a = path @ i # snd a" by (metis snd_conv)
  then show False by simp
qed

lemma children_disjoint: "i \<noteq> j \<Longrightarrow> at_or_below (child a i) \<inter> at_or_below (child a j) = {}"
proof (rule equals0I)
  fix b assume ij: "i \<noteq> j" and "b \<in> at_or_below (child a i) \<inter> at_or_below (child a j)"
  then obtain ps qs where "b = (fst a, ps @ [i] @ snd a)" "b = (fst a, qs @ [j] @ snd a)"
    unfolding at_or_below_def child_def by auto
  then have "ps @ [i] @ snd a = qs @ [j] @ snd a" by (metis prod.inject)
  with ij show False by (simp add: append_eq_append_conv flip: append.assoc)
qed

lemma placed_below: "placed vc ck a e ck' b y \<Longrightarrow> b \<in> at_or_below a"
proof (induction rule: placed.induct)
  case (here ck a e)
  show ?case by simp
qed (use below_child_subset in blast)+

lemma hosted_below: "fst ` hosted vc ck a e \<subseteq> at_or_below a"
  by (auto simp: hosted_def dest: placed_below)

lemma placed_plain:
  assumes "\<not> (\<exists>y c on. e = When y c on)" "\<not> (\<exists>c y z. e = Merge c y z)"
  shows "placed vc ck a e ck' b y \<longleftrightarrow> (ck' = ck \<and> b = a \<and> y = e) \<or> (\<exists>i x. operand e i x \<and> placed vc ck (child a i) x ck' b y)"
proof
  show "placed vc ck a e ck' b y \<Longrightarrow> (ck' = ck \<and> b = a \<and> y = e) \<or> (\<exists>i x. operand e i x \<and> placed vc ck (child a i) x ck' b y)"
    by (erule placedE) (use assms in blast)+
  show "(ck' = ck \<and> b = a \<and> y = e) \<or> (\<exists>i x. operand e i x \<and> placed vc ck (child a i) x ck' b y) \<Longrightarrow> placed vc ck a e ck' b y"
    using placed.here placed.plain [OF _ assms] by blast
qed

lemma hosted_plain:
  assumes "\<not> (\<exists>y c on. e = When y c on)" "\<not> (\<exists>c y z. e = Merge c y z)"
  shows "hosted vc ck a e = (if temporal e then {(a, ck)} else {}) \<union> (\<Union>(i, x)\<in>set (enumerate 0 (children e)). hosted vc ck (child a i) x)"
proof (rule set_eqI)
  fix s
  have "operand e i x \<longleftrightarrow> (i, x) \<in> set (enumerate 0 (children e))" for i x
    by (auto simp: operand_iff in_set_enumerate_eq)
  moreover have "s \<in> hosted vc ck a e \<longleftrightarrow> (s = (a, ck) \<and> temporal e) \<or> (\<exists>i x. operand e i x \<and> s \<in> hosted vc ck (child a i) x)"
    unfolding hosted_def mem_Collect_eq placed_plain [OF assms] prod_eq_iff fst_conv snd_conv by blast
  ultimately show "s \<in> hosted vc ck a e \<longleftrightarrow>
      s \<in> (if temporal e then {(a, ck)} else {}) \<union> (\<Union>(i, x)\<in>set (enumerate 0 (children e)). hosted vc ck (child a i) x)"
    by (cases "temporal e") (simp_all, blast+)
qed

inductive_cases placed_whenE: "placed vc ck a (When x clock on) ck' b y"
inductive_cases placed_mergeE: "placed vc ck a (Merge clock t f) ck' b y"

lemma not_temporal: "\<not> temporal (When x clock on)" "\<not> temporal (Merge clock t f)"
  by (simp_all add: temporal_def)

lemma hosted_when_on: "hosted vc (On clock on parent) a (When x clock on) = hosted vc parent (child a 0) x"
proof -
  have "placed vc (On clock on parent) a (When x clock on) ck' b y \<and> temporal y \<longleftrightarrow> placed vc parent (child a 0) x ck' b y \<and> temporal y" for ck' b y
    using not_temporal(1) placed.sample by (blast elim: placed_whenE)
  then show ?thesis unfolding hosted_def by simp
qed

lemma hosted_when_off:
  assumes "\<not> (\<exists>parent. ck = On clock on parent)"
  shows "hosted vc ck a (When x clock on) = hosted vc (case natural_clock x vc of None \<Rightarrow> Base | Some p \<Rightarrow> p) (child a 0) x"
proof -
  have "placed vc ck a (When x clock on) ck' b y \<and> temporal y \<longleftrightarrow>
      placed vc (case natural_clock x vc of None \<Rightarrow> Base | Some p \<Rightarrow> p) (child a 0) x ck' b y \<and> temporal y" for ck' b y
    using not_temporal(1) placed.off [OF assms] assms by (blast elim: placed_whenE)
  then show ?thesis unfolding hosted_def by simp
qed

lemma hosted_merge:
  "hosted vc ck a (Merge clock t f) = hosted vc (On clock True ck) (child a 0) t \<union> hosted vc (On clock False ck) (child a (Suc 0)) f"
proof -
  have "placed vc ck a (Merge clock t f) ck' b y \<and> temporal y \<longleftrightarrow>
      (placed vc (On clock True ck) (child a 0) t ck' b y \<or> placed vc (On clock False ck) (child a (Suc 0)) f ck' b y) \<and> temporal y" for ck' b y
  proof
    assume "placed vc ck a (Merge clock t f) ck' b y \<and> temporal y"
    then have "placed vc ck a (Merge clock t f) ck' b y" "temporal y" by blast+
    then show "(placed vc (On clock True ck) (child a 0) t ck' b y \<or> placed vc (On clock False ck) (child a (Suc 0)) f ck' b y) \<and> temporal y"
      by (cases rule: placed_mergeE) (use not_temporal(2) in blast)+
  qed (blast intro: placed.merge_true placed.merge_false)
  then show ?thesis unfolding hosted_def by blast
qed

section \<open>The check notes every site\<close>

lemma hm_insert_fresh: "a \<notin> fst ` set m \<Longrightarrow> set (hm_insert a ck m) = insert (a, ck) (set m)"
  by (induction m) auto

text \<open>A step that notes the sites \<open>S\<close>, if no address of \<open>A\<close> has been noted before.\<close>

definition adds :: "addr set \<Rightarrow> (addr \<times> clock) set \<Rightarrow> (clock_info \<Rightarrow> clock_info) \<Rightarrow> bool" where
  "adds A S g \<longleftrightarrow> (\<forall>info. fst ` set (site_clocks info) \<inter> A = {} \<longrightarrow> set (site_clocks (g info)) = set (site_clocks info) \<union> S)"

lemma adds_comp:
  assumes "adds A S g" "adds B T h" "fst ` S \<inter> B = {}" "A \<subseteq> C" "B \<subseteq> C"
  shows "adds C (S \<union> T) (\<lambda>info. h (g info))"
  unfolding adds_def
proof (intro allI impI)
  fix info :: clock_info assume fresh: "fst ` set (site_clocks info) \<inter> C = {}"
  then have "fst ` set (site_clocks info) \<inter> A = {}" "fst ` set (site_clocks info) \<inter> B = {}" using assms(4,5) by blast+
  moreover from this(1) have g: "set (site_clocks (g info)) = set (site_clocks info) \<union> S" using assms(1) unfolding adds_def by blast
  ultimately have "fst ` set (site_clocks (g info)) \<inter> B = {}" using assms(3) by blast
  with assms(2) g show "set (site_clocks (h (g info))) = set (site_clocks info) \<union> (S \<union> T)" unfolding adds_def by auto
qed

lemma adds_none: "(\<And>info. site_clocks (g info) = site_clocks info) \<Longrightarrow> adds A {} g"
  by (simp add: adds_def)

lemma adds_site: "a \<in> A \<Longrightarrow> adds A {(a, ck)} (note_site a ck)"
proof -
  assume a: "a \<in> A"
  have "set (hm_insert a ck (site_clocks info)) = set (site_clocks info) \<union> {(a, ck)}" if "fst ` set (site_clocks info) \<inter> A = {}" for info
  proof -
    have "a \<notin> fst ` set (site_clocks info)" using a that by blast
    from hm_insert_fresh [OF this] show ?thesis by simp
  qed
  then show ?thesis unfolding adds_def note_site_def by (intro allI impI) simp
qed

lemma adds_wider: "adds A S g \<Longrightarrow> A \<subseteq> B \<Longrightarrow> adds B S g"
  unfolding adds_def by blast

lemma adds_after: "(\<And>info. site_clocks (h info) = site_clocks info) \<Longrightarrow> adds A S g \<Longrightarrow> adds A S (\<lambda>info. g (h info))"
  by (simp add: adds_def)

lemma adds_fold:
  assumes "distinct (map fst ixs)" "\<And>i x. (i, x) \<in> set ixs \<Longrightarrow> adds (at_or_below (child a i)) (S i x) (f i x) \<and> fst ` S i x \<subseteq> at_or_below (child a i)"
  shows "adds (\<Union>(i, x)\<in>set ixs. at_or_below (child a i)) (\<Union>(i, x)\<in>set ixs. S i x) (fold (\<lambda>(i, x). f i x) ixs)"
  using assms
proof (induction ixs)
  case (Cons ix ixs)
  obtain i x where ix: "ix = (i, x)" by force
  have "fst ` S i x \<inter> (\<Union>(i, x)\<in>set ixs. at_or_below (child a i)) = {}"
  proof (rule equals0I)
    fix b assume "b \<in> fst ` S i x \<inter> (\<Union>(i, x)\<in>set ixs. at_or_below (child a i))"
    then obtain j y where "b \<in> at_or_below (child a i)" "(j, y) \<in> set ixs" "b \<in> at_or_below (child a j)"
      using Cons.prems(2) [of i x] ix by auto
    moreover from this(2) Cons.prems(1) ix have "i \<noteq> j" by force
    ultimately show False using children_disjoint by blast
  qed
  with Cons ix have "adds (\<Union>(i, x)\<in>set (ix # ixs). at_or_below (child a i)) (S i x \<union> (\<Union>(i, x)\<in>set ixs. S i x))
      (\<lambda>info. fold (\<lambda>(i, x). f i x) ixs (f i x info))"
    by (intro adds_comp [where A = "at_or_below (child a i)" and B = "\<Union>(i, x)\<in>set ixs. at_or_below (child a i)"]) auto
  with ix show ?case by (simp add: comp_def)
qed (simp add: adds_def)

lemma distinct_enumerate: "distinct (map fst (enumerate n xs))"
  by simp

lemma adds_plain:
  assumes kids: "\<And>i x. (i, x) \<in> set (enumerate 0 (children e)) \<Longrightarrow> adds (at_or_below (child a i)) (hosted vc ck (child a i) x) (check_expr x (child a i) ck vc eq)"
    and plain: "\<not> (\<exists>y c on. e = When y c on)" "\<not> (\<exists>c y z. e = Merge c y z)"
    and own: "adds {a} (if temporal e then {(a, ck)} else {}) h"
    and run: "\<And>info. site_clocks (g info) = site_clocks (fold (\<lambda>(i, x). check_expr x (child a i) ck vc eq) (enumerate 0 (children e)) (h info))"
  shows "adds (at_or_below a) (hosted vc ck a e) g"
proof -
  let ?A = "\<Union>(i, x)\<in>set (enumerate 0 (children e)). at_or_below (child a i)"
  let ?S = "\<Union>(i, x)\<in>set (enumerate 0 (children e)). hosted vc ck (child a i) x"
  have "adds ?A ?S (fold (\<lambda>(i, x). check_expr x (child a i) ck vc eq) (enumerate 0 (children e)))"
    by (rule adds_fold [OF distinct_enumerate]) (use kids hosted_below in blast)
  moreover have "fst ` (if temporal e then {(a, ck)} else {}) \<inter> ?A = {}"
  proof -
    have "a \<notin> ?A" using child_not_below [of a] by blast
    then show ?thesis by simp
  qed
  moreover have "?A \<subseteq> at_or_below a" using below_child_subset by blast
  ultimately have "adds (at_or_below a) ((if temporal e then {(a, ck)} else {}) \<union> ?S)
      (\<lambda>info. fold (\<lambda>(i, x). check_expr x (child a i) ck vc eq) (enumerate 0 (children e)) (h info))"
    by (intro adds_comp [OF own]) auto
  then show ?thesis using run unfolding hosted_plain [OF plain] adds_def by simp
qed

text \<open>What the check notes at an expression itself.\<close>

definition note_own :: "expr \<Rightarrow> addr \<Rightarrow> clock \<Rightarrow> clock_info \<Rightarrow> clock_info" where
  "note_own e a ck = (case e of Pre x \<Rightarrow> note_site a ck | Arrow i b \<Rightarrow> note_site a ck | Call node args \<Rightarrow> note_call a ck | _ \<Rightarrow> (\<lambda>info. info))"

lemma note_own_adds: "adds {a} (if temporal e then {(a, ck)} else {}) (note_own e a ck)"
  by (cases e) (simp_all add: note_own_def temporal_def adds_site adds_none note_call_def)

lemma check_expr_plain:
  assumes "\<not> (\<exists>y c on. e = When y c on)" "\<not> (\<exists>c y z. e = Merge c y z)"
  shows "site_clocks (check_expr e a ck vc eq info) =
    site_clocks (fold (\<lambda>(i, x). check_expr x (child a i) ck vc eq) (enumerate 0 (children e)) (note_own e a ck info))"
proof (cases e)
  case (Var name)
  then show ?thesis by (cases "vc name") (simp_all add: note_own_def push_error_def)
next
  case (Iterate kind node init arrays)
  then show ?thesis by (cases init) (simp_all add: note_own_def)
qed (use assms in \<open>simp_all add: note_own_def numeral_2_eq_2\<close>)

lemma check_expr_adds: "adds (at_or_below a) (hosted vc ck a e) (check_expr e a ck vc eq)"
proof (induction e arbitrary: a ck rule: expr_children_induct)
  case (step e)
  have upd: "site_clocks (check_clock_var c p vc eq info) = site_clocks info" "site_clocks (push_error eq m info) = site_clocks info" for c p m info
    by (auto simp: check_clock_var_def push_error_def split: option.split)
  consider (sampling) x clock on where "e = When x clock on" | (merge) clock t f where "e = Merge clock t f"
    | (plain) "\<not> (\<exists>y c on. e = When y c on)" "\<not> (\<exists>c y z. e = Merge c y z)" by blast
  then show ?case
  proof cases
    case (sampling x clock on)
    then have x: "adds (at_or_below (child a 0)) (hosted vc q (child a 0) x) (check_expr x (child a 0) q vc eq)" for q
      by (intro step.IH) simp
    note wide = adds_wider [OF x below_child_subset]
    define off where "off = (case natural_clock x vc of None \<Rightarrow> Base | Some p \<Rightarrow> p)"
    have off: "adds (at_or_below a) (hosted vc off (child a 0) x) (\<lambda>info. check_expr x (child a 0) off vc eq (push_error eq (WhenUnexpected clock on ck) info))"
      by (rule adds_after [OF upd(2) wide])
    show ?thesis
    proof (cases "\<exists>parent. ck = On clock on parent")
      case True
      then obtain parent where "ck = On clock on parent" by blast
      moreover have "adds (at_or_below a) (hosted vc parent (child a 0) x) (\<lambda>info. check_expr x (child a 0) parent vc eq (check_clock_var clock parent vc eq info))"
        by (rule adds_after [OF upd(1) wide])
      ultimately show ?thesis unfolding sampling(1) by (simp add: hosted_when_on)
    next
      case False
      then have "check_expr e a ck vc eq = (\<lambda>info. check_expr x (child a 0) off vc eq (push_error eq (WhenUnexpected clock on ck) info))"
        unfolding sampling(1) off_def by (cases ck) auto
      with False off show ?thesis by (simp add: sampling(1) hosted_when_off off_def)
    qed
  next
    case (merge clock t f)
    then have t: "adds (at_or_below (child a 0)) (hosted vc (On clock True ck) (child a 0) t) (check_expr t (child a 0) (On clock True ck) vc eq)"
      and f: "adds (at_or_below (child a (Suc 0))) (hosted vc (On clock False ck) (child a (Suc 0)) f) (check_expr f (child a (Suc 0)) (On clock False ck) vc eq)"
      by (auto intro!: step.IH)
    have "fst ` hosted vc (On clock True ck) (child a 0) t \<inter> at_or_below (child a (Suc 0)) = {}"
      using hosted_below children_disjoint [of 0 "Suc 0" a] by blast
    from adds_after [OF upd(1) adds_comp [OF t f this below_child_subset below_child_subset]] show ?thesis
      unfolding merge(1) hosted_merge by simp
  next
    case plain
    have kids: "adds (at_or_below (child a i)) (hosted vc ck (child a i) x) (check_expr x (child a i) ck vc eq)"
      if "(i, x) \<in> set (enumerate 0 (children e))" for i x
      using that by (intro step.IH) (auto simp: in_set_enumerate_eq)
    show ?thesis by (rule adds_plain [OF kids plain note_own_adds check_expr_plain [OF plain]])
  qed
qed

section \<open>The sites of a node\<close>

text \<open>The temporal operators of a node's equations, each evaluated on the clock of its equation, by address.\<close>

definition node_sites :: "(nat \<Rightarrow> root) \<Rightarrow> node_def \<Rightarrow> (addr \<times> clock) set" where
  "node_sites mk node = (\<Union>i\<in>{..<length (nd_equations node)}.
     hosted (infer_var_clocks node) (equation_clocks (infer_clocks mk node) ! i) (root_addr (mk i)) (eq_rhs (nd_equations node ! i)))"

lemma roots_disjoint: "r \<noteq> r' \<Longrightarrow> at_or_below (root_addr r) \<inter> at_or_below (root_addr r') = {}"
  by (auto simp: at_or_below_def root_addr_def)

lemma check_equation_sites:
  "adds (at_or_below (root_addr (mk i))) (hosted vc (equation_clock vc eq) (root_addr (mk i)) (eq_rhs eq)) (check_equation io vc mk i eq)"
proof -
  have lhs: "site_clocks (fold (check_lhs io vc i ck) ls info) = site_clocks info" for ck ls info
    by (induction ls arbitrary: info) (auto simp: check_lhs_def push_error_def split: option.split)
  show ?thesis
    using adds_after [OF lhs check_expr_adds, of "root_addr (mk i)" vc "equation_clock vc eq" "eq_rhs eq" i]
    unfolding adds_def check_equation_def equation_clock_def [symmetric] Let_def by simp
qed

lemma check_equations_sites:
  assumes "inj mk" "distinct (map fst ieqs)" "fst ` set (site_clocks info) \<inter> (\<Union>(i, eq)\<in>set ieqs. at_or_below (root_addr (mk i))) = {}"
  shows "set (site_clocks (fold (\<lambda>(i, eq). check_equation io vc mk i eq) ieqs info)) = set (site_clocks info) \<union>
    (\<Union>(i, eq)\<in>set ieqs. hosted vc (equation_clock vc eq) (root_addr (mk i)) (eq_rhs eq))"
  using assms(2,3)
proof (induction ieqs arbitrary: info)
  case (Cons ieq ieqs)
  obtain i eq where ieq: "ieq = (i, eq)" by force
  let ?S = "hosted vc (equation_clock vc eq) (root_addr (mk i)) (eq_rhs eq)"
  have here: "set (site_clocks (check_equation io vc mk i eq info)) = set (site_clocks info) \<union> ?S"
  proof -
    have "fst ` set (site_clocks info) \<inter> at_or_below (root_addr (mk i)) = {}"
      using Cons.prems(2) unfolding ieq list.set(2) UN_insert prod.case by blast
    with check_equation_sites [of mk i vc eq io] show ?thesis unfolding adds_def by blast
  qed
  have "fst ` ?S \<inter> (\<Union>(i, eq)\<in>set ieqs. at_or_below (root_addr (mk i))) = {}"
  proof (rule equals0I)
    fix b assume "b \<in> fst ` ?S \<inter> (\<Union>(i, eq)\<in>set ieqs. at_or_below (root_addr (mk i)))"
    then obtain j eq' where "b \<in> at_or_below (root_addr (mk i))" "(j, eq') \<in> set ieqs" "b \<in> at_or_below (root_addr (mk j))"
      using hosted_below by blast
    moreover from this(2) Cons.prems(1) ieq have "i \<noteq> j" by force
    then have "mk i \<noteq> mk j" using assms(1) by (auto dest: injD)
    ultimately show False using roots_disjoint by blast
  qed
  moreover have "fst ` set (site_clocks info) \<inter> (\<Union>(i, eq)\<in>set ieqs. at_or_below (root_addr (mk i))) = {}"
    using Cons.prems(2) unfolding list.set(2) UN_insert by blast
  ultimately have "fst ` set (site_clocks (check_equation io vc mk i eq info)) \<inter> (\<Union>(i, eq)\<in>set ieqs. at_or_below (root_addr (mk i))) = {}"
    unfolding here by blast
  from Cons.IH [OF _ this] Cons.prems(1) here show ?case by (simp add: ieq Un_assoc)
qed simp

theorem infer_clocks_sites:
  assumes "inj mk"
  shows "set (site_clocks (infer_clocks mk node)) = node_sites mk node"
proof -
  let ?eqs = "nd_equations node" and ?vc = "infer_var_clocks node"
  have "set (site_clocks (infer_clocks mk node)) =
      (\<Union>(i, eq)\<in>set (enumerate 0 ?eqs). hosted ?vc (equation_clock ?vc eq) (root_addr (mk i)) (eq_rhs eq))"
    using check_equations_sites [OF assms, of "enumerate 0 ?eqs" default_clock_info "io_names node" ?vc]
    by (simp add: infer_clocks_def Let_def default_clock_info_def)
  also have "\<dots> = node_sites mk node"
  proof -
    have "(\<Union>(i, eq)\<in>set (enumerate 0 ?eqs). f i eq) = (\<Union>i\<in>{..<length ?eqs}. f i (?eqs ! i))" for f :: "nat \<Rightarrow> equation \<Rightarrow> (addr \<times> clock) set"
      by (rule set_eqI) (force simp: in_set_enumerate_eq)
    then show ?thesis by (simp add: node_sites_def infer_clocks_equation_clocks)
  qed
  finally show ?thesis .
qed

end
