(* ===== verification/Diag.thy ===== *)
theory Diag
  imports IR_Project
begin

text \<open>
  Diagnostics (\<open>ol_ir/src/diag.rs\<close>). The type of messages is a parameter: a checker has a datatype of messages,
  whose constructors carry what the code formats, and \<open>render\<close> takes the text of a message.
\<close>

datatype severity = SevError | SevWarning | SevInfo

record source_span =
  ss_file :: "string option"
  ss_line :: u32
  ss_col :: u32

definition default_span :: source_span where
  "default_span = \<lparr>ss_file = None, ss_line = 0, ss_col = 0\<rparr>"

record 'm diagnostic =
  dg_severity :: severity
  dg_code :: string
  dg_message :: 'm
  dg_span :: source_span
  dg_context :: "string list"

definition diag_error :: "string \<Rightarrow> 'm \<Rightarrow> 'm diagnostic" where
  "diag_error code msg = \<lparr>dg_severity = SevError, dg_code = code, dg_message = msg, dg_span = default_span, dg_context = []\<rparr>"

definition diag_warning :: "string \<Rightarrow> 'm \<Rightarrow> 'm diagnostic" where
  "diag_warning code msg = \<lparr>dg_severity = SevWarning, dg_code = code, dg_message = msg, dg_span = default_span, dg_context = []\<rparr>"

definition diag_info :: "string \<Rightarrow> 'm \<Rightarrow> 'm diagnostic" where
  "diag_info code msg = \<lparr>dg_severity = SevInfo, dg_code = code, dg_message = msg, dg_span = default_span, dg_context = []\<rparr>"

definition with_context :: "string \<Rightarrow> 'm diagnostic \<Rightarrow> 'm diagnostic" where
  "with_context ctx d = d\<lparr>dg_context := dg_context d @ [ctx]\<rparr>"

definition render :: "('m \<Rightarrow> string) \<Rightarrow> 'm diagnostic \<Rightarrow> string" where
  "render show_message d =
     (let tag = (case dg_severity d of SevError \<Rightarrow> ''error'' | SevWarning \<Rightarrow> ''warning'' | SevInfo \<Rightarrow> ''info'')
      in tag @ ''['' @ dg_code d @ '']: '' @ show_message (dg_message d) @
         concat (map (\<lambda>c. [CHR 0x0A] @ ''    in '' @ c) (dg_context d)))"

text \<open>\<open>CheckReport::has_errors\<close>: warnings do not count.\<close>

definition is_error :: "'m diagnostic \<Rightarrow> bool" where
  "is_error d \<longleftrightarrow> dg_severity d = SevError"

definition has_errors :: "'m diagnostic list \<Rightarrow> bool" where
  "has_errors ds = list_ex is_error ds"

lemma severity_simps [simp]:
  "is_error (diag_error code msg)" "\<not> is_error (diag_warning code msg)" "\<not> is_error (diag_info code msg)"
  "is_error (with_context ctx d) = is_error d"
  by (simp_all add: is_error_def diag_error_def diag_warning_def diag_info_def with_context_def)

lemma has_errors_simps [simp]:
  "\<not> has_errors []" "has_errors (d # ds) \<longleftrightarrow> is_error d \<or> has_errors ds" "has_errors (ds @ es) \<longleftrightarrow> has_errors ds \<or> has_errors es"
  by (simp_all add: has_errors_def)

lemma has_errors_concat [simp]: "has_errors (concat dss) \<longleftrightarrow> (\<exists>ds\<in>set dss. has_errors ds)"
  by (induction dss) auto

section \<open>Checks that collect diagnostics\<close>

text \<open>A check returns a value or gives up, and the diagnostics it pushed in either case.\<close>

type_synonym ('m, 'a) check = "'a option \<times> 'm diagnostic list"

definition cok :: "'a \<Rightarrow> ('m, 'a) check" where
  "cok x = (Some x, [])"

definition cfail :: "'m diagnostic \<Rightarrow> ('m, 'a) check" where
  "cfail d = (None, [d])"

definition cbind :: "('m, 'a) check \<Rightarrow> ('a \<Rightarrow> ('m, 'b) check) \<Rightarrow> ('m, 'b) check" where
  "cbind m f =
     (case m of
        (None, ds) \<Rightarrow> (None, ds)
      | (Some x, ds) \<Rightarrow> (case f x of (r, es) \<Rightarrow> (r, ds @ es)))"

text \<open>Diagnostics that do not stop the check.\<close>

definition cnote :: "'m diagnostic list \<Rightarrow> ('m, unit) check" where
  "cnote ds = (Some (), ds)"

fun cfold :: "('a \<Rightarrow> 's \<Rightarrow> ('m, 's) check) \<Rightarrow> 'a list \<Rightarrow> 's \<Rightarrow> ('m, 's) check" where
  "cfold f [] s = cok s"
| "cfold f (x # xs) s = cbind (f x s) (cfold f xs)"

lemma cbind_cong [fundef_cong]:
  "m = m' \<Longrightarrow> (\<And>x ds. m' = (Some x, ds) \<Longrightarrow> f x = g x) \<Longrightarrow> cbind m f = cbind m' g"
  by (auto simp: cbind_def split: prod.splits option.splits)

lemma cfold_cong [fundef_cong]:
  "xs = ys \<Longrightarrow> s = t \<Longrightarrow> (\<And>x s. x \<in> set ys \<Longrightarrow> f x s = g x s) \<Longrightarrow> cfold f xs s = cfold g ys t"
proof (induction ys arbitrary: xs s t)
  case (Cons y ys)
  have "cfold f ys u = cfold g ys u" for u
    by (rule Cons.IH [OF refl refl]) (use Cons.prems(3) in auto)
  moreover have "f y t = g y t" using Cons.prems(3) by simp
  ultimately show ?case using Cons.prems(1,2) by (auto intro!: arg_cong [where f = "cbind (g y t)"])
qed simp

lemma check_simps [simp]:
  "cok x = (Some y, ds) \<longleftrightarrow> x = y \<and> ds = []"
  "cfail d = (Some y, ds) \<longleftrightarrow> False"
  "cnote es = (Some u, ds) \<longleftrightarrow> ds = es"
  by (auto simp: cok_def cfail_def cnote_def)

text \<open>A check that succeeds without a diagnostic.\<close>

lemma cbind_clean: "cbind m f = (Some y, []) \<longleftrightarrow> (\<exists>x. m = (Some x, []) \<and> f x = (Some y, []))"
  by (auto simp: cbind_def split: prod.splits option.splits)

lemma cfold_clean:
  "cfold f (x # xs) s = (Some u, []) \<longleftrightarrow> (\<exists>t. f x s = (Some t, []) \<and> cfold f xs t = (Some u, []))"
  by (simp add: cbind_clean)

end
