(* ===== verification/Typecheck.thy ===== *)
theory Typecheck
  imports Diag Clocks
begin

text \<open>
  The type checker of expressions (\<open>ol_typecheck/src/lib.rs\<close>): the project's type context, the resolution of
  aliases, and the inference of the type of an expression with its diagnostics. A literal \<open>-n\<close> wraps around at
  the least 64-bit integer, as in a build without overflow checks.
\<close>

section \<open>Messages\<close>

text \<open>
  A message is modelled by its code and the values that the code prints into it; its wording is left out.
\<close>

datatype detail =
    DName string
  | DType ty
  | DNum nat
  | DNames "string list"
  | DLengths "u32 list"
  | DKind node_kind
  | DIter iter_kind
  | DClock clock
  | DClockMessage clock_message

type_synonym type_message = "detail list"

section \<open>The type context\<close>

record type_context =
  tc_aliases :: "(string \<times> ty) list"
  tc_records :: "string \<rightharpoonup> record_field list"
  tc_enums :: "string \<rightharpoonup> string list"
  tc_variants :: "string \<rightharpoonup> string"
  tc_constants :: "string \<rightharpoonup> ty"

definition add_type :: "type_def \<Rightarrow> type_context \<Rightarrow> type_context" where
  "add_type t tc =
     (case td_body t of
        AliasBody name target \<Rightarrow> tc\<lparr>tc_aliases := hm_insert name target (tc_aliases tc)\<rparr>
      | RecordBody name fs \<Rightarrow> tc\<lparr>tc_records := (tc_records tc)(name \<mapsto> fs)\<rparr>
      | EnumBody e \<Rightarrow>
          tc\<lparr>tc_enums := (tc_enums tc)(en_name e \<mapsto> en_variants e),
             tc_variants := fold (\<lambda>v m. m(v \<mapsto> en_name e)) (en_variants e) (tc_variants tc)\<rparr>)"

definition add_const :: "const_def \<Rightarrow> type_context \<Rightarrow> type_context" where
  "add_const c tc = tc\<lparr>tc_constants := (tc_constants tc)(c_name_of c \<mapsto> c_ty c)\<rparr>"

definition empty_context :: type_context where
  "empty_context =
     \<lparr>tc_aliases = [], tc_records = Map.empty, tc_enums = Map.empty, tc_variants = Map.empty, tc_constants = Map.empty\<rparr>"

definition from_project :: "project \<Rightarrow> type_context" where
  "from_project p =
     fold (\<lambda>pkg tc. fold add_const (pk_constants pkg) (fold add_type (pk_types pkg) tc)) (pj_packages p) empty_context"

text \<open>\<open>visited\<close> holds the aliases that are being resolved; the code takes them out again on the way back.\<close>

function try_resolve :: "type_context \<Rightarrow> ty \<Rightarrow> nat \<Rightarrow> string list \<Rightarrow> ty option" where
  "try_resolve tc t depth visited =
     (if 64 < depth then None
      else
        (case t of
           TNamed name \<Rightarrow>
             (case map_of (tc_aliases tc) name of
                Some target \<Rightarrow>
                  if name \<in> set visited then None else try_resolve tc target (depth + 1) (name # visited)
              | None \<Rightarrow> Some t)
         | TArray elem len \<Rightarrow> map_option (\<lambda>e. TArray e len) (try_resolve tc elem (depth + 1) visited)
         | _ \<Rightarrow> Some t))"
  by pat_completeness auto
termination
  by (relation "measure (\<lambda>(tc, t, depth, visited). 65 - depth)") auto

declare try_resolve.simps [simp del]

definition resolve :: "type_context \<Rightarrow> ty \<Rightarrow> ty" where
  "resolve tc t = (case try_resolve tc t 0 [] of None \<Rightarrow> t | Some r \<Rightarrow> r)"

definition types_compatible :: "type_context \<Rightarrow> ty \<Rightarrow> ty \<Rightarrow> bool" where
  "types_compatible tc a b \<longleftrightarrow> resolve tc a = resolve tc b"

definition fits_in_integer :: "i64 \<Rightarrow> ty \<Rightarrow> bool" where
  "fits_in_integer v t =
     (case t of
        TInt8 \<Rightarrow> - 128 \<le> sint v \<and> sint v \<le> 127
      | TInt16 \<Rightarrow> - 32768 \<le> sint v \<and> sint v \<le> 32767
      | TInt32 \<Rightarrow> - (2 ^ 31) \<le> sint v \<and> sint v \<le> 2 ^ 31 - 1
      | TInt64 \<Rightarrow> True
      | TUint8 \<Rightarrow> 0 \<le> sint v \<and> sint v \<le> 255
      | TUint16 \<Rightarrow> 0 \<le> sint v \<and> sint v \<le> 65535
      | TUint32 \<Rightarrow> 0 \<le> sint v \<and> sint v \<le> 2 ^ 32 - 1
      | TUint64 \<Rightarrow> 0 \<le> sint v
      | _ \<Rightarrow> False)"

definition integer_literal_type :: "type_context \<Rightarrow> i64 \<Rightarrow> ty option \<Rightarrow> ty" where
  "integer_literal_type tc v hint =
     (case hint of
        Some h \<Rightarrow> if is_integer (resolve tc h) \<and> fits_in_integer v (resolve tc h) then resolve tc h else TInt32
      | None \<Rightarrow> TInt32)"

section \<open>Inference\<close>

type_synonym signature = "port list \<times> port list \<times> node_kind"

text \<open>What the inference of an equation's expressions reads: the arguments the code threads through.\<close>

record checker =
  ck_env :: "string \<rightharpoonup> ty"
  ck_sigs :: "string \<rightharpoonup> signature"
  ck_node :: node_def
  ck_ctx :: string
  ck_types :: type_context

type_synonym tdiag = "type_message diagnostic"

definition issue :: "checker \<Rightarrow> string \<Rightarrow> type_message \<Rightarrow> tdiag" where
  "issue ck code msg = with_context (ck_ctx ck) (diag_error code msg)"

definition ck_resolve :: "checker \<Rightarrow> ty \<Rightarrow> ty" where
  "ck_resolve ck t = resolve (ck_types ck) t"

definition ck_compatible :: "checker \<Rightarrow> ty \<Rightarrow> ty \<Rightarrow> bool" where
  "ck_compatible ck a b = types_compatible (ck_types ck) a b"

definition infer_var :: "checker \<Rightarrow> string \<Rightarrow> (type_message, ty) check" where
  "infer_var ck name =
     (case ck_env ck name of
        Some t \<Rightarrow> cok t
      | None \<Rightarrow>
          (case tc_constants (ck_types ck) name of
             Some t \<Rightarrow> cok t
           | None \<Rightarrow>
               (case tc_variants (ck_types ck) name of
                  Some e \<Rightarrow> cok (TNamed e)
                | None \<Rightarrow> cfail (issue ck ''E0080'' [DName name]))))"

definition literal_type :: "checker \<Rightarrow> literal \<Rightarrow> ty option \<Rightarrow> ty" where
  "literal_type ck lit hint =
     (case lit of
        LBool b \<Rightarrow> TBool
      | LInt v \<Rightarrow> integer_literal_type (ck_types ck) v hint
      | LFloat x \<Rightarrow>
          (case hint of
             Some h \<Rightarrow> if is_float (ck_resolve ck h) then ck_resolve ck h else TFloat64
           | None \<Rightarrow> TFloat64)
      | LChar c \<Rightarrow> TChar)"

definition check_unary :: "checker \<Rightarrow> unary_op \<Rightarrow> ty \<Rightarrow> (type_message, ty) check" where
  "check_unary ck op a =
     (case op of
        UNot \<Rightarrow> if \<not> is_bool (ck_resolve ck a) then cfail (issue ck ''E0081'' [DType a]) else cok TBool
      | UNeg \<Rightarrow> if \<not> is_numeric (ck_resolve ck a) then cfail (issue ck ''E0082'' [DType a]) else cok a)"

text \<open>The operators that pass the hint on to their operands.\<close>

definition keeps_hint :: "bin_op \<Rightarrow> bool" where
  "keeps_hint op \<longleftrightarrow> op \<in> {BAdd, BSub, BMul, BDiv, BMod, BBitAnd, BBitOr, BBitXor, BShl, BShr}"

definition sub_hint :: "bin_op \<Rightarrow> ty option \<Rightarrow> ty option" where
  "sub_hint op hint = (if keeps_hint op then hint else None)"

definition rhs_hint :: "ty \<Rightarrow> ty option \<Rightarrow> ty option" where
  "rhs_hint l hint = (if is_integer l then Some l else hint)"

definition check_binary :: "checker \<Rightarrow> bin_op \<Rightarrow> ty \<Rightarrow> ty \<Rightarrow> (type_message, ty) check" where
  "check_binary ck op l r =
     (let lr = ck_resolve ck l; rr = ck_resolve ck r
      in if op \<in> {BAnd, BOr, BXor, BImplies} then
           (if is_bool lr \<and> is_bool rr then cok TBool else cfail (issue ck ''E0083'' [DType l, DType r]))
         else if op \<in> {BEq, BNeq} then
           (if ck_compatible ck l r then cok TBool else cfail (issue ck ''E0084'' [DType l, DType r]))
         else if op \<in> {BLt, BLe, BGt, BGe} then
           (if is_numeric lr \<and> is_numeric rr \<and> ck_compatible ck l r then cok TBool
            else cfail (issue ck ''E0085'' [DType l, DType r]))
         else if op \<in> {BAdd, BSub, BMul, BDiv, BMod} then
           (if is_numeric lr \<and> is_numeric rr \<and> ck_compatible ck l r then cok l
            else cfail (issue ck ''E0086'' [DType l, DType r]))
         else
           (if is_integer lr \<and> is_integer rr \<and> ck_compatible ck l r then cok l
            else cfail (issue ck ''E0087'' [DType l, DType r])))"

text \<open>Two operands that must agree: the second is inferred with the hint, or else with the type of the first.\<close>

definition second_hint :: "ty option \<Rightarrow> ty \<Rightarrow> ty option" where
  "second_hint hint t = (case hint of None \<Rightarrow> Some t | Some h \<Rightarrow> Some h)"

definition agree :: "checker \<Rightarrow> string \<Rightarrow> ty \<Rightarrow> ty \<Rightarrow> (type_message, ty) check" where
  "agree ck code a b = (if ck_compatible ck a b then cok a else cfail (issue ck code [DType a, DType b]))"

definition check_field :: "checker \<Rightarrow> string \<Rightarrow> ty \<Rightarrow> (type_message, ty) check" where
  "check_field ck field bt =
     (case ck_resolve ck bt of
        TNamed name \<Rightarrow>
          (case tc_records (ck_types ck) name of
             Some fs \<Rightarrow>
               (case find (\<lambda>f. rf_name f = field) fs of
                  Some f \<Rightarrow> cok (rf_ty f)
                | None \<Rightarrow> cfail (issue ck ''E0120'' [DName name, DName field]))
           | None \<Rightarrow> cfail (issue ck ''E0121'' [DName field, DName name]))
      | other \<Rightarrow> cfail (issue ck ''E0122'' [DName field, DType other]))"

definition check_index :: "checker \<Rightarrow> ty \<Rightarrow> ty \<Rightarrow> (type_message, ty) check" where
  "check_index ck bt it =
     cbind (cnote (if is_integer (ck_resolve ck it) then [] else [issue ck ''E0111'' [DType it]])) (\<lambda>_.
       case ck_resolve ck bt of
         TArray elem len \<Rightarrow> cok elem
       | other \<Rightarrow> cfail (issue ck ''E0110'' [DType other]))"

definition element_hint :: "checker \<Rightarrow> ty option \<Rightarrow> ty option" where
  "element_hint ck hint =
     (case map_option (ck_resolve ck) hint of Some (TArray elem len) \<Rightarrow> Some elem | _ \<Rightarrow> None)"

definition same_element :: "checker \<Rightarrow> ty option \<Rightarrow> ty \<Rightarrow> (type_message, ty option) check" where
  "same_element ck prev t =
     (case prev of
        None \<Rightarrow> cok (Some t)
      | Some q \<Rightarrow> if \<not> ck_compatible ck q t then cfail (issue ck ''E0124'' [DType q, DType t]) else cok prev)"

definition check_clock_var_is_bool :: "checker \<Rightarrow> string \<Rightarrow> tdiag list" where
  "check_clock_var_is_bool ck clock =
     (case ck_env ck clock of
        Some t \<Rightarrow> if is_bool (ck_resolve ck t) then [] else [issue ck ''E0130'' [DName clock, DType t]]
      | None \<Rightarrow> [issue ck ''E0080'' [DName clock]])"

text \<open>\<open>if let Some(t) = \<dots>\<close>: the type is compared when there is one; a failure does not stop the caller.\<close>

definition compared :: "checker \<Rightarrow> ty \<Rightarrow> (ty \<Rightarrow> tdiag) \<Rightarrow> (type_message, ty) check \<Rightarrow> tdiag list" where
  "compared ck want d r =
     (case r of
        (Some t, ds) \<Rightarrow> ds @ (if ck_compatible ck want t then [] else [d t])
      | (None, ds) \<Rightarrow> ds)"

definition call_type :: "port list \<Rightarrow> ty" where
  "call_type outputs =
     (case outputs of [] \<Rightarrow> TNamed ''__unit__'' | [q] \<Rightarrow> p_ty q | _ \<Rightarrow> TNamed ''__tuple__'')"

definition struct_name :: "checker \<Rightarrow> string \<Rightarrow> string" where
  "struct_name ck t = (case ck_resolve ck (TNamed t) of TNamed name \<Rightarrow> name | _ \<Rightarrow> t)"

definition missing_fields :: "checker \<Rightarrow> string \<Rightarrow> string list \<Rightarrow> record_field list \<Rightarrow> tdiag list" where
  "missing_fields ck name given fs =
     concat (map (\<lambda>rf. if rf_name rf \<in> set given then [] else [issue ck ''E0128'' [DName name, DName (rf_name rf)]]) fs)"

definition equal_lengths :: "u32 list \<Rightarrow> bool" where
  "equal_lengths ls = (case ls of [] \<Rightarrow> True | l # _ \<Rightarrow> list_all (\<lambda>k. k = l) ls)"

definition array_shape :: "checker \<Rightarrow> iter_kind \<Rightarrow> ty \<Rightarrow> (type_message, ty \<times> u32) check" where
  "array_shape ck kind t =
     (case ck_resolve ck t of
        TArray elem len \<Rightarrow> cok (elem, len)
      | other \<Rightarrow> cfail (issue ck ''E0143'' [DIter kind, DType other]))"

definition iterated_signature :: "checker \<Rightarrow> iter_kind \<Rightarrow> string \<Rightarrow> (type_message, port list \<times> ty) check" where
  "iterated_signature ck kind f =
     (case ck_sigs ck f of
        None \<Rightarrow> cfail (issue ck ''E0140'' [DIter kind, DName f])
      | Some (ins, outs, k) \<Rightarrow>
          if k \<noteq> Function then cfail (issue ck ''E0141'' [DIter kind, DName f, DKind k])
          else (case outs of [q] \<Rightarrow> cok (ins, p_ty q) | _ \<Rightarrow> cfail (issue ck ''E0142'' [DIter kind, DName f])))"

definition map_type :: "checker \<Rightarrow> string \<Rightarrow> port list \<Rightarrow> ty \<Rightarrow> (ty \<times> u32) list \<Rightarrow> (type_message, ty) check" where
  "map_type ck f ins out shapes =
     (if length ins \<noteq> length shapes then cfail (issue ck ''E0145'' [DName f, DNum (length ins), DNum (length shapes)])
      else
        (case find (\<lambda>(i, p, e). \<not> ck_compatible ck (p_ty p) e) (enumerate 0 (zip ins (map fst shapes))) of
           Some (i, p, e) \<Rightarrow> cfail (issue ck ''E0145'' [DNum i, DType e, DName f, DType (p_ty p)])
         | None \<Rightarrow> cok (TArray out (case shapes of [] \<Rightarrow> 0 | (e, n) # _ \<Rightarrow> n))))"

text \<open>\<open>seed\<close> infers the type of the seed, where there is one, with the accumulator's type as the hint.\<close>

definition fold_type ::
  "checker \<Rightarrow> string \<Rightarrow> port list \<Rightarrow> ty \<Rightarrow> (ty \<times> u32) list \<Rightarrow> (ty \<Rightarrow> (type_message, ty) check) option \<Rightarrow> (type_message, ty) check" where
  "fold_type ck f ins out shapes seed =
     (case ins of
        [acc, elem] \<Rightarrow>
          if \<not> ck_compatible ck (p_ty acc) out then cfail (issue ck ''E0145'' [DName f, DType (p_ty acc), DType out])
          else
            cbind (case seed of
                     None \<Rightarrow> cok ()
                   | Some infer_seed \<Rightarrow>
                       (case infer_seed (p_ty acc) of
                          (None, ds) \<Rightarrow> cnote ds
                        | (Some t, ds) \<Rightarrow>
                            cbind (cnote ds) (\<lambda>_.
                              if ck_compatible ck (p_ty acc) t then cok ()
                              else cfail (issue ck ''E0145'' [DType t, DName f, DType (p_ty acc)])))) (\<lambda>_.
            case shapes of
              (e, n) # _ \<Rightarrow>
                if ck_compatible ck (p_ty elem) e then cok out
                else cfail (issue ck ''E0145'' [DType e, DName f, DType (p_ty elem)])
            | [] \<Rightarrow> cok out)
      | _ \<Rightarrow> cfail (issue ck ''E0145'' [DName f]))"

text \<open>The literal under a unary minus.\<close>

fun negated_literal :: "unary_op \<Rightarrow> expr \<Rightarrow> i64 option" where
  "negated_literal UNeg (Const (LInt v)) = Some v"
| "negated_literal _ _ = None"

lemma size_zip_member [termination_simp]: "(x, p) \<in> set (zip xs ps) \<Longrightarrow> size (x :: expr) < Suc (size_list size xs)"
  by (meson set_zip_leftD size_child_list)

lemma size_enumerate_zip [termination_simp]:
  "(i, x, p) \<in> set (enumerate n (zip xs ps)) \<Longrightarrow> size (x :: expr) < Suc (size_list size xs)"
  by (rule size_zip_member) (rule enumerate_item)

fun infer_expr_type :: "checker \<Rightarrow> expr \<Rightarrow> ty option \<Rightarrow> (type_message, ty) check" where
  "infer_expr_type ck (Const lit) hint = cok (literal_type ck lit hint)"
| "infer_expr_type ck (Cast to x) hint =
     cbind (infer_expr_type ck x None) (\<lambda>a.
       if \<not> is_numeric (ck_resolve ck a) then cfail (issue ck ''E0093'' [DType a])
       else if \<not> is_numeric to then cfail (issue ck ''E0094'' [DType to])
       else cok to)"
| "infer_expr_type ck (Var name) hint = infer_var ck name"
| "infer_expr_type ck (Unary op x) hint =
     (case negated_literal op x of
        Some v \<Rightarrow> cok (integer_literal_type (ck_types ck) (- v) hint)
      | None \<Rightarrow> cbind (infer_expr_type ck x hint) (check_unary ck op))"
| "infer_expr_type ck (Binary op l r) hint =
     cbind (infer_expr_type ck l (sub_hint op hint)) (\<lambda>lt.
     cbind (infer_expr_type ck r (rhs_hint lt (sub_hint op hint))) (\<lambda>rt.
     check_binary ck op lt rt))"
| "infer_expr_type ck (IfThenElse c t e) hint =
     cbind (infer_expr_type ck c (Some TBool)) (\<lambda>ct.
       if \<not> is_bool (ck_resolve ck ct) then cfail (issue ck ''E0090'' [DType ct])
       else
         cbind (infer_expr_type ck t hint) (\<lambda>tt.
         cbind (infer_expr_type ck e (second_hint hint tt)) (\<lambda>et.
         agree ck ''E0091'' tt et)))"
| "infer_expr_type ck (Pre x) hint = infer_expr_type ck x hint"
| "infer_expr_type ck (Arrow i b) hint =
     cbind (infer_expr_type ck i hint) (\<lambda>it.
     cbind (infer_expr_type ck b (second_hint hint it)) (\<lambda>bt.
     agree ck ''E0092'' it bt))"
| "infer_expr_type ck (Call node args) hint =
     (case ck_sigs ck node of
        None \<Rightarrow> cfail (issue ck ''E0100'' [DName node])
      | Some (inputs, outputs, kind) \<Rightarrow>
          cbind (cnote (if is_function (ck_node ck) \<and> kind \<noteq> Function \<and> kind \<noteq> Imported
                        then [issue ck ''E0101'' [DName (nd_name (ck_node ck)), DName node]] else [])) (\<lambda>_.
            if length args \<noteq> length inputs
            then cfail (issue ck ''E0102'' [DName node, DNum (length inputs), DNum (length args)])
            else
              cbind (cnote (concat (map (\<lambda>(i, x, p).
                  compared ck (p_ty p) (\<lambda>t. issue ck ''E0103'' [DName node, DNum i, DName (p_name p), DType t, DType (p_ty p)])
                    (infer_expr_type ck x (Some (p_ty p)))) (enumerate 0 (zip args inputs))))) (\<lambda>_.
              cok (call_type outputs))))"
| "infer_expr_type ck (Field b field) hint = cbind (infer_expr_type ck b None) (check_field ck field)"
| "infer_expr_type ck (Index b i) hint =
     cbind (infer_expr_type ck b None) (\<lambda>bt.
     cbind (infer_expr_type ck i (Some TInt32)) (\<lambda>it.
     check_index ck bt it))"
| "infer_expr_type ck (Array items) hint =
     (if items = [] then
        (case element_hint ck hint of Some e \<Rightarrow> cok (TArray e 0) | None \<Rightarrow> cfail (issue ck ''E0123'' []))
      else
        cbind (cfold (\<lambda>x prev. cbind (infer_expr_type ck x (element_hint ck hint)) (same_element ck prev)) items None) (\<lambda>elem.
          case elem of
            Some e \<Rightarrow> cok (TArray e (of_nat (length items)))
          | None \<Rightarrow> cfail (issue ck ''E0123'' [])))"
| "infer_expr_type ck (Struct t fis) hint =
     (let name = struct_name ck t
      in case tc_records (ck_types ck) name of
           Some schema \<Rightarrow>
             cbind (cnote (concat (map (\<lambda>fi.
                 case find (\<lambda>rf. rf_name rf = fst fi) schema of
                   Some rf \<Rightarrow>
                     compared ck (rf_ty rf) (\<lambda>vt. issue ck ''E0127'' [DName name, DName (fst fi), DType (rf_ty rf), DType vt])
                       (infer_expr_type ck (snd fi) (Some (rf_ty rf)))
                 | None \<Rightarrow> [issue ck ''E0126'' [DName name, DName (fst fi)]]) fis))) (\<lambda>_.
             cbind (cnote (missing_fields ck name (map fst fis) schema)) (\<lambda>_.
             cok (TNamed name)))
         | None \<Rightarrow> cfail (issue ck ''E0125'' [DName name]))"
| "infer_expr_type ck (Tuple items) hint = cok (TNamed ''__tuple__'')"
| "infer_expr_type ck (When x clock on) hint =
     cbind (cnote (check_clock_var_is_bool ck clock)) (\<lambda>_. infer_expr_type ck x hint)"
| "infer_expr_type ck (Merge clock t f) hint =
     cbind (cnote (check_clock_var_is_bool ck clock)) (\<lambda>_.
     cbind (infer_expr_type ck t hint) (\<lambda>tt.
     cbind (infer_expr_type ck f (second_hint hint tt)) (\<lambda>ft.
     agree ck ''E0131'' tt ft)))"
| "infer_expr_type ck (Iterate kind f init arrays) hint =
     cbind (iterated_signature ck kind f) (\<lambda>(ins, out).
     cbind (cfold (\<lambda>x shapes. cbind (cbind (infer_expr_type ck x None) (array_shape ck kind)) (\<lambda>sh. cok (shapes @ [sh]))) arrays [])
       (\<lambda>shapes.
         if \<not> equal_lengths (map snd shapes) then cfail (issue ck ''E0144'' [DIter kind, DLengths (map snd shapes)])
         else
           (case kind of
              MapIter \<Rightarrow> map_type ck f ins out shapes
            | FoldIter \<Rightarrow>
                fold_type ck f ins out shapes
                  (case init of None \<Rightarrow> None | Some s \<Rightarrow> Some (\<lambda>acc. infer_expr_type ck s (Some acc))))))"

end
