(* ===== verification/Typecheck_Node.thy ===== *)
theory Typecheck_Node
  imports Typecheck
begin

text \<open>
  The checks of nodes, constants and projects (\<open>ol_typecheck/src/lib.rs\<close>): initialisation of \<open>pre\<close>, the place of
  iterators, combinational cycles, single assignment, clocks, and the checks of a whole project.
\<close>

section \<open>Initialisation and iterators\<close>

fun check_pre_initialization :: "string \<Rightarrow> expr \<Rightarrow> bool \<Rightarrow> tdiag list" where
  "check_pre_initialization ctx (Pre x) below =
     (if \<not> below then [with_context ctx (diag_error ''E0070'' [])] else []) @ check_pre_initialization ctx x False"
| "check_pre_initialization ctx (Arrow i b) below =
     check_pre_initialization ctx i below @ check_pre_initialization ctx b True"
| "check_pre_initialization ctx (Unary op x) below = check_pre_initialization ctx x below"
| "check_pre_initialization ctx (Cast t x) below = check_pre_initialization ctx x below"
| "check_pre_initialization ctx (Binary op l r) below =
     check_pre_initialization ctx l below @ check_pre_initialization ctx r below"
| "check_pre_initialization ctx (IfThenElse c t e) below =
     check_pre_initialization ctx c below @ check_pre_initialization ctx t below @ check_pre_initialization ctx e below"
| "check_pre_initialization ctx (Call node args) below = concat (map (\<lambda>x. check_pre_initialization ctx x below) args)"
| "check_pre_initialization ctx (Field b f) below = check_pre_initialization ctx b below"
| "check_pre_initialization ctx (Index b i) below =
     check_pre_initialization ctx b below @ check_pre_initialization ctx i below"
| "check_pre_initialization ctx (Tuple items) below = concat (map (\<lambda>x. check_pre_initialization ctx x below) items)"
| "check_pre_initialization ctx (Array items) below = concat (map (\<lambda>x. check_pre_initialization ctx x below) items)"
| "check_pre_initialization ctx (Struct t fis) below =
     concat (map (\<lambda>fi. check_pre_initialization ctx (snd fi) below) fis)"
| "check_pre_initialization ctx (When x clock on) below = check_pre_initialization ctx x below"
| "check_pre_initialization ctx (Merge clock t f) below =
     check_pre_initialization ctx t below @ check_pre_initialization ctx f below"
| "check_pre_initialization ctx (Iterate kind node init arrays) below =
     (case init of None \<Rightarrow> [] | Some i \<Rightarrow> check_pre_initialization ctx i below) @
     concat (map (\<lambda>x. check_pre_initialization ctx x below) arrays)"
| "check_pre_initialization ctx (Const lit) below = []"
| "check_pre_initialization ctx (Var name) below = []"

fun is_iterate :: "expr \<Rightarrow> bool" where
  "is_iterate (Iterate kind node init arrays) = True"
| "is_iterate _ = False"

definition forbid_nested :: "string \<Rightarrow> expr \<Rightarrow> tdiag list" where
  "forbid_nested ctx e = map (\<lambda>_. with_context ctx (diag_error ''E0146'' [])) (filter is_iterate (visit e))"

definition check_iterator_placement :: "string \<Rightarrow> expr \<Rightarrow> tdiag list" where
  "check_iterator_placement ctx rhs =
     (if is_iterate rhs then concat (map (forbid_nested ctx) (children rhs)) else forbid_nested ctx rhs)"

section \<open>Combinational cycles\<close>

text \<open>What an expression reads before the first tick: the body of an arrow is left out, and so is \<open>pre\<close>.\<close>

fun collect_immediate_deps :: "expr \<Rightarrow> string list \<Rightarrow> string list" where
  "collect_immediate_deps (Const lit) out = out"
| "collect_immediate_deps (Var name) out = bs_insert name out"
| "collect_immediate_deps (Unary op x) out = collect_immediate_deps x out"
| "collect_immediate_deps (Cast t x) out = collect_immediate_deps x out"
| "collect_immediate_deps (Binary op l r) out = collect_immediate_deps r (collect_immediate_deps l out)"
| "collect_immediate_deps (IfThenElse c t e) out =
     collect_immediate_deps e (collect_immediate_deps t (collect_immediate_deps c out))"
| "collect_immediate_deps (Pre x) out = out"
| "collect_immediate_deps (Arrow i b) out = collect_immediate_deps i out"
| "collect_immediate_deps (Call node args) out = fold collect_immediate_deps args out"
| "collect_immediate_deps (Field b f) out = collect_immediate_deps b out"
| "collect_immediate_deps (Index b i) out = collect_immediate_deps i (collect_immediate_deps b out)"
| "collect_immediate_deps (Tuple items) out = fold collect_immediate_deps items out"
| "collect_immediate_deps (Array items) out = fold collect_immediate_deps items out"
| "collect_immediate_deps (Struct t fis) out = fold (\<lambda>fi. collect_immediate_deps (snd fi)) fis out"
| "collect_immediate_deps (When x clock on) out = collect_immediate_deps x (bs_insert clock out)"
| "collect_immediate_deps (Merge clock t f) out =
     collect_immediate_deps f (collect_immediate_deps t (bs_insert clock out))"
| "collect_immediate_deps (Iterate kind node init arrays) out =
     fold collect_immediate_deps arrays (case init of None \<Rightarrow> out | Some i \<Rightarrow> collect_immediate_deps i out)"

type_synonym dep_graph = "(string, string list) btree"

definition successors :: "dep_graph \<Rightarrow> string \<Rightarrow> string list" where
  "successors deps v = (case bt_get deps v of None \<Rightarrow> [] | Some s \<Rightarrow> s)"

definition add_deps :: "expr \<Rightarrow> string \<Rightarrow> dep_graph \<Rightarrow> dep_graph" where
  "add_deps rhs v deps = bt_insert v (collect_immediate_deps rhs (successors deps v)) deps"

definition dep_graph :: "node_def \<Rightarrow> dep_graph" where
  "dep_graph node = fold (\<lambda>eq. fold (add_deps (eq_rhs eq)) (eq_lhs eq)) (nd_equations node) []"

text \<open>
  The search follows the dependencies from a name along a path. \<open>visiting\<close> holds the names of the path in
  the code: both are extended and restored together.
\<close>

function dfs :: "dep_graph \<Rightarrow> string \<Rightarrow> string list \<Rightarrow> string list option" where
  "dfs deps v path =
     (if v \<in> set path then Some (dropWhile (\<lambda>u. u \<noteq> v) path @ [v])
      else find_map (\<lambda>s. dfs deps s (path @ [v])) (successors deps v))"
  by pat_completeness auto

lemma successors_key: "s \<in> set (successors deps v) \<Longrightarrow> v \<in> fst ` set deps"
proof -
  assume s: "s \<in> set (successors deps v)"
  then obtain xs where "bt_get deps v = Some xs" by (cases "bt_get deps v") (auto simp: successors_def)
  then have "(v, xs) \<in> set deps" by (rule map_of_SomeD)
  then show "v \<in> fst ` set deps" by force
qed

termination dfs
proof (relation "measure (\<lambda>(deps, v, path). card (fst ` set deps - set path))", goal_cases)
  case (2 deps v path s)
  then have "v \<in> fst ` set deps - set path" using successors_key by auto
  then have "fst ` set deps - set (path @ [v]) \<subset> fst ` set deps - set path" by auto
  then have "card (fst ` set deps - set (path @ [v])) < card (fst ` set deps - set path)" by (rule psubset_card_mono [rotated]) simp
  then show ?case by simp
qed simp

declare dfs.simps [simp del]

definition detect_combinational_cycle :: "node_def \<Rightarrow> string list option" where
  "detect_combinational_cycle node = find_map (\<lambda>v. dfs (dep_graph node) v []) (map fst (dep_graph node))"

section \<open>Nodes\<close>

definition eq_ctx :: "string \<Rightarrow> nat \<Rightarrow> string" where
  "eq_ctx ctx i = ctx @ [CHR 0x20, CHR 0xC2, CHR 0xB7, CHR 0x20] @ ''equation '' @ nat_digits i"

text \<open>Ports and locals are bound one after the other; a name that was bound before is reported.\<close>

definition bind_names ::
  "(string \<Rightarrow> tdiag) \<Rightarrow> (string \<times> ty) list \<Rightarrow> (string \<rightharpoonup> ty) \<times> tdiag list \<Rightarrow> (string \<rightharpoonup> ty) \<times> tdiag list" where
  "bind_names d = fold (\<lambda>(name, t) (env, ds). (env(name \<mapsto> t), if env name \<noteq> None then ds @ [d name] else ds))"

definition node_env :: "string \<Rightarrow> node_def \<Rightarrow> (string \<rightharpoonup> ty) \<times> tdiag list" where
  "node_env ctx node =
     (let report = (\<lambda>code name. with_context ctx (diag_error code [DName name]))
      in bind_names (report ''E0012'') (map (\<lambda>l. (l_name l, l_ty l)) (nd_locals node))
           (bind_names (report ''E0011'') (map (\<lambda>p. (p_name p, p_ty p)) (nd_outputs node))
             (bind_names (report ''E0010'') (map (\<lambda>p. (p_name p, p_ty p)) (nd_inputs node)) (Map.empty, []))))"

definition check_target ::
  "string \<Rightarrow> (string \<rightharpoonup> ty) \<Rightarrow> node_def \<Rightarrow> string \<Rightarrow> string list \<times> tdiag list \<Rightarrow> string list \<times> tdiag list" where
  "check_target ctx env node lhs st =
     (let (assigned, ds) = st;
          report = (\<lambda>code. with_context ctx (diag_error code [DName lhs]))
      in (bs_insert lhs assigned,
          ds @ (if env lhs = None then [report ''E0020'']
                else if lhs \<in> p_name ` set (nd_inputs node) then [report ''E0022''] else []) @
          (if lhs \<in> set assigned then [report ''E0021''] else [])))"

definition is_tuple_type :: "ty \<Rightarrow> bool" where
  "is_tuple_type t \<longleftrightarrow> t = TNamed ''__tuple__''"

definition check_rhs_type :: "checker \<Rightarrow> equation \<Rightarrow> ty \<Rightarrow> tdiag list" where
  "check_rhs_type ck eq t =
     (case eq_lhs eq of
        [l] \<Rightarrow>
          (case ck_env ck l of
             Some want \<Rightarrow>
               if \<not> ck_compatible ck want t \<and> \<not> is_tuple_type t then [issue ck ''E0040'' [DName l, DType t, DType want]] else []
           | None \<Rightarrow> [])
      | _ \<Rightarrow> if \<not> is_tuple_type t then [issue ck ''E0041'' []] else [])"

definition lhs_hint :: "checker \<Rightarrow> equation \<Rightarrow> ty option" where
  "lhs_hint ck eq = (case eq_lhs eq of [l] \<Rightarrow> ck_env ck l | _ \<Rightarrow> None)"

definition check_eq :: "checker \<Rightarrow> equation \<Rightarrow> string list \<times> tdiag list \<Rightarrow> string list \<times> tdiag list" where
  "check_eq ck eq st =
     (let (assigned, ds) = fold (check_target (ck_ctx ck) (ck_env ck) (ck_node ck)) (eq_lhs eq) st;
          (rhs, es) = infer_expr_type ck (eq_rhs eq) (lhs_hint ck eq)
      in (assigned,
          ds @ (if is_function (ck_node ck) \<and> contains_temporal (eq_rhs eq) then [issue ck ''E0030'' []] else []) @
          check_pre_initialization (ck_ctx ck) (eq_rhs eq) False @ check_iterator_placement (ck_ctx ck) (eq_rhs eq) @
          es @ (case rhs of None \<Rightarrow> [] | Some t \<Rightarrow> check_rhs_type ck eq t)))"

text \<open>
  The discipline of clocks. The code keeps the calls of operators in a hash map by address and reports them
  in the order of that map; the model reports them in the order of the source.
\<close>

function visit_at :: "addr \<Rightarrow> expr \<Rightarrow> (addr \<times> expr) list" where
  "visit_at a e = (a, e) # concat (map (\<lambda>(i, c). visit_at (child a i) c) (enumerate 0 (children e)))"
  by pat_completeness auto
termination
  by (relation "measure (\<lambda>(a, e). size e)") (auto intro: size_children enumerate_item)

declare visit_at.simps [simp del]

definition check_clocked_equation :: "checker \<Rightarrow> clock \<Rightarrow> equation \<Rightarrow> tdiag list" where
  "check_clocked_equation ck clock eq =
     (if is_base clock then []
      else
        (if is_function (ck_node ck) then [issue ck ''E0134'' [DName (nd_name (ck_node ck)), DClock clock]] else []) @
        concat (map (\<lambda>l. case ck_env ck l of
            Some t \<Rightarrow> (case ck_resolve ck t of TArray elem len \<Rightarrow> [issue ck ''E0135'' [DName l]] | _ \<Rightarrow> [])
          | None \<Rightarrow> []) (eq_lhs eq)))"

definition check_operator_calls :: "checker \<Rightarrow> (nat \<Rightarrow> root) \<Rightarrow> clock_info \<Rightarrow> nat \<Rightarrow> equation \<Rightarrow> tdiag list" where
  "check_operator_calls ck mk ci i eq =
     concat (map (\<lambda>(a, e). case e of
         Call callee args \<Rightarrow>
           (case ck_sigs ck callee of
              Some (ins, outs, Operator) \<Rightarrow>
                (case map_of (call_clocks ci) a of
                   Some call_clock \<Rightarrow>
                     if i < length (equation_clocks ci) \<and> call_clock \<noteq> equation_clocks ci ! i
                     then [issue ck ''E0133'' [DName callee, DClock call_clock, DClock (equation_clocks ci ! i)]] else []
                 | None \<Rightarrow> [])
            | _ \<Rightarrow> [])
       | _ \<Rightarrow> []) (visit_at (root_addr (mk i)) (eq_rhs eq)))"

definition check_clocks :: "(nat \<Rightarrow> checker) \<Rightarrow> string \<Rightarrow> node_def \<Rightarrow> tdiag list" where
  "check_clocks ck ctx node =
     (if \<not> node_uses_clocks node then []
      else
        let mk = EquationRoot (nd_name node);
            ci = infer_clocks mk node
        in map (\<lambda>e. with_context (case ce_equation e of Some i \<Rightarrow> eq_ctx ctx i | None \<Rightarrow> ctx)
               (diag_error ''E0132'' [DClockMessage (ce_message e)])) (clock_errors ci) @
           concat (map (\<lambda>(i, clock, eq). check_clocked_equation (ck i) clock eq)
             (enumerate 0 (zip (equation_clocks ci) (nd_equations node)))) @
           concat (map (\<lambda>(i, eq). check_operator_calls (ck i) mk ci i eq) (enumerate 0 (nd_equations node))))"

definition equation_checker :: "(string \<rightharpoonup> signature) \<Rightarrow> type_context \<Rightarrow> node_def \<Rightarrow> nat \<Rightarrow> checker" where
  "equation_checker sigs tc node i =
     \<lparr>ck_env = fst (node_env (''node '' @ nd_name node) node), ck_sigs = sigs, ck_node = node,
      ck_ctx = eq_ctx (''node '' @ nd_name node) i, ck_types = tc\<rparr>"

definition check_node :: "(string \<rightharpoonup> signature) \<Rightarrow> type_context \<Rightarrow> node_def \<Rightarrow> tdiag list" where
  "check_node sigs tc node =
     (let ctx = ''node '' @ nd_name node;
          report = (\<lambda>d. with_context ctx d)
      in if is_imported node then
           (if nd_equations node \<noteq> [] then [report (diag_error ''E0002'' [])] else [])
         else
           let (env, ds) = node_env ctx node;
               ck = equation_checker sigs tc node;
               (assigned, es) = fold (\<lambda>(i, eq). check_eq (ck i) eq) (enumerate 0 (nd_equations node)) ([], [])
           in ds @ es @
              concat (map (\<lambda>p. if p_name p \<notin> set assigned then [report (diag_error ''E0050'' [DName (p_name p)])] else [])
                (nd_outputs node)) @
              concat (map (\<lambda>l. if l_name l \<notin> set assigned then [report (diag_warning ''W0051'' [DName (l_name l)])] else [])
                (nd_locals node)) @
              (if is_function node then []
               else (case detect_combinational_cycle node of
                       Some cycle \<Rightarrow> [report (diag_error ''E0060'' [DNames cycle])]
                     | None \<Rightarrow> [])) @
              concat (map (\<lambda>pr. if env (pr_var pr) = None then [report (diag_error ''E0150'' [DName (pr_var pr)])] else [])
                (nd_probes node)) @
              check_clocks ck ctx node)"

section \<open>Projects\<close>

definition dummy_node :: node_def where
  "dummy_node =
     \<lparr>nd_name = ''<consts>'', nd_kind = Function, nd_inputs = [], nd_outputs = [], nd_locals = [], nd_equations = [],
      nd_contract = None, nd_diagram = default_diagram, nd_probes = []\<rparr>"

definition const_checker :: "(string \<rightharpoonup> signature) \<Rightarrow> type_context \<Rightarrow> const_def \<Rightarrow> checker" where
  "const_checker sigs tc c =
     \<lparr>ck_env = Map.empty, ck_sigs = sigs, ck_node = dummy_node, ck_ctx = ''constant '' @ c_name_of c, ck_types = tc\<rparr>"

definition check_constant ::
  "(string \<rightharpoonup> signature) \<Rightarrow> type_context \<Rightarrow> const_def \<Rightarrow> string set \<times> tdiag list \<Rightarrow> string set \<times> tdiag list" where
  "check_constant sigs tc c st =
     (let (seen, ds) = st;
          ck = const_checker sigs tc c
      in if c_name_of c \<in> seen then (seen, ds @ [issue ck ''E0003'' [DName (c_name_of c)]])
         else
           let (t, es) = infer_expr_type ck (c_value c) (Some (c_ty c))
           in (insert (c_name_of c) seen,
               ds @ (if contains_temporal (c_value c) then [issue ck ''E0004'' []] else []) @ es @
               (case t of
                  Some found \<Rightarrow>
                    if \<not> types_compatible tc (c_ty c) found
                    then [issue ck ''E0005'' [DName (c_name_of c), DType (c_ty c), DType found]] else []
                | None \<Rightarrow> [])))"

definition check_constants :: "project \<Rightarrow> (string \<rightharpoonup> signature) \<Rightarrow> type_context \<Rightarrow> tdiag list" where
  "check_constants p sigs tc = snd (fold (check_constant sigs tc) (all_constants p) ({}, []))"

text \<open>The names of types and of variants are unique in a project.\<close>

definition check_variant ::
  "package \<Rightarrow> enum_def \<Rightarrow> string \<Rightarrow> string list \<times> tdiag list \<Rightarrow> string list \<times> tdiag list" where
  "check_variant pkg e v st =
     (let (seen, ds) = st
      in (bs_insert v seen,
          if v \<in> set seen
          then ds @ [with_context (''enum '' @ en_name e @ '' in package '' @ pk_name pkg) (diag_error ''E0007'' [DName v])]
          else ds))"

definition check_type_name ::
  "package \<Rightarrow> type_def \<Rightarrow> string list \<times> string list \<times> tdiag list \<Rightarrow> string list \<times> string list \<times> tdiag list" where
  "check_type_name pkg t st =
     (let (names, variants, ds) = st;
          es = ds @ (if td_name t \<in> set names
                     then [with_context (''package '' @ pk_name pkg) (diag_error ''E0006'' [DName (td_name t)])] else [])
      in case td_body t of
           EnumBody e \<Rightarrow> (bs_insert (td_name t) names, fold (check_variant pkg e) (en_variants e) (variants, es))
         | _ \<Rightarrow> (bs_insert (td_name t) names, variants, es))"

definition check_type_names :: "project \<Rightarrow> tdiag list" where
  "check_type_names p =
     snd (snd (fold (\<lambda>pkg. fold (check_type_name pkg) (pk_types pkg)) (pj_packages p) ([], [], [])))"

definition check_aliases :: "type_context \<Rightarrow> tdiag list" where
  "check_aliases tc =
     concat (map (\<lambda>name. if try_resolve tc (TNamed name) 0 [] = None
         then [with_context (''type '' @ name) (diag_error ''E0008'' [DName name])] else [])
       (fold bs_insert (map fst (tc_aliases tc)) []))"

definition node_sig :: "node_def \<Rightarrow> signature" where
  "node_sig n = (nd_inputs n, nd_outputs n, nd_kind n)"

definition signatures :: "node_def list \<Rightarrow> (string \<rightharpoonup> signature) \<times> tdiag list" where
  "signatures ns =
     fold (\<lambda>n (sigs, ds). (sigs(nd_name n \<mapsto> node_sig n),
       if sigs (nd_name n) \<noteq> None
       then ds @ [with_context (''node '' @ nd_name n) (diag_error ''E0001'' [DName (nd_name n)])] else ds)) ns (Map.empty, [])"

definition check_project :: "project \<Rightarrow> tdiag list" where
  "check_project p =
     (let tc = from_project p;
          (sigs, ds) = signatures (all_nodes p)
      in check_type_names p @ check_aliases tc @ ds @ check_constants p sigs tc @
         concat (map (check_node sigs tc) (all_nodes p)))"

section \<open>Types for back ends\<close>

definition expr_has_condact :: "expr \<Rightarrow> bool" where
  "expr_has_condact e = list_ex (\<lambda>x. case x of Call node args \<Rightarrow> node = ''condact'' | _ \<Rightarrow> False) (visit e)"

definition typer_env :: "node_def \<Rightarrow> (string \<rightharpoonup> ty)" where
  "typer_env node =
     map_of (rev (map (\<lambda>p. (p_name p, p_ty p)) (nd_inputs node @ nd_outputs node) @
                  map (\<lambda>l. (l_name l, l_ty l)) (nd_locals node)))"

text \<open>The typed call of a \<open>condact\<close> takes its place; the operand is smaller, so the fuel of the walk suffices.\<close>

fun strip_condact :: "expr \<Rightarrow> unit \<Rightarrow> expr \<times> unit" where
  "strip_condact (Call node args) s = (if node = ''condact'' \<and> 2 \<le> length args then (args ! 1, s) else (Call node args, s))"
| "strip_condact e s = (e, s)"

definition type_of_expr :: "project \<Rightarrow> node_def \<Rightarrow> (string \<rightharpoonup> ty) \<Rightarrow> expr \<Rightarrow> ty option" where
  "type_of_expr p node env e =
     (let tc = from_project p;
          plain = (if expr_has_condact e then fst (walk_mut (Suc (size e)) strip_condact e (Some ())) else e);
          ck = \<lparr>ck_env = env, ck_sigs = map_of (rev (map (\<lambda>n. (nd_name n, node_sig n)) (all_nodes p))),
                ck_node = node, ck_ctx = [], ck_types = tc\<rparr>
      in map_option (resolve tc) (fst (infer_expr_type ck plain None)))"

end
