(* ===== verification/Order_Spec.thy ===== *)
theory Order_Spec
  imports Order Occurrence
begin

text \<open>
  The scheduler's reads and dependencies against the names that occur in an equation.
\<close>

lemma cycle_reads_operand:
  "operand e i y \<Longrightarrow> \<not> (\<exists>p. e = Pre p) \<Longrightarrow> x \<in> cycle_reads y \<Longrightarrow> x \<in> cycle_reads e"
  by (induction rule: operand.induct) auto

lemma occurs_reads: "occurs True e x \<longleftrightarrow> x \<in> cycle_reads e"
proof
  show "occurs True e x \<Longrightarrow> x \<in> cycle_reads e"
    by (induction rule: occurs.induct) (auto intro: cycle_reads_operand)
  show "x \<in> cycle_reads e \<Longrightarrow> occurs True e x"
  proof (induction e rule: expr_children_induct)
    case (step e)
    have "\<not> (\<exists>p. e = Pre p)" using step.prems by auto
    then have sub: "occurs True e x" if "c \<in> set (children e)" "x \<in> cycle_reads c" for c
      using child_operand [OF that(1)] step.IH [OF that] by (auto intro: occurs.operand)
    from cycle_reads_children [of e] step.prems consider "free_var_of e = Some x" | c where "c \<in> set (children e)" "x \<in> cycle_reads c"
      by auto
    then show ?case
    proof cases
      case 1
      then show ?thesis by (cases e) (auto intro: occurs.intros)
    qed (rule sub)
  qed
qed

text \<open>
  The equations that the \<open>i\<close>-th one waits for: those that define a name its right-hand side reads in the same cycle.
  Of several definitions of a name the last one counts.
\<close>

definition awaited :: "node_def \<Rightarrow> nat \<Rightarrow> nat set" where
  "awaited node i =
     {j. j < length (nd_equations node) \<and>
         (\<exists>x. occurs True (eq_rhs (nd_equations node ! i)) x \<and> x \<in> set (eq_lhs (nd_equations node ! j)) \<and>
              (\<forall>k. j < k \<and> k < length (nd_equations node) \<longrightarrow> x \<notin> set (eq_lhs (nd_equations node ! k))))}"

lemma def_by_from_snoc:
  "def_by_from n (eqs @ [eq]) m v = (if v \<in> set (eq_lhs eq) then Some (n + length eqs) else def_by_from n eqs m v)"
  by (induction eqs arbitrary: n m) (auto simp: fold_upd_const)

lemma def_by_iff:
  "def_by eqs v = Some j \<longleftrightarrow> j < length eqs \<and> v \<in> set (eq_lhs (eqs ! j)) \<and>
     (\<forall>k. j < k \<and> k < length eqs \<longrightarrow> v \<notin> set (eq_lhs (eqs ! k)))"
proof (induction eqs rule: rev_induct)
  case Nil
  show ?case by (simp add: def_by_def)
next
  case (snoc eq eqs)
  have step: "def_by (eqs @ [eq]) v = (if v \<in> set (eq_lhs eq) then Some (length eqs) else def_by eqs v)"
    using def_by_from_snoc [of 0 eqs eq Map.empty v] by (simp add: def_by_def)
  show ?case
  proof (cases "v \<in> set (eq_lhs eq)")
    case True
    have "j = length eqs" if "j < Suc (length eqs)" "\<forall>k. j < k \<and> k < Suc (length eqs) \<longrightarrow> v \<notin> set (eq_lhs ((eqs @ [eq]) ! k))"
    proof (rule ccontr)
      assume "j \<noteq> length eqs"
      with that(1) that(2) [rule_format, of "length eqs"] True show False by simp
    qed
    with True show ?thesis unfolding step by auto
  next
    case False
    have "(\<forall>k. j < k \<and> k < Suc (length eqs) \<longrightarrow> v \<notin> set (eq_lhs ((eqs @ [eq]) ! k))) \<longleftrightarrow>
        (\<forall>k. j < k \<and> k < length eqs \<longrightarrow> v \<notin> set (eq_lhs (eqs ! k)))" if "j < length eqs"
      using False by (metis less_Suc_eq nth_append nth_append_length)
    moreover have "j < Suc (length eqs) \<and> v \<in> set (eq_lhs ((eqs @ [eq]) ! j)) \<longleftrightarrow> j < length eqs \<and> v \<in> set (eq_lhs (eqs ! j))"
      using False by (auto simp: nth_append less_Suc_eq)
    ultimately show ?thesis unfolding step using False snoc.IH by auto
  qed
qed

lemma deps_awaited: "i < length (nd_equations node) \<Longrightarrow> node_deps node i = awaited node i"
  by (auto simp: deps_of_def set_eq_deps awaited_def occurs_reads def_by_iff)

lemma schedule_cong:
  "(\<And>i. i < n \<Longrightarrow> dep i = dep' i) \<Longrightarrow> schedule dep n order \<longleftrightarrow> schedule dep' n order"
proof -
  assume eq: "\<And>i. i < n \<Longrightarrow> dep i = dep' i"
  have "dep (order ! k) = dep' (order ! k)" if "set order = {..<n}" "k < length order" for k
    using that nth_mem by (intro eq) blast
  then show ?thesis unfolding schedule_def deps_first_def by (metis (full_types))
qed

lemma schedule_awaited:
  "schedule (node_deps node) (length (nd_equations node)) order \<longleftrightarrow> schedule (awaited node) (length (nd_equations node)) order"
  by (intro schedule_cong deps_awaited)

end
