(* ===== verification/Typecheck_Cycles.thy ===== *)
theory Typecheck_Cycles
  imports Typecheck_Node Order_Spec
begin

text \<open>
  The search for combinational cycles finds one exactly when there is one, and a node that passes it has an
  evaluation order, unless an arrow hides a dependency from it.
\<close>

section \<open>The graph of immediate reads\<close>

definition immediate_reads :: "expr \<Rightarrow> string set" where
  "immediate_reads e = set (collect_immediate_deps e [])"

lemma collect_immediate_acc: "set (collect_immediate_deps e out) = set out \<union> immediate_reads e"
proof (induction e arbitrary: out rule: expr_children_induct)
  case (step e)
  have args: "set (fold collect_immediate_deps es out) = set out \<union> (\<Union>x\<in>set es. immediate_reads x)"
    if "set es \<subseteq> set (children e)" for es out
    using that step.IH by (intro set_fold_acc) auto
  have fields: "set (fold (\<lambda>fi. collect_immediate_deps (snd fi)) fis out) =
      set out \<union> (\<Union>fi\<in>set fis. immediate_reads (snd fi))"
    if "snd ` set fis \<subseteq> set (children e)" for fis out
    using that step.IH by (intro set_fold_acc) auto
  have "set (collect_immediate_deps e out) = set out \<union> set (collect_immediate_deps e [])"
  proof (cases e)
    case (Struct t fis)
    then show ?thesis using fields [of fis] by simp
  next
    case (Iterate k n i as)
    then have "set (fold collect_immediate_deps as u) = set u \<union> (\<Union>x\<in>set as. immediate_reads x)" for u
      by (intro args) auto
    with Iterate step.IH show ?thesis by (cases i) (simp_all add: Un_assoc)
  qed (use step.IH args in auto)
  then show ?case by (simp add: immediate_reads_def)
qed

text \<open>These are the names that occur in the expression outside \<open>pre\<close> and outside the bodies of arrows.\<close>

definition first_operands :: "expr \<Rightarrow> expr list" where
  "first_operands e = (case e of Pre x \<Rightarrow> [] | Arrow i b \<Rightarrow> [i] | _ \<Rightarrow> children e)"

lemma immediate_reads_step:
  "immediate_reads e = set_option (free_var_of e) \<union> (\<Union>c\<in>set (first_operands e). immediate_reads c)"
proof -
  have args: "set (fold collect_immediate_deps es out) = set out \<union> (\<Union>x\<in>set es. immediate_reads x)" for es out
    by (intro set_fold_acc collect_immediate_acc)
  have fields: "set (fold (\<lambda>fi. collect_immediate_deps (snd fi)) fis out) = set out \<union> (\<Union>fi\<in>set fis. immediate_reads (snd fi))" for fis out
    by (intro set_fold_acc collect_immediate_acc)
  note unfold = immediate_reads_def [of e] first_operands_def
  show ?thesis
    unfolding unfold
  proof (cases e)
    case (Iterate kind node init arrays)
    then show "set (collect_immediate_deps e []) = set_option (free_var_of e) \<union>
        (\<Union>c\<in>set (case e of Pre x \<Rightarrow> [] | Arrow i b \<Rightarrow> [i] | _ \<Rightarrow> children e). immediate_reads c)"
      by (cases init) (simp_all add: args collect_immediate_acc)
  qed (simp_all add: args fields collect_immediate_acc Un_ac)
qed

lemma first_operand_iff:
  "c \<in> set (first_operands e) \<longleftrightarrow>
     (\<exists>i. operand e i c \<and> \<not> (\<exists>p. e = Pre p) \<and> (i = 0 \<or> \<not> (\<exists>p b. e = Arrow p b)))"
proof -
  have plain: "c \<in> set (children e) \<longleftrightarrow> (\<exists>i. operand e i c)" using child_operand operand_child by blast
  show ?thesis
  proof (cases "(\<exists>p. e = Pre p) \<or> (\<exists>p b. e = Arrow p b)")
    case True
    then show ?thesis by (auto simp: first_operands_def operand_iff)
  next
    case False
    then have "first_operands e = children e" by (cases e) (simp_all add: first_operands_def)
    with False plain show ?thesis by auto
  qed
qed

lemma immediate_free: "free_var_of e = Some x \<Longrightarrow> x \<in> immediate_reads e"
  by (subst immediate_reads_step) simp

lemma immediate_occurs: "x \<in> immediate_reads e \<longleftrightarrow> occurs False e x"
proof
  show "x \<in> immediate_reads e \<Longrightarrow> occurs False e x"
  proof (induction e rule: expr_children_induct)
    case (step e)
    from step.prems consider "free_var_of e = Some x" | c where "c \<in> set (first_operands e)" "x \<in> immediate_reads c"
      unfolding immediate_reads_step [of e] by auto
    then show ?case
    proof cases
      case 1
      then show ?thesis by (cases e) (auto intro: occurs.intros)
    next
      case (2 c)
      from 2(1) obtain i where i: "operand e i c" "\<not> (\<exists>p. e = Pre p)" "i = 0 \<or> \<not> (\<exists>p b. e = Arrow p b)"
        unfolding first_operand_iff by blast
      with step.IH [OF operand_child [OF i(1)] 2(2)] show ?thesis by (blast intro: occurs.operand)
    qed
  qed
  show "occurs False e x \<Longrightarrow> x \<in> immediate_reads e"
  proof (induction rule: occurs.induct)
    case (operand e i y x)
    then have "y \<in> set (first_operands e)" unfolding first_operand_iff by blast
    with operand show ?case unfolding immediate_reads_step [of e] by blast
  qed (simp_all add: immediate_free)
qed

text \<open>An equation's names depend on what its right-hand side reads in the first cycle.\<close>

definition edge :: "node_def \<Rightarrow> string \<Rightarrow> string \<Rightarrow> bool" where
  "edge node v s \<longleftrightarrow> (\<exists>eq\<in>set (nd_equations node). v \<in> set (eq_lhs eq) \<and> occurs False (eq_rhs eq) s)"

lemma successors_Nil [simp]: "successors [] v = []"
  by (simp add: successors_def)

lemma successors_add: "set (successors (add_deps rhs l deps) v) =
    set (successors deps v) \<union> (if v = l then immediate_reads rhs else {})"
  by (auto simp: successors_def add_deps_def map_laws collect_immediate_acc)

lemma successors_add_all: "set (successors (fold (add_deps rhs) ls deps) v) =
    set (successors deps v) \<union> (if v \<in> set ls then immediate_reads rhs else {})"
  by (induction ls arbitrary: deps) (auto simp: successors_add)

lemma successors_dep_graph: "set (successors (dep_graph node) v) = {s. edge node v s}"
proof -
  have "set (successors (fold (\<lambda>eq. fold (add_deps (eq_rhs eq)) (eq_lhs eq)) eqs deps) v) =
      set (successors deps v) \<union> {s. \<exists>eq\<in>set eqs. v \<in> set (eq_lhs eq) \<and> s \<in> immediate_reads (eq_rhs eq)}" for eqs deps
    by (induction eqs arbitrary: deps) (auto simp: successors_add_all)
  from this [of "nd_equations node" "[]"] show ?thesis by (auto simp: dep_graph_def edge_def immediate_occurs)
qed

section \<open>The search\<close>

text \<open>A walk along the dependencies, as the list of its names.\<close>

definition walk :: "dep_graph \<Rightarrow> string list \<Rightarrow> bool" where
  "walk deps = successively (\<lambda>v s. s \<in> set (successors deps v))"

lemma dfs_found:
  "walk deps (path @ [v]) \<Longrightarrow> dfs deps v path = Some cycle \<Longrightarrow>
   walk deps cycle \<and> 2 \<le> length cycle \<and> hd cycle = last cycle"
proof (induction deps v path rule: dfs.induct)
  case (1 deps v path)
  show ?case
  proof (cases "v \<in> set path")
    case True
    then have cycle: "cycle = dropWhile (\<lambda>u. u \<noteq> v) path @ [v]" using 1 by (simp add: dfs.simps)
    from True obtain before rest where split: "path = before @ v # rest" "v \<notin> set before" by (meson split_list_first)
    have rest: "dropWhile (\<lambda>u. u \<noteq> v) path = v # rest"
      unfolding split(1) using split(2) by (induction before) auto
    have "path @ [v] = takeWhile (\<lambda>u. u \<noteq> v) path @ cycle" by (simp add: cycle)
    then have "walk deps cycle" using 1(2) by (simp add: walk_def successively_append_iff)
    with cycle rest show ?thesis by simp
  next
    case False
    with 1(3) obtain s where s: "s \<in> set (successors deps v)" "dfs deps s (path @ [v]) = Some cycle"
      by (auto simp: dfs.simps [of deps v] dest: find_map_SomeD)
    then have "walk deps ((path @ [v]) @ [s])" using 1(2) by (simp add: walk_def successively_append_iff)
    from "1.IH" [OF False s(1) this s(2)] show ?thesis .
  qed
qed

lemma dfs_None_walk:
  "dfs deps v path = None \<Longrightarrow> walk deps (v # ws) \<Longrightarrow> last (v # ws) \<notin> set path \<union> set (butlast (v # ws))"
proof (induction ws arbitrary: v path)
  case Nil
  then show ?case by (auto simp: dfs.simps [of deps v] split: if_splits)
next
  case (Cons w ws)
  then have "v \<notin> set path" "w \<in> set (successors deps v)" "walk deps (w # ws)"
    by (auto simp: dfs.simps [of deps v] walk_def split: if_splits)
  moreover from this have "dfs deps w (path @ [v]) = None"
    using Cons.prems(1) by (simp add: dfs.simps [of deps v] find_map_None)
  ultimately show ?case using Cons.IH [of w "path @ [v]"] by auto
qed

lemma walk_of_trancl: "(v, s) \<in> {(a, b). b \<in> set (successors deps a)}\<^sup>+ \<Longrightarrow> \<exists>ws. walk deps (v # ws) \<and> ws \<noteq> [] \<and> last ws = s"
proof (induction rule: trancl_induct)
  case (base y)
  then have "walk deps (v # [y])" by (simp add: walk_def)
  then show ?case by (intro exI [of _ "[y]"]) simp
next
  case (step y z)
  then obtain ws where ws: "walk deps (v # ws)" "ws \<noteq> []" "last ws = y" by blast
  with step(2) have "walk deps ((v # ws) @ [z])"
    unfolding walk_def by (subst successively_append_iff) auto
  then show ?case by (intro exI [of _ "ws @ [z]"]) simp
qed

theorem cycle_search:
  "case detect_combinational_cycle node of
     Some cycle \<Rightarrow> successively (edge node) cycle \<and> 2 \<le> length cycle \<and> hd cycle = last cycle
   | None \<Rightarrow> acyclic {(v, s). edge node v s}"
proof -
  let ?deps = "dep_graph node"
  have edges: "s \<in> set (successors ?deps v) \<longleftrightarrow> edge node v s" for v s by (simp add: successors_dep_graph)
  show ?thesis
  proof (cases "detect_combinational_cycle node")
    case (Some cycle)
    then obtain v where "dfs ?deps v [] = Some cycle" by (auto simp: detect_combinational_cycle_def dest: find_map_SomeD)
    from dfs_found [OF _ this] have "walk ?deps cycle \<and> 2 \<le> length cycle \<and> hd cycle = last cycle" by (simp add: walk_def)
    with Some show ?thesis by (simp add: walk_def edges)
  next
    case None
    have "(v, v) \<notin> {(a, b). b \<in> set (successors ?deps a)}\<^sup>+" for v
    proof
      assume "(v, v) \<in> {(a, b). b \<in> set (successors ?deps a)}\<^sup>+"
      from walk_of_trancl [OF this] obtain ws where ws: "walk ?deps (v # ws)" "ws \<noteq> []" "last ws = v" by blast
      then have "hd ws \<in> set (successors ?deps v)" by (cases ws) (simp_all add: walk_def)
      then have "v \<in> set (map fst ?deps)" using successors_key by simp
      with None have "dfs ?deps v [] = None"
        unfolding detect_combinational_cycle_def find_map_None by blast
      from dfs_None_walk [OF this ws(1)] ws show False by (cases ws) auto
    qed
    with None show ?thesis by (simp add: acyclic_def edges)
  qed
qed

section \<open>Scheduling\<close>

text \<open>An arrow hides a dependency when its body reads something that the rest of the expression does not.\<close>

definition arrows_open :: "expr \<Rightarrow> bool" where
  "arrows_open e \<longleftrightarrow> (\<forall>x. occurs True e x \<longrightarrow> occurs False e x)"

lemma stuck_edge:
  assumes "\<forall>eq\<in>set (nd_equations node). arrows_open (eq_rhs eq)"
    and S: "S \<subseteq> {..<length (nd_equations node)}" "\<forall>i\<in>S. node_deps node i \<inter> S \<noteq> {}"
    and v: "i \<in> S" "v \<in> set (eq_lhs (nd_equations node ! i))"
  shows "\<exists>s j. edge node v s \<and> j \<in> S \<and> s \<in> set (eq_lhs (nd_equations node ! j))"
proof -
  let ?eqs = "nd_equations node"
  have i: "i < length ?eqs" using S(1) v(1) by auto
  from S(2) v(1) obtain j where j: "j \<in> node_deps node i" "j \<in> S" by blast
  from j(1) i obtain s where s: "s \<in> cycle_reads (eq_rhs (?eqs ! i))" "def_by ?eqs s = Some j"
    by (auto simp: deps_of_def set_eq_deps cycle_reads_def)
  then have "s \<in> set (eq_lhs (?eqs ! j))" by (auto dest: def_by_Some)
  moreover have "edge node v s"
    using assms(1) i v(2) s(1) by (auto simp: edge_def arrows_open_def occurs_reads [symmetric] intro!: bexI [of _ "?eqs ! i"])
  ultimately show ?thesis using j(2) by blast
qed

lemma finite_edges: "finite {(v, s). edge node v s}"
proof (rule finite_subset)
  show "{(v, s). edge node v s} \<subseteq> (\<Union>eq\<in>set (nd_equations node). set (eq_lhs eq) \<times> immediate_reads (eq_rhs eq))"
    by (auto simp: edge_def immediate_occurs)
qed (auto simp: immediate_reads_def)

theorem acyclic_scheduled:
  assumes "\<forall>eq\<in>set (nd_equations node). arrows_open (eq_rhs eq)" "detect_combinational_cycle node = None"
  shows "\<exists>order. evaluation_order node = Inr order"
proof (rule ccontr)
  assume "\<nexists>order. evaluation_order node = Inr order"
  then obtain msg where "evaluation_order node = Inl msg" by (cases "evaluation_order node") auto
  from evaluation_order_error [OF this] obtain S where S: "S \<subseteq> {..<length (nd_equations node)}" "S \<noteq> {}"
    "\<forall>i\<in>S. node_deps node i \<inter> S \<noteq> {}" by blast
  define names where "names = (\<Union>i\<in>S. set (eq_lhs (nd_equations node ! i)))"
  from assms(2) cycle_search [of node] have "acyclic {(v, s). edge node v s}" by simp
  then have "wf ({(v, s). edge node v s}\<inverse>)" by (intro finite_acyclic_wf_converse finite_edges)
  then have least: "\<exists>v\<in>names. \<forall>s. edge node v s \<longrightarrow> s \<notin> names" if "x \<in> names" for x
    using wfE_min [OF _ that] by (metis (mono_tags, lifting) case_prodI converseI mem_Collect_eq)
  have "names \<noteq> {}"
  proof -
    from S(2) obtain i where "i \<in> S" by blast
    with S(3) obtain j where j: "j \<in> node_deps node i" "j \<in> S" by blast
    moreover have "i < length (nd_equations node)" using S(1) \<open>i \<in> S\<close> by auto
    ultimately obtain s where "def_by (nd_equations node) s = Some j"
      by (auto simp: deps_of_def set_eq_deps)
    then have "s \<in> set (eq_lhs (nd_equations node ! j))" by (auto dest: def_by_Some)
    with j(2) show ?thesis unfolding names_def by blast
  qed
  with least obtain v where v: "v \<in> names" "\<And>s. edge node v s \<Longrightarrow> s \<notin> names" by blast
  with stuck_edge [OF assms(1) S(1,3)] show False by (auto simp: names_def)
qed

end
