(* ===== verification/Typecheck_Sound.thy ===== *)
theory Typecheck_Sound
  imports Typecheck_Node Sim_Eval
begin

text \<open>
  An expression of operators that the type checker accepts evaluates to a value of its type: the simulator stops
  at most at a division by zero, a remainder of reals, an index or a shift out of range, or an overflow.
\<close>

section \<open>Resolved types\<close>

lemma try_resolve_scalar:
  "depth \<le> 64 \<Longrightarrow> (\<And>n. t \<noteq> TNamed n) \<Longrightarrow> (\<And>e l. t \<noteq> TArray e l) \<Longrightarrow> try_resolve tc t depth visited = Some t"
  by (cases t) (auto simp: try_resolve.simps)

lemma resolve_scalar [simp]:
  "resolve tc TBool = TBool" "resolve tc TInt8 = TInt8" "resolve tc TInt16 = TInt16" "resolve tc TInt32 = TInt32"
  "resolve tc TInt64 = TInt64" "resolve tc TUint8 = TUint8" "resolve tc TUint16 = TUint16" "resolve tc TUint32 = TUint32"
  "resolve tc TUint64 = TUint64" "resolve tc TFloat32 = TFloat32" "resolve tc TFloat64 = TFloat64" "resolve tc TChar = TChar"
  by (simp_all add: resolve_def try_resolve.simps)

lemma resolve_numeric: "is_numeric t \<Longrightarrow> resolve tc t = t"
  by (cases t) (simp_all add: resolve_def try_resolve.simps)

lemma try_resolve_mono:
  "try_resolve tc t depth visited = Some r \<Longrightarrow> depth' \<le> depth \<Longrightarrow> set visited' \<subseteq> set visited \<Longrightarrow>
   try_resolve tc t depth' visited' = Some r"
proof (induction tc t depth visited arbitrary: depth' visited' r rule: try_resolve.induct)
  case (1 tc t depth visited)
  have depth: "\<not> 64 < depth" using 1(3) by (auto simp: try_resolve.simps [of tc t depth])
  show ?case
  proof (cases t)
    case (TNamed name)
    show ?thesis
    proof (cases "map_of (tc_aliases tc) name")
      case (Some target)
      with 1(3) TNamed depth have "name \<notin> set visited" "try_resolve tc target (depth + 1) (name # visited) = Some r"
        by (auto simp: try_resolve.simps [of tc "TNamed name"] split: if_splits)
      with 1(2) [OF depth TNamed Some this(1), of r "depth' + 1" "name # visited'"] 1(4,5) TNamed Some depth show ?thesis
        by (auto simp: try_resolve.simps [of tc "TNamed name"])
    qed (use 1(3,4) TNamed depth in \<open>auto simp: try_resolve.simps [of tc "TNamed name"]\<close>)
  next
    case (TArray elem len)
    with 1(3) depth obtain e where e: "try_resolve tc elem (depth + 1) visited = Some e" "r = TArray e len"
      by (auto simp: try_resolve.simps [of tc "TArray elem len"])
    with 1(1) [OF depth TArray e(1), of "depth' + 1" visited'] 1(4,5) depth TArray show ?thesis
      by (auto simp: try_resolve.simps [of tc "TArray elem len"])
  qed (use 1(3,4) depth in \<open>auto simp: try_resolve.simps\<close>)
qed

lemma try_resolve_idem: "try_resolve tc t depth visited = Some r \<Longrightarrow> try_resolve tc r depth visited' = Some r"
proof (induction tc t depth visited arbitrary: r visited' rule: try_resolve.induct)
  case (1 tc t depth visited)
  have depth: "\<not> 64 < depth" using 1(3) by (auto simp: try_resolve.simps [of tc t depth])
  show ?case
  proof (cases t)
    case (TNamed name)
    show ?thesis
    proof (cases "map_of (tc_aliases tc) name")
      case (Some target)
      with 1(3) TNamed depth have "name \<notin> set visited" "try_resolve tc target (depth + 1) (name # visited) = Some r"
        by (auto simp: try_resolve.simps [of tc "TNamed name"] split: if_splits)
      with 1(2) [OF depth TNamed Some this(1), of r visited'] show ?thesis
        using 1(3) TNamed Some depth try_resolve_mono [of tc r "depth + 1" visited' r depth visited']
        by (auto simp: try_resolve.simps [of tc "TNamed name"] split: if_splits)
    qed (use 1(3) TNamed depth in \<open>auto simp: try_resolve.simps [of tc "TNamed name"]\<close>)
  next
    case (TArray elem len)
    with 1(3) depth obtain e where e: "try_resolve tc elem (depth + 1) visited = Some e" "r = TArray e len"
      by (auto simp: try_resolve.simps [of tc "TArray elem len"])
    with 1(1) [OF depth TArray e(1), of visited'] depth show ?thesis
      by (auto simp: try_resolve.simps [of tc "TArray e len"])
  qed (use 1(3) depth in \<open>auto simp: try_resolve.simps\<close>)
qed

lemma resolve_idem [simp]: "resolve tc (resolve tc t) = resolve tc t"
  by (auto simp: resolve_def try_resolve_idem split: option.splits)

lemma resolve_element:
  assumes "resolve tc (TArray t len) = r"
  shows "\<exists>e. r = TArray e len \<and> resolve tc e = resolve tc t"
proof (cases "try_resolve tc t 1 []")
  case (Some e)
  then have "try_resolve tc t 0 [] = Some e" by (rule try_resolve_mono) simp_all
  then have "resolve tc t = e" by (simp add: resolve_def)
  with Some assms show ?thesis
    using resolve_idem [of tc t] by (auto simp: resolve_def [of tc "TArray t len"] try_resolve.simps [of tc "TArray t len"])
next
  case None
  with assms show ?thesis by (auto simp: resolve_def try_resolve.simps [of tc "TArray t len"])
qed

section \<open>Values of a type\<close>

text \<open>
  \<open>shaped\<close> describes the values a type can have when it is evaluated, before it is stored: their kind, the length of
  arrays, the variants of enumerations and the fields of records. It does not bound integers, which an operator may
  take out of the range of their type, and it does not fix the width of reals: storing a value narrows both.
\<close>

inductive shaped :: "type_context \<Rightarrow> ty \<Rightarrow> val \<Rightarrow> bool" for tc where
  shaped_bool: "resolve tc t = TBool \<Longrightarrow> shaped tc t (VBool b)"
| shaped_int: "is_integer (resolve tc t) \<or> resolve tc t = TChar \<Longrightarrow> shaped tc t (VInt i)"
| shaped_f32: "is_float (resolve tc t) \<Longrightarrow> shaped tc t (VFloat32 x)"
| shaped_f64: "is_float (resolve tc t) \<Longrightarrow> shaped tc t (VFloat x)"
| shaped_array: "resolve tc t = TArray elem len \<Longrightarrow> len = of_nat (length vs) \<Longrightarrow> (\<forall>v\<in>set vs. shaped tc elem v) \<Longrightarrow>
    shaped tc t (VArray vs)"
| shaped_enum: "resolve tc t = TNamed n \<Longrightarrow> tc_records tc n = None \<Longrightarrow> tc_variants tc s = Some n \<Longrightarrow> shaped tc t (VEnum s)"
| shaped_record: "resolve tc t = TNamed n \<Longrightarrow> tc_records tc n = Some fs \<Longrightarrow>
    (\<forall>name f. find (\<lambda>f. rf_name f = name) fs = Some f \<longrightarrow> (\<exists>v. bt_get m name = Some v \<and> shaped tc (rf_ty f) v)) \<Longrightarrow>
    shaped tc t (VRecord m)"

inductive_cases shapedE: "shaped tc t v"

lemma shaped_cong:
  assumes "resolve tc a = resolve tc b" "shaped tc a v"
  shows "shaped tc b v"
  using assms(2) by cases (use assms(1) in \<open>auto intro: shaped.intros\<close>)

lemma is_bool_iff: "is_bool t \<longleftrightarrow> t = TBool"
  by (cases t) auto

lemma integer_not_real: "is_integer t \<Longrightarrow> is_float t \<Longrightarrow> False"
  by (cases t) auto

lemma shaped_boolD: "shaped tc t v \<Longrightarrow> resolve tc t = TBool \<Longrightarrow> \<exists>b. v = VBool b"
  by (erule shapedE) auto

lemma shaped_intD: "shaped tc t v \<Longrightarrow> is_integer (resolve tc t) \<Longrightarrow> \<exists>i. v = VInt i"
  by (erule shapedE) (auto dest: integer_not_real)

lemma shaped_realD: "shaped tc t v \<Longrightarrow> is_float (resolve tc t) \<Longrightarrow> (\<exists>x. v = VFloat x) \<or> (\<exists>x. v = VFloat32 x)"
  by (erule shapedE) (auto dest: integer_not_real)

lemma shaped_arrayD: "shaped tc t v \<Longrightarrow> resolve tc t = TArray elem len \<Longrightarrow> \<exists>vs. v = VArray vs \<and> (\<forall>x\<in>set vs. shaped tc elem x)"
  by (erule shapedE) auto

lemma shaped_recordD:
  "shaped tc t v \<Longrightarrow> resolve tc t = TNamed n \<Longrightarrow> tc_records tc n = Some fs \<Longrightarrow> find (\<lambda>f. rf_name f = name) fs = Some f \<Longrightarrow>
   \<exists>m w. v = VRecord m \<and> bt_get m name = Some w \<and> shaped tc (rf_ty f) w"
  by (erule shapedE) auto

lemma shaped_common_real: "shaped tc t v \<Longrightarrow> shaped tc t (common_real p env v e)"
  by (erule shapedE) (auto simp: common_real_def intro: shaped.intros)

section \<open>Computations that do not go wrong\<close>

text \<open>What may stop an accepted expression. The simulator has no remainder of reals.\<close>

definition undefined_at :: "bin_op \<Rightarrow> val \<Rightarrow> val \<Rightarrow> bool" where
  "undefined_at op l r \<longleftrightarrow>
     (case op of
        BDiv \<Rightarrow> r = VInt 0 \<or> (\<exists>x single a. real_pair l r = Some (a, x, single) \<and> flt_eq x (flt_zero F64))
      | BMod \<Rightarrow> r = VInt 0 \<or> real_pair l r \<noteq> None
      | BShl \<Rightarrow> \<exists>k. r = VInt k \<and> (sint k < 0 \<or> 64 \<le> sint k)
      | BShr \<Rightarrow> \<exists>k. r = VInt k \<and> (sint k < 0 \<or> 64 \<le> sint k)
      | _ \<Rightarrow> False)"

definition run_time_failure :: "'a outcome \<Rightarrow> bool" where
  "run_time_failure r \<longleftrightarrow>
     r = Crash ArithOverflow \<or> (\<exists>i n. r = eval_err (IndexOutOfBounds i n)) \<or>
     (\<exists>op v w. r = eval_err (BinaryUnsupported op v w) \<and> undefined_at op v w)"

definition proper :: "('a \<Rightarrow> bool) \<Rightarrow> 'a outcome \<Rightarrow> bool" where
  "proper Q r \<longleftrightarrow> (case r of Ok v \<Rightarrow> Q v | _ \<Rightarrow> run_time_failure r)"

definition safe :: "('a \<Rightarrow> bool) \<Rightarrow> 'a sim \<Rightarrow> bool" where
  "safe Q m \<longleftrightarrow> (\<forall>c. proper Q (fst (m c)))"

lemma proper_simps [simp]:
  "proper Q (Ok x) = Q x" "proper Q (Crash ArithOverflow)" "proper Q (eval_err (IndexOutOfBounds i n))"
  "proper Q (eval_err (BinaryUnsupported op v w)) = undefined_at op v w"
  by (auto simp: proper_def run_time_failure_def eval_err_def)

lemma run_time_failure_cast: "run_time_failure (Err e :: 'a outcome) = run_time_failure (Err e :: 'b outcome)"
  "run_time_failure (Crash k :: 'a outcome) = run_time_failure (Crash k :: 'b outcome)"
  by (auto simp: run_time_failure_def eval_err_def)

lemma safe_bind:
  assumes "safe Q m" "\<And>x. Q x \<Longrightarrow> safe R (f x)"
  shows "safe R (sbind m f)"
  unfolding safe_def
proof
  fix c
  obtain r d where m: "m c = (r, d)" by (cases "m c")
  have q: "proper Q r" using assms(1) m by (auto simp: safe_def dest: spec [of _ c])
  show "proper R (fst (sbind m f c))"
  proof (cases r)
    case (Ok x)
    with q assms(2) have "safe R (f x)" by simp
    with Ok m show ?thesis by (simp add: sbind_app safe_def)
  qed (use m q in \<open>auto simp: sbind_app proper_def run_time_failure_def eval_err_def\<close>)
qed

lemma safe_return [intro]: "Q x \<Longrightarrow> safe Q (sreturn x)"
  by (simp add: safe_def)

lemma safe_lift: "safe Q (slift r) \<longleftrightarrow> proper Q r"
  by (simp add: safe_def)

lemma safe_get: "(\<And>c. Q (f c)) \<Longrightarrow> safe Q (sget f)"
  by (simp add: safe_def)

lemma safe_coverage: "safe (\<lambda>_. True) (update_coverage f)"
  by (simp add: safe_def update_coverage_def)

lemma safe_map:
  assumes "\<And>x. x \<in> set xs \<Longrightarrow> safe (Q x) (f x)"
  shows "safe (\<lambda>ys. list_all2 Q xs ys) (smap f xs)"
  using assms
proof (induction xs)
  case (Cons x xs)
  then show ?case by (auto intro!: safe_bind [where Q = "Q x"] safe_bind [where Q = "list_all2 Q xs"])
qed auto

lemma safe_mono: "safe Q m \<Longrightarrow> (\<And>x. Q x \<Longrightarrow> R x) \<Longrightarrow> safe R m"
  by (auto simp: safe_def proper_def split: outcome.splits)

section \<open>Operators\<close>

text \<open>The expressions in question: no memory, no calls, no iterators and no tuples.\<close>

fun operator_only :: "expr \<Rightarrow> bool" where
  "operator_only (Pre x) = False"
| "operator_only (Arrow i b) = False"
| "operator_only (Call node args) = False"
| "operator_only (Iterate kind node init arrays) = False"
| "operator_only (Tuple items) = False"
| "operator_only _ = True"

definition operators_only :: "expr \<Rightarrow> bool" where
  "operators_only e \<longleftrightarrow> list_all operator_only (visit e)"

lemma operators_only_child: "operators_only e \<Longrightarrow> c \<in> set (children e) \<Longrightarrow> operators_only c"
  by (auto simp: operators_only_def list_all_iff intro: visit_child)

lemma operators_only_self: "operators_only e \<Longrightarrow> operator_only e"
  by (simp add: operators_only_def list_all_iff)

lemma operators_only_no_call: "operators_only e \<Longrightarrow> \<not> has_call e"
  by (auto simp: operators_only_def has_call_def list_all_iff list_ex_iff elim!: is_call.elims dest!: bspec)

lemma numeric_resolved: "is_numeric r \<Longrightarrow> is_integer r \<or> is_float r"
  by (simp add: is_numeric_iff)

lemma unary_proper:
  assumes "check_unary ck op t = (Some u, [])" "shaped (ck_types ck) t v"
  shows "proper (shaped (ck_types ck) u) (eval_unary checks op v)"
proof (cases op)
  case UNot
  with assms obtain b where "v = VBool b" "u = TBool"
    by (cases "resolve (ck_types ck) t") (auto simp: check_unary_def ck_resolve_def dest: shaped_boolD split: if_splits)
  with UNot show ?thesis by (simp add: eval_unary_def shaped_bool)
next
  case UNeg
  with assms(1) have num: "is_integer (resolve (ck_types ck) t) \<or> is_float (resolve (ck_types ck) t)" and u: "u = t"
    by (auto simp: check_unary_def ck_resolve_def is_numeric_iff split: if_splits)
  from num show ?thesis
  proof
    assume int: "is_integer (resolve (ck_types ck) t)"
    with shaped_intD [OF assms(2)] obtain i where "v = VInt i" by blast
    with UNeg u int show ?thesis by (simp add: eval_unary_def arith_def shaped_int)
  next
    assume real: "is_float (resolve (ck_types ck) t)"
    with shaped_realD [OF assms(2)] UNeg u show ?thesis by (auto simp: eval_unary_def shaped_f32 shaped_f64)
  qed
qed

text \<open>The operands of an accepted binary operator.\<close>

lemma binary_operands:
  assumes "check_binary ck op lt rt = (Some u, [])" "shaped (ck_types ck) lt v" "shaped (ck_types ck) rt w"
  shows "op \<in> {BAnd, BOr, BXor, BImplies} \<and> u = TBool \<and> (\<exists>a b. v = VBool a \<and> w = VBool b) \<or>
    op \<in> {BEq, BNeq} \<and> u = TBool \<or>
    op \<in> {BLt, BLe, BGt, BGe} \<and> u = TBool \<and> ((\<exists>a b. v = VInt a \<and> w = VInt b) \<or> real_pair v w \<noteq> None) \<or>
    op \<in> {BAdd, BSub, BMul, BDiv, BMod} \<and> u = lt \<and>
      ((\<exists>a b. v = VInt a \<and> w = VInt b) \<and> is_integer (resolve (ck_types ck) lt) \<or>
       real_pair v w \<noteq> None \<and> is_float (resolve (ck_types ck) lt)) \<or>
    op \<in> {BBitAnd, BBitOr, BBitXor, BShl, BShr} \<and> u = lt \<and> (\<exists>a b. v = VInt a \<and> w = VInt b) \<and>
      is_integer (resolve (ck_types ck) lt)"
proof -
  let ?tc = "ck_types ck"
  have bools: "\<exists>a b. v = VBool a \<and> w = VBool b" if "is_bool (resolve ?tc lt)" "is_bool (resolve ?tc rt)"
    using that assms(2,3) by (cases "resolve ?tc lt"; cases "resolve ?tc rt") (auto dest: shaped_boolD)
  have ints: "\<exists>a b. v = VInt a \<and> w = VInt b" if "is_integer (resolve ?tc lt)" "resolve ?tc lt = resolve ?tc rt"
    using that assms(2,3) shaped_intD [of ?tc lt v] shaped_intD [of ?tc rt w] by auto
  have reals: "real_pair v w \<noteq> None" if "is_float (resolve ?tc lt)" "resolve ?tc lt = resolve ?tc rt"
    using that assms(2,3) shaped_realD [of ?tc lt v] shaped_realD [of ?tc rt w] by auto
  show ?thesis
    using assms(1) bools ints reals
    by (cases op)
      (auto simp: check_binary_def Let_def ck_resolve_def ck_compatible_def types_compatible_def is_numeric_iff split: if_splits)
qed

lemma real_pair_SomeD: "real_pair v w = Some (a, b, single) \<Longrightarrow> (\<exists>x. v = VFloat x \<or> v = VFloat32 x) \<and> (\<exists>x. w = VFloat x \<or> w = VFloat32 x)"
  by (cases v; cases w) auto

lemma binary_proper:
  assumes "check_binary ck op lt rt = (Some u, [])" "shaped (ck_types ck) lt v" "shaped (ck_types ck) rt w"
  shows "proper (shaped (ck_types ck) u) (eval_binary checks op v w)"
proof -
  note operands = binary_operands [OF assms]
  show ?thesis
  proof (cases "real_pair v w")
    case None
    with operands show ?thesis
      by (cases op)
        (auto simp: eval_binary_def Let_def on_bools_def on_ints_def arith_def undefined_at_def shaped_bool shaped_int)
  next
    case (Some r)
    obtain a b single where r: "r = (a, b, single)" by (cases r)
    from real_pair_SomeD [OF Some [unfolded r]] operands Some r show ?thesis
      by (cases op)
        (auto simp: eval_binary_def Let_def real_binary_def undefined_at_def shaped_bool shaped_f32 shaped_f64 real_pair.simps)
  qed
qed

lemma cast_proper:
  assumes "is_numeric (resolve tc t)" "is_numeric to" "shaped tc t v"
  shows "proper (shaped tc to) (cast_value to v)"
proof -
  have res: "resolve tc to = to" using assms(2) by (rule resolve_numeric)
  from assms(1) have "is_integer (resolve tc t) \<or> is_float (resolve tc t)" by (simp add: is_numeric_iff)
  then have "(\<exists>i. v = VInt i) \<or> (\<exists>x. v = VFloat x) \<or> (\<exists>x. v = VFloat32 x)"
    using assms(3) shaped_intD shaped_realD by blast
  then show ?thesis
    using assms(2) by (cases to) (auto simp: cast_value_def Let_def intro!: shaped.intros simp: res)
qed

section \<open>A check that gives up has reported something\<close>

definition reporting :: "('m, 'a) check \<Rightarrow> bool" where
  "reporting m \<longleftrightarrow> (fst m = None \<longrightarrow> snd m \<noteq> []) \<and> list_all is_error (snd m)"

lemma issue_error [simp]: "is_error (issue ck code msg)" "is_error (with_context ctx (diag_error code msg))"
  by (simp_all add: is_error_def issue_def with_context_def diag_error_def)

lemma reporting_simps [simp]: "reporting (cok x)" "reporting (cfail d) = is_error d" "reporting (cnote ds) = list_all is_error ds"
  by (simp_all add: reporting_def cok_def cfail_def cnote_def)

lemma reporting_bind: "reporting m \<Longrightarrow> (\<And>x ds. m = (Some x, ds) \<Longrightarrow> reporting (f x)) \<Longrightarrow> reporting (cbind m f)"
  by (cases m) (auto simp: reporting_def cbind_def split: option.splits prod.splits)

lemma reporting_fold: "(\<And>x s. x \<in> set xs \<Longrightarrow> reporting (f x s)) \<Longrightarrow> reporting (cfold f xs s)"
  by (induction xs arbitrary: s) (auto intro: reporting_bind)

lemma reporting_checks [simp]:
  "reporting (infer_var ck name)" "reporting (check_unary ck op t)" "reporting (check_binary ck bop l r)"
  "reporting (agree ck code a b)" "reporting (check_field ck field t)" "reporting (check_index ck a b)"
  "reporting (same_element ck prev t)" "reporting (array_shape ck kind t)"
  by (auto simp: infer_var_def check_unary_def check_binary_def Let_def agree_def check_field_def check_index_def
      same_element_def array_shape_def split: option.splits unary_op.splits ty.splits intro!: reporting_bind)

lemma reporting_clock [simp]: "list_all is_error (check_clock_var_is_bool ck clock)"
  by (simp add: check_clock_var_is_bool_def split: option.splits)

lemma reporting_missing [simp]: "list_all is_error (missing_fields ck name given fs)"
  by (auto simp: missing_fields_def list_all_iff)

lemma reporting_compared: "reporting r \<Longrightarrow> (\<And>t. is_error (d t)) \<Longrightarrow> list_all is_error (compared ck want d r)"
  by (auto simp: compared_def reporting_def split: prod.splits option.splits)

lemma operators_only_reporting: "operators_only e \<Longrightarrow> reporting (infer_expr_type ck e hint)"
proof (induction e arbitrary: hint rule: expr_children_induct)
  case (step e)
  have IH: "reporting (infer_expr_type ck c h)" if "c \<in> set (children e)" for c h
    using step.IH [OF that] operators_only_child [OF step.prems that] by blast
  show ?case
  proof (cases e)
    case (Struct t fis)
    have "list_all is_error (case find (\<lambda>rf. rf_name rf = fst fi) schema of
          Some rf \<Rightarrow> compared ck (rf_ty rf) (\<lambda>vt. issue ck ''E0127'' [DName name, DName (fst fi), DType (rf_ty rf), DType vt])
            (infer_expr_type ck (snd fi) (Some (rf_ty rf)))
        | None \<Rightarrow> [issue ck ''E0126'' [DName name, DName (fst fi)]])" if "fi \<in> set fis" for fi schema name
      using that IH [of "snd fi"] Struct by (auto split: option.splits intro!: reporting_compared)
    then have "list_all is_error (concat (map (\<lambda>fi. case find (\<lambda>rf. rf_name rf = fst fi) schema of
          Some rf \<Rightarrow> compared ck (rf_ty rf) (\<lambda>vt. issue ck ''E0127'' [DName name, DName (fst fi), DType (rf_ty rf), DType vt])
            (infer_expr_type ck (snd fi) (Some (rf_ty rf)))
        | None \<Rightarrow> [issue ck ''E0126'' [DName name, DName (fst fi)]]) fis))" for schema name
      by (fastforce simp: list_all_iff)
    with Struct show ?thesis by (auto simp: Let_def split: option.splits intro!: reporting_bind)
  qed (use operators_only_self [OF step.prems] in \<open>auto simp: IH split: option.splits intro!: reporting_bind reporting_fold\<close>)
qed

section \<open>Soundness\<close>

text \<open>Names of types are apart: an enumeration or a record is not an alias, and an enumeration is not a record.\<close>

definition names_apart :: "project \<Rightarrow> type_context \<Rightarrow> bool" where
  "names_apart p tc \<longleftrightarrow>
     (\<forall>n. tc_records tc n \<noteq> None \<longrightarrow> map_of (tc_aliases tc) n = None) \<and>
     (\<forall>v e. tc_variants tc v = Some e \<longrightarrow>
        map_of (tc_aliases tc) e = None \<and> tc_records tc e = None \<and> enum_variant_value v p = Some (VEnum v))"

text \<open>
  The environment of the simulator holds a value of the declared type for every variable and for every constant
  that no variable hides, and nothing else.
\<close>

definition variables_typed :: "checker \<Rightarrow> env \<Rightarrow> bool" where
  "variables_typed ck env \<longleftrightarrow>
     (\<forall>x. case (case ck_env ck x of Some t \<Rightarrow> Some t | None \<Rightarrow> tc_constants (ck_types ck) x) of
            Some t \<Rightarrow> \<exists>v. env x = Some v \<and> shaped (ck_types ck) t v
          | None \<Rightarrow> env x = None)"

lemma resolve_own: "map_of (tc_aliases tc) n = None \<Longrightarrow> resolve tc (TNamed n) = TNamed n"
  by (simp add: resolve_def try_resolve.simps)

lemma integer_literal_integer: "is_integer (resolve tc (integer_literal_type tc v hint))"
  by (auto simp: integer_literal_type_def split: option.splits)

lemma literal_shaped: "shaped (ck_types ck) (literal_type ck lit hint) (literal_value lit)"
proof (cases lit)
  case (LFloat x)
  then show ?thesis
    by (auto simp: literal_type_def literal_value_def ck_resolve_def split: option.splits intro!: shaped.intros)
qed (auto simp: literal_type_def literal_value_def integer_literal_integer intro!: shaped.intros)

lemma var_proper:
  assumes "names_apart p (ck_types ck)" "variables_typed ck env" "infer_var ck name = (Some t, [])"
  shows "proper (shaped (ck_types ck) t) (eval_var p name env)"
proof -
  note typed = assms(2) [unfolded variables_typed_def, rule_format, of name]
  show ?thesis
  proof (cases "case ck_env ck name of Some t \<Rightarrow> Some t | None \<Rightarrow> tc_constants (ck_types ck) name")
    case (Some u)
    with assms(3) have "u = t" by (auto simp: infer_var_def split: option.splits)
    with Some typed show ?thesis by (auto simp: eval_var_def)
  next
    case None
    with assms(3) obtain e where e: "tc_variants (ck_types ck) name = Some e" "t = TNamed e"
      by (auto simp: infer_var_def split: option.splits)
    with assms(1) have "enum_variant_value name p = Some (VEnum name)" "shaped (ck_types ck) t (VEnum name)"
      by (auto simp: names_apart_def intro!: shaped_enum resolve_own)
    with None typed show ?thesis by (simp add: eval_var_def)
  qed
qed

lemma array_elements:
  "cfold (\<lambda>x prev. cbind (f x) (same_element ck prev)) xs prev = (Some r, []) \<Longrightarrow>
   (\<forall>q. prev = Some q \<longrightarrow> r = Some q) \<and>
   (\<forall>x\<in>set xs. \<exists>t q. f x = (Some t, []) \<and> r = Some q \<and> resolve (ck_types ck) t = resolve (ck_types ck) q)"
proof (induction xs arbitrary: prev)
  case (Cons x xs)
  from Cons.prems obtain t nxt where t: "f x = (Some t, [])" "same_element ck prev t = (Some nxt, [])"
    and rest: "cfold (\<lambda>x prev. cbind (f x) (same_element ck prev)) xs nxt = (Some r, [])"
    by (auto simp: cbind_clean)
  from t(2) have "\<exists>q. nxt = Some q \<and> resolve (ck_types ck) t = resolve (ck_types ck) q \<and> (\<forall>u. prev = Some u \<longrightarrow> u = q)"
    by (auto simp: same_element_def ck_compatible_def types_compatible_def split: option.splits if_splits)
  with Cons.IH [OF rest] t(1) show ?case by auto
qed simp

lemma record_value_get: "record_value kvs = VRecord m \<Longrightarrow> bt_get m = map_of (rev kvs)"
  unfolding record_value_def using btree_map.get_fold_put [of "[]" kvs] by auto

lemma compared_clean:
  assumes "compared ck want d r = []" "reporting r"
  shows "\<exists>t. r = (Some t, []) \<and> resolve (ck_types ck) want = resolve (ck_types ck) t"
  using assms by (cases r; cases "fst r")
    (auto simp: compared_def reporting_def ck_compatible_def types_compatible_def split: if_splits)

lemma safe_items:
  assumes "\<And>i. i < length items \<Longrightarrow> safe (P i) (f (i, items ! i))"
  shows "safe (\<lambda>vs. length vs = length items \<and> (\<forall>i<length items. P i (vs ! i))) (smap f (enumerate 0 items))"
proof (rule safe_mono [OF safe_map [where Q = "\<lambda>(i, x). P i"]])
  show "safe (case ix of (i, x) \<Rightarrow> P i) (f ix)" if "ix \<in> set (enumerate 0 items)" for ix
  proof -
    obtain i x where ix: "ix = (i, x)" by (cases ix)
    with that have "i < length items" "x = items ! i" by (auto simp: in_set_enumerate_eq)
    with assms ix show ?thesis by simp
  qed
qed (auto simp: list_all2_conv_all_nth nth_enumerate_eq)

lemma agree_clean: "agree ck code a b = (Some t, []) \<longleftrightarrow> t = a \<and> resolve (ck_types ck) a = resolve (ck_types ck) b"
  by (auto simp: agree_def ck_compatible_def types_compatible_def)

lemma array_shaped:
  assumes "\<forall>v\<in>set vs. shaped tc t v" "len = of_nat (length vs)"
  shows "shaped tc (TArray t len) (VArray vs)"
proof -
  obtain e where e: "resolve tc (TArray t len) = TArray e len" "resolve tc e = resolve tc t"
    using resolve_element [of tc t len] by blast
  with assms(1) show ?thesis by (auto intro!: shaped_array [OF e(1) assms(2)] intro: shaped_cong [OF e(2) [symmetric]])
qed

lemma clock_shaped:
  assumes "variables_typed ck env" "check_clock_var_is_bool ck clock = []"
  shows "\<exists>b. env clock = Some (VBool b)"
proof -
  from assms(2) obtain t where t: "ck_env ck clock = Some t" "is_bool (resolve (ck_types ck) t)"
    by (auto simp: check_clock_var_is_bool_def ck_resolve_def split: option.splits if_splits)
  then have "resolve (ck_types ck) t = TBool" by (cases "resolve (ck_types ck) t") auto
  with t assms(1) [unfolded variables_typed_def, rule_format, of clock] show ?thesis by (auto dest: shaped_boolD)
qed

lemma struct_shaped:
  assumes apart: "names_apart p tc" and schema: "tc_records tc name = Some fs"
    and len: "length vs = length fis"
    and vals: "\<And>i rf. i < length fis \<Longrightarrow> find (\<lambda>rf. rf_name rf = fst (fis ! i)) fs = Some rf \<Longrightarrow> shaped tc (rf_ty rf) (vs ! i)"
    and given: "\<And>rf. rf \<in> set fs \<Longrightarrow> rf_name rf \<in> set (map fst fis)"
  shows "shaped tc (TNamed name) (record_value (zip (map fst fis) vs))"
proof -
  obtain m where m: "record_value (zip (map fst fis) vs) = VRecord m" by (simp add: record_value_def)
  have "map_of (tc_aliases tc) name = None" using apart schema by (auto simp: names_apart_def)
  then have name: "resolve tc (TNamed name) = TNamed name" by (rule resolve_own)
  have "\<exists>v. bt_get m fn = Some v \<and> shaped tc (rf_ty f) v" if f: "find (\<lambda>f. rf_name f = fn) fs = Some f" for fn f
  proof -
    from f have "f \<in> set fs" "rf_name f = fn" by (auto dest: find_SomeD)
    with given [of f] have "fn \<in> set (map fst (rev (zip (map fst fis) vs)))" using len by (simp add: rev_map [symmetric])
    then obtain v where v: "map_of (rev (zip (map fst fis) vs)) fn = Some v"
      by (metis map_of_eq_None_iff not_None_eq set_map)
    then have "(fn, v) \<in> set (zip (map fst fis) vs)" by (auto dest: map_of_SomeD)
    then obtain i where "i < length fis" "fn = fst (fis ! i)" "v = vs ! i" using len by (auto simp: set_zip)
    with vals f v record_value_get [OF m] show ?thesis by auto
  qed
  then show ?thesis unfolding m by (intro shaped_record [OF name schema]) auto
qed

text \<open>Both evaluators, on an expression and on a decision.\<close>

definition evaluates :: "config \<Rightarrow> evaluator \<Rightarrow> checker \<Rightarrow> env \<Rightarrow> sites \<Rightarrow> expr \<Rightarrow> bool" where
  "evaluates cf ev ck env sc e \<longleftrightarrow>
     (\<forall>hint t a. infer_expr_type ck e hint = (Some t, []) \<longrightarrow> safe (shaped (ck_types ck) t) (eval cf ev e a env sc))"

definition decides :: "config \<Rightarrow> evaluator \<Rightarrow> checker \<Rightarrow> env \<Rightarrow> sites \<Rightarrow> expr \<Rightarrow> bool" where
  "decides cf ev ck env sc e \<longleftrightarrow>
     (\<forall>hint t a obs. infer_expr_type ck e hint = (Some t, []) \<longrightarrow> resolve (ck_types ck) t = TBool \<longrightarrow>
        safe (\<lambda>_. True) (eval_decision cf ev e a env sc obs))"

lemma evaluatesD: "evaluates cf ev ck env sc e \<Longrightarrow> infer_expr_type ck e hint = (Some t, []) \<Longrightarrow>
    safe (shaped (ck_types ck) t) (eval cf ev e a env sc)"
  unfolding evaluates_def by blast

lemma decidesD: "decides cf ev ck env sc e \<Longrightarrow> infer_expr_type ck e hint = (Some t, []) \<Longrightarrow> resolve (ck_types ck) t = TBool \<Longrightarrow>
    safe (\<lambda>_. True) (eval_decision cf ev e a env sc obs)"
  unfolding decides_def by blast

text \<open>A decision without a connective at its root is evaluated as an expression.\<close>

lemma leaf_decides:
  assumes "safe (shaped tc t) m" "resolve tc t = TBool"
  shows "safe (\<lambda>_. True) (sbind m (\<lambda>v. sbind (slift (decision_result v)) (\<lambda>b. sreturn (b, g b))))"
proof (rule safe_bind [OF assms(1)])
  fix v assume "shaped tc t v"
  then obtain b where "v = VBool b" using assms(2) by (auto dest: shaped_boolD)
  then show "safe (\<lambda>_. True) (sbind (slift (decision_result v)) (\<lambda>b. sreturn (b, g b)))"
    by (auto simp: decision_result_def safe_lift intro!: safe_bind [where Q = "\<lambda>_. True"])
qed

lemma binary_decides:
  assumes "evaluates cf ev ck env sc (Binary op l r)" "decides cf ev ck env sc l" "decides cf ev ck env sc r"
  shows "decides cf ev ck env sc (Binary op l r)"
  unfolding decides_def
proof (intro allI impI)
  fix hint t a obs
  assume t: "infer_expr_type ck (Binary op l r) hint = (Some t, [])" "resolve (ck_types ck) t = TBool"
  from t(1) obtain lt rt where sub: "infer_expr_type ck l (sub_hint op hint) = (Some lt, [])"
    "infer_expr_type ck r (rhs_hint lt (sub_hint op hint)) = (Some rt, [])" "check_binary ck op lt rt = (Some t, [])"
    by (auto simp: cbind_clean)
  show "safe (\<lambda>_. True) (eval_decision cf ev (Binary op l r) a env sc obs)"
  proof (cases "connective op")
    case None
    then show ?thesis
      unfolding eval_decision.simps [of _ _ "Binary op l r"] Let_def expr.case option.case
      using leaf_decides [OF evaluatesD [OF assms(1) t(1)] t(2)] by (simp del: eval.simps)
  next
    case (Some f)
    then have "op \<in> {BAnd, BOr, BXor, BImplies}" by (cases op) (auto simp: connective_def)
    with sub(3) have "is_bool (resolve (ck_types ck) lt)" "is_bool (resolve (ck_types ck) rt)"
      by (auto simp: check_binary_def Let_def ck_resolve_def split: if_splits)
    then have "resolve (ck_types ck) lt = TBool" "resolve (ck_types ck) rt = TBool"
      by (simp_all add: is_bool_iff)
    with Some show ?thesis
      by (auto simp: eval_decision.simps [of _ _ "Binary op l r"] Let_def
          intro!: safe_bind [OF decidesD [OF assms(2) sub(1)]] safe_bind [OF decidesD [OF assms(3) sub(2)]])
  qed
qed

lemma not_decides:
  assumes "evaluates cf ev ck env sc (Unary op x)" "decides cf ev ck env sc x"
  shows "decides cf ev ck env sc (Unary op x)"
  unfolding decides_def
proof (intro allI impI)
  fix hint t a obs
  assume t: "infer_expr_type ck (Unary op x) hint = (Some t, [])" "resolve (ck_types ck) t = TBool"
  show "safe (\<lambda>_. True) (eval_decision cf ev (Unary op x) a env sc obs)"
  proof (cases op)
    case UNot
    with t(1) obtain u where u: "infer_expr_type ck x hint = (Some u, [])" "check_unary ck UNot u = (Some t, [])"
      by (auto simp: cbind_clean)
    then have "resolve (ck_types ck) u = TBool" by (auto simp: check_unary_def ck_resolve_def is_bool_iff split: if_splits)
    with UNot show ?thesis
      by (auto simp: eval_decision.simps [of _ _ "Unary UNot x"] intro!: safe_bind [OF decidesD [OF assms(2) u(1)]])
  next
    case UNeg
    then show ?thesis
      unfolding eval_decision.simps [of _ _ "Unary op x"] Let_def expr.case
      using leaf_decides [OF evaluatesD [OF assms(1) t(1)] t(2)] by (simp del: eval.simps)
  qed
qed

lemma expression_decides:
  assumes "evaluates cf ev ck env sc e" "\<And>c. c \<in> set (children e) \<Longrightarrow> decides cf ev ck env sc c"
  shows "decides cf ev ck env sc e"
proof (cases "\<exists>op l r. e = Binary op l r")
  case True
  with assms show ?thesis by (auto intro: binary_decides)
next
  case False
  show ?thesis
  proof (cases "\<exists>op x. e = Unary op x")
    case True
    with assms show ?thesis by (auto intro: not_decides)
  next
    case nested: False
    show ?thesis
      unfolding decides_def
    proof (intro allI impI)
      fix hint t a obs
      assume t: "infer_expr_type ck e hint = (Some t, [])" "resolve (ck_types ck) t = TBool"
      note leaf = leaf_decides [OF evaluatesD [OF assms(1) t(1), of a] t(2), of "\<lambda>b. obs(a \<mapsto> b)"]
      with False nested show "safe (\<lambda>_. True) (eval_decision cf ev e a env sc obs)"
        by (cases e) (auto simp: eval_decision.simps Let_def simp del: eval.simps)
    qed
  qed
qed

subsection \<open>One lemma for each construct\<close>

lemma unary_evaluates:
  assumes "evaluates cf ev ck env sc x"
  shows "evaluates cf ev ck env sc (Unary op x)"
  unfolding evaluates_def
proof (intro allI impI)
  fix hint t a assume t: "infer_expr_type ck (Unary op x) hint = (Some t, [])"
  show "safe (shaped (ck_types ck) t) (eval cf ev (Unary op x) a env sc)"
  proof (cases "negated_literal op x")
    case None
    with t obtain u where u: "infer_expr_type ck x hint = (Some u, [])" "check_unary ck op u = (Some t, [])"
      by (auto simp: cbind_clean)
    show ?thesis
      unfolding eval.simps
      by (rule safe_bind [OF evaluatesD [OF assms u(1)]]) (simp add: safe_lift unary_proper [OF u(2)])
  next
    case (Some v)
    then have x: "op = UNeg" "x = Const (LInt v)" by (auto elim: negated_literal.elims)
    with t Some have "is_integer (resolve (ck_types ck) t)" by (auto simp: cok_def integer_literal_integer)
    with x show ?thesis
      by (auto simp: safe_lift literal_value_def eval_unary_def arith_def intro!: safe_bind [where Q = "\<lambda>w. w = VInt v"] shaped_int)
  qed
qed

lemma binary_evaluates:
  assumes "evaluates cf ev ck env sc l" "evaluates cf ev ck env sc r"
  shows "evaluates cf ev ck env sc (Binary op l r)"
  unfolding evaluates_def
proof (intro allI impI)
  fix hint t a assume "infer_expr_type ck (Binary op l r) hint = (Some t, [])"
  then obtain lt rt where t: "infer_expr_type ck l (sub_hint op hint) = (Some lt, [])"
    "infer_expr_type ck r (rhs_hint lt (sub_hint op hint)) = (Some rt, [])" "check_binary ck op lt rt = (Some t, [])"
    by (auto simp: cbind_clean)
  show "safe (shaped (ck_types ck) t) (eval cf ev (Binary op l r) a env sc)"
    using binary_proper [OF t(3)]
    by (auto simp: safe_lift intro!: safe_bind [OF evaluatesD [OF assms(1) t(1)]] safe_bind [OF evaluatesD [OF assms(2) t(2)]])
qed

lemma branches_evaluate:
  assumes "evaluates cf ev ck env sc t" "evaluates cf ev ck env sc e"
    "infer_expr_type ck t h = (Some tt, [])" "infer_expr_type ck e g = (Some et, [])" "agree ck code tt et = (Some u, [])"
  shows "safe (shaped (ck_types ck) u) (eval cf ev t a env sc)" "safe (shaped (ck_types ck) u) (eval cf ev e b env sc)"
proof -
  from assms(5) have u: "u = tt" "resolve (ck_types ck) tt = resolve (ck_types ck) et" by (simp_all add: agree_clean)
  show "safe (shaped (ck_types ck) u) (eval cf ev t a env sc)" using evaluatesD [OF assms(1,3)] u by simp
  show "safe (shaped (ck_types ck) u) (eval cf ev e b env sc)"
    using evaluatesD [OF assms(2,4)] u(1) shaped_cong [OF u(2) [symmetric]] by (blast intro: safe_mono)
qed

lemma if_evaluates:
  assumes "evaluates cf ev ck env sc c" "decides cf ev ck env sc c" "evaluates cf ev ck env sc t" "evaluates cf ev ck env sc e"
    "\<not> has_call t" "\<not> has_call e"
  shows "evaluates cf ev ck env sc (IfThenElse c t e)"
  unfolding evaluates_def
proof (intro allI impI)
  fix hint u a assume "infer_expr_type ck (IfThenElse c t e) hint = (Some u, [])"
  then obtain ct tt et where c: "infer_expr_type ck c (Some TBool) = (Some ct, [])" "is_bool (ck_resolve ck ct)"
    and te: "infer_expr_type ck t hint = (Some tt, [])" "infer_expr_type ck e (second_hint hint tt) = (Some et, [])"
      "agree ck ''E0091'' tt et = (Some u, [])"
    by (auto simp: cbind_clean split: if_splits)
  have bool: "resolve (ck_types ck) ct = TBool" using c(2) by (simp add: is_bool_iff ck_resolve_def)
  have plain: "safe (\<lambda>_. True) (sbind (eval cf ev c (child a 0) env sc) (\<lambda>v. slift (cond_result v)))"
    by (rule safe_bind [OF evaluatesD [OF assms(1) c(1)]]) (auto simp: safe_lift cond_result_def dest!: shaped_boolD [OF _ bool])
  have covered: "safe (\<lambda>_. True) (sbind (eval_decision cf ev c (child a 0) env sc Map.empty)
      (\<lambda>(outcome, obs). note_decision (child a 0) outcome obs))"
    by (rule safe_bind [OF decidesD [OF assms(2) c(1) bool]])
      (auto simp: note_decision_def intro!: safe_bind [OF safe_coverage])
  show "safe (shaped (ck_types ck) u) (eval cf ev (IfThenElse c t e) a env sc)"
    unfolding eval.simps Let_def
  proof (rule safe_bind [where Q = "\<lambda>_. True"])
    fix covers assume True
    let ?test = "if covers then sbind (eval_decision cf ev c (child a 0) env sc Map.empty)
        (\<lambda>(outcome, obs). note_decision (child a 0) outcome obs)
      else sbind (eval cf ev c (child a 0) env sc) (\<lambda>v. slift (cond_result v))"
    have test: "safe (\<lambda>_. True) ?test" using plain covered by simp
    show "safe (shaped (ck_types ck) u) (sbind ?test (\<lambda>cval.
        sbind (if cval then eval cf ev t (child a 1) env sc else eval cf ev e (child a 2) env sc) (\<lambda>v.
        sbind (if cval then (if has_call e then discarded (eval cf ev e (child a 2) env sc) else sreturn ())
               else (if has_call t then discarded (eval cf ev t (child a 1) env sc) else sreturn ())) (\<lambda>_.
        sreturn (common_real (cf_project cf) env v (if cval then e else t))))))"
    proof (rule safe_bind [OF test])
      fix cval
      have "safe (shaped (ck_types ck) u) (if cval then eval cf ev t (child a 1) env sc else eval cf ev e (child a 2) env sc)"
        using branches_evaluate [OF assms(3,4) te] by simp
      then show "safe (shaped (ck_types ck) u)
          (sbind (if cval then eval cf ev t (child a 1) env sc else eval cf ev e (child a 2) env sc) (\<lambda>v.
           sbind (if cval then (if has_call e then discarded (eval cf ev e (child a 2) env sc) else sreturn ())
                  else (if has_call t then discarded (eval cf ev t (child a 1) env sc) else sreturn ())) (\<lambda>_.
           sreturn (common_real (cf_project cf) env v (if cval then e else t)))))"
        by (rule safe_bind) (use assms(5,6) in \<open>auto intro!: safe_bind [where Q = "\<lambda>_. True"] shaped_common_real\<close>)
    qed
  qed (simp add: safe_def)
qed

lemma merge_evaluates:
  assumes "variables_typed ck env" "evaluates cf ev ck env sc t" "evaluates cf ev ck env sc f"
  shows "evaluates cf ev ck env sc (Merge clock t f)"
  unfolding evaluates_def
proof (intro allI impI)
  fix hint u a assume "infer_expr_type ck (Merge clock t f) hint = (Some u, [])"
  then obtain tt ft where c: "check_clock_var_is_bool ck clock = []"
    and tf: "infer_expr_type ck t hint = (Some tt, [])" "infer_expr_type ck f (second_hint hint tt) = (Some ft, [])"
      "agree ck ''E0131'' tt ft = (Some u, [])"
    by (auto simp: cbind_clean cnote_def)
  obtain b where "env clock = Some (VBool b)" using clock_shaped [OF assms(1) c] by blast
  then show "safe (shaped (ck_types ck) u) (eval cf ev (Merge clock t f) a env sc)"
    by (cases b) (auto intro!: shaped_common_real safe_bind [OF branches_evaluate(1) [OF assms(2,3) tf]]
        safe_bind [OF branches_evaluate(2) [OF assms(2,3) tf]])
qed

lemma when_evaluates:
  assumes "evaluates cf ev ck env sc x"
  shows "evaluates cf ev ck env sc (When x clock on)"
  unfolding evaluates_def
proof (intro allI impI)
  fix hint t a assume "infer_expr_type ck (When x clock on) hint = (Some t, [])"
  then have "infer_expr_type ck x hint = (Some t, [])" by (auto simp: cbind_clean)
  then show "safe (shaped (ck_types ck) t) (eval cf ev (When x clock on) a env sc)"
    unfolding eval.simps by (rule evaluatesD [OF assms])
qed

lemma cast_evaluates:
  assumes "evaluates cf ev ck env sc x"
  shows "evaluates cf ev ck env sc (Cast to x)"
  unfolding evaluates_def
proof (intro allI impI)
  fix hint t a assume "infer_expr_type ck (Cast to x) hint = (Some t, [])"
  then obtain u where u: "infer_expr_type ck x None = (Some u, [])" "is_numeric (ck_resolve ck u)" "is_numeric to" "t = to"
    by (auto simp: cbind_clean cfail_def cok_def split: if_splits)
  show "safe (shaped (ck_types ck) t) (eval cf ev (Cast to x) a env sc)"
    unfolding eval.simps using u(2,3)
    by (intro safe_bind [OF evaluatesD [OF assms u(1)]]) (simp add: safe_lift ck_resolve_def cast_proper u(4))
qed

lemma field_evaluates:
  assumes "evaluates cf ev ck env sc x"
  shows "evaluates cf ev ck env sc (Field x field)"
  unfolding evaluates_def
proof (intro allI impI)
  fix hint t a assume "infer_expr_type ck (Field x field) hint = (Some t, [])"
  then obtain u where u: "infer_expr_type ck x None = (Some u, [])" "check_field ck field u = (Some t, [])"
    by (auto simp: cbind_clean)
  from u(2) obtain n fs f where f: "resolve (ck_types ck) u = TNamed n" "tc_records (ck_types ck) n = Some fs"
    "find (\<lambda>f. rf_name f = field) fs = Some f" "t = rf_ty f"
    by (auto simp: check_field_def ck_resolve_def cfail_def cok_def split: ty.splits option.splits)
  show "safe (shaped (ck_types ck) t) (eval cf ev (Field x field) a env sc)"
    unfolding eval.simps
    by (intro safe_bind [OF evaluatesD [OF assms u(1)]])
      (auto simp: safe_lift select_field_def f(4) dest!: shaped_recordD [OF _ f(1,2,3)])
qed

lemma index_evaluates:
  assumes "evaluates cf ev ck env sc x" "evaluates cf ev ck env sc i"
  shows "evaluates cf ev ck env sc (Index x i)"
  unfolding evaluates_def
proof (intro allI impI)
  fix hint t a assume "infer_expr_type ck (Index x i) hint = (Some t, [])"
  then obtain bt it where u: "infer_expr_type ck x None = (Some bt, [])" "infer_expr_type ck i (Some TInt32) = (Some it, [])"
      "check_index ck bt it = (Some t, [])"
    by (auto simp: cbind_clean)
  from u(3) obtain len where f: "resolve (ck_types ck) bt = TArray t len" "is_integer (resolve (ck_types ck) it)"
    by (auto simp: check_index_def ck_resolve_def cbind_clean cnote_def cfail_def cok_def split: ty.splits if_splits)
  show "safe (shaped (ck_types ck) t) (eval cf ev (Index x i) a env sc)"
    unfolding eval.simps
    by (intro safe_bind [OF evaluatesD [OF assms(1) u(1)]] safe_bind [OF evaluatesD [OF assms(2) u(2)]])
      (auto simp: safe_lift select_index_def dest!: shaped_arrayD [OF _ f(1)] shaped_intD [OF _ f(2)])
qed

lemma array_evaluates:
  assumes "\<And>x. x \<in> set items \<Longrightarrow> evaluates cf ev ck env sc x"
  shows "evaluates cf ev ck env sc (Array items)"
  unfolding evaluates_def
proof (intro allI impI)
  fix hint t a assume t: "infer_expr_type ck (Array items) hint = (Some t, [])"
  show "safe (shaped (ck_types ck) t) (eval cf ev (Array items) a env sc)"
  proof (cases "items = []")
    case True
    with t obtain e where "t = TArray e 0" by (auto simp: cfail_def cok_def split: option.splits)
    with True array_shaped [of "[]"] show ?thesis by (auto intro!: safe_bind [where Q = "\<lambda>vs. vs = []"])
  next
    case False
    with t obtain elem where elem: "t = TArray elem (of_nat (length items))"
      "cfold (\<lambda>x prev. cbind (infer_expr_type ck x (element_hint ck hint)) (same_element ck prev)) items None = (Some (Some elem), [])"
      by (auto simp: cbind_clean cfail_def cok_def split: option.splits)
    have each: "safe (shaped (ck_types ck) elem) (eval cf ev x b env sc)" if x: "x \<in> set items" for x b
    proof -
      from array_elements [OF elem(2)] x obtain u where
        u: "infer_expr_type ck x (element_hint ck hint) = (Some u, [])" "resolve (ck_types ck) u = resolve (ck_types ck) elem"
        by auto
      from evaluatesD [OF assms [OF x] u(1)] shaped_cong [OF u(2)] show ?thesis by (blast intro: safe_mono)
    qed
    show ?thesis
      unfolding eval.simps elem(1)
      by (rule safe_bind [OF safe_items [where P = "\<lambda>_. shaped (ck_types ck) elem"]])
        (auto simp: in_set_conv_nth intro!: each array_shaped safe_return)
  qed
qed

lemma struct_evaluates:
  assumes apart: "names_apart p (ck_types ck)" and kids: "\<And>x. x \<in> set (map snd fis) \<Longrightarrow> evaluates cf ev ck env sc x"
    and quiet: "\<And>x h. x \<in> set (map snd fis) \<Longrightarrow> reporting (infer_expr_type ck x h)"
  shows "evaluates cf ev ck env sc (Struct ty fis)"
  unfolding evaluates_def
proof (intro allI impI)
  fix hint t a assume "infer_expr_type ck (Struct ty fis) hint = (Some t, [])"
  then obtain fs where schema: "tc_records (ck_types ck) (struct_name ck ty) = Some fs" and t: "t = TNamed (struct_name ck ty)"
    and fields: "\<And>fi. fi \<in> set fis \<Longrightarrow> \<exists>rf d. find (\<lambda>rf. rf_name rf = fst fi) fs = Some rf \<and>
        compared ck (rf_ty rf) d (infer_expr_type ck (snd fi) (Some (rf_ty rf))) = []"
    and all: "missing_fields ck (struct_name ck ty) (map fst fis) fs = []"
    by (fastforce simp: Let_def cbind_clean cnote_def cfail_def cok_def split: option.splits)
  have given: "rf_name rf \<in> set (map fst fis)" if "rf \<in> set fs" for rf
    using all that by (auto simp: missing_fields_def split: if_splits)
  let ?P = "\<lambda>i v. \<forall>rf. find (\<lambda>rf. rf_name rf = fst (fis ! i)) fs = Some rf \<longrightarrow> shaped (ck_types ck) (rf_ty rf) v"
  have item: "safe (?P i) (eval cf ev (map snd fis ! i) b env sc)" if i: "i < length fis" for i b
  proof -
    obtain rf d where rf: "find (\<lambda>rf. rf_name rf = fst (fis ! i)) fs = Some rf"
      and d: "compared ck (rf_ty rf) d (infer_expr_type ck (snd (fis ! i)) (Some (rf_ty rf))) = []"
      using fields [OF nth_mem [OF i]] by blast
    have mem: "snd (fis ! i) \<in> set (map snd fis)" using i by simp
    obtain u where u: "infer_expr_type ck (snd (fis ! i)) (Some (rf_ty rf)) = (Some u, [])"
      "resolve (ck_types ck) (rf_ty rf) = resolve (ck_types ck) u"
      using compared_clean [OF d quiet [OF mem]] by blast
    from evaluatesD [OF kids [OF mem] u(1)] have "safe (shaped (ck_types ck) u) (eval cf ev (map snd fis ! i) b env sc)"
      using i by simp
    then show ?thesis by (rule safe_mono) (use shaped_cong [OF u(2) [symmetric]] rf in auto)
  qed
  show "safe (shaped (ck_types ck) t) (eval cf ev (Struct ty fis) a env sc)"
    unfolding eval.simps t
  proof (rule safe_bind [OF safe_items [where P = ?P]])
    fix vs assume "length vs = length (map snd fis) \<and> (\<forall>i<length (map snd fis). ?P i (vs ! i))"
    then show "safe (shaped (ck_types ck) (TNamed (struct_name ck ty))) (sreturn (record_value (zip (map fst fis) vs)))"
      by (intro safe_return struct_shaped [OF apart schema]) (auto simp: given simp del: set_map)
  qed (use item in simp)
qed

text \<open>An accepted expression of operators evaluates, or stops at one of the failures above.\<close>

lemma operators_evaluate:
  assumes "names_apart (cf_project cf) (ck_types ck)" "variables_typed ck env"
  shows "operators_only e \<Longrightarrow> evaluates cf ev ck env sc e \<and> decides cf ev ck env sc e"
proof (induction e rule: expr_children_induct)
  case (step e)
  have IH: "evaluates cf ev ck env sc c" "decides cf ev ck env sc c" if "c \<in> set (children e)" for c
    using step.IH [OF that] operators_only_child [OF step.prems that] by auto
  have calls: "\<not> has_call c" if "c \<in> set (children e)" for c
    using operators_only_child [OF step.prems that] by (rule operators_only_no_call)
  have quiet: "reporting (infer_expr_type ck c h)" if "c \<in> set (children e)" for c h
    using operators_only_child [OF step.prems that] by (rule operators_only_reporting)
  have "evaluates cf ev ck env sc e"
  proof (cases e)
    case (Const lit)
    then show ?thesis by (auto simp: evaluates_def cok_def intro: literal_shaped)
  next
    case (Var name)
    with var_proper [OF assms] show ?thesis by (auto simp: evaluates_def safe_lift)
  next
    case (When x clock on)
    with IH(1) [of x] show ?thesis by (auto intro: when_evaluates)
  next
    case (Struct t fis)
    with IH quiet show ?thesis by (auto intro!: struct_evaluates [OF assms(1)] simp del: infer_expr_type.simps)
  qed (use IH calls operators_only_self [OF step.prems] in \<open>auto intro!: unary_evaluates binary_evaluates if_evaluates
      merge_evaluates [OF assms(2)] cast_evaluates field_evaluates index_evaluates array_evaluates\<close>)
  with expression_decides [OF this IH(2)] show ?case by blast
qed

section \<open>The names of a checked project\<close>

definition declares :: "type_def set \<Rightarrow> type_context \<Rightarrow> bool" where
  "declares ts tc \<longleftrightarrow>
     (\<forall>n target. map_of (tc_aliases tc) n = Some target \<longrightarrow> (\<exists>t\<in>ts. td_body t = AliasBody n target)) \<and>
     (\<forall>n fs. tc_records tc n = Some fs \<longrightarrow> (\<exists>t\<in>ts. td_body t = RecordBody n fs)) \<and>
     (\<forall>v n. tc_variants tc v = Some n \<longrightarrow> (\<exists>t\<in>ts. \<exists>e. td_body t = EnumBody e \<and> en_name e = n \<and> v \<in> set (en_variants e)))"

lemma enum_entries: "fold (\<lambda>v m. m(v \<mapsto> n)) vs m v = (if v \<in> set vs then Some n else m v)"
  by (induction vs arbitrary: m) auto

lemma declares_type: "declares ts tc \<Longrightarrow> t \<in> ts \<Longrightarrow> declares ts (add_type t tc)"
  unfolding declares_def add_type_def by (auto simp: enum_entries map_of_hm_insert split: type_body.splits if_splits)

lemma declares_const: "declares ts tc \<Longrightarrow> declares ts (add_const c tc)"
  by (simp add: declares_def add_const_def)

lemma declares_types: "declares ts tc \<Longrightarrow> set xs \<subseteq> ts \<Longrightarrow> declares ts (fold add_type xs tc)"
  by (induction xs arbitrary: tc) (auto intro: declares_type)

lemma declares_consts: "declares ts tc \<Longrightarrow> declares ts (fold add_const cs tc)"
  by (induction cs arbitrary: tc) (auto intro: declares_const)

lemma from_project_declares: "declares (set (all_types p)) (from_project p)"
proof -
  have "declares ts (fold (\<lambda>pkg tc. fold add_const (pk_constants pkg) (fold add_type (pk_types pkg) tc)) pkgs tc)"
    if "declares ts tc" "set (concat (map pk_types pkgs)) \<subseteq> ts" for ts pkgs tc
    using that by (induction pkgs arbitrary: tc) (auto intro: declares_consts declares_types)
  from this [of "set (all_types p)" empty_context "pj_packages p"] show ?thesis
    unfolding from_project_def by (auto simp: declares_def empty_context_def all_types_def)
qed

text \<open>Diagnostics are appended, so those of one item are among those of the whole.\<close>

lemma fold_appends:
  assumes "\<And>x s. \<exists>es. snd (f x s) = snd s @ es"
  shows "\<exists>es. snd (fold f xs s) = snd s @ es"
proof (induction xs arbitrary: s)
  case (Cons x xs)
  obtain es where "snd (f x s) = snd s @ es" using assms by blast
  with Cons.IH [of "f x s"] show ?case by auto
qed simp

lemma fold_item:
  assumes "\<And>x s. \<exists>es. snd (f x s) = snd s @ es" "x \<in> set xs"
  shows "\<exists>s. set (snd (f x s)) \<subseteq> set (snd (fold f xs s0))"
  using assms(2)
proof (induction xs arbitrary: s0)
  case (Cons y ys)
  show ?case
  proof (cases "x = y")
    case True
    with fold_appends [of f ys "f y s0", OF assms(1)] show ?thesis by (intro exI [of _ s0]) auto
  next
    case False
    with Cons show ?thesis by simp
  qed
qed simp

lemma check_variant_appends: "\<exists>es. snd (check_variant pkg e v st) = snd st @ es \<and> list_all is_error es"
  by (cases st) (auto simp: check_variant_def Let_def)

lemma check_variants_append: "\<exists>es. snd (fold (check_variant pkg e) vs st) = snd st @ es \<and> list_all is_error es"
proof (induction vs arbitrary: st)
  case (Cons v vs)
  obtain es where "snd (check_variant pkg e v st) = snd st @ es" "list_all is_error es" using check_variant_appends by blast
  with Cons.IH [of "check_variant pkg e v st"] show ?case by fastforce
qed simp

lemma check_type_name_reports:
  assumes "check_type_name pkg t (names, vs, ds) = (names', vs', ds')"
  shows "\<exists>es. ds' = ds @ es \<and> list_all is_error es \<and> (es = [] \<longrightarrow> td_name t \<notin> set names) \<and> set names' = insert (td_name t) (set names)"
proof -
  define d where "d = ds @ (if td_name t \<in> set names
      then [with_context (''package '' @ pk_name pkg) (diag_error ''E0006'' [DName (td_name t)])] else [])"
  have "\<exists>fs. ds' = d @ fs \<and> list_all is_error fs \<and> set names' = insert (td_name t) (set names)"
  proof (cases "td_body t")
    case (EnumBody e)
    obtain fs where "snd (fold (check_variant pkg e) (en_variants e) (vs, d)) = d @ fs" "list_all is_error fs"
      using check_variants_append [of pkg e "en_variants e" "(vs, d)"] by auto
    with EnumBody assms show ?thesis by (auto simp: check_type_name_def Let_def d_def)
  qed (use assms in \<open>auto simp: check_type_name_def Let_def d_def\<close>)
  then show ?thesis by (auto simp: d_def)
qed

text \<open>What the check of type names has seen and reported after some of the types.\<close>

definition names_seen :: "type_def list \<Rightarrow> string list \<times> string list \<times> tdiag list \<Rightarrow> bool" where
  "names_seen ts st \<longleftrightarrow>
     (case st of (names, vs, ds) \<Rightarrow>
        set names = td_name ` set ts \<and> list_all is_error ds \<and> (ds = [] \<longrightarrow> distinct (map td_name ts)))"

lemma names_seen_step: "names_seen ts st \<Longrightarrow> names_seen (ts @ [t]) (check_type_name pkg t st)"
  by (cases st; cases "check_type_name pkg t st")
    (auto simp: names_seen_def dest!: check_type_name_reports)

lemma names_seen_package: "names_seen ts st \<Longrightarrow> names_seen (ts @ us) (fold (check_type_name pkg) us st)"
proof (induction us arbitrary: ts st)
  case (Cons u us)
  from Cons.IH [OF names_seen_step [OF Cons.prems, of u pkg]] show ?case by simp
qed simp

lemma names_seen_packages:
  "names_seen ts st \<Longrightarrow> names_seen (ts @ concat (map pk_types pkgs)) (fold (\<lambda>pkg. fold (check_type_name pkg) (pk_types pkg)) pkgs st)"
proof (induction pkgs arbitrary: ts st)
  case (Cons pkg pkgs)
  from Cons.IH [OF names_seen_package [OF Cons.prems, of "pk_types pkg" pkg]] show ?case by simp
qed simp

lemma errors_append [simp]: "has_errors (xs @ ys) \<longleftrightarrow> has_errors xs \<or> has_errors ys"
  by (simp add: has_errors_def)

lemma no_errors_empty: "list_all is_error ds \<Longrightarrow> \<not> has_errors ds \<longleftrightarrow> ds = []"
  by (cases ds) (auto simp: has_errors_def)

lemma type_names_distinct:
  assumes "\<not> has_errors (check_type_names p)"
  shows "distinct (map td_name (all_types p))"
proof -
  have "names_seen ([] @ all_types p) (fold (\<lambda>pkg. fold (check_type_name pkg) (pk_types pkg)) (pj_packages p) ([], [], []))"
    unfolding all_types_def by (rule names_seen_packages) (simp add: names_seen_def)
  with assms show ?thesis by (auto simp: names_seen_def check_type_names_def no_errors_empty split: prod.splits)
qed

lemma checked_names_apart:
  assumes "\<not> has_errors (check_type_names p)"
  shows "names_apart p (from_project p)"
proof -
  have same: "t = u" if "t \<in> set (all_types p)" "u \<in> set (all_types p)" "td_name t = td_name u" for t u
    using type_names_distinct [OF assms] that by (auto simp: distinct_map inj_on_def)
  note decl = from_project_declares [of p, unfolded declares_def]
  have body: "td_body t = td_body u" if "t \<in> set (all_types p)" "u \<in> set (all_types p)" "td_name t = td_name u" for t u
    using same that by blast
  show ?thesis
    unfolding names_apart_def
  proof (intro conjI allI impI)
    fix n assume "tc_records (from_project p) n \<noteq> None"
    then obtain fs t where t: "t \<in> set (all_types p)" "td_body t = RecordBody n fs" using decl by blast
    show "map_of (tc_aliases (from_project p)) n = None"
    proof (rule ccontr)
      assume "map_of (tc_aliases (from_project p)) n \<noteq> None"
      then obtain a u where u: "u \<in> set (all_types p)" "td_body u = AliasBody n a" using decl by blast
      from body [OF t(1) u(1)] t(2) u(2) show False by (simp add: td_name_def)
    qed
  next
    fix v n assume "tc_variants (from_project p) v = Some n"
    then obtain t e where t: "t \<in> set (all_types p)" "td_body t = EnumBody e" "en_name e = n" "v \<in> set (en_variants e)"
      using decl by blast
    show "map_of (tc_aliases (from_project p)) n = None"
    proof (rule ccontr)
      assume "map_of (tc_aliases (from_project p)) n \<noteq> None"
      then obtain a u where u: "u \<in> set (all_types p)" "td_body u = AliasBody n a" using decl by blast
      from body [OF t(1) u(1)] t(2,3) u(2) show False by (simp add: td_name_def)
    qed
    show "tc_records (from_project p) n = None"
    proof (rule ccontr)
      assume "tc_records (from_project p) n \<noteq> None"
      then obtain fs u where u: "u \<in> set (all_types p)" "td_body u = RecordBody n fs" using decl by blast
      from body [OF t(1) u(1)] t(2,3) u(2) show False by (simp add: td_name_def)
    qed
    show "enum_variant_value v p = Some (VEnum v)" using t by (force simp: enum_variant_value_def)
  qed
qed

text \<open>The name that the checker gives to the results of a call is not the name of a value's type.\<close>

lemma tuple_empty:
  assumes "''__tuple__'' \<notin> td_name ` set (all_types p)" "is_tuple_type t"
  shows "\<not> shaped (from_project p) t v"
proof
  note decl = from_project_declares [of p, unfolded declares_def]
  have absent: "td_name td \<noteq> ''__tuple__''" if "td \<in> set (all_types p)" for td using assms(1) that by force
  have aliases: "map_of (tc_aliases (from_project p)) ''__tuple__'' = None"
  proof (rule ccontr)
    assume "map_of (tc_aliases (from_project p)) ''__tuple__'' \<noteq> None"
    then obtain a td where "td \<in> set (all_types p)" "td_body td = AliasBody ''__tuple__'' a" using decl by blast
    with absent [of td] show False by (simp add: td_name_def)
  qed
  have own: "resolve (from_project p) t = TNamed ''__tuple__''"
    using assms(2) resolve_own [OF aliases] unfolding is_tuple_type_def by (simp only:)
  assume "shaped (from_project p) t v"
  then show False
  proof cases
    case (shaped_enum n s)
    with own have "tc_variants (from_project p) s = Some ''__tuple__''" by simp
    with decl obtain td e where "td \<in> set (all_types p)" "td_body td = EnumBody e" "en_name e = ''__tuple__''" by blast
    with absent [of td] show False by (simp add: td_name_def)
  next
    case (shaped_record n fs m)
    with own have "tc_records (from_project p) ''__tuple__'' = Some fs" by simp
    with decl obtain td where "td \<in> set (all_types p)" "td_body td = RecordBody ''__tuple__'' fs" by blast
    with absent [of td] show False by (simp add: td_name_def)
  qed (use own in auto)
qed

section \<open>The equations of an accepted project\<close>

lemma check_target_appends: "\<exists>es. snd (check_target ctx env node lhs st) = snd st @ es"
  by (cases st) (simp add: check_target_def Let_def)

lemma check_eq_appends: "\<exists>es. snd (check_eq ck eq st) = snd st @ es"
  using fold_appends [of "check_target (ck_ctx ck) (ck_env ck) (ck_node ck)" "eq_lhs eq" st, OF check_target_appends]
  by (auto simp: check_eq_def Let_def split: prod.splits)

text \<open>An accepted equation of one target: the target is declared, and the type of the right-hand side is its type.\<close>

lemma accepted_equation:
  assumes "\<not> has_errors (check_node sigs tc node)" "\<not> is_imported node" "i < length (nd_equations node)"
    "eq_lhs (nd_equations node ! i) = [x]"
  defines "ck \<equiv> equation_checker sigs tc node i" and "rhs \<equiv> eq_rhs (nd_equations node ! i)"
  assumes "operators_only rhs"
  obtains want t where "ck_env ck x = Some want" "infer_expr_type ck rhs (Some want) = (Some t, [])"
    "resolve tc want = resolve tc t \<or> is_tuple_type t"
proof -
  let ?f = "\<lambda>(i, eq). check_eq (equation_checker sigs tc node i) eq"
  let ?eq = "nd_equations node ! i"
  have "\<not> has_errors (snd (fold ?f (enumerate 0 (nd_equations node)) ([], [])))"
    using assms(1,2) by (auto simp: check_node_def Let_def split: prod.splits)
  moreover obtain st where "set (snd (check_eq ck ?eq st)) \<subseteq> set (snd (fold ?f (enumerate 0 (nd_equations node)) ([], [])))"
    using fold_item [of ?f "(i, ?eq)" "enumerate 0 (nd_equations node)" "([], [])"] check_eq_appends assms(3)
    by (auto simp: ck_def in_set_enumerate_eq split: prod.splits)
  ultimately have clean: "\<not> has_errors (snd (check_eq ck ?eq st))" by (auto simp: has_errors_def list_ex_iff)
  obtain assigned ds where st: "st = (assigned, ds)" by (cases st)
  obtain r es where r: "infer_expr_type ck rhs (lhs_hint ck ?eq) = (r, es)" by force
  with operators_only_reporting [OF assms(7)] have rep: "r = None \<longrightarrow> es \<noteq> []" "list_all is_error es"
    by (auto simp: reporting_def dest: meta_spec2 [of _ ck "lhs_hint ck ?eq"])
  from clean r st assms(4) have "\<not> has_errors es" and env: "ck_env ck x \<noteq> None"
    and target: "\<not> has_errors (case r of None \<Rightarrow> [] | Some t \<Rightarrow> check_rhs_type ck ?eq t)"
    by (auto simp: check_eq_def rhs_def check_target_def Let_def has_errors_def split: if_splits)
  with rep obtain t where t: "r = Some t" "es = []" by (auto simp: no_errors_empty)
  from env obtain want where want: "ck_env ck x = Some want" by blast
  with t target assms(4) have "resolve tc want = resolve tc t \<or> is_tuple_type t"
    by (auto simp: check_rhs_type_def ck_compatible_def types_compatible_def has_errors_def ck_def equation_checker_def split: if_splits)
  with want t r assms(4) that show thesis by (simp add: lhs_hint_def)
qed

end
