(* ===== verification/Typecheck_Fixtures.thy ===== *)
theory Typecheck_Fixtures
  imports Typecheck_Cycles Typecheck_Sound Fixtures
begin

text \<open>
  A project the type checker accepts, and nodes on which the checker and the simulator disagree.
\<close>

section \<open>An accepted project\<close>

text \<open>\<open>y = if big then a / b else -1\<close> and \<open>big = a > b and b <> 0\<close>, on numbers of an alias of \<open>Int32\<close>.\<close>

definition ratio_y :: equation where
  "ratio_y = mk_eq ''y'' (IfThenElse (Var ''big'') (Binary BDiv (Var ''a'') (Var ''b'')) (Unary UNeg (Const (LInt 1))))"

definition ratio_big :: equation where
  "ratio_big = mk_eq ''big'' (Binary BAnd (Binary BGt (Var ''a'') (Var ''b'')) (Binary BNeq (Var ''b'') (Const (LInt 0))))"

definition ratio_node :: node_def where
  "ratio_node = mk_node ''ratio'' [mk_port ''a'' (TNamed ''Count''), mk_port ''b'' (TNamed ''Count'')]
     [mk_port ''y'' (TNamed ''Count''), mk_port ''big'' TBool] [] [ratio_y, ratio_big]"

definition ratio_project :: project where
  "ratio_project =
     (mk_project [])\<lparr>pj_packages := [(mk_package [ratio_node])\<lparr>pk_types := [\<lparr>td_body = AliasBody ''Count'' TInt32\<rparr>]\<rparr>]\<rparr>"

definition ratio_env :: "i64 \<Rightarrow> i64 \<Rightarrow> env" where
  "ratio_env a b = [''a'' \<mapsto> VInt a, ''b'' \<mapsto> VInt b, ''y'' \<mapsto> VInt 0, ''big'' \<mapsto> VBool True]"

lemma ratio_accepted: "\<not> has_errors (check_project ratio_project)"
  by code_simp

lemma ratio_member: "ratio_node \<in> set (all_nodes ratio_project)"
  by (simp add: ratio_project_def all_nodes_def fixture_defs)

abbreviation ratio_checker :: checker where
  "ratio_checker \<equiv> equation_checker (fst (signatures (all_nodes ratio_project))) (from_project ratio_project) ratio_node 0"

lemma ratio_variables: "variables_typed ratio_checker (ratio_env a b)"
proof -
  have env: "ck_env ratio_checker = [''a'' \<mapsto> TNamed ''Count'', ''b'' \<mapsto> TNamed ''Count'', ''y'' \<mapsto> TNamed ''Count'', ''big'' \<mapsto> TBool]"
    by (simp add: equation_checker_def node_env_def bind_names_def ratio_node_def fixture_defs)
  have types: "ck_types ratio_checker = (empty_context\<lparr>tc_aliases := [(''Count'', TInt32)]\<rparr>)"
    by (simp add: equation_checker_def from_project_def ratio_project_def fixture_defs add_type_def empty_context_def)
  have count: "resolve (ck_types ratio_checker) (TNamed ''Count'') = TInt32"
    unfolding types by (simp add: resolve_def try_resolve.simps)
  show ?thesis
    unfolding variables_typed_def env
    by (auto simp: ratio_env_def types [THEN arg_cong [where f = tc_constants]] empty_context_def count intro!: shaped_int shaped_bool)
qed

lemma ratio_node_accepted: "\<not> has_errors (check_node (fst (signatures (all_nodes ratio_project))) (from_project ratio_project) ratio_node)"
  by code_simp

lemma ratio_shape:
  "\<not> is_imported ratio_node" "0 < length (nd_equations ratio_node)" "nd_equations ratio_node ! 0 = ratio_y"
  "eq_lhs ratio_y = [''y'']" "operators_only (eq_rhs ratio_y)" "nd_name ratio_node = ''ratio''"
  by (simp_all add: is_imported_def ratio_node_def ratio_y_def fixture_defs operators_only_def)

lemma ratio_no_tuple: "''__tuple__'' \<notin> td_name ` set (all_types ratio_project)"
  by (simp add: ratio_project_def all_types_def fixture_defs td_name_def)

lemma ratio_kind: "nd_kind ratio_node = Operator"
  by (simp add: ratio_node_def mk_node_def)

lemma ratio_open: "\<forall>eq\<in>set (nd_equations ratio_node). arrows_open (eq_rhs eq)"
  by (simp add: arrows_open_def occurs_reads immediate_occurs [symmetric] ratio_node_def ratio_y_def ratio_big_def fixture_defs immediate_reads_def cycle_reads_def)

text \<open>Seven over two is three; the smallest number over minus one overflows.\<close>

lemma ratio_evaluates:
  "fst (eval ((mk_config [])\<lparr>cf_project := ratio_project\<rparr>) ev (eq_rhs ratio_y) a (ratio_env 7 2) sc c) = Ok (VInt 3)"
  "fst (eval ((mk_config [])\<lparr>cf_project := ratio_project\<rparr>) ev (eq_rhs ratio_y) a (ratio_env (- 9223372036854775808) (- 1)) sc c) = Crash ArithOverflow"
  by (auto simp: ratio_y_def mk_eq_def mk_config_def ratio_env_def eval_decision.simps eval_var_def Let_def sbind_app
      literal_value_def eval_binary_def eval_unary_def arith_def cond_result_def decision_result_def note_decision_def
      update_coverage_def has_call_def common_real_def on_ints_def tdiv_def)

section \<open>Where the cycle check and the scheduler disagree\<close>

text \<open>
  \<open>x = 0 -> x\<close>: the check of combinational cycles leaves out the body of an arrow, the order of the
  equations does not.
\<close>

definition held_node :: node_def where
  "held_node = mk_node ''held'' [] [mk_port ''x'' TInt32] [] [mk_eq ''x'' (Arrow (Const (LInt 0)) (Var ''x''))]"

lemma held_accepted: "\<not> has_errors (check_project (mk_project [held_node]))"
  by code_simp

lemma held_stuck: "\<exists>msg. evaluation_order held_node = Inl msg"
proof -
  have "case evaluation_order held_node of Inl msg \<Rightarrow> True | Inr order \<Rightarrow> False" by code_simp
  then show ?thesis by (auto split: sum.splits)
qed

lemma held_edges: "detect_combinational_cycle held_node = None"
  by code_simp

text \<open>Functions are not searched for cycles.\<close>

definition loop_function :: node_def where
  "loop_function = (mk_node ''loop'' [] [mk_port ''x'' TInt32] [] [mk_eq ''x'' (Var ''x'')])\<lparr>nd_kind := Function\<rparr>"

lemma loop_accepted: "\<not> has_errors (check_project (mk_project [loop_function]))"
  by code_simp

lemma loop_cycle: "detect_combinational_cycle loop_function = Some [''x'', ''x'']"
  by code_simp

lemma loop_stuck: "\<exists>msg. evaluation_order loop_function = Inl msg"
proof -
  have "case evaluation_order loop_function of Inl msg \<Rightarrow> True | Inr order \<Rightarrow> False" by code_simp
  then show ?thesis by (auto split: sum.splits)
qed

section \<open>The remainder of reals\<close>

text \<open>The checker accepts the remainder of numbers of any type; the simulator has none for reals.\<close>

definition rest_node :: node_def where
  "rest_node = mk_node ''rest'' [mk_port ''a'' TFloat64, mk_port ''b'' TFloat64] [mk_port ''r'' TFloat64] []
     [mk_eq ''r'' (Binary BMod (Var ''a'') (Var ''b''))]"

lemma rest_accepted: "\<not> has_errors (check_project (mk_project [rest_node]))"
  by code_simp

lemma rest_unsupported: "eval_binary checks BMod (VFloat x) (VFloat y) = eval_err (BinaryUnsupported BMod (VFloat x) (VFloat y))"
  by (simp add: eval_binary_def Let_def real_binary_def)

text \<open>Two equations that read each other in the same cycle are found.\<close>

definition mutual_node :: node_def where
  "mutual_node = mk_node ''mutual'' [mk_port ''a'' TInt32] [mk_port ''x'' TInt32, mk_port ''y'' TInt32] []
     [mk_eq ''x'' (Binary BAdd (Var ''y'') (Const (LInt 1))), mk_eq ''y'' (Arrow (Var ''x'') (Pre (Var ''y'')))]"

lemma mutual_cycle: "detect_combinational_cycle mutual_node = Some [''x'', ''y'', ''x'']"
  by code_simp

section \<open>Delays under a merge\<close>

text \<open>
  \<open>o = 0 -> merge c (pre x) (k when not c)\<close> with \<open>x = k when c\<close>: the arrow initialises the base clock only. The
  checker passes its permission on into the branch, where the first tick comes later.
\<close>

definition sampled_pre_node :: node_def where
  "sampled_pre_node = mk_node ''late'' [mk_port ''c'' TBool, mk_port ''k'' TInt32] [mk_port ''o'' TInt32] [mk_local ''x'' TInt32]
     [mk_eq ''x'' (When (Var ''k'') ''c'' True),
      mk_eq ''o'' (Arrow (Const (LInt 0)) (Merge ''c'' (Pre (Var ''x'')) (When (Var ''k'') ''c'' False)))]"

lemma sampled_pre_accepted: "check_project (mk_project [sampled_pre_node]) = []"
  by code_simp

definition second_step :: "node_def \<Rightarrow> env \<Rightarrow> env \<Rightarrow> (string, val) btree outcome" where
  "second_step node i1 i2 =
     obind (sim_new (\<lambda>_. Inl []) (mk_config [node]) (nd_name node))
       (\<lambda>s. fst (step (mk_config [node]) i2 (snd (step (mk_config [node]) i1 s))))"

lemma sampled_pre_fails:
  "second_step sampled_pre_node [''c'' \<mapsto> VBool False, ''k'' \<mapsto> VInt 1] [''c'' \<mapsto> VBool True, ''k'' \<mapsto> VInt 2] =
     eval_err PreOnFirstTick"
  by code_simp

section \<open>Literals\<close>

text \<open>A literal that no integer type of its context can hold is an \<open>Int32\<close>, also when it is not in that range.\<close>

definition wide_node :: node_def where
  "wide_node = mk_node ''wide'' [] [mk_port ''y'' TInt32] [] [mk_eq ''y'' (Const (LInt 3000000000))]"

lemma wide_accepted: "check_project (mk_project [wide_node]) = []"
  by code_simp

lemma wide_wraps: "first_outputs wide_node Map.empty = Ok [(''y'', VInt (- 1294967296))]"
  by code_simp

end
