(* ===== verification/Sim_Coverage.thy ===== *)
theory Sim_Coverage
  imports Sim Typecheck_Node Lustre_Text Slice_Laws
begin

text \<open>
  The coverage of decisions (\<open>ol_sim/src/lib.rs\<close>): the conditions of a decision, the registration of the decisions
  of every node the entry node calls, the search for pairs of trials that show a condition's independent effect,
  and the reports.
\<close>

section \<open>Conditions\<close>

text \<open>The atomic conditions in the order of evaluation, each under its address and with its text.\<close>

fun decision_conditions :: "expr \<Rightarrow> addr \<Rightarrow> (addr \<times> string) list" where
  "decision_conditions (Binary op l r) a =
     (if connective op \<noteq> None then decision_conditions l (child a 0) @ decision_conditions r (child a 1)
      else [(a, format_expr (Binary op l r))])"
| "decision_conditions (Unary op x) a =
     (if op = UNot then decision_conditions x (child a 0) else [(a, format_expr (Unary op x))])"
| "decision_conditions e a = [(a, format_expr e)]"

section \<open>Independence\<close>

definition shows_independence :: "nat \<Rightarrow> nat \<Rightarrow> mcdc_trial \<Rightarrow> mcdc_trial \<Rightarrow> bool" where
  "shows_independence n i ta tb \<longleftrightarrow>
     length (mt_values ta) = n \<and> length (mt_values tb) = n \<and> mt_outcome ta \<noteq> mt_outcome tb \<and>
     mt_values ta ! i \<noteq> mt_values tb ! i \<and> (\<forall>j\<in>set (filter (\<lambda>j. j \<noteq> i) [0..<n]). mt_values ta ! j = mt_values tb ! j)"

definition mcdc_independence :: "nat \<Rightarrow> mcdc_trial list \<Rightarrow> (nat \<times> nat) option list" where
  "mcdc_independence n trials =
     map (\<lambda>i. find_map (\<lambda>a. find_map (\<lambda>b. if shows_independence n i (trials ! a) (trials ! b) then Some (a, b) else None)
            [a + 1..<length trials]) [0..<length trials]) [0..<n]"

section \<open>Registration\<close>

definition new_decision :: "node_def \<Rightarrow> string \<Rightarrow> addr \<Rightarrow> expr \<Rightarrow> decision_data" where
  "new_decision node ctx a e =
     (let conds = decision_conditions e a
      in \<lparr>dd_node = nd_name node, dd_context = ctx, dd_decision_text = format_expr e, dd_cond_ptrs = map fst conds,
          dd_cond_texts = map snd conds, dd_trials = [], dd_seen = []\<rparr>)"

definition register_decision :: "node_def \<Rightarrow> string \<Rightarrow> addr \<Rightarrow> expr \<Rightarrow> coverage \<Rightarrow> coverage" where
  "register_decision node ctx a e cov =
     (if cov_roots cov a \<noteq> None then cov
      else cov\<lparr>cov_roots := (cov_roots cov)(a \<mapsto> length (cov_decisions cov)),
               cov_decisions := cov_decisions cov @ [new_decision node ctx a e]\<rparr>)"

definition register_site :: "node_def \<Rightarrow> string \<Rightarrow> addr \<Rightarrow> expr \<Rightarrow> coverage \<Rightarrow> coverage" where
  "register_site node ctx a e cov =
     (let cov1 = cov\<lparr>cov_index := (cov_index cov)(a \<mapsto> length (cov_sites cov))\<rparr>
      in if cov_index cov a = None
         then cov1\<lparr>cov_sites := cov_sites cov @
                [\<lparr>ds_node = nd_name node, ds_context = ctx, ds_condition = format_expr e, ds_seen_true = False, ds_seen_false = False\<rparr>]\<rparr>
         else cov1)"

definition register_condition :: "node_def \<Rightarrow> string \<Rightarrow> addr \<times> expr \<Rightarrow> coverage \<Rightarrow> coverage" where
  "register_condition node ctx ae cov =
     (case ae of (a, e) \<Rightarrow>
        (case e of
           IfThenElse c t f \<Rightarrow> register_decision node ctx (child a 0) c (register_site node ctx (child a 0) c cov)
         | _ \<Rightarrow> cov))"

definition register_equation :: "node_def \<Rightarrow> nat \<times> equation \<Rightarrow> coverage \<Rightarrow> coverage" where
  "register_equation node ieq cov =
     (case ieq of (i, eq) \<Rightarrow>
        (let ctx = join_with '', '' (eq_lhs eq);
             a = root_addr (EquationRoot (nd_name node) i);
             cov1 = (if 2 \<le> length (decision_conditions (eq_rhs eq) a) then register_decision node ctx a (eq_rhs eq) cov else cov)
         in fold (register_condition node ctx) (visit_at a (eq_rhs eq)) cov1))"

definition register_node :: "node_def \<Rightarrow> coverage \<Rightarrow> coverage" where
  "register_node node cov = fold (register_equation node) (enumerate 0 (nd_equations node)) cov"

text \<open>The calls of a node's equations, the names under which their nodes are declared.\<close>

fun call_target :: "expr \<Rightarrow> string option" where
  "call_target (Call callee args) = Some callee"
| "call_target _ = None"

definition called_names :: "project \<Rightarrow> node_def \<Rightarrow> string list \<Rightarrow> string list" where
  "called_names p node visited =
     concat (map (\<lambda>eq. List.map_filter (\<lambda>e. Option.bind (call_target e) (\<lambda>callee.
         if callee \<in> set visited then None else map_option nd_name (find_node p callee))) (visit (eq_rhs eq))) (nd_equations node))"

lemma in_map_filter: "y \<in> set (List.map_filter f xs) \<longleftrightarrow> (\<exists>x\<in>set xs. f x = Some y)"
  by (force simp: List.map_filter_def)

lemma called_names_declared: "set (called_names p node visited) \<subseteq> nd_name ` set (all_nodes p)"
  by (auto simp: called_names_def in_map_filter bind_eq_Some_conv split: if_splits dest!: find_node_Some(1))

text \<open>
  The nodes are taken from a queue, each at most once. The loop's state is the queue, the names visited and the
  coverage; the names left at the end are dropped by the caller.
\<close>

function register_from :: "project \<Rightarrow> string list \<Rightarrow> string list \<Rightarrow> coverage \<Rightarrow> string list \<times> coverage" where
  "register_from p [] visited cov = (visited, cov)"
| "register_from p (name # queue) visited cov =
     (if name \<in> set visited then register_from p queue visited cov
      else
        (case find_node p name of
           None \<Rightarrow> register_from p queue (bs_insert name visited) cov
         | Some node \<Rightarrow>
             register_from p (queue @ called_names p node (bs_insert name visited)) (bs_insert name visited) (register_node node cov)))"
  by pat_completeness auto

termination
proof (relation "measures
    [\<lambda>(p, queue, visited, cov). length (filter (\<lambda>n. n \<notin> nd_name ` set (all_nodes p)) queue),
     \<lambda>(p, queue, visited, cov). card (nd_name ` set (all_nodes p) - set visited),
     \<lambda>(p, queue, visited, cov). length queue]", goal_cases)
  case (3 p name queue visited cov)
  have "card (nd_name ` set (all_nodes p) - insert name (set visited)) \<le> card (nd_name ` set (all_nodes p) - set visited)"
    by (rule card_mono) auto
  then show ?case by (auto simp: less_le)
next
  case (4 p name queue visited cov node)
  have none: "filter (\<lambda>n. n \<notin> nd_name ` set (all_nodes p)) (called_names p node vs) = []" for vs
    using called_names_declared [of p node vs] by (auto simp: filter_empty_conv)
  have "card (nd_name ` set (all_nodes p) - insert name (set visited)) < card (nd_name ` set (all_nodes p) - set visited)"
    if "name \<in> nd_name ` set (all_nodes p)"
    using that 4(1) by (intro psubset_card_mono) auto
  then show ?case using none by auto
qed auto

definition enable_coverage :: "config \<Rightarrow> sim_state \<Rightarrow> sim_state" where
  "enable_coverage cf s =
     s\<lparr>si_ctx := (si_ctx s)\<lparr>cx_cov := Some (snd (register_from (cf_project cf) [nd_name (si_node s)] [] default_coverage))\<rparr>\<rparr>"

section \<open>Reports\<close>

record mcdc_decision =
  md_node :: string
  md_context :: string
  md_decision :: string
  md_conditions :: "string list"
  md_trials :: "mcdc_trial list"

definition coverage_sites :: "sim_state \<Rightarrow> decision_site list option" where
  "coverage_sites s = map_option cov_sites (cx_cov (si_ctx s))"

definition mcdc_decisions :: "sim_state \<Rightarrow> mcdc_decision list option" where
  "mcdc_decisions s =
     map_option (\<lambda>c. map (\<lambda>d. \<lparr>md_node = dd_node d, md_context = dd_context d, md_decision = dd_decision_text d,
       md_conditions = dd_cond_texts d, md_trials = dd_trials d\<rparr>) (cov_decisions c)) (cx_cov (si_ctx s))"

end
