(* ===== verification/Sim_Coverage_Laws.thy ===== *)
theory Sim_Coverage_Laws
  imports Sim_Coverage
begin

text \<open>
  What the coverage promises: the registered decisions are those of the nodes that the entry node reaches by
  calls, a recorded trial is a row of the decision's truth table, and a pair of trials that the search returns
  shows that the condition decides.
\<close>

section \<open>A decision as a function of its conditions\<close>

fun decision_value :: "expr \<Rightarrow> addr \<Rightarrow> (addr \<Rightarrow> bool) \<Rightarrow> bool" where
  "decision_value (Binary op l r) a v =
     (case connective op of
        Some f \<Rightarrow> f (decision_value l (child a 0) v) (decision_value r (child a 1) v)
      | None \<Rightarrow> v a)"
| "decision_value (Unary op x) a v = (if op = UNot then \<not> decision_value x (child a 0) v else v a)"
| "decision_value e a v = v a"

abbreviation condition_addrs :: "expr \<Rightarrow> addr \<Rightarrow> addr list" where
  "condition_addrs e a \<equiv> map fst (decision_conditions e a)"

lemma below_child: "\<exists>path. q = (fst (child a i), path @ snd (child a i)) \<Longrightarrow> \<exists>path. q = (fst a, path @ snd a)"
  by (metis append.assoc append_Cons append_Nil child_def fst_conv snd_conv)

lemma condition_below: "q \<in> set (condition_addrs e a) \<Longrightarrow> \<exists>path. q = (fst a, path @ snd a)"
proof (induction e a rule: decision_conditions.induct)
  case (1 op l r a)
  show ?case
  proof (cases "connective op")
    case None
    with 1(3) show ?thesis by (auto intro: exI [of _ "[]"] simp: prod_eq_iff)
  next
    case (Some f)
    with 1 show ?thesis using below_child [of q a 0] below_child [of q a 1] by auto
  qed
next
  case (2 op x a)
  then show ?case using below_child [of q a 0] by (cases op) (auto intro: exI [of _ "[]"] simp: prod_eq_iff)
qed (auto intro: exI [of _ "[]"] simp: prod_eq_iff)

lemma sides_disjoint: "set (condition_addrs l (child a 0)) \<inter> set (condition_addrs r (child a (Suc 0))) = {}"
proof (rule equals0I)
  fix q assume "q \<in> set (condition_addrs l (child a 0)) \<inter> set (condition_addrs r (child a (Suc 0)))"
  then have "q \<in> set (condition_addrs l (child a 0))" "q \<in> set (condition_addrs r (child a (Suc 0)))" by blast+
  with condition_below obtain ps qs where "q = (fst (child a 0), ps @ snd (child a 0))" "q = (fst (child a (Suc 0)), qs @ snd (child a (Suc 0)))"
    by meson
  then have eq: "ps @ 0 # snd a = qs @ 1 # snd a" by (simp add: child_def)
  then have "length ps = length qs" by (auto dest!: arg_cong [where f = length])
  with eq show False by simp
qed

lemma conditions_distinct: "distinct (condition_addrs e a)"
proof (induction e a rule: decision_conditions.induct)
  case (1 op l r a)
  then show ?case using sides_disjoint [of l a r] by (cases "connective op") auto
qed auto

lemma decision_value_cong:
  "(\<And>q. q \<in> set (condition_addrs e a) \<Longrightarrow> v q = w q) \<Longrightarrow> decision_value e a v = decision_value e a w"
proof (induction e a rule: decision_conditions.induct)
  case (1 op l r a)
  then show ?case by (cases "connective op") auto
next
  case (2 op x a)
  then show ?case by (cases op) auto
qed auto

text \<open>The evaluation of a decision records every condition, and returns the decision's value on what it recorded.\<close>

definition records :: "expr \<Rightarrow> addr \<Rightarrow> observations \<Rightarrow> bool \<Rightarrow> observations \<Rightarrow> bool" where
  "records e a obs b obs' \<longleftrightarrow>
     (\<forall>q. q \<notin> set (condition_addrs e a) \<longrightarrow> obs' q = obs q) \<and> set (condition_addrs e a) \<subseteq> dom obs' \<and>
     b = decision_value e a (\<lambda>q. obs' q = Some True)"

lemma records_leaf: "decision_conditions e a = [(a, t)] \<Longrightarrow> (\<And>v. decision_value e a v = v a) \<Longrightarrow> records e a obs b (obs(a \<mapsto> b))"
  by (auto simp: records_def)

lemma leaf_records:
  assumes "sbind m (\<lambda>v. sbind (slift (decision_result v)) (\<lambda>b. sreturn (b, obs(a \<mapsto> b)))) c = (Ok (b, obs'), c')"
  shows "obs' = obs(a \<mapsto> b)"
  using assms by (auto simp: sbind_Ok)

lemma eval_decision_records:
  "eval_decision cf ev e a env sc obs c = (Ok (b, obs'), c') \<Longrightarrow> records e a obs b obs'"
proof (induction e a arbitrary: obs b obs' c c' rule: decision_conditions.induct)
  case (1 op l r a)
  show ?case
  proof (cases "connective op")
    case None
    then have obs': "obs' = obs(a \<mapsto> b)"
      using 1(3) leaf_records [of "eval cf ev (Binary op l r) a env sc" obs a c b obs' c']
      by (simp add: eval_decision.simps [of _ _ "Binary op l r"] del: eval.simps)
    show ?thesis unfolding obs' by (rule records_leaf) (simp_all add: None)
  next
    case (Some f)
    with 1(3) obtain x obs1 y c1 where
      l: "eval_decision cf ev l (child a 0) env sc obs c = (Ok (x, obs1), c1)" and
      r: "eval_decision cf ev r (child a 1) env sc obs1 c1 = (Ok (y, obs'), c')" and b: "b = f x y"
      by (auto simp: eval_decision.simps [of _ _ "Binary op l r"] sbind_Ok)
    from 1(1) [OF _ l] Some have L: "records l (child a 0) obs x obs1" by simp
    from 1(2) [OF _ r] Some have R: "records r (child a 1) obs1 y obs'" by simp
    have same: "obs' q = obs1 q" if "q \<in> set (condition_addrs l (child a 0))" for q
    proof -
      have "q \<notin> set (condition_addrs r (child a (Suc 0)))" using sides_disjoint [of l a r] that by blast
      with R show ?thesis unfolding records_def One_nat_def by blast
    qed
    then have "decision_value l (child a 0) (\<lambda>q. obs' q = Some True) = x"
      using L decision_value_cong [of l "child a 0" "\<lambda>q. obs' q = Some True" "\<lambda>q. obs1 q = Some True"]
      by (simp add: records_def)
    moreover have "\<forall>q. q \<notin> set (condition_addrs (Binary op l r) a) \<longrightarrow> obs' q = obs q"
      using L R Some by (simp add: records_def del: split_paired_All)
    moreover have "set (condition_addrs (Binary op l r) a) \<subseteq> dom obs'"
    proof -
      have "set (condition_addrs l (child a 0)) \<subseteq> dom obs'"
      proof
        fix q assume q: "q \<in> set (condition_addrs l (child a 0))"
        then have "q \<in> dom obs1" using L unfolding records_def by blast
        with same [OF q] show "q \<in> dom obs'" by (simp add: domIff)
      qed
      with R Some show ?thesis by (simp add: records_def)
    qed
    moreover have "decision_value r (child a (Suc 0)) (\<lambda>q. obs' q = Some True) = y"
      using R by (simp add: records_def del: split_paired_All)
    ultimately show ?thesis using Some b by (simp add: records_def del: split_paired_All)
  qed
next
  case (2 op x a)
  show ?case
  proof (cases op)
    case UNot
    with 2(2) obtain y where y: "eval_decision cf ev x (child a 0) env sc obs c = (Ok (y, obs'), c')" "b = (\<not> y)"
      by (auto simp: eval_decision.simps [of _ _ "Unary UNot x"] sbind_Ok)
    from 2(1) [OF UNot y(1)] UNot y(2) show ?thesis by (auto simp: records_def)
  next
    case UNeg
    then have obs': "obs' = obs(a \<mapsto> b)"
      using 2(2) leaf_records [of "eval cf ev (Unary op x) a env sc" obs a c b obs' c']
      by (simp add: eval_decision.simps [of _ _ "Unary UNeg x"] del: eval.simps)
    show ?thesis unfolding obs' by (rule records_leaf) (simp_all add: UNeg)
  qed
qed (auto intro!: records_leaf dest!: leaf_records simp: eval_decision.simps Let_def simp del: eval.simps)

section \<open>Trials\<close>

text \<open>A row of the decision's truth table.\<close>

definition truth_row :: "expr \<Rightarrow> addr \<Rightarrow> mcdc_trial \<Rightarrow> bool" where
  "truth_row e a t \<longleftrightarrow> (\<exists>v. mt_values t = map v (condition_addrs e a) \<and> mt_outcome t = decision_value e a v)"

lemma recorded_row:
  assumes "records e a obs b obs'" "dd_cond_ptrs d = condition_addrs e a"
  shows "truth_row e a (trial_of d obs' b)"
proof -
  have "map (\<lambda>p. case obs' p of None \<Rightarrow> False | Some x \<Rightarrow> x) (condition_addrs e a) =
      map (\<lambda>p. obs' p = Some True) (condition_addrs e a)"
    using assms(1) by (auto simp: records_def split: option.splits)
  with assms show ?thesis
    unfolding truth_row_def trial_of_def records_def by (auto intro!: exI [of _ "\<lambda>p. obs' p = Some True"])
qed

lemma independence_exact:
  assumes "i < n"
  shows "case mcdc_independence n trials ! i of
      Some (x, y) \<Rightarrow> x < y \<and> y < length trials \<and> shows_independence n i (trials ! x) (trials ! y)
    | None \<Rightarrow> \<forall>y<length trials. \<forall>x<y. \<not> shows_independence n i (trials ! x) (trials ! y)"
proof -
  have nth: "mcdc_independence n trials ! i = find_map (\<lambda>a. find_map (\<lambda>b. if shows_independence n i (trials ! a) (trials ! b)
      then Some (a, b) else None) [a + 1..<length trials]) [0..<length trials]"
    using assms by (simp add: mcdc_independence_def)
  show ?thesis
  proof (cases "mcdc_independence n trials ! i")
    case None
    then have "\<forall>x\<in>{0..<length trials}. \<forall>y\<in>{x + 1..<length trials}. \<not> shows_independence n i (trials ! x) (trials ! y)"
      unfolding nth by (auto simp: find_map_None split: if_splits)
    with None show ?thesis by auto
  next
    case (Some xy)
    then show ?thesis unfolding nth by (auto dest!: find_map_SomeD split: if_splits)
  qed
qed

lemma independence_sound:
  assumes rows: "\<forall>t\<in>set trials. truth_row e a t" and i: "i < length (condition_addrs e a)"
    and pair: "mcdc_independence (length (condition_addrs e a)) trials ! i = Some (x, y)"
  shows "\<exists>v. decision_value e a (v(condition_addrs e a ! i := True)) \<noteq> decision_value e a (v(condition_addrs e a ! i := False))"
proof -
  let ?as = "condition_addrs e a"
  from independence_exact [OF i, of trials] pair have lt: "x < y" "y < length trials"
    and ind: "shows_independence (length ?as) i (trials ! x) (trials ! y)" by auto
  have "truth_row e a (trials ! x)" "truth_row e a (trials ! y)" using rows lt by auto
  then obtain v w where v: "mt_values (trials ! x) = map v ?as" "mt_outcome (trials ! x) = decision_value e a v"
    and w: "mt_values (trials ! y) = map w ?as" "mt_outcome (trials ! y) = decision_value e a w"
    unfolding truth_row_def by blast
  have diff: "v (?as ! i) \<noteq> w (?as ! i)" "decision_value e a v \<noteq> decision_value e a w"
    and same: "j < length ?as \<Longrightarrow> j \<noteq> i \<Longrightarrow> v (?as ! j) = w (?as ! j)" for j
    using ind i by (auto simp: shows_independence_def v w)
  have "decision_value e a (v(?as ! i := b)) = decision_value e a (if v (?as ! i) = b then v else w)" for b
  proof (rule decision_value_cong)
    fix q assume "q \<in> set ?as"
    then obtain j where j: "j < length ?as" "q = ?as ! j" by (metis in_set_conv_nth)
    show "(v(?as ! i := b)) q = (if v (?as ! i) = b then v else w) q"
    proof (cases "j = i")
      case True
      with j diff show ?thesis by auto
    next
      case False
      then have "q \<noteq> ?as ! i" unfolding j(2) using nth_eq_iff_index_eq [OF conditions_distinct j(1) i] by simp
      with same [OF j(1) False] j show ?thesis by auto
    qed
  qed
  with diff show ?thesis by (intro exI [of _ v]) (cases "v (?as ! i)"; simp)
qed

text \<open>A trial that an evaluation of the decision records.\<close>

definition recorded_trial :: "decision_data \<Rightarrow> expr \<Rightarrow> addr \<Rightarrow> mcdc_trial \<Rightarrow> bool" where
  "recorded_trial d e a t \<longleftrightarrow> (\<exists>cf ev env sc c b obs c'.
     eval_decision cf ev e a env sc Map.empty c = (Ok (b, obs), c') \<and> t = trial_of d obs b)"

lemma recorded_truth: "recorded_trial d e a t \<Longrightarrow> dd_cond_ptrs d = condition_addrs e a \<Longrightarrow> truth_row e a t"
  unfolding recorded_trial_def using eval_decision_records recorded_row by blast

section \<open>The registered decisions\<close>

fun if_condition :: "addr \<times> expr \<Rightarrow> addr option" where
  "if_condition (a, IfThenElse c t f) = Some (child a 0)"
| "if_condition _ = None"

definition equation_roots :: "node_def \<Rightarrow> nat \<times> equation \<Rightarrow> addr list" where
  "equation_roots node ieq =
     (let a = root_addr (EquationRoot (nd_name node) (fst ieq))
      in if 2 \<le> length (decision_conditions (eq_rhs (snd ieq)) a) then [a] else [])"

definition equation_ifs :: "node_def \<Rightarrow> nat \<times> equation \<Rightarrow> addr list" where
  "equation_ifs node ieq =
     List.map_filter if_condition (visit_at (root_addr (EquationRoot (nd_name node) (fst ieq))) (eq_rhs (snd ieq)))"

text \<open>The conditions of the \<open>if\<close>s of a node, and its equations that combine conditions without an \<open>if\<close>.\<close>

definition if_conditions :: "node_def \<Rightarrow> addr set" where
  "if_conditions node = (\<Union>ieq\<in>set (enumerate 0 (nd_equations node)). set (equation_ifs node ieq))"

definition logic_roots :: "node_def \<Rightarrow> addr set" where
  "logic_roots node = (\<Union>ieq\<in>set (enumerate 0 (nd_equations node)). set (equation_roots node ieq))"

lemma roots_decision [simp]:
  "dom (cov_roots (register_decision node ctx a e cov)) = insert a (dom (cov_roots cov))"
  "cov_index (register_decision node ctx a e cov) = cov_index cov"
  by (auto simp: register_decision_def)

lemma roots_site [simp]:
  "cov_roots (register_site node ctx a e cov) = cov_roots cov"
  "dom (cov_index (register_site node ctx a e cov)) = insert a (dom (cov_index cov))"
  by (auto simp: register_site_def Let_def)

lemma registered_condition:
  "dom (cov_roots (register_condition node ctx x cov)) = dom (cov_roots cov) \<union> set_option (if_condition x)"
  "dom (cov_index (register_condition node ctx x cov)) = dom (cov_index cov) \<union> set_option (if_condition x)"
  by (cases x rule: if_condition.cases; simp add: register_condition_def)+

lemma map_filter_step: "set (List.map_filter f (x # xs)) = set_option (f x) \<union> set (List.map_filter f xs)"
  by (cases "f x") (simp_all add: List.map_filter_def)

lemma registered_conditions:
  "dom (cov_roots (fold (register_condition node ctx) xs cov)) = dom (cov_roots cov) \<union> set (List.map_filter if_condition xs)"
  "dom (cov_index (fold (register_condition node ctx) xs cov)) = dom (cov_index cov) \<union> set (List.map_filter if_condition xs)"
proof (induction xs arbitrary: cov)
  case (Cons x xs)
  case 1
  show ?case by (simp only: fold_Cons o_apply Cons registered_condition map_filter_step Un_assoc)
  case 2
  show ?case by (simp only: fold_Cons o_apply Cons registered_condition map_filter_step Un_assoc)
qed (simp_all add: List.map_filter_def)

lemma registered_equation:
  "dom (cov_roots (register_equation node ieq cov)) = dom (cov_roots cov) \<union> set (equation_roots node ieq) \<union> set (equation_ifs node ieq)"
  "dom (cov_index (register_equation node ieq cov)) = dom (cov_index cov) \<union> set (equation_ifs node ieq)"
  by (cases ieq; simp add: register_equation_def registered_conditions equation_roots_def equation_ifs_def Let_def)+

lemma registered_equations:
  "dom (cov_roots (fold (register_equation node) ieqs cov)) =
     dom (cov_roots cov) \<union> (\<Union>ieq\<in>set ieqs. set (equation_roots node ieq)) \<union> (\<Union>ieq\<in>set ieqs. set (equation_ifs node ieq))"
  "dom (cov_index (fold (register_equation node) ieqs cov)) = dom (cov_index cov) \<union> (\<Union>ieq\<in>set ieqs. set (equation_ifs node ieq))"
proof (induction ieqs arbitrary: cov)
  case (Cons x xs)
  case 1
  show ?case unfolding fold_Cons o_apply Cons registered_equation by (simp add: Un_ac)
  case 2
  show ?case unfolding fold_Cons o_apply Cons registered_equation by (simp add: Un_ac)
qed simp_all

lemma registered_node:
  "dom (cov_roots (register_node node cov)) = dom (cov_roots cov) \<union> logic_roots node \<union> if_conditions node"
  "dom (cov_index (register_node node cov)) = dom (cov_index cov) \<union> if_conditions node"
  unfolding register_node_def registered_equations logic_roots_def if_conditions_def by (rule refl)+

subsection \<open>The nodes that are visited\<close>

definition all_called :: "project \<Rightarrow> string \<Rightarrow> string list" where
  "all_called p name = (case find_node p name of None \<Rightarrow> [] | Some node \<Rightarrow> called_names p node [])"

abbreviation declared :: "project \<Rightarrow> string set" where
  "declared p \<equiv> nd_name ` set (all_nodes p)"

lemma declared_found: "name \<in> declared p \<Longrightarrow> \<exists>node. find_node p name = Some node \<and> nd_name node = name"
  using find_node_own by blast

lemma in_called_names:
  "y \<in> set (called_names p node visited) \<longleftrightarrow>
     (\<exists>eq\<in>set (nd_equations node). \<exists>e\<in>set (visit (eq_rhs eq)). \<exists>callee n.
        call_target e = Some callee \<and> callee \<notin> set visited \<and> find_node p callee = Some n \<and> y = nd_name n)"
  by (auto simp: called_names_def in_map_filter bind_eq_Some_conv split: if_splits)

text \<open>A call that is not queued is a call of a node visited before.\<close>

lemma called_names_rest:
  assumes "set visited \<subseteq> declared p"
  shows "set (called_names p node []) \<subseteq> set (called_names p node visited) \<union> set visited"
proof
  fix y assume "y \<in> set (called_names p node [])"
  then obtain eq e callee n where c: "eq \<in> set (nd_equations node)" "e \<in> set (visit (eq_rhs eq))"
    "call_target e = Some callee" "find_node p callee = Some n" "y = nd_name n"
    by (auto simp: in_called_names)
  show "y \<in> set (called_names p node visited) \<union> set visited"
  proof (cases "callee \<in> set visited")
    case True
    with assms have "callee \<in> declared p" by blast
    from declared_found [OF this] c(4) have "nd_name n = callee" by auto
    with True c(5) show ?thesis by simp
  next
    case False
    with c have "y \<in> set (called_names p node visited)" unfolding in_called_names by blast
    then show ?thesis by simp
  qed
qed

lemma called_names_less: "set (called_names p node visited) \<subseteq> set (called_names p node [])"
  unfolding subset_iff in_called_names list.set by blast

lemma visited_extends: "set visited \<union> set queue \<subseteq> set (fst (register_from p queue visited cov))"
proof (induction p queue visited cov rule: register_from.induct)
  case (2 p name queue visited cov)
  show ?case
  proof (cases "name \<in> set visited")
    case True
    with 2(1) show ?thesis by auto
  next
    case new: False
    show ?thesis
    proof (cases "find_node p name")
      case None
      with 2(2) [OF new] new show ?thesis by simp
    next
      case (Some node)
      with 2(3) [OF new] new show ?thesis by simp
    qed
  qed
qed simp

lemma visited_least:
  assumes "\<And>x. x \<in> S \<Longrightarrow> set (all_called p x) \<subseteq> S"
  shows "set queue \<union> set visited \<subseteq> S \<Longrightarrow> set (fst (register_from p queue visited cov)) \<subseteq> S"
  using assms
proof (induction p queue visited cov rule: register_from.induct)
  case (2 p name queue visited cov)
  show ?case
  proof (cases "name \<in> set visited")
    case True
    with 2 show ?thesis by simp
  next
    case new: False
    show ?thesis
    proof (cases "find_node p name")
      case None
      with 2 new show ?thesis by simp
    next
      case (Some node)
      have "set (called_names p node (bs_insert name visited)) \<subseteq> S"
        using 2(5) [of name] 2(4) Some called_names_less [of p node "bs_insert name visited"] by (auto simp: all_called_def)
      with 2(3) [OF new Some _ 2(5)] 2(4) new Some show ?thesis by simp
    qed
  qed
qed simp

lemma visited_closed:
  "set queue \<union> set visited \<subseteq> declared p \<Longrightarrow> \<forall>x\<in>set visited. set (all_called p x) \<subseteq> set visited \<union> set queue \<Longrightarrow>
   x \<in> set (fst (register_from p queue visited cov)) \<Longrightarrow> set (all_called p x) \<subseteq> set (fst (register_from p queue visited cov))"
proof (induction p queue visited cov rule: register_from.induct)
  case (2 p name queue visited cov)
  show ?case
  proof (cases "name \<in> set visited")
    case True
    with 2 show ?thesis by (auto split: if_splits)
  next
    case new: False
    obtain node where node: "find_node p name = Some node" using declared_found [of name p] 2(4) by auto
    let ?vs = "bs_insert name visited" and ?qs = "queue @ called_names p node (bs_insert name visited)"
    have decl: "set ?qs \<union> set ?vs \<subseteq> declared p" using 2(4) called_names_declared [of p node ?vs] by auto
    have "set (all_called p name) \<subseteq> set ?vs \<union> set ?qs"
      using called_names_rest [of ?vs p node] decl node by (auto simp: all_called_def)
    then have "\<forall>x\<in>set ?vs. set (all_called p x) \<subseteq> set ?vs \<union> set ?qs" using 2(5) by auto
    with 2(3) [OF new node decl this] 2(6) new node show ?thesis by simp
  qed
qed simp

lemma visited_reachable:
  assumes "root \<in> declared p"
  shows "set (fst (register_from p [root] [] cov)) = {y. (\<lambda>x y. y \<in> set (all_called p x))\<^sup>*\<^sup>* root y}"
proof
  let ?R = "(\<lambda>x y. y \<in> set (all_called p x))\<^sup>*\<^sup>*"
  show "set (fst (register_from p [root] [] cov)) \<subseteq> {y. ?R root y}"
    by (rule visited_least) (auto intro: rtranclp.rtrancl_into_rtrancl)
  have "y \<in> set (fst (register_from p [root] [] cov))" if "?R root y" for y
    using that
  proof (induction rule: rtranclp_induct)
    case base
    then show ?case using visited_extends [of "[]" "[root]" p cov] by simp
  next
    case (step y z)
    then show ?case using visited_closed [of "[root]" "[]" p y cov] assms by auto
  qed
  then show "{y. ?R root y} \<subseteq> set (fst (register_from p [root] [] cov))" by blast
qed

lemma registered_from:
  "dom (cov_roots (snd (register_from p queue visited cov))) = dom (cov_roots cov) \<union>
     (\<Union>name\<in>set (fst (register_from p queue visited cov)) - set visited. \<Union>node\<in>set_option (find_node p name).
        logic_roots node \<union> if_conditions node)"
proof (induction p queue visited cov rule: register_from.induct)
  case (2 p name queue visited cov)
  show ?case
  proof (cases "name \<in> set visited")
    case True
    with 2 show ?thesis by simp
  next
    case new: False
    show ?thesis
    proof (cases "find_node p name")
      case None
      let ?vs = "bs_insert name visited"
      have "set (fst (register_from p queue ?vs cov)) - set visited = insert name (set (fst (register_from p queue ?vs cov)) - set ?vs)"
        using new visited_extends [of ?vs queue p cov] by auto
      with 2(2) [OF new None] new None show ?thesis by simp
    next
      case (Some node)
      let ?vs = "bs_insert name visited" and ?qs = "queue @ called_names p node (bs_insert name visited)"
      let ?r = "register_from p ?qs ?vs (register_node node cov)"
      have "set (fst ?r) - set visited = insert name (set (fst ?r) - set ?vs)"
        using new visited_extends [of ?vs ?qs p "register_node node cov"] by auto
      with 2(3) [OF new Some] new Some show ?thesis by (simp add: registered_node Un_ac)
    qed
  qed
qed simp

end
