(* ===== verification/Sim_Transparent.thy ===== *)
theory Sim_Transparent
  imports Sim_Coverage_Laws Sim_Safety
begin

text \<open>
  Coverage is transparent: a computation that records coverage returns the same value, and leaves the same state,
  as the computation that records nothing. Errors may differ in kind, as a decision refuses an operand before the
  other one is evaluated. \<open>R\<close> holds the addresses of the registered decisions.
\<close>

definition erase :: "ctx \<Rightarrow> ctx" where
  "erase c = c\<lparr>cx_cov := None\<rparr>"

definition roots_in :: "addr set \<Rightarrow> ctx \<Rightarrow> bool" where
  "roots_in R c \<longleftrightarrow> (\<forall>cov. cx_cov c = Some cov \<longrightarrow> dom (cov_roots cov) \<subseteq> R)"

definition transparent :: "addr set \<Rightarrow> 'a sim \<Rightarrow> bool" where
  "transparent R m \<longleftrightarrow> (\<forall>c. roots_in R c \<longrightarrow>
     (\<forall>v d. (\<exists>c'. m c = (Ok v, c') \<and> erase c' = d) \<longleftrightarrow> m (erase c) = (Ok v, d)) \<and>
     (\<forall>v c'. m c = (Ok v, c') \<longrightarrow> roots_in R c'))"

lemma erase_simps [simp]:
  "erase (erase c) = erase c" "cx_state (erase c) = cx_state c" "cx_calls (erase c) = cx_calls c" "cx_cov (erase c) = None"
  "erase (c\<lparr>cx_cov := v\<rparr>) = erase c" "(erase c)\<lparr>cx_cov := None\<rparr> = erase c"
  "erase (c\<lparr>cx_state := st\<rparr>) = (erase c)\<lparr>cx_state := st\<rparr>" "erase (c\<lparr>cx_calls := k\<rparr>) = (erase c)\<lparr>cx_calls := k\<rparr>"
  by (simp_all add: erase_def)

lemma roots_in_simps [simp]:
  "roots_in R (erase c)" "roots_in R (c\<lparr>cx_state := st\<rparr>) = roots_in R c" "roots_in R (c\<lparr>cx_calls := k\<rparr>) = roots_in R c"
  "roots_in R (c\<lparr>cx_cov := cx_cov d\<rparr>) = roots_in R d"
  by (simp_all add: roots_in_def)

lemma transparent_forward: "transparent R m \<Longrightarrow> roots_in R c \<Longrightarrow> m c = (Ok v, c') \<Longrightarrow> m (erase c) = (Ok v, erase c') \<and> roots_in R c'"
  unfolding transparent_def by blast

lemma transparent_backward: "transparent R m \<Longrightarrow> roots_in R c \<Longrightarrow> m (erase c) = (Ok v, d) \<Longrightarrow> \<exists>c'. m c = (Ok v, c') \<and> erase c' = d \<and> roots_in R c'"
  unfolding transparent_def by blast

lemma transparentI:
  assumes "\<And>c v c'. roots_in R c \<Longrightarrow> m c = (Ok v, c') \<Longrightarrow> m (erase c) = (Ok v, erase c') \<and> roots_in R c'"
    and "\<And>c v d. roots_in R c \<Longrightarrow> m (erase c) = (Ok v, d) \<Longrightarrow> \<exists>c'. m c = (Ok v, c') \<and> erase c' = d"
  shows "transparent R m"
  unfolding transparent_def using assms by blast

lemma transparent_return [intro, simp]: "transparent R (sreturn x)"
  by (auto simp: transparent_def)

lemma transparent_lift [intro, simp]: "transparent R (slift r)"
  by (cases r) (auto simp: transparent_def)

lemma transparent_fail [intro, simp]: "transparent R (sfail m)"
  by (simp add: sfail_def)

lemma transparent_get [intro]: "(\<And>c. f (erase c) = f c) \<Longrightarrow> transparent R (sget f)"
  by (auto simp: transparent_def)

lemma transparent_modify: "(\<And>c. erase (h c) = h (erase c)) \<Longrightarrow> (\<And>c. cx_cov (h c) = cx_cov c) \<Longrightarrow> transparent R (smodify h)"
  by (auto simp: transparent_def smodify_def roots_in_def)

lemma transparent_bind:
  assumes m: "transparent R m" and f: "\<And>x. transparent R (f x)"
  shows "transparent R (sbind m f)"
proof (rule transparentI)
  fix c v c'
  assume r: "roots_in R c" and "sbind m f c = (Ok v, c')"
  then obtain x c1 where x: "m c = (Ok x, c1)" "f x c1 = (Ok v, c')" by (auto simp: sbind_Ok)
  from transparent_forward [OF m r x(1)] transparent_forward [OF f _ x(2)]
  show "sbind m f (erase c) = (Ok v, erase c') \<and> roots_in R c'" by (auto simp: sbind_Ok)
next
  fix c v d
  assume r: "roots_in R c" and "sbind m f (erase c) = (Ok v, d)"
  then obtain x c1 where x: "m (erase c) = (Ok x, c1)" "f x c1 = (Ok v, d)" by (auto simp: sbind_Ok)
  from transparent_backward [OF m r x(1)] obtain c2 where c2: "m c = (Ok x, c2)" "erase c2 = c1" "roots_in R c2" by blast
  with transparent_backward [OF f c2(3), of x v d] x(2) show "\<exists>c'. sbind m f c = (Ok v, c') \<and> erase c' = d"
    by (auto simp: sbind_Ok)
qed

lemma transparent_map: "(\<And>x. x \<in> set xs \<Longrightarrow> transparent R (f x)) \<Longrightarrow> transparent R (smap f xs)"
  by (induction xs) (auto intro!: transparent_bind)

lemma transparent_fold: "(\<And>x s. x \<in> set xs \<Longrightarrow> transparent R (f x s)) \<Longrightarrow> transparent R (sfold f xs s)"
  by (induction xs arbitrary: s) (auto intro!: transparent_bind)

text \<open>The branch that is not taken is evaluated without coverage in either run.\<close>

lemma transparent_discarded [intro, simp]: "transparent R (discarded m)"
proof -
  have "(\<exists>c'. discarded m c = (Ok v, c') \<and> erase c' = d) \<longleftrightarrow> discarded m (erase c) = (Ok v, d)" for c v d
  proof -
    obtain r c1 where m: "m (erase c) = (r, c1)" by force
    have "c1\<lparr>cx_cov := None\<rparr> = erase c1" by (simp add: erase_def)
    with m show ?thesis by (cases r) (auto simp: discarded_def erase_def [symmetric])
  qed
  moreover have "roots_in R c'" if "discarded m c = (Ok v, c')" "roots_in R c" for c v c'
    using that by (auto simp: discarded_def split: prod.splits outcome.splits)
  ultimately show ?thesis by (simp add: transparent_def)
qed

lemma transparent_fresh [intro]:
  assumes "transparent R m"
  shows "transparent R (with_fresh_state m)"
proof (rule transparentI)
  fix c :: ctx and v c'
  assume r: "roots_in R c" and "with_fresh_state m c = (Ok v, c')"
  then obtain d where d: "m (c\<lparr>cx_state := default_inst\<rparr>) = (Ok v, d)" "c' = d\<lparr>cx_state := cx_state c\<rparr>"
    by (auto simp: with_fresh_state_def split: prod.splits)
  from transparent_forward [OF assms _ d(1)] r d(2)
  show "with_fresh_state m (erase c) = (Ok v, erase c') \<and> roots_in R c'" by (simp add: with_fresh_state_def)
next
  fix c :: ctx and v d
  assume r: "roots_in R c" and "with_fresh_state m (erase c) = (Ok v, d)"
  then obtain d' where d: "m (erase (c\<lparr>cx_state := default_inst\<rparr>)) = (Ok v, d')" "d = d'\<lparr>cx_state := cx_state c\<rparr>"
    by (auto simp: with_fresh_state_def split: prod.splits)
  from transparent_backward [OF assms _ d(1)] r obtain c' where "m (c\<lparr>cx_state := default_inst\<rparr>) = (Ok v, c')" "erase c' = d'"
    by auto
  with d(2) show "\<exists>c'. with_fresh_state m c = (Ok v, c') \<and> erase c' = d" by (auto simp: with_fresh_state_def)
qed

lemma transparent_isolated [intro]:
  assumes "transparent R m"
  shows "transparent R (isolated m)"
proof (rule transparentI)
  fix c :: ctx and v c'
  assume r: "roots_in R c" and "isolated m c = (Ok v, c')"
  then obtain d where d: "m (c\<lparr>cx_state := default_inst, cx_calls := Map.empty\<rparr>) = (Ok v, d)" "c' = c\<lparr>cx_cov := cx_cov d\<rparr>"
    by (auto simp: isolated_def split: prod.splits)
  from transparent_forward [OF assms _ d(1)] r d(2)
  show "isolated m (erase c) = (Ok v, erase c') \<and> roots_in R c'" by (simp add: isolated_def)
next
  fix c :: ctx and v d
  assume r: "roots_in R c" and "isolated m (erase c) = (Ok v, d)"
  then obtain d' where m: "m (erase (c\<lparr>cx_state := default_inst, cx_calls := Map.empty\<rparr>)) = (Ok v, d')"
    and d: "d = (erase c)\<lparr>cx_cov := cx_cov d'\<rparr>"
    by (auto simp: isolated_def split: prod.splits)
  from transparent_backward [OF assms _ m] r obtain c' where
    m: "m (c\<lparr>cx_state := default_inst, cx_calls := Map.empty\<rparr>) = (Ok v, c')" and "erase c' = d'" by auto
  then have "cx_cov d' = None" by auto
  with d have "d = erase c" by simp
  with m show "\<exists>c'. isolated m c = (Ok v, c') \<and> erase c' = d" by (auto simp: isolated_def)
qed

lemma transparent_instance [intro]:
  assumes body: "\<And>st. transparent R (body st)"
  shows "transparent R (in_instance key body)"
proof -
  have "((\<exists>c'. in_instance key body c = (Ok v, c') \<and> erase c' = d) \<longleftrightarrow> in_instance key body (erase c) = (Ok v, d)) \<and>
      (\<forall>c'. in_instance key body c = (Ok v, c') \<longrightarrow> roots_in R c')" if r: "roots_in R c" for c v d
  proof -
    define sub where "sub = (case cx_calls c key of None \<Rightarrow> default_inst | Some s \<Rightarrow> s)"
    define own where "own = Inst (in_cycle sub) (in_prev sub) (in_ticks sub) Map.empty"
    define start where "start = \<lparr>cx_state = own, cx_calls = in_calls sub, cx_cov = cx_cov c\<rparr>"
    have start: "\<lparr>cx_state = own, cx_calls = in_calls sub, cx_cov = None\<rparr> = erase start" by (simp add: erase_def start_def)
    have rs: "roots_in R start" using r by (simp add: start_def roots_in_def)
    define wrap where "wrap = (\<lambda>(c :: ctx) (d :: ctx). c\<lparr>cx_calls := (cx_calls c)
        (key \<mapsto> Inst (in_cycle (cx_state d)) (in_prev (cx_state d)) (in_ticks (cx_state d)) (cx_calls d)), cx_cov := cx_cov d\<rparr>)"
    have run: "in_instance key body c' = (Ok v, e) \<longleftrightarrow> (\<exists>d. body own (s) = (Ok v, d) \<and> e = wrap c' d)"
      if "s = \<lparr>cx_state = own, cx_calls = in_calls sub, cx_cov = cx_cov c'\<rparr>" "cx_calls c' = cx_calls c" for c' e s
      unfolding in_instance_def Let_def that(2) sub_def [symmetric] own_def [symmetric] that(1) [symmetric] wrap_def
      by (cases "body own s"; cases "fst (body own s)") (auto simp: that)
    have erased: "in_instance key body (erase c) = (Ok v, d) \<longleftrightarrow> (\<exists>e. body own (erase start) = (Ok v, e) \<and> d = wrap (erase c) e)"
      by (rule run) (simp_all add: start [symmetric])
    have plain: "in_instance key body c = (Ok v, e) \<longleftrightarrow> (\<exists>d. body own start = (Ok v, d) \<and> e = wrap c d)" for e
      by (rule run) (simp_all add: start_def)
    have wrap: "erase (wrap c e) = wrap (erase c) (erase e)" for e by (simp add: wrap_def)
    have roots: "roots_in R (wrap c e) = roots_in R e" for e by (simp add: wrap_def)
    show ?thesis
    proof (intro conjI iffI allI impI)
      assume "\<exists>c'. in_instance key body c = (Ok v, c') \<and> erase c' = d"
      then obtain e where e: "body own start = (Ok v, e)" "d = wrap (erase c) (erase e)" unfolding plain wrap [symmetric] by blast
      from transparent_forward [OF body rs e(1)] e(2) show "in_instance key body (erase c) = (Ok v, d)" unfolding erased by blast
    next
      assume "in_instance key body (erase c) = (Ok v, d)"
      then obtain e where e: "body own (erase start) = (Ok v, e)" "d = wrap (erase c) e" unfolding erased by blast
      from transparent_backward [OF body rs e(1)] obtain e' where "body own start = (Ok v, e')" "erase e' = e" by blast
      with e(2) show "\<exists>c'. in_instance key body c = (Ok v, c') \<and> erase c' = d" unfolding plain wrap [symmetric] by (metis wrap)
    next
      fix c' assume "in_instance key body c = (Ok v, c')"
      then obtain e where e: "body own start = (Ok v, e)" "c' = wrap c e" unfolding plain by blast
      with transparent_forward [OF body rs e(1)] show "roots_in R c'" by (simp add: roots)
    qed
  qed
  then show ?thesis by (simp add: transparent_def)
qed

section \<open>Equations and instances\<close>

text \<open>The equations of a node are evaluated transparently.\<close>

definition quiet_body :: "addr set \<Rightarrow> evaluator \<Rightarrow> (nat \<Rightarrow> root) \<Rightarrow> node_def \<Rightarrow> bool" where
  "quiet_body R ev mk node \<longleftrightarrow>
     (\<forall>i env sc. i < length (nd_equations node) \<longrightarrow> transparent R (ev (eq_rhs (nd_equations node ! i)) (root_addr (mk i)) env sc))"

lemma transparent_run:
  assumes "quiet_body R ev mk node" "set order \<subseteq> {..<length (nd_equations node)}"
  shows "transparent R (run_equations cf ev mk node eq_clocks sc order env)"
  unfolding run_equations_def
proof (rule transparent_fold)
  fix i env assume "i \<in> set order"
  with assms have "\<And>env. transparent R (ev (eq_rhs (nd_equations node ! i)) (root_addr (mk i)) env sc)"
    unfolding quiet_body_def by blast
  then show "transparent R (run_equation cf ev mk node eq_clocks sc i env)"
    unfolding run_equation_def Let_def by (auto intro!: transparent_bind)
qed

lemma transparent_finish: "transparent R (finish_cycle chs env)"
  unfolding finish_cycle_def tick_chain_def
  by (auto intro!: transparent_bind transparent_fold transparent_modify)

lemma transparent_bind_lift: "(\<And>x. r = Ok x \<Longrightarrow> transparent R (f x)) \<Longrightarrow> transparent R (sbind (slift r) f)"
  by (cases r) (auto simp: transparent_def sbind_app)

lemma transparent_step_instance:
  assumes "quiet_body R ev mk callee"
  shows "transparent R (step_instance cf ev mk key callee args cs)"
  unfolding step_instance_def Let_def
proof (rule transparent_bind_lift, rule transparent_bind_lift, goal_cases)
  case (1 env order)
  then show ?case
    using transparent_run [OF assms, of order] reachable.callee_order_set [of callee order]
    by (auto split: node_kind.split intro!: transparent_bind transparent_fresh transparent_instance transparent_finish)
qed

lemma transparent_call_values:
  assumes "quiet_body R ev mk callee"
  shows "transparent R (call_function_values cf ev mk callee args cs)"
proof -
  have "transparent R (sbind (run_equations cf ev mk callee [] None order env) (\<lambda>env'. sreturn (extract_output callee env')))"
    if "callee_order callee = Ok order" for order env
    using that by (intro transparent_bind transparent_run [OF assms]) (auto simp: reachable.callee_order_set)
  then show ?thesis
    unfolding call_function_values_def by (auto intro!: transparent_bind_lift transparent_isolated)
qed

lemma transparent_iterator:
  assumes "quiet_body R ev (EquationRoot (nd_name callee)) callee" "\<And>s. seed = Some s \<Longrightarrow> transparent R s"
  shows "transparent R (run_iterator cf ev kind callee arrs seed env)"
  using assms(2) unfolding run_iterator_def Let_def
  by (auto split: iter_kind.split option.split list.split
      intro!: transparent_bind transparent_map transparent_fold transparent_call_values [OF assms(1)])

section \<open>Decisions\<close>

text \<open>A decision that is taken apart returns what its evaluation as an expression returns.\<close>

definition matches :: "addr set \<Rightarrow> (bool \<times> observations) sim \<Rightarrow> val sim \<Rightarrow> bool" where
  "matches R m n \<longleftrightarrow> (\<forall>c. roots_in R c \<longrightarrow>
     (\<forall>b d. (\<exists>obs c'. m c = (Ok (b, obs), c') \<and> erase c' = d) \<longleftrightarrow> n (erase c) = (Ok (VBool b), d)) \<and>
     (\<forall>b obs c'. m c = (Ok (b, obs), c') \<longrightarrow> roots_in R c'))"

lemma matches_forward: "matches R m n \<Longrightarrow> roots_in R c \<Longrightarrow> m c = (Ok (b, obs), c') \<Longrightarrow> n (erase c) = (Ok (VBool b), erase c') \<and> roots_in R c'"
  unfolding matches_def by blast

lemma matches_backward:
  "matches R m n \<Longrightarrow> roots_in R c \<Longrightarrow> n (erase c) = (Ok (VBool b), d) \<Longrightarrow> \<exists>obs c'. m c = (Ok (b, obs), c') \<and> erase c' = d \<and> roots_in R c'"
  unfolding matches_def by blast

lemma matchesI:
  assumes "\<And>c b obs c'. roots_in R c \<Longrightarrow> m c = (Ok (b, obs), c') \<Longrightarrow> n (erase c) = (Ok (VBool b), erase c') \<and> roots_in R c'"
    and "\<And>c b d. roots_in R c \<Longrightarrow> n (erase c) = (Ok (VBool b), d) \<Longrightarrow> \<exists>obs c'. m c = (Ok (b, obs), c') \<and> erase c' = d"
  shows "matches R m n"
  unfolding matches_def using assms by blast

lemma decision_outcome_Ok [simp]: "decision_result v = Ok b \<longleftrightarrow> v = VBool b"
  by (cases v) (auto simp: decision_result_def)

lemma cond_result_Ok [simp]: "cond_result v = Ok b \<longleftrightarrow> v = VBool b"
  by (cases v) (auto simp: cond_result_def)

lemma matches_leaf:
  assumes "transparent R m"
  shows "matches R (sbind m (\<lambda>v. sbind (slift (decision_result v)) (\<lambda>b. sreturn (b, g b)))) m"
proof (rule matchesI)
  fix c b obs c'
  assume r: "roots_in R c" and "sbind m (\<lambda>v. sbind (slift (decision_result v)) (\<lambda>b. sreturn (b, g b))) c = (Ok (b, obs), c')"
  then have "m c = (Ok (VBool b), c')" by (auto simp: sbind_Ok)
  from transparent_forward [OF assms r this] show "m (erase c) = (Ok (VBool b), erase c') \<and> roots_in R c'" .
next
  fix c b d
  assume r: "roots_in R c" and "m (erase c) = (Ok (VBool b), d)"
  from transparent_backward [OF assms this]
  show "\<exists>obs c'. sbind m (\<lambda>v. sbind (slift (decision_result v)) (\<lambda>b. sreturn (b, g b))) c = (Ok (b, obs), c') \<and> erase c' = d"
    by (auto simp: sbind_Ok)
qed

lemma eval_binary_connective:
  assumes "connective op = Some f"
  shows "eval_binary checks op v w = Ok (VBool b) \<longleftrightarrow> (\<exists>x y. v = VBool x \<and> w = VBool y \<and> b = f x y)"
proof -
  have "op \<in> {BAnd, BOr, BXor, BImplies}" using assms by (cases op) (auto simp: connective_def)
  then show ?thesis using assms
    by (cases v; cases w) (auto simp: eval_binary_def connective_def Let_def on_bools_def real_binary_def eval_err_def)
qed

lemma eval_binary_connective_bool:
  assumes "connective op = Some f" "eval_binary checks op v w = Ok u"
  shows "\<exists>b. u = VBool b"
proof -
  have "op \<in> {BAnd, BOr, BXor, BImplies}" using assms by (cases op) (auto simp: connective_def)
  then show ?thesis using assms(2)
    by (cases v; cases w) (auto simp: eval_binary_def connective_def Let_def on_bools_def real_binary_def eval_err_def)
qed

lemma matches_binary:
  assumes f: "connective op = Some f" and l: "matches R ml nl" and r: "\<And>obs. matches R (mr obs) nr"
  shows "matches R (sbind ml (\<lambda>(x, obs1). sbind (mr obs1) (\<lambda>(y, obs2). sreturn (f x y, obs2))))
    (sbind nl (\<lambda>v. sbind nr (\<lambda>w. slift (eval_binary checks op v w))))"
proof (rule matchesI)
  fix c b obs c'
  assume rs: "roots_in R c" and "sbind ml (\<lambda>(x, obs1). sbind (mr obs1) (\<lambda>(y, obs2). sreturn (f x y, obs2))) c = (Ok (b, obs), c')"
  then obtain x obs1 c1 y obs2 where m: "ml c = (Ok (x, obs1), c1)" "mr obs1 c1 = (Ok (y, obs2), c')" "b = f x y"
    by (auto simp: sbind_Ok)
  from matches_forward [OF l rs m(1)] matches_forward [OF r _ m(2)] m(3)
  show "sbind nl (\<lambda>v. sbind nr (\<lambda>w. slift (eval_binary checks op v w))) (erase c) = (Ok (VBool b), erase c') \<and> roots_in R c'"
    using eval_binary_connective [OF f] by (auto simp: sbind_Ok)
next
  fix c b d
  assume rs: "roots_in R c" and "sbind nl (\<lambda>v. sbind nr (\<lambda>w. slift (eval_binary checks op v w))) (erase c) = (Ok (VBool b), d)"
  then obtain v c1 w where n: "nl (erase c) = (Ok v, c1)" "nr c1 = (Ok w, d)" "eval_binary checks op v w = Ok (VBool b)"
    by (auto simp: sbind_Ok)
  then obtain x y where xy: "v = VBool x" "w = VBool y" "b = f x y" using eval_binary_connective [OF f] by blast
  from matches_backward [OF l rs] n(1) xy(1) obtain obs1 c3 where m: "ml c = (Ok (x, obs1), c3)" "erase c3 = c1" "roots_in R c3" by blast
  from matches_backward [OF r m(3)] n(2) xy(2) m(2) obtain obs2 c4 where "mr obs1 c3 = (Ok (y, obs2), c4)" "erase c4 = d" by blast
  with m xy show "\<exists>obs c'. sbind ml (\<lambda>(x, obs1). sbind (mr obs1) (\<lambda>(y, obs2). sreturn (f x y, obs2))) c = (Ok (b, obs), c') \<and> erase c' = d"
    by (auto simp: sbind_Ok)
qed

lemma matches_not:
  assumes "matches R m n"
  shows "matches R (sbind m (\<lambda>(b, obs). sreturn (\<not> b, obs))) (sbind n (\<lambda>v. slift (eval_unary checks UNot v)))"
proof -
  have op: "eval_unary checks UNot v = Ok (VBool b) \<longleftrightarrow> v = VBool (\<not> b)" for v b
    by (cases v) (auto simp: eval_unary_def eval_err_def)
  show ?thesis
  proof (rule matchesI)
    fix c b obs c'
    assume r: "roots_in R c" and "sbind m (\<lambda>(b, obs). sreturn (\<not> b, obs)) c = (Ok (b, obs), c')"
    then have "m c = (Ok (\<not> b, obs), c')" by (auto simp: sbind_Ok)
    from matches_forward [OF assms r this] show "sbind n (\<lambda>v. slift (eval_unary checks UNot v)) (erase c) = (Ok (VBool b), erase c') \<and> roots_in R c'"
      by (auto simp: sbind_Ok op)
  next
    fix c b d
    assume r: "roots_in R c" and "sbind n (\<lambda>v. slift (eval_unary checks UNot v)) (erase c) = (Ok (VBool b), d)"
    then have "n (erase c) = (Ok (VBool (\<not> b)), d)" by (auto simp: sbind_Ok op)
    from matches_backward [OF assms r this] show "\<exists>obs c'. sbind m (\<lambda>(b, obs). sreturn (\<not> b, obs)) c = (Ok (b, obs), c') \<and> erase c' = d"
      by (auto simp: sbind_Ok)
  qed
qed

lemma matches_decision:
  assumes leaf: "transparent R (eval cf ev e a env sc)"
    and kids: "\<And>c i obs. c \<in> set (children e) \<Longrightarrow> matches R (eval_decision cf ev c (child a i) env sc obs) (eval cf ev c (child a i) env sc)"
  shows "matches R (eval_decision cf ev e a env sc obs) (eval cf ev e a env sc)"
proof -
  note l = matches_leaf [OF leaf, of "\<lambda>b. obs(a \<mapsto> b)"]
  show ?thesis
  proof (cases e)
    case (Binary op x y)
    show ?thesis
    proof (cases "connective op")
      case None
      with l Binary show ?thesis by (simp add: eval_decision.simps [of _ _ "Binary op x y"] del: eval.simps)
    next
      case (Some f)
      with matches_binary [OF Some kids kids] Binary show ?thesis
        by (simp add: eval_decision.simps [of _ _ "Binary op x y"])
    qed
  next
    case (Unary op x)
    show ?thesis
    proof (cases op)
      case UNot
      with matches_not [OF kids] Unary show ?thesis by (simp add: eval_decision.simps [of _ _ "Unary UNot x"])
    next
      case UNeg
      with l Unary show ?thesis by (simp add: eval_decision.simps [of _ _ "Unary UNeg x"] del: eval.simps)
    qed
  qed (use l in \<open>simp_all add: eval_decision.simps Let_def del: eval.simps\<close>)
qed

text \<open>The condition of an \<open>if\<close>: recorded, or not.\<close>

lemma note_decision_app:
  "note_decision a b obs c = (Ok b, c\<lparr>cx_cov := map_option (\<lambda>cov. cov_record_trial a obs b (cov_mark a b cov)) (cx_cov c)\<rparr>)"
  by (simp add: note_decision_def update_coverage_def sbind_app smodify_def)

lemma cov_roots_recorded [simp]:
  "cov_roots (cov_mark a b cov) = cov_roots cov" "cov_roots (cov_record_trial a obs b cov) = cov_roots cov"
  by (auto simp: cov_mark_def cov_record_trial_def split: option.split)

lemma roots_in_recorded:
  "roots_in R c \<Longrightarrow> (\<And>cov. cov_roots (h cov) = cov_roots cov) \<Longrightarrow> roots_in R (c\<lparr>cx_cov := map_option h (cx_cov c)\<rparr>)"
  unfolding roots_in_def by (cases "cx_cov c") simp_all

lemma transparent_condition:
  assumes m: "matches R m n" and n: "transparent R n"
  shows "transparent R (sbind (sget (\<lambda>x. cx_cov x \<noteq> None)) (\<lambda>covered.
    if covered then sbind m (\<lambda>(b, obs). note_decision a b obs) else sbind n (\<lambda>v. slift (cond_result v))))"
  (is "transparent R ?t")
proof -
  let ?plain = "sbind n (\<lambda>v. slift (cond_result v))"
  have plain: "transparent R ?plain" by (intro transparent_bind n transparent_lift)
  have erased: "?t (erase c) = ?plain (erase c)" for c by (simp add: sbind_app)
  have "((\<exists>c'. ?t c = (Ok b, c') \<and> erase c' = d) \<longleftrightarrow> ?plain (erase c) = (Ok b, d)) \<and> (\<forall>c'. ?t c = (Ok b, c') \<longrightarrow> roots_in R c')"
    if r: "roots_in R c" for c b d
  proof (cases "cx_cov c")
    case None
    then have "?t c = ?plain c" by (simp add: sbind_app)
    with plain r show ?thesis by (simp add: transparent_def)
  next
    case (Some cov)
    then have t: "?t c = sbind m (\<lambda>(b, obs). note_decision a b obs) c" by (simp add: sbind_app)
    moreover have "(\<exists>c'. sbind m (\<lambda>(b, obs). note_decision a b obs) c = (Ok b, c') \<and> erase c' = d) \<longleftrightarrow>
        (\<exists>obs c'. m c = (Ok (b, obs), c') \<and> erase c' = d)"
      by (auto simp: sbind_Ok note_decision_app)
    moreover have "?plain (erase c) = (Ok b, d) \<longleftrightarrow> n (erase c) = (Ok (VBool b), d)" by (auto simp: sbind_Ok)
    moreover have "roots_in R c'" if "?t c = (Ok b, c')" for c'
    proof -
      from that have "sbind m (\<lambda>(b, obs). note_decision a b obs) c = (Ok b, c')" unfolding t .
      then obtain obs d where "m c = (Ok (b, obs), d)" "note_decision a b obs d = (Ok b, c')"
        by (auto simp: sbind_Ok note_decision_app)
      with matches_forward [OF m r this(1)] show ?thesis by (auto simp: note_decision_app intro!: roots_in_recorded)
    qed
    ultimately show ?thesis using m r by (simp add: matches_def)
  qed
  then show ?thesis unfolding transparent_def erased by blast
qed

section \<open>Expressions\<close>

definition quiet_calls :: "addr set \<Rightarrow> config \<Rightarrow> evaluator \<Rightarrow> bool" where
  "quiet_calls R cf ev \<longleftrightarrow> (\<forall>name callee. find_node (cf_project cf) name = Some callee \<longrightarrow> quiet_body R ev (EquationRoot (nd_name callee)) callee)"

lemma transparent_eval:
  assumes ev: "quiet_calls R cf ev"
  shows "transparent R (eval cf ev e a env sc) \<and> matches R (eval_decision cf ev e a env sc obs) (eval cf ev e a env sc)"
proof (induction e arbitrary: a obs rule: expr_children_induct)
  case (step e)
  have IH: "transparent R (eval cf ev c b env sc)" "matches R (eval_decision cf ev c b env sc obs) (eval cf ev c b env sc)"
    if "c \<in> set (children e)" for c b obs
    using step.IH [OF that] by blast+
  have items: "transparent R (smap (\<lambda>(i, x). eval cf ev x (child a i) env sc) ixs)"
    if "snd ` set ixs \<subseteq> set (children e)" for ixs
    using that by (auto intro!: transparent_map IH)
  have enum: "snd ` set (enumerate n xs) \<subseteq> set xs" for n and xs :: "expr list" by (auto simp: in_set_enumerate_eq)
  have "transparent R (eval cf ev e a env sc)"
  proof (cases e)
    case (Call node args)
    have all: "snd ` set (enumerate 0 args) \<subseteq> set (children e)" using enum [of 0 args] Call by simp
    then have rest: "snd ` set (drop 2 (enumerate 0 args)) \<subseteq> set (children e)" by (auto dest!: in_set_dropD)
    have arg: "transparent R (eval cf ev (args ! i) b env sc)" if "i < length args" for i b
      using that Call by (intro IH) simp
    have call: "transparent R (sbind (slift (called_node (cf_project cf) node (length args))) (\<lambda>callee.
        sbind (smap (\<lambda>(i, x). eval cf ev x (child a i) env sc) (enumerate 0 args)) (\<lambda>vs.
        step_instance cf ev (EquationRoot (nd_name callee)) a callee vs env)))"
    proof (rule transparent_bind_lift)
      fix callee assume "called_node (cf_project cf) node (length args) = Ok callee"
      then have "find_node (cf_project cf) node = Some callee" by (auto simp: called_node_def eval_err_def split: option.splits if_splits)
      with ev have "quiet_body R ev (EquationRoot (nd_name callee)) callee" unfolding quiet_calls_def by blast
      then show "transparent R (sbind (smap (\<lambda>(i, x). eval cf ev x (child a i) env sc) (enumerate 0 args)) (\<lambda>vs.
          step_instance cf ev (EquationRoot (nd_name callee)) a callee vs env))"
        by (intro transparent_bind items all transparent_step_instance)
    qed
    show ?thesis
      unfolding Call eval.simps
      by (auto split: option.split simp: condact_held_def condact_keep_def Let_def
          intro!: transparent_bind transparent_get items rest arg call transparent_modify)
  next
    case (IfThenElse c t f)
    have br: "transparent R (eval cf ev t b env sc)" "transparent R (eval cf ev f b env sc)" for b
      using IfThenElse by (auto intro!: IH)
    have cond: "transparent R (sbind (sget (\<lambda>x. cx_cov x \<noteq> None)) (\<lambda>covered.
         if covered then sbind (eval_decision cf ev c (child a 0) env sc Map.empty) (\<lambda>(b, obs). note_decision (child a 0) b obs)
         else sbind (eval cf ev c (child a 0) env sc) (\<lambda>v. slift (cond_result v))))"
      using IfThenElse by (intro transparent_condition IH) simp_all
    have assoc: "sbind (sget p) (\<lambda>x. sbind (h x) k) = sbind (sbind (sget p) h) k" for p h k
      by (rule ext) (simp add: sbind_app)
    show ?thesis
      unfolding IfThenElse eval.simps(5) Let_def assoc
      by (rule transparent_bind [OF cond]) (auto intro!: transparent_bind br)
  next
    case (Pre x)
    show ?thesis
      unfolding Pre eval.simps(6) eval_pre_def
      by (intro transparent_bind transparent_get) (auto split: expr.split option.split)
  next
    case (Arrow i b)
    have br: "transparent R (eval cf ev i x env sc)" "transparent R (eval cf ev b x env sc)" for x
      using Arrow by (auto intro!: IH)
    show ?thesis
      unfolding Arrow eval.simps(7) Let_def
      by (intro transparent_bind transparent_get) (auto intro!: transparent_bind br)
  next
    case (Iterate kind node init arrays)
    have sub: "set arrays \<subseteq> set (children e)" using Iterate by (auto split: option.split)
    have arr: "transparent R (smap (\<lambda>(i, x). sbind (eval cf ev x (child a i) env sc) (\<lambda>v. slift (as_array v)))
        (enumerate k arrays))" for k
      using sub by (auto intro!: transparent_map transparent_bind IH dest!: enumerate_item)
    have seed: "transparent R s" if "(case init of None \<Rightarrow> None | Some s \<Rightarrow> Some (eval cf ev s (child a 0) env sc)) = Some s" for s
      using that Iterate by (auto split: option.splits intro!: IH)
    show ?thesis
      unfolding Iterate eval.simps(17) Let_def
    proof (rule transparent_bind_lift)
      fix callee assume "iterated_callee (cf_project cf) node = Ok callee"
      then have "find_node (cf_project cf) node = Some callee" by (auto simp: iterated_callee_def eval_err_def split: option.splits if_splits)
      with ev have "quiet_body R ev (EquationRoot (nd_name callee)) callee" unfolding quiet_calls_def by blast
      then show "transparent R (sbind (smap (\<lambda>(i, x). sbind (eval cf ev x (child a i) env sc) (\<lambda>v. slift (as_array v)))
            (enumerate (case init of None \<Rightarrow> 0 | Some x \<Rightarrow> 1) arrays))
          (\<lambda>arrs. run_iterator cf ev kind callee arrs
             (case init of None \<Rightarrow> None | Some s \<Rightarrow> Some (eval cf ev s (child a 0) env sc)) env))"
        by (intro transparent_bind arr transparent_iterator seed)
    qed
  qed (use items [OF order_trans [OF enum]] in \<open>auto split: option.split val.split intro!: transparent_bind IH\<close>)
  moreover from this have "matches R (eval_decision cf ev e a env sc obs) (eval cf ev e a env sc)"
    by (rule matches_decision) (rule IH)
  ultimately show ?case ..
qed

text \<open>The decisions of \<open>R\<close> at the roots of equations combine conditions.\<close>

definition logic_only :: "addr set \<Rightarrow> project \<Rightarrow> bool" where
  "logic_only R p \<longleftrightarrow> (\<forall>name callee i. find_node p name = Some callee \<longrightarrow> i < length (nd_equations callee) \<longrightarrow>
     root_addr (EquationRoot (nd_name callee) i) \<in> R \<longrightarrow>
     2 \<le> length (decision_conditions (eq_rhs (nd_equations callee ! i)) (root_addr (EquationRoot (nd_name callee) i))))"

lemma eval_not_bool: "eval_unary checks UNot v = Ok u \<Longrightarrow> \<exists>b. u = VBool b"
  by (cases v) (auto simp: eval_unary_def eval_err_def)

lemma logic_bool:
  assumes "2 \<le> length (decision_conditions e a)" "eval cf ev e a env sc c = (Ok v, d)"
  shows "\<exists>b. v = VBool b"
proof (cases e)
  case (Binary op l r)
  with assms obtain f where "connective op = Some f" by (cases "connective op") auto
  with assms(2) Binary show ?thesis by (auto simp: sbind_Ok dest: eval_binary_connective_bool)
next
  case (Unary op x)
  with assms have "op = UNot" by (cases op) auto
  with assms(2) Unary show ?thesis by (auto simp: sbind_Ok dest: eval_not_bool)
qed (use assms(1) in simp_all)

lemma transparent_eq_rhs:
  assumes ev: "quiet_calls R cf ev" and root: "a \<in> R \<Longrightarrow> 2 \<le> length (decision_conditions e a)"
  shows "transparent R (eval_eq_rhs cf ev e a env sc)"
proof -
  let ?e = "eval cf ev e a env sc"
  let ?d = "sbind (eval_decision cf ev e a env sc Map.empty) (\<lambda>(outcome, obs).
         sbind (update_coverage (cov_record_trial a obs outcome)) (\<lambda>_. sreturn (VBool outcome)))"
  note e = conjunct1 [OF transparent_eval [OF ev]] and d = conjunct2 [OF transparent_eval [OF ev]]
  have erased: "eval_eq_rhs cf ev e a env sc (erase c) = ?e (erase c)" for c by (simp add: eval_eq_rhs_def sbind_app)
  have "((\<exists>c'. eval_eq_rhs cf ev e a env sc c = (Ok v, c') \<and> erase c' = x) \<longleftrightarrow> ?e (erase c) = (Ok v, x)) \<and>
      (\<forall>c'. eval_eq_rhs cf ev e a env sc c = (Ok v, c') \<longrightarrow> roots_in R c')"
    if r: "roots_in R c" for c v x
  proof (cases "\<exists>cov. cx_cov c = Some cov \<and> cov_is_root cov a")
    case False
    then have "eval_eq_rhs cf ev e a env sc c = ?e c" by (auto simp: eval_eq_rhs_def sbind_app split: option.splits)
    with e [of e a env sc] r show ?thesis by (simp add: transparent_def)
  next
    case True
    then obtain cov where cov: "cx_cov c = Some cov" "cov_is_root cov a" by blast
    with r have "a \<in> R" by (auto simp: roots_in_def cov_is_root_def)
    then have bool: "\<exists>b. v = VBool b" if "?e c = (Ok v, d)" for c v d using logic_bool [OF root that] by blast
    have run: "eval_eq_rhs cf ev e a env sc c = ?d c" using cov by (simp add: eval_eq_rhs_def sbind_app)
    have rec: "?d c = (Ok v, c') \<longleftrightarrow> (\<exists>b obs c1. eval_decision cf ev e a env sc Map.empty c = (Ok (b, obs), c1) \<and> v = VBool b \<and>
        c' = c1\<lparr>cx_cov := map_option (cov_record_trial a obs b) (cx_cov c1)\<rparr>)" for c'
      by (auto simp: sbind_Ok update_coverage_def smodify_def)
    show ?thesis
      unfolding run rec
    proof (intro conjI iffI allI impI)
      assume "\<exists>c'. (\<exists>b obs c1. eval_decision cf ev e a env sc Map.empty c = (Ok (b, obs), c1) \<and> v = VBool b \<and>
          c' = c1\<lparr>cx_cov := map_option (cov_record_trial a obs b) (cx_cov c1)\<rparr>) \<and> erase c' = x"
      then obtain b obs c1 where "eval_decision cf ev e a env sc Map.empty c = (Ok (b, obs), c1)" "v = VBool b" "erase c1 = x" by auto
      with matches_forward [OF d r this(1)] show "?e (erase c) = (Ok v, x)" by simp
    next
      assume v: "?e (erase c) = (Ok v, x)"
      from bool [OF v] obtain b where b: "v = VBool b" by blast
      from matches_backward [OF d r] v b obtain obs c1 where
        "eval_decision cf ev e a env sc Map.empty c = (Ok (b, obs), c1)" "erase c1 = x" by blast
      with b show "\<exists>c'. (\<exists>b obs c1. eval_decision cf ev e a env sc Map.empty c = (Ok (b, obs), c1) \<and> v = VBool b \<and>
          c' = c1\<lparr>cx_cov := map_option (cov_record_trial a obs b) (cx_cov c1)\<rparr>) \<and> erase c' = x" by auto
    next
      fix c'
      assume "\<exists>b obs c1. eval_decision cf ev e a env sc Map.empty c = (Ok (b, obs), c1) \<and> v = VBool b \<and>
          c' = c1\<lparr>cx_cov := map_option (cov_record_trial a obs b) (cx_cov c1)\<rparr>"
      then obtain b obs c1 where c1: "eval_decision cf ev e a env sc Map.empty c = (Ok (b, obs), c1)"
        "c' = c1\<lparr>cx_cov := map_option (cov_record_trial a obs b) (cx_cov c1)\<rparr>" by blast
      from matches_forward [OF d r c1(1)] c1(2) show "roots_in R c'" by (auto intro!: roots_in_recorded)
    qed
  qed
  then show ?thesis unfolding transparent_def erased by blast
qed

lemma quiet_depth:
  assumes "logic_only R (cf_project cf)"
  shows "quiet_calls R cf (eval_depth cf n)"
proof (induction n)
  case 0
  show ?case unfolding quiet_calls_def quiet_body_def eval_depth.simps by blast
next
  case (Suc n)
  show ?case
    unfolding quiet_calls_def quiet_body_def eval_depth.simps
    using assms transparent_eq_rhs [OF Suc] unfolding logic_only_def by blast
qed

section \<open>Cycles\<close>

text \<open>The registered decisions are those of nodes that are found under their names.\<close>

lemma found_once: "find_node p x = Some n \<Longrightarrow> find_node p y = Some m \<Longrightarrow> nd_name n = nd_name m \<Longrightarrow> n = m"
  using find_node_Some(2) [of p x n] find_node_Some(2) [of p y m] by (auto simp: find_node_def)

lemma found_own: "find_node p x = Some n \<Longrightarrow> find_node p (nd_name n) = Some n"
  using find_node_own [OF find_node_Some(1)] found_once by metis

lemma if_condition_path: "q \<in> if_conditions node \<Longrightarrow> snd q \<noteq> []"
proof -
  have "snd q \<noteq> []" if "if_condition x = Some q" for x using that by (cases x rule: if_condition.cases) (auto simp: child_def)
  then show "q \<in> if_conditions node \<Longrightarrow> snd q \<noteq> []" by (auto simp: if_conditions_def equation_ifs_def in_map_filter)
qed

lemma logic_root:
  assumes "root_addr (EquationRoot (nd_name node) i) \<in> logic_roots node"
  shows "2 \<le> length (decision_conditions (eq_rhs (nd_equations node ! i)) (root_addr (EquationRoot (nd_name node) i)))"
  using assms by (auto simp: logic_roots_def equation_roots_def Let_def in_set_enumerate_eq root_addr_def split: if_splits)

lemma logic_root_node: "(q :: addr) \<in> logic_roots node \<Longrightarrow> \<exists>i. q = root_addr (EquationRoot (nd_name node) i)"
  by (auto simp: logic_roots_def equation_roots_def Let_def split: if_splits)

abbreviation registered_roots :: "project \<Rightarrow> string \<Rightarrow> addr set" where
  "registered_roots p root \<equiv> dom (cov_roots (snd (register_from p [root] [] default_coverage)))"

lemma registered_logic_only: "logic_only (registered_roots p root) p"
  unfolding logic_only_def
proof (intro allI impI)
  fix name callee i
  assume found: "find_node p name = Some callee" and i: "i < length (nd_equations callee)"
    and root: "root_addr (EquationRoot (nd_name callee) i) \<in> registered_roots p root"
  let ?a = "root_addr (EquationRoot (nd_name callee) i)"
  from root have "\<exists>name node. find_node p name = Some node \<and> ?a \<in> logic_roots node \<union> if_conditions node"
    unfolding registered_from by (auto simp: default_coverage_def)
  then obtain name' node where node: "find_node p name' = Some node" "?a \<in> logic_roots node \<union> if_conditions node" by blast
  have "snd ?a = []" by (simp add: root_addr_def)
  with node(2) if_condition_path have "?a \<in> logic_roots node" by blast
  moreover from logic_root_node [OF this] have "nd_name node = nd_name callee" by (auto simp: root_addr_def)
  with found_once [OF node(1) found] have "node = callee" by simp
  ultimately show "2 \<le> length (decision_conditions (eq_rhs (nd_equations callee ! i)) ?a)" using logic_root by blast
qed

text \<open>The same simulation, with and without coverage.\<close>

definition covers :: "addr set \<Rightarrow> sim_state \<Rightarrow> sim_state \<Rightarrow> bool" where
  "covers R s t \<longleftrightarrow> t = s\<lparr>si_ctx := erase (si_ctx s)\<rparr> \<and> roots_in R (si_ctx s)"

lemma transparent_cycle:
  assumes R: "logic_only R (cf_project cf)" and ok: "sim_ok cf s" and own: "find_node (cf_project cf) (nd_name (si_node s)) = Some (si_node s)"
  shows "transparent R (entry_cycle cf s env)"
proof -
  from quiet_depth [OF R, of "cf_stack cf"] own
  have "quiet_body R (evaluator_of cf) (entry_root (si_node s)) (si_node s)"
    unfolding quiet_calls_def evaluator_of_def entry_root_def by blast
  then show ?thesis
    unfolding entry_cycle_def using sim_ok_order [OF ok]
    by (intro transparent_bind transparent_run transparent_finish transparent_return) auto
qed

lemma transparent_step_env:
  assumes R: "logic_only R (cf_project cf)" and ok: "sim_ok cf s" and own: "find_node (cf_project cf) (nd_name (si_node s)) = Some (si_node s)"
    and st: "covers R s t"
  shows "step_env cf inputs s = (Ok env, s') \<Longrightarrow> \<exists>t'. step_env cf inputs t = (Ok env, t') \<and> covers R s' t'"
    and "step_env cf inputs t = (Ok env, t') \<Longrightarrow> \<exists>s'. step_env cf inputs s = (Ok env, s') \<and> covers R s' t'"
proof -
  have t: "t = s\<lparr>si_ctx := erase (si_ctx s)\<rparr>" and r: "roots_in R (si_ctx s)" using st by (auto simp: covers_def)
  have cyc: "entry_cycle cf t env = entry_cycle cf s env" for env by (simp add: entry_cycle_def t)
  note tr = transparent_cycle [OF R ok own]
  show "\<exists>t'. step_env cf inputs t = (Ok env, t') \<and> covers R s' t'" if "step_env cf inputs s = (Ok env, s')"
  proof -
    from that obtain env0 c where
      c: "seed_held cf (in_prev (cx_state (si_ctx s))) (own_vars (si_node s)) (si_consts s ++ inputs) = Ok env0"
        "entry_cycle cf s env0 (si_ctx s) = (Ok env, c)" "s' = s\<lparr>si_ctx := c\<rparr>"
      by (auto simp: step_env_def split: outcome.splits prod.splits)
    from transparent_forward [OF tr r c(2)] c(1,3) show ?thesis by (simp add: step_env_def cyc [unfolded t] covers_def t)
  qed
  show "\<exists>s'. step_env cf inputs s = (Ok env, s') \<and> covers R s' t'" if "step_env cf inputs t = (Ok env, t')"
  proof -
    from that obtain env0 d where
      d: "seed_held cf (in_prev (cx_state (si_ctx s))) (own_vars (si_node s)) (si_consts s ++ inputs) = Ok env0"
        "entry_cycle cf s env0 (erase (si_ctx s)) = (Ok env, d)" "t' = t\<lparr>si_ctx := d\<rparr>"
      by (auto simp: step_env_def cyc split: outcome.splits prod.splits) (simp_all add: t)
    from transparent_backward [OF tr r d(2)] obtain c where "entry_cycle cf s env0 (si_ctx s) = (Ok env, c)" "erase c = d" "roots_in R c"
      by blast
    with d show ?thesis by (auto simp: step_env_def covers_def t)
  qed
qed

text \<open>The values of every signal, cycle by cycle, until a cycle fails.\<close>

fun run_cycles :: "config \<Rightarrow> env list \<Rightarrow> sim_state \<Rightarrow> (string, val) btree list outcome" where
  "run_cycles cf [] s = Ok []"
| "run_cycles cf (i # is) s =
     (case step_full cf i s of (r, s') \<Rightarrow> obind r (\<lambda>vs. obind (run_cycles cf is s') (\<lambda>rest. Ok (vs # rest))))"

lemma obind_Ok_iff: "obind r f = Ok y \<longleftrightarrow> (\<exists>x. r = Ok x \<and> f x = Ok y)"
  by (cases r) simp_all

lemma run_cycles_Ok:
  "run_cycles cf (i # is) s = Ok out \<longleftrightarrow> (\<exists>env s' vs rest. step_env cf i s = (Ok env, s') \<and>
     values_of cf env (port_types (nd_inputs (si_node s)) @ port_types (nd_outputs (si_node s)) @ local_types (nd_locals (si_node s))) = Ok vs \<and>
     run_cycles cf is s' = Ok rest \<and> out = to_btree vs # rest)"
proof -
  obtain r s' where "step_env cf i s = (r, s')" by (cases "step_env cf i s")
  then show ?thesis by (cases r) (auto simp: step_full_def obind_Ok_iff)
qed

lemma step_env_ok:
  assumes "sim_ok cf s" "step_env cf inputs s = (Ok env, s')"
  shows "sim_ok cf s' \<and> si_node s' = si_node s"
  by (rule step_env_Ok [OF assms]) (use assms(1) in \<open>auto simp: sim_ok_def\<close>)

lemma transparent_run_cycles:
  assumes R: "logic_only R (cf_project cf)"
  shows "sim_ok cf s \<Longrightarrow> find_node (cf_project cf) (nd_name (si_node s)) = Some (si_node s) \<Longrightarrow> covers R s t \<Longrightarrow>
    run_cycles cf ins s = Ok vs \<longleftrightarrow> run_cycles cf ins t = Ok vs"
proof (induction ins arbitrary: s t vs)
  case (Cons i "is")
  have node: "si_node t = si_node s" using Cons.prems(3) by (simp add: covers_def)
  note step = transparent_step_env [OF R Cons.prems]
  have next_eq: "run_cycles cf is s' = Ok rest \<longleftrightarrow> run_cycles cf is t' = Ok rest"
    if "step_env cf i s = (Ok env, s')" "covers R s' t'" for env s' t' rest
    using step_env_ok [OF Cons.prems(1) that(1)] Cons.prems(2) that(2) by (intro Cons.IH) auto
  show ?case
    unfolding run_cycles_Ok node
  proof (rule iffI, goal_cases)
    case 1
    then show ?case using step(1) next_eq by metis
  next
    case 2
    then show ?case using step(2) next_eq by metis
  qed
qed simp

lemma enabled_covers:
  "cx_cov (si_ctx s) = None \<Longrightarrow> covers (registered_roots (cf_project cf) (nd_name (si_node s))) (enable_coverage cf s) s"
  by (simp add: covers_def enable_coverage_def roots_in_def erase_def)

lemma new_covered:
  assumes "sim_new from_value cf name = Ok s"
  shows "run_cycles cf ins (enable_coverage cf s) = Ok vs \<longleftrightarrow> run_cycles cf ins s = Ok vs"
proof (rule transparent_run_cycles [OF registered_logic_only])
  note new = sim_new_ok [OF assms]
  show "sim_ok cf (enable_coverage cf s)" using new(1) by (simp add: sim_ok_def enable_coverage_def)
  show "find_node (cf_project cf) (nd_name (si_node (enable_coverage cf s))) = Some (si_node (enable_coverage cf s))"
    using assms found_own
    by (auto simp: enable_coverage_def sim_new_def Let_def eval_err_def split: option.splits sum.splits dest!: obind_cases)
  show "covers (registered_roots (cf_project cf) (nd_name (si_node s))) (enable_coverage cf s) s"
    using new(2) by (rule enabled_covers)
qed

end
