(* ===== verification/Sim_Registered.thy ===== *)
theory Sim_Registered
  imports Sim_Transparent Occurrence
begin

text \<open>
  The collector that enabling coverage builds: which decisions it holds, and that each of their indices is the
  index of an entry.
\<close>

section \<open>Addresses of subexpressions\<close>

lemma visited_below: "x \<in> set (visit_at a e) \<Longrightarrow> \<exists>path. fst x = (fst a, path @ snd a)"
proof (induction a e rule: visit_at.induct)
  case (1 a e)
  from 1(2) consider "x = (a, e)" | i c where "(i, c) \<in> set (enumerate 0 (children e))" "x \<in> set (visit_at (child a i) c)"
    unfolding visit_at.simps [of a e] by auto
  then show ?case
  proof cases
    case 1
    then show ?thesis by (auto intro!: exI [of _ "[]"])
  next
    case (2 i c)
    with 1(1) have "\<exists>path. fst x = (fst (child a i), path @ snd (child a i))" by blast
    then show ?thesis by (rule below_child)
  qed
qed

lemma visited_apart:
  assumes "x \<in> set (visit_at (child a i) e)" "y \<in> set (visit_at (child a j) f)" "i \<noteq> j"
  shows "fst x \<noteq> fst y"
proof
  assume same: "fst x = fst y"
  from visited_below [OF assms(1)] visited_below [OF assms(2)] obtain ps qs where
    "fst x = (fst (child a i), ps @ snd (child a i))" "fst y = (fst (child a j), qs @ snd (child a j))" by blast
  with same have "ps @ [i] @ snd a = qs @ [j] @ snd a" by (simp add: child_def)
  with assms(3) show False by (simp add: append_eq_append_conv flip: append.assoc)
qed

lemma visited_distinct: "distinct (map fst (visit_at a e))"
proof (induction a e rule: visit_at.induct)
  case (1 a e)
  have parts: "distinct (map fst (concat (map (\<lambda>(i, c). visit_at (child a i) c) ics)))"
    if "distinct (map fst ics)" "\<And>i c. (i, c) \<in> set ics \<Longrightarrow> distinct (map fst (visit_at (child a i) c))" for ics
    using that
  proof (induction ics)
    case (Cons ic ics)
    obtain i c where ic: "ic = (i, c)" by force
    have "fst x \<noteq> fst y" if x: "x \<in> set (visit_at (child a i) c)" and y: "y \<in> set (concat (map (\<lambda>(i, c). visit_at (child a i) c) ics))" for x y
    proof -
      from y obtain j d where "(j, d) \<in> set ics" "y \<in> set (visit_at (child a j) d)" by auto
      moreover from this Cons.prems(1) ic have "i \<noteq> j" by force
      ultimately show ?thesis using visited_apart [OF x] by blast
    qed
    then have "fst ` set (visit_at (child a i) c) \<inter> fst ` set (concat (map (\<lambda>(i, c). visit_at (child a i) c) ics)) = {}" by fastforce
    with Cons ic show ?case by simp
  qed simp
  have own: "a \<notin> fst ` set (concat (map (\<lambda>(i, c). visit_at (child a i) c) (enumerate 0 (children e))))"
  proof
    assume "a \<in> fst ` set (concat (map (\<lambda>(i, c). visit_at (child a i) c) (enumerate 0 (children e))))"
    then obtain x i c where "x \<in> set (visit_at (child a i) c)" "a = fst x" by auto
    with visited_below [OF this(1)] obtain path where "a = (fst (child a i), path @ snd (child a i))" by metis
    then have "snd a = path @ [i] @ snd a" by (metis append_Cons append_Nil child_def snd_conv)
    then show False by simp
  qed
  have "distinct (map fst (concat (map (\<lambda>(i, c). visit_at (child a i) c) (enumerate 0 (children e)))))"
    by (rule parts) (use 1 in auto)
  with own show ?case unfolding visit_at.simps [of a e] by simp
qed

lemma if_condition_Some: "if_condition x = Some q \<Longrightarrow> q = child (fst x) 0"
  by (cases x rule: if_condition.cases) auto

lemma distinct_filter_step: "distinct (List.map_filter f (x # xs)) \<longleftrightarrow>
    set_option (f x) \<inter> set (List.map_filter f xs) = {} \<and> distinct (List.map_filter f xs)"
  by (cases "f x") (simp_all add: List.map_filter_def)

lemma conditions_apart: "distinct (map fst xs) \<Longrightarrow> distinct (List.map_filter if_condition xs)"
proof (induction xs)
  case (Cons x xs)
  have "set_option (if_condition x) \<inter> set (List.map_filter if_condition xs) = {}"
  proof (rule equals0I)
    fix q assume "q \<in> set_option (if_condition x) \<inter> set (List.map_filter if_condition xs)"
    then obtain y where "y \<in> set xs" "if_condition y = Some q" "if_condition x = Some q" by (auto simp: in_map_filter)
    moreover from this if_condition_Some have "fst x = fst y" by (metis child_eq)
    ultimately show False using Cons.prems by simp
  qed
  with Cons show ?case unfolding distinct_filter_step by simp
qed (simp add: List.map_filter_def)

section \<open>Indices\<close>

text \<open>Every index leads to an entry.\<close>

definition indexed :: "coverage \<Rightarrow> bool" where
  "indexed cov \<longleftrightarrow> (\<forall>q i. cov_roots cov q = Some i \<longrightarrow> i < length (cov_decisions cov)) \<and>
     (\<forall>q i. cov_index cov q = Some i \<longrightarrow> i < length (cov_sites cov))"

lemma indexed_default: "indexed default_coverage"
  by (simp add: indexed_def default_coverage_def)

lemma indexed_grown: "coverage_le v w \<Longrightarrow> indexed v \<Longrightarrow> indexed w"
  unfolding coverage_le_def indexed_def by (metis list_all2_lengthD)

lemma indexed_decision: "indexed cov \<Longrightarrow> indexed (register_decision node ctx q e cov)"
  by (auto simp: indexed_def register_decision_def less_Suc_eq)

lemma indexed_site: "indexed cov \<Longrightarrow> q \<notin> dom (cov_index cov) \<Longrightarrow> indexed (register_site node ctx q e cov)"
  by (auto simp: indexed_def register_site_def Let_def less_Suc_eq)

lemma indexed_condition:
  "indexed cov \<Longrightarrow> set_option (if_condition x) \<inter> dom (cov_index cov) = {} \<Longrightarrow> indexed (register_condition node ctx x cov)"
  by (cases x rule: if_condition.cases) (auto simp: register_condition_def intro!: indexed_decision indexed_site)

lemma indexed_conditions:
  "indexed cov \<Longrightarrow> distinct (List.map_filter if_condition xs) \<Longrightarrow> set (List.map_filter if_condition xs) \<inter> dom (cov_index cov) = {} \<Longrightarrow>
   indexed (fold (register_condition node ctx) xs cov)"
proof (induction xs arbitrary: cov)
  case (Cons x xs)
  have "distinct (List.map_filter if_condition xs)" "set_option (if_condition x) \<inter> set (List.map_filter if_condition xs) = {}"
    using Cons.prems(2) unfolding distinct_filter_step by blast+
  moreover have "set_option (if_condition x) \<inter> dom (cov_index cov) = {}" "set (List.map_filter if_condition xs) \<inter> dom (cov_index cov) = {}"
    using Cons.prems(3) unfolding map_filter_step by blast+
  moreover from this(1) Cons.prems(1) have "indexed (register_condition node ctx x cov)" by (intro indexed_condition)
  ultimately have "indexed (fold (register_condition node ctx) xs (register_condition node ctx x cov))"
    by (intro Cons.IH) (simp_all add: registered_condition Int_Un_distrib Int_commute)
  then show ?case by simp
qed simp

lemma indexed_equation:
  assumes "indexed cov" "set (equation_ifs node ieq) \<inter> dom (cov_index cov) = {}"
  shows "indexed (register_equation node ieq cov)"
proof -
  obtain i eq where ieq: "ieq = (i, eq)" by force
  let ?a = "root_addr (EquationRoot (nd_name node) i)"
  let ?c = "if 2 \<le> length (decision_conditions (eq_rhs eq) ?a) then register_decision node (join_with '', '' (eq_lhs eq)) ?a (eq_rhs eq) cov else cov"
  have "indexed ?c" "dom (cov_index ?c) = dom (cov_index cov)" using assms(1) indexed_decision by auto
  with assms(2) have "indexed (fold (register_condition node (join_with '', '' (eq_lhs eq))) (visit_at ?a (eq_rhs eq)) ?c)"
    by (intro indexed_conditions conditions_apart visited_distinct) (auto simp: ieq equation_ifs_def)
  then show ?thesis by (simp add: register_equation_def ieq Let_def)
qed

lemma equation_ifs_root: "q \<in> set (equation_ifs node ieq) \<Longrightarrow> fst q = EquationRoot (nd_name node) (fst ieq)"
  by (auto simp: equation_ifs_def in_map_filter child_def root_addr_def dest!: if_condition_Some visited_below)

lemma indexed_node:
  assumes "indexed cov" "if_conditions node \<inter> dom (cov_index cov) = {}"
  shows "indexed (register_node node cov)"
proof -
  have "indexed (fold (register_equation node) ieqs cov)"
    if "distinct (map fst ieqs)" "(\<Union>ieq\<in>set ieqs. set (equation_ifs node ieq)) \<inter> dom (cov_index cov) = {}" "indexed cov" for ieqs cov
    using that
  proof (induction ieqs arbitrary: cov)
    case (Cons ieq ieqs)
    have "(\<Union>x\<in>set ieqs. set (equation_ifs node x)) \<inter> set (equation_ifs node ieq) = {}"
    proof (rule equals0I)
      fix q assume "q \<in> (\<Union>x\<in>set ieqs. set (equation_ifs node x)) \<inter> set (equation_ifs node ieq)"
      then obtain x where "x \<in> set ieqs" "q \<in> set (equation_ifs node x)" "q \<in> set (equation_ifs node ieq)" by blast
      with equation_ifs_root [of q node x] equation_ifs_root [of q node ieq] Cons.prems(1) show False by auto
    qed
    with Cons.prems have "indexed (fold (register_equation node) ieqs (register_equation node ieq cov))"
      by (intro Cons.IH indexed_equation) (auto simp: registered_equation simp del: split_paired_All)
    then show ?case by simp
  qed simp
  from this [of "enumerate 0 (nd_equations node)" cov] assms show ?thesis
    unfolding register_node_def if_conditions_def by simp
qed

lemma if_conditions_root: "q \<in> if_conditions node \<Longrightarrow> \<exists>i. fst q = EquationRoot (nd_name node) i"
  by (auto simp: if_conditions_def dest!: equation_ifs_root)

lemma indexed_from:
  "indexed cov \<Longrightarrow> set queue \<subseteq> declared p \<Longrightarrow> (\<forall>q\<in>dom (cov_index cov). \<exists>n\<in>set visited. \<exists>i. fst q = EquationRoot n i) \<Longrightarrow>
   indexed (snd (register_from p queue visited cov))"
proof (induction p queue visited cov rule: register_from.induct)
  case (2 p name queue visited cov)
  show ?case
  proof (cases "name \<in> set visited")
    case True
    with 2(1) [OF True] 2(4-) show ?thesis by simp
  next
    case new: False
    from 2(5) have "name \<in> declared p" by simp
    from declared_found [OF this] obtain node where node: "find_node p name = Some node" "nd_name node = name" by blast
    let ?vs = "bs_insert name visited"
    have apart: "if_conditions node \<inter> dom (cov_index cov) = {}"
    proof (rule equals0I)
      fix q assume "q \<in> if_conditions node \<inter> dom (cov_index cov)"
      with if_conditions_root [of q node] 2(6) node(2) new show False by (metis IntD1 IntD2 root.inject(1))
    qed
    have dom: "dom (cov_index (register_node node cov)) = dom (cov_index cov) \<union> if_conditions node" by (rule registered_node)
    have "\<forall>q\<in>dom (cov_index (register_node node cov)). \<exists>n\<in>set ?vs. \<exists>i. fst q = EquationRoot n i"
    proof
      fix q assume "q \<in> dom (cov_index (register_node node cov))"
      then consider "q \<in> dom (cov_index cov)" | "q \<in> if_conditions node" unfolding dom by blast
      then show "\<exists>n\<in>set ?vs. \<exists>i. fst q = EquationRoot n i"
      proof cases
        case 1
        with 2(6) show ?thesis by (metis insertCI set_bs_insert)
      next
        case 2
        with if_conditions_root [OF 2] node(2) show ?thesis by auto
      qed
    qed
    with 2(3) [OF new node(1) indexed_node [OF 2(4) apart]] 2(5) called_names_declared [of p node ?vs]
    have "indexed (snd (register_from p (queue @ called_names p node ?vs) ?vs (register_node node cov)))" by auto
    with new node(1) show ?thesis by simp
  qed
qed simp

section \<open>The nodes of the entry node\<close>

text \<open>The nodes that the entry node reaches by calls.\<close>

definition reached_nodes :: "project \<Rightarrow> string \<Rightarrow> node_def set" where
  "reached_nodes p root = {node. (\<lambda>x y. y \<in> set (all_called p x))\<^sup>*\<^sup>* root (nd_name node) \<and> find_node p (nd_name node) = Some node}"

lemma registered_index_from:
  "dom (cov_index (snd (register_from p queue visited cov))) = dom (cov_index cov) \<union>
     (\<Union>name\<in>set (fst (register_from p queue visited cov)) - set visited. \<Union>node\<in>set_option (find_node p name). if_conditions node)"
proof (induction p queue visited cov rule: register_from.induct)
  case (2 p name queue visited cov)
  show ?case
  proof (cases "name \<in> set visited")
    case True
    with 2 show ?thesis by simp
  next
    case new: False
    show ?thesis
    proof (cases "find_node p name")
      case None
      let ?vs = "bs_insert name visited"
      have "set (fst (register_from p queue ?vs cov)) - set visited = insert name (set (fst (register_from p queue ?vs cov)) - set ?vs)"
        using new visited_extends [of ?vs queue p cov] by auto
      with 2(2) [OF new None] new None show ?thesis by simp
    next
      case (Some node)
      let ?vs = "bs_insert name visited" and ?qs = "queue @ called_names p node (bs_insert name visited)"
      let ?r = "register_from p ?qs ?vs (register_node node cov)"
      have "set (fst ?r) - set visited = insert name (set (fst ?r) - set ?vs)"
        using new visited_extends [of ?vs ?qs p "register_node node cov"] by auto
      with 2(3) [OF new Some] new Some show ?thesis by (simp add: registered_node Un_ac)
    qed
  qed
qed simp

lemma all_called_declared: "set (all_called p x) \<subseteq> declared p"
  by (cases "find_node p x") (simp_all add: all_called_def called_names_declared)

lemma reached_declared: "(\<lambda>x y. y \<in> set (all_called p x))\<^sup>*\<^sup>* root y \<Longrightarrow> root \<in> declared p \<Longrightarrow> y \<in> declared p"
proof (induction rule: rtranclp_induct)
  case (step y z)
  then show ?case using all_called_declared by blast
qed

lemma reached_union:
  assumes "root \<in> declared p"
  shows "(\<Union>name\<in>{y. (\<lambda>x y. y \<in> set (all_called p x))\<^sup>*\<^sup>* root y}. \<Union>node\<in>set_option (find_node p name). f node) =
    (\<Union>node\<in>reached_nodes p root. f node)"
proof -
  let ?R = "(\<lambda>x y. y \<in> set (all_called p x))\<^sup>*\<^sup>*"
  have found: "nd_name node = name \<and> node \<in> reached_nodes p root" if "?R root name" "find_node p name = Some node" for name node
  proof -
    from declared_found [OF reached_declared [OF that(1) assms]] obtain m where "find_node p name = Some m" "nd_name m = name" by blast
    with that show ?thesis by (simp add: reached_nodes_def)
  qed
  have in_set: "(\<exists>node\<in>set_option (find_node p name). Q node) \<longleftrightarrow> (\<exists>node. find_node p name = Some node \<and> Q node)" for name Q by auto
  show ?thesis
  proof (intro equalityI subsetI)
    fix v assume "v \<in> (\<Union>name\<in>{y. ?R root y}. \<Union>node\<in>set_option (find_node p name). f node)"
    then obtain name node where "?R root name" "find_node p name = Some node" "v \<in> f node" unfolding UN_iff in_set by blast
    with found show "v \<in> (\<Union>node\<in>reached_nodes p root. f node)" by blast
  next
    fix v assume "v \<in> (\<Union>node\<in>reached_nodes p root. f node)"
    then obtain node where "?R root (nd_name node)" "find_node p (nd_name node) = Some node" "v \<in> f node" unfolding reached_nodes_def by blast
    then show "v \<in> (\<Union>name\<in>{y. ?R root y}. \<Union>node\<in>set_option (find_node p name). f node)" unfolding UN_iff in_set by blast
  qed
qed

lemma registered_reached:
  assumes "root \<in> declared p"
  shows "dom (cov_roots (snd (register_from p [root] [] default_coverage))) = (\<Union>node\<in>reached_nodes p root. logic_roots node \<union> if_conditions node)"
    and "dom (cov_index (snd (register_from p [root] [] default_coverage))) = (\<Union>node\<in>reached_nodes p root. if_conditions node)"
    and "indexed (snd (register_from p [root] [] default_coverage))"
proof -
  show "dom (cov_roots (snd (register_from p [root] [] default_coverage))) = (\<Union>node\<in>reached_nodes p root. logic_roots node \<union> if_conditions node)"
    unfolding registered_from visited_reachable [OF assms] reached_union [OF assms, symmetric] by (simp add: default_coverage_def)
  show "dom (cov_index (snd (register_from p [root] [] default_coverage))) = (\<Union>node\<in>reached_nodes p root. if_conditions node)"
    unfolding registered_index_from visited_reachable [OF assms] reached_union [OF assms, symmetric] by (simp add: default_coverage_def)
  show "indexed (snd (register_from p [root] [] default_coverage))"
    by (intro indexed_from indexed_default) (use assms in \<open>simp_all add: default_coverage_def\<close>)
qed

section \<open>What is to be registered\<close>

text \<open>The nodes that an equation of a node calls, wherever the call stands in it.\<close>

definition calls_node :: "project \<Rightarrow> node_def \<Rightarrow> node_def \<Rightarrow> bool" where
  "calls_node p n m \<longleftrightarrow> (\<exists>eq\<in>set (nd_equations n). \<exists>name args. part_of (Call name args) (eq_rhs eq) \<and> find_node p name = Some m)"

text \<open>The addresses of the conditions of the \<open>if\<close>s of a node.\<close>

definition condition_sites :: "node_def \<Rightarrow> addr set" where
  "condition_sites n = {child b 0 | i b c t f. i < length (nd_equations n) \<and>
     stands_at (root_addr (EquationRoot (nd_name n) i)) (eq_rhs (nd_equations n ! i)) b (IfThenElse c t f)}"

text \<open>An expression that combines two or more conditions by logical connectives, possibly negated.\<close>

inductive combines :: "expr \<Rightarrow> bool" where
  connected: "op \<in> {BAnd, BOr, BXor, BImplies} \<Longrightarrow> combines (Binary op l r)"
| negated: "combines x \<Longrightarrow> combines (Unary UNot x)"

definition combined_equations :: "node_def \<Rightarrow> addr set" where
  "combined_equations n = {root_addr (EquationRoot (nd_name n) i) | i. i < length (nd_equations n) \<and> combines (eq_rhs (nd_equations n ! i))}"

lemma visited_located: "(b, y) \<in> set (visit_at a e) \<longleftrightarrow> stands_at a e b y"
proof
  show "(b, y) \<in> set (visit_at a e) \<Longrightarrow> stands_at a e b y"
  proof (induction a e rule: visit_at.induct)
    case (1 a e)
    from 1(2) consider "b = a \<and> y = e" | i c where "(i, c) \<in> set (enumerate 0 (children e))" "(b, y) \<in> set (visit_at (child a i) c)"
      unfolding visit_at.simps [of a e] by auto
    then show ?case
    proof cases
      case (2 i c)
      from 2(1) have "operand e i c" by (auto simp: operand_iff in_set_enumerate_eq)
      then show ?thesis using 1(1) 2 by (blast intro: stands_at.inside)
    qed (simp add: stands_at.here)
  qed
  show "stands_at a e b y \<Longrightarrow> (b, y) \<in> set (visit_at a e)"
  proof (induction rule: stands_at.induct)
    case (here a e)
    then show ?case by (simp add: visit_at.simps [of a e])
  next
    case (inside e i x a b y)
    then have "(i, x) \<in> set (enumerate 0 (children e))" by (auto simp: operand_iff in_set_enumerate_eq)
    with inside show ?case unfolding visit_at.simps [of a e] by auto
  qed
qed

lemma if_condition_iff: "if_condition (b, y) = Some q \<longleftrightarrow> (\<exists>c t f. y = IfThenElse c t f \<and> q = child b 0)"
  by (cases y) auto

lemma if_conditions_sites: "if_conditions n = condition_sites n"
proof -
  have "q \<in> set (equation_ifs n (i, eq)) \<longleftrightarrow>
      (\<exists>b c t f. q = child b 0 \<and> stands_at (root_addr (EquationRoot (nd_name n) i)) (eq_rhs eq) b (IfThenElse c t f))" for q i eq
  proof -
    have "q \<in> set (equation_ifs n (i, eq)) \<longleftrightarrow>
        (\<exists>x\<in>set (visit_at (root_addr (EquationRoot (nd_name n) i)) (eq_rhs eq)). if_condition x = Some q)"
      by (simp add: equation_ifs_def in_map_filter)
    also have "\<dots> \<longleftrightarrow> (\<exists>b y. stands_at (root_addr (EquationRoot (nd_name n) i)) (eq_rhs eq) b y \<and> if_condition (b, y) = Some q)"
      unfolding visited_located [symmetric] by (metis surj_pair)
    finally show ?thesis unfolding if_condition_iff by blast
  qed
  note site = this
  show ?thesis
  proof (intro equalityI subsetI)
    fix q assume "q \<in> if_conditions n"
    then obtain i where "i < length (nd_equations n)" "q \<in> set (equation_ifs n (i, nd_equations n ! i))"
      by (auto simp: if_conditions_def in_set_enumerate_eq)
    then show "q \<in> condition_sites n" unfolding site condition_sites_def by blast
  next
    fix q assume "q \<in> condition_sites n"
    then obtain i where "i < length (nd_equations n)" "q \<in> set (equation_ifs n (i, nd_equations n ! i))"
      unfolding site condition_sites_def by blast
    then show "q \<in> if_conditions n"
      by (auto simp: if_conditions_def in_set_enumerate_eq intro!: bexI [of _ "(i, nd_equations n ! i)"])
  qed
qed

lemma conditions_two: "2 \<le> length (decision_conditions e a) \<longleftrightarrow> combines e"
proof -
  have some: "1 \<le> length (decision_conditions e a)" for e a
    by (induction e a rule: decision_conditions.induct) auto
  show ?thesis
  proof (induction e a rule: decision_conditions.induct)
    case (1 op l r a)
    have "connective op \<noteq> None \<longleftrightarrow> op \<in> {BAnd, BOr, BXor, BImplies}" by (cases op) (auto simp: connective_def)
    moreover have "combines (Binary op l r) \<longleftrightarrow> op \<in> {BAnd, BOr, BXor, BImplies}" by (auto elim: combines.cases intro: combines.intros)
    ultimately show ?case using some [of l "child a 0"] some [of r "child a 1"] by auto
  next
    case (2 op x a)
    have "combines (Unary op x) \<longleftrightarrow> op = UNot \<and> combines x" by (auto elim: combines.cases intro: combines.intros)
    with 2 show ?case by auto
  qed (auto elim: combines.cases)
qed

lemma logic_roots_combined: "logic_roots n = combined_equations n"
proof (intro equalityI subsetI)
  fix q assume "q \<in> logic_roots n"
  then show "q \<in> combined_equations n"
    by (auto simp: logic_roots_def equation_roots_def combined_equations_def Let_def conditions_two in_set_enumerate_eq split: if_splits)
next
  fix q assume "q \<in> combined_equations n"
  then obtain i where "i < length (nd_equations n)" "combines (eq_rhs (nd_equations n ! i))" "q = root_addr (EquationRoot (nd_name n) i)"
    unfolding combined_equations_def by blast
  then show "q \<in> logic_roots n"
    by (auto simp: logic_roots_def equation_roots_def Let_def conditions_two in_set_enumerate_eq intro!: bexI [of _ "(i, nd_equations n ! i)"])
qed

lemma calls_names:
  assumes "find_node p (nd_name n) = Some n"
  shows "y \<in> set (all_called p (nd_name n)) \<longleftrightarrow> (\<exists>m. calls_node p n m \<and> y = nd_name m)"
proof -
  have target: "call_target e = Some callee \<longleftrightarrow> (\<exists>args. e = Call callee args)" for e callee by (cases e) auto
  show ?thesis
    using assms by (auto simp: all_called_def in_called_names calls_node_def part_of_visit target)
qed

lemma calls_found: "calls_node p n m \<Longrightarrow> find_node p (nd_name m) = Some m"
  by (auto simp: calls_node_def dest: found_own)

lemma reached_called:
  assumes "find_node p (nd_name n) = Some n"
  shows "reached_nodes p (nd_name n) = {m. (calls_node p)\<^sup>*\<^sup>* n m}"
proof -
  let ?R = "(\<lambda>x y. y \<in> set (all_called p x))\<^sup>*\<^sup>*"
  have there: "?R (nd_name n) (nd_name m) \<and> find_node p (nd_name m) = Some m" if "(calls_node p)\<^sup>*\<^sup>* n m" for m
    using that
  proof (induction rule: rtranclp_induct)
    case base
    show ?case using assms by simp
  next
    case (step y z)
    then have "nd_name z \<in> set (all_called p (nd_name y))" using calls_names by blast
    with step calls_found show ?case by (blast intro: rtranclp.rtrancl_into_rtrancl)
  qed
  have found: "\<exists>m. (calls_node p)\<^sup>*\<^sup>* n m \<and> nd_name m = y" if "?R (nd_name n) y" for y
    using that
  proof (induction rule: rtranclp_induct)
    case (step y z)
    then obtain m where m: "(calls_node p)\<^sup>*\<^sup>* n m" "nd_name m = y" by blast
    with there have "find_node p (nd_name m) = Some m" by blast
    from calls_names [OF this, of z] step(2) m(2) obtain k where "calls_node p m k" "z = nd_name k" by blast
    with m(1) show ?case by (blast intro: rtranclp.rtrancl_into_rtrancl)
  qed blast
  show ?thesis
  proof (intro equalityI subsetI)
    fix m assume "m \<in> reached_nodes p (nd_name n)"
    then have m: "?R (nd_name n) (nd_name m)" "find_node p (nd_name m) = Some m" by (auto simp: reached_nodes_def)
    from found [OF m(1)] obtain k where k: "(calls_node p)\<^sup>*\<^sup>* n k" "nd_name k = nd_name m" by blast
    from k(2) there [OF k(1)] have "find_node p (nd_name m) = Some k" by metis
    with m(2) have "m = k" by simp
    with k(1) show "m \<in> {m. (calls_node p)\<^sup>*\<^sup>* n m}" by simp
  qed (use there in \<open>auto simp: reached_nodes_def\<close>)
qed

text \<open>A simulation runs the node that its project finds under the node's own name.\<close>

lemma new_found:
  assumes "sim_new from_value cf name = Ok s"
  shows "find_node (cf_project cf) (nd_name (si_node s)) = Some (si_node s)"
proof -
  have "find_node (cf_project cf) name = Some (si_node s)"
    using assms by (auto simp: sim_new_def Let_def eval_err_def split: option.splits sum.splits dest!: obind_cases)
  then show ?thesis by (rule found_own)
qed

end
