(* ===== verification/Coverage_Fixtures.thy ===== *)
theory Coverage_Fixtures
  imports Sim_Registered Fixtures
begin

text \<open>
  Coverage on small projects: a decision of two conditions in a called node, and a function that only an iterator
  uses, whose decisions are not registered.
\<close>

definition guard_e :: expr where
  "guard_e = Binary BAnd (Var ''a'') (Unary UNot (Var ''b''))"

definition guard_node :: node_def where
  "guard_node = mk_node ''guard'' [mk_port ''a'' TBool, mk_port ''b'' TBool] [mk_port ''ok'' TBool] [] [mk_eq ''ok'' guard_e]"

definition pick_node :: node_def where
  "pick_node = mk_node ''pick'' [mk_port ''a'' TBool, mk_port ''b'' TBool] [mk_port ''y'' TInt32] []
     [mk_eq ''y'' (IfThenElse (Call ''guard'' [Var ''a'', Var ''b'']) (Const (LInt 1)) (Const (LInt 2)))]"

definition pick_config :: config where
  "pick_config = mk_config [pick_node, guard_node]"

definition pick_sim :: sim_state where
  "pick_sim = (case sim_new (\<lambda>_. Inl []) pick_config ''pick'' of Ok s \<Rightarrow> s)"

definition pick_inputs :: "bool \<Rightarrow> bool \<Rightarrow> env" where
  "pick_inputs a b = [''a'' \<mapsto> VBool a, ''b'' \<mapsto> VBool b]"

lemma pick_new: "sim_new (\<lambda>_. Inl []) pick_config ''pick'' = Ok pick_sim"
proof -
  have "(case sim_new (\<lambda>_. Inl []) pick_config ''pick'' of Ok _ \<Rightarrow> True | _ \<Rightarrow> False)" by code_simp
  then show ?thesis by (auto simp: pick_sim_def split: outcome.splits)
qed

lemma pick_runs:
  "run_cycles pick_config [pick_inputs True False, pick_inputs True True] pick_sim =
     Ok [[(''a'', VBool True), (''b'', VBool False), (''y'', VInt 1)], [(''a'', VBool True), (''b'', VBool True), (''y'', VInt 2)]]"
  by code_simp

definition pick_covered :: sim_state where
  "pick_covered = enable_coverage pick_config pick_sim"

lemma pick_covered_ok: "sim_ok pick_config pick_covered"
  using sim_new_ok(1) [OF pick_new] by (simp add: pick_covered_def sim_ok_def enable_coverage_def)

text \<open>Two trials of \<open>a and not b\<close> that show the effect of \<open>b\<close>.\<close>

definition guard_addr :: addr where
  "guard_addr = root_addr (EquationRoot ''guard'' 0)"

definition guard_data :: decision_data where
  "guard_data = new_decision guard_node ''ok'' guard_addr guard_e"

definition guard_trial :: "bool \<Rightarrow> bool \<Rightarrow> mcdc_trial" where
  "guard_trial a b = \<lparr>mt_values = [a, b], mt_outcome = (a \<and> \<not> b)\<rparr>"

lemma guard_conditions: "decision_conditions guard_e guard_addr =
    [(child guard_addr 0, ''a''), (child (child guard_addr 1) 0, ''b'')]"
  by code_simp

lemma guard_recorded: "recorded_trial guard_data guard_e guard_addr (guard_trial a b)"
  unfolding recorded_trial_def
proof (intro exI conjI)
  show "eval_decision pick_config (\<lambda>_ _ _ _. sreturn (VBool True)) guard_e guard_addr (pick_inputs a b) None Map.empty fresh_ctx =
      (Ok (a \<and> \<not> b, [child guard_addr 0 \<mapsto> a, child (child guard_addr 1) 0 \<mapsto> b]), fresh_ctx)"
    by (simp add: guard_e_def eval_decision.simps [of _ _ "Binary op l r" for op l r] eval_decision.simps [of _ _ "Unary op x" for op x]
        eval_decision.simps [of _ _ "Var x" for x] connective_def sbind_app eval_var_def pick_inputs_def decision_result_def)
  show "guard_trial a b = trial_of guard_data [child guard_addr 0 \<mapsto> a, child (child guard_addr 1) 0 \<mapsto> b] (a \<and> \<not> b)"
    by (simp add: guard_trial_def trial_of_def guard_data_def new_decision_def guard_conditions child_def)
qed

text \<open>A function that only \<open>map\<close> applies.\<close>

definition clamp_node :: node_def where
  "clamp_node = (mk_node ''clamp'' [mk_port ''x'' TInt32] [mk_port ''y'' TInt32] []
     [mk_eq ''y'' (IfThenElse (Binary BGt (Var ''x'') (Const (LInt 0))) (Var ''x'') (Const (LInt 0)))])\<lparr>nd_kind := Function\<rparr>"

definition clamps_node :: node_def where
  "clamps_node = mk_node ''clamps'' [mk_port ''xs'' (TArray TInt32 2)] [mk_port ''ys'' (TArray TInt32 2)] []
     [mk_eq ''ys'' (Iterate MapIter ''clamp'' None [Var ''xs''])]"

definition clamps_config :: config where
  "clamps_config = mk_config [clamps_node, clamp_node]"

definition clamps_sim :: sim_state where
  "clamps_sim = (case sim_new (\<lambda>_. Inl []) clamps_config ''clamps'' of Ok s \<Rightarrow> s)"

lemma clamps_unregistered:
  "run_cycles clamps_config [[''xs'' \<mapsto> VArray [VInt 3, VInt (- 3)]]] (enable_coverage clamps_config clamps_sim) =
     Ok [[(''xs'', VArray [VInt 3, VInt (- 3)]), (''ys'', VArray [VInt 3, VInt 0])]] \<and>
   coverage_sites (enable_coverage clamps_config clamps_sim) = Some [] \<and>
   mcdc_decisions (enable_coverage clamps_config clamps_sim) = Some []"
  by (intro conjI) code_simp+

end
