(* ===== verification/Spec2Isabelle.thy ===== *)
theory Spec2Isabelle
  imports Lowering_Fixtures Round_Trip_Limits Sim_Input_Laws Slice_Spec Clock_Sites Typecheck_Fixtures Coverage_Fixtures
begin

text \<open>
  OpenLustre Studio is a development environment for a synchronous dataflow language. A project holds
  packages of types, constants, nodes, contracts, state machines and activations. Loading lowers state
  machines and activations to equations; the type checker and the clock inference accept or refuse the
  result; the simulator runs it cycle by cycle; back ends print it as Lustre or C. This development
  models the Rust crates that carry this logic, by definitions that compute, and proves what they
  promise each other.

  \<^bold>\<open>The theories and the code.\<close> Paths are below \<open>src/crates\<close>.

  \<^item> \<open>Prelude\<close>: results (\<open>string + 'a\<close> and the like), maps of the standard library (a sorted association list
    for \<open>BTreeMap\<close>, an association list in order of insertion for a \<open>HashMap\<close> that the code iterates over) with
    the locale \<open>keyed_map\<close> of their laws, decimal digits. \<open>Floats\<close>: binary32 and binary64 with rounding
    to nearest. \<open>Decimal\<close>: number parsing and printing of the standard library.
  \<^item> \<open>IR_Expr\<close>, \<open>IR_Project\<close>: types, literals, expressions, nodes, packages and projects, with the visits and
    lookups on them (\<open>ol_ir/src/types.rs\<close>, \<open>expr.rs\<close>, \<open>node.rs\<close>, \<open>project.rs\<close>). \<open>Occurrence\<close>: what an expression
    is made of, as relations on it that no traversal of the code enters; the specifications of \<open>Order_Spec\<close>,
    \<open>Clock_Sites\<close>, \<open>Slice_Spec\<close>, \<open>Typecheck_Cycles\<close> and \<open>Sim_Registered\<close> are stated with them.
  \<^item> \<open>Order\<close>: the evaluation order of equations (\<open>order.rs\<close>), against the reads of equations in \<open>Order_Spec\<close>.
    \<open>Clocks\<close>: clock inference (\<open>clocks.rs\<close>), its sites against the clocks of positions in \<open>Clock_Sites\<close>.
    \<open>Declock\<close>, \<open>Declock_Laws\<close>: clock elimination (\<open>declock.rs\<close>).
  \<^item> \<open>State_Machine\<close>, \<open>Machine_Laws\<close>, \<open>Machine_Sim\<close>: hierarchical state machines, their lowering, and the run
    of the lowered node as a run of the automaton (\<open>state_machine.rs\<close>). \<open>Activation\<close>, \<open>Activation_Laws\<close>:
    conditional activation (\<open>activation.rs\<close>). \<open>Lowering\<close>: both over a project (\<open>project.rs\<close>).
  \<^item> \<open>Slice\<close>, \<open>Slice_Laws\<close>: the part of a project a root uses (\<open>slice.rs\<close>), against the references between
    declarations in \<open>Slice_Spec\<close>. \<open>Contract\<close>: contracts and their
    observer nodes (\<open>ol_contract_ir/src/lib.rs\<close>). \<open>Diag\<close>: diagnostics (\<open>diag.rs\<close>).
  \<^item> \<open>Typecheck\<close>: type context and inference; \<open>Typecheck_Node\<close>: nodes, constants and projects
    (\<open>ol_typecheck/src/lib.rs\<close>). \<open>Typecheck_Cycles\<close>: exactness of the search for cycles. \<open>Typecheck_Sound\<close>: accepted
    expressions evaluate. \<open>Typecheck_Fixtures\<close>: projects on which the checker and the simulator disagree.
  \<^item> \<open>Values\<close>, \<open>Value_Laws\<close>: values, operators, narrowing, casts; \<open>Sim_Eval\<close>: the interpreter; \<open>Sim\<close>: the
    simulator object and its cycle (\<open>ol_sim/src/lib.rs\<close>). \<open>Sim_Laws\<close>, \<open>Sim_Safety\<close>, \<open>Sim_Cycle\<close>: its
    invariants. \<open>Sim_Coverage\<close>: registration of decisions and the search for independence pairs; \<open>Sim_Coverage_Laws\<close>,
    \<open>Sim_Registered\<close>: what is registered and recorded; \<open>Sim_Transparent\<close>: a run with coverage against a run
    without. \<open>Sim_Input\<close>, \<open>Sim_Input_Laws\<close>: parsing of inputs (\<open>ol_sim/src/input.rs\<close>).
  \<^item> \<open>Lustre_Text\<close>: the printer (\<open>ol_lustre_emit/src/lib.rs\<close>). \<open>Lexer\<close>, \<open>Parser\<close>, \<open>Parser_Laws\<close>: the expression parser
    (\<open>ol_stdlib/src/parser.rs\<close>). \<open>Text_Tokens\<close>, \<open>Round_Trip\<close>, \<open>Round_Trip_Limits\<close>: the printer against the parser.

  \<^bold>\<open>How the code is represented.\<close> A struct is a record, an enum a datatype, \<open>i64\<close> and \<open>u32\<close> are words. A string is the
  list of its UTF-8 bytes. A \<open>Result\<close> is a sum or, in the simulator, \<open>outcome\<close>: a value, an error, or a crash
  (an arithmetic panic, an index panic, stack exhaustion, \<open>unreachable!\<close>). A mutable reference argument is passed and
  returned; the simulator threads its context by \<open>sbind\<close>. Where the code uses addresses of expressions as keys
  (sites of \<open>pre\<close>, calls, decisions), the model uses the path of the expression in its equation.
  Messages are constructors that carry the values the code formats.

  \<^bold>\<open>Bounds.\<close> The evaluator of a call is one level deeper; \<open>cf_stack\<close> bounds the depth, and \<open>step_within_stack\<close>
  shows that a stack deeper than the ranks of calls and types is never exhausted. The parser's fuel is the
  number of tokens, which \<open>parser_always_returns\<close> shows to be enough. \<open>walk_mut\<close> takes the size of the expression,
  a rewritten operand being smaller. \<open>infer_vars\<close> makes the number of passes the code makes. The resolution
  of aliases stops at depth 64, and input values at their nesting bound, as in the code. \<open>cf_checks\<close> says
  whether integer overflow panics (a debug build) or wraps around (a release build).

  \<^bold>\<open>What the lemmas show.\<close> Orders are topological or name a set of equations that wait for each other. The clock
  check accepts what the clock calculus derives. Lowering leaves no construct behind, defines each new
  variable once and simulates the automaton; an activation selects the first branch whose condition holds.
  Clock elimination leaves no sampling, takes fresh names and does not panic. A slice is the least closed
  set that holds the root. Dependencies, sites of temporal operators, references and coverage registrations
  are those of relations stated independently of the code. The simulator never reaches \<open>unreachable!\<close>, keeps clocked variables through
  inactive cycles (and gates an equation that comes before its clock by the previous cycle), loses no coverage, computes the same with coverage as without, and stores values in the range of their type. Parsed inputs have their
  declared type. Printed expressions parse back to themselves, within limits that are stated. The cycle
  check is exact, accepted nodes have an order, and accepted operators evaluate without type errors, up to
  the ranges of integers.
  The locales \<open>sim_invariant\<close>, \<open>declock_invariant\<close>, \<open>bounded\<close> and \<open>reachability\<close> state once what is to be
  shown for each step of the interpreter, of clock elimination, of the parser and of the work lists;
  every invariant of these is an interpretation.

  \<^bold>\<open>Not modelled.\<close> JSON decoding by serde is a parameter (a function from the JSON value) of the contract,
  input and slice models. Left out are the reading of files and projects, the studio server and the command
  line (processes, HTTP), the C emitter, the CoCoSpec and Kind 2 back ends and the contract
  checker, which are text generation or analyses around the core, the formatting of native symbols,
  the YAML library blocks, and the wording of messages.
\<close>

section \<open>Evaluation order\<close>

text \<open>
  C1: The evaluation order of a node is a permutation of its equations in which every equation
  comes after the equations that define a name its right-hand side reads in the same cycle,
  that is, anywhere but under a pre; of several definitions of a name the last one counts. An
  error is returned exactly when such an order cannot exist, and then some equations wait for
  one another in a cycle.
\<close>

theorem evaluation_order_correct:
  "case evaluation_order node of
     Inr order \<Rightarrow> schedule (awaited node) (length (nd_equations node)) order
   | Inl msg \<Rightarrow>
       {S. S \<subseteq> {..<length (nd_equations node)} \<and> S \<noteq> {} \<and> S \<inter> {i. awaited node i \<inter> S = {}} = {}} \<noteq> {} \<and>
       {order. schedule (awaited node) (length (nd_equations node)) order} = {}"
proof (cases "evaluation_order node")
  case (Inl msg)
  obtain S where S: "S \<subseteq> {..<length (nd_equations node)}" "S \<noteq> {}" "\<forall>i\<in>S. node_deps node i \<inter> S \<noteq> {}"
    using evaluation_order_error [OF Inl] by blast
  then have none: "\<not> schedule (awaited node) (length (nd_equations node)) order" for order
    unfolding schedule_awaited [symmetric] using schedule_no_stuck_set by blast
  have "awaited node i \<inter> S \<noteq> {}" if "i \<in> S" for i
  proof -
    from S(1) that have "i < length (nd_equations node)" by auto
    from deps_awaited [OF this] S(3) that show ?thesis by auto
  qed
  then have "S \<in> {S. S \<subseteq> {..<length (nd_equations node)} \<and> S \<noteq> {} \<and> S \<inter> {i. awaited node i \<inter> S = {}} = {}}"
    using S(1,2) by auto
  then have "{S. S \<subseteq> {..<length (nd_equations node)} \<and> S \<noteq> {} \<and> S \<inter> {i. awaited node i \<inter> S = {}} = {}} \<noteq> {}"
    by (metis empty_iff)
  with none Inl show ?thesis by simp
qed (simp add: evaluation_order_schedule schedule_awaited [symmetric])

section \<open>Clocks\<close>

text \<open>
  C2: The clock check of a node reports no violation exactly when every equation obeys the clock
  calculus: its right-hand side is on the equation's clock and so is every variable it
  defines.
\<close>

theorem clock_check_correct:
  "clock_errors (infer_clocks mk node) = [] \<longleftrightarrow>
     list_all (well_clocked (infer_var_clocks node)) (nd_equations node)"
  by (simp add: infer_clocks_errors list_all_iff)

text \<open>
  C3: The clock check records a site for every pre and every arrow of the equations, at its
  address and with the clock it is evaluated on, and for nothing else. The chains that a back
  end counts ticks for are exactly the clocks of these sites other than the base clock,
  without repetition, sorted by key, and a parent comes before its children. The equations are
  told apart by their addresses.
\<close>

theorem chains_sorted_parents_first:
  assumes "inj mk"
  shows "set (site_clocks (infer_clocks mk node)) = node_sites mk node \<and>
   set (chains (infer_clocks mk node)) = snd ` node_sites mk node - {Base} \<and>
   distinct (chains (infer_clocks mk node)) \<and> sorted (map clock_key (chains (infer_clocks mk node))) \<and>
   {(i, j). i < length (chains (infer_clocks mk node)) \<and> j \<le> i \<and>
      (\<exists>c p. chains (infer_clocks mk node) ! j = On c p (chains (infer_clocks mk node) ! i))} = {}"
proof -
  have "i < j" if "i < length (chains (infer_clocks mk node))" "j < length (chains (infer_clocks mk node))"
    "chains (infer_clocks mk node) ! j = On c p (chains (infer_clocks mk node) ! i)" for i j c p
    using chains_parent_first that by blast
  then have "\<not> (j \<le> i \<and> chains (infer_clocks mk node) ! j = On c p (chains (infer_clocks mk node) ! i))"
    if "i < length (chains (infer_clocks mk node))" for i j c p
    using that by (metis le_less_trans not_le)
  then have "{(i, j). i < length (chains (infer_clocks mk node)) \<and> j \<le> i \<and>
      (\<exists>c p. chains (infer_clocks mk node) ! j = On c p (chains (infer_clocks mk node) ! i))} = {}"
    by blast
  with infer_clocks_chains [of mk node] infer_clocks_sites [OF assms, of node] show ?thesis by auto
qed

lemma chains_sorted_parents_first_witness:
  "set (chains (infer_clocks (EquationRoot ''sampled'') (sampled_node [late_c, late_x, late_y, late_o]))) =
     snd ` node_sites (EquationRoot ''sampled'') (sampled_node [late_c, late_x, late_y, late_o]) - {Base} \<and>
   chains (infer_clocks (EquationRoot ''sampled'') (sampled_node [late_c, late_x, late_y, late_o])) = [On ''c'' True Base]"
proof -
  have "inj (EquationRoot ''sampled'')" by (rule injI) simp
  from chains_sorted_parents_first [OF this, of "sampled_node [late_c, late_x, late_y, late_o]"]
  have "set (chains (infer_clocks (EquationRoot ''sampled'') (sampled_node [late_c, late_x, late_y, late_o]))) =
      snd ` node_sites (EquationRoot ''sampled'') (sampled_node [late_c, late_x, late_y, late_o]) - {Base}" by (elim conjE)
  moreover have "chains (infer_clocks (EquationRoot ''sampled'') (sampled_node [late_c, late_x, late_y, late_o])) = [On ''c'' True Base]"
    by code_simp
  ultimately show ?thesis by blast
qed

section \<open>Contracts\<close>

text \<open>
  C4: Interpreting the observer's signals gives the names of exactly the modes whose requires all
  hold, and as violations the labels of the failed assumptions, then of the failed guarantees,
  then of the failed ensures of the active modes.
\<close>

theorem verdict_reports_clauses:
  "verdict (observer c) c (map (signal_value v) (ob_signals (observer c))) =
     ([mo_name mode. (m, mode) \<leftarrow> enumerate 0 (ct_modes c), mode_active v m mode],
      failed_assumptions c v @ failed_guarantees c v @
      concat [failed_ensures v m mode. (m, mode) \<leftarrow> enumerate 0 (ct_modes c), mode_active v m mode])"
  by (rule verdict_observer)

text \<open>
  C5: The observer node of a contract has one Boolean output per signal, with pairwise different
  names, and after the ghost equations exactly one equation per signal, which defines that
  output.
\<close>

theorem observer_well_formed:
  "length (nd_outputs (ob_node (observer c))) = length (ob_signals (observer c)) \<and>
   distinct (map p_name (nd_outputs (ob_node (observer c)))) \<and>
   map p_ty (nd_outputs (ob_node (observer c))) = replicate (length (ob_signals (observer c))) TBool \<and>
   map eq_lhs (drop (ob_ghost_count (observer c)) (nd_equations (ob_node (observer c)))) =
     map (\<lambda>p. [p_name p]) (nd_outputs (ob_node (observer c)))"
proof -
  have "map p_ty (nd_outputs (ob_node (observer c))) = replicate (length (ob_signals (observer c))) TBool"
    by (auto simp: observer_def map_replicate_const [symmetric])
  moreover have "map eq_lhs (drop (ob_ghost_count (observer c)) (nd_equations (ob_node (observer c)))) =
      map (\<lambda>p. [p_name p]) (nd_outputs (ob_node (observer c)))"
    by (auto simp: observer_def)
  ultimately show ?thesis using observer_outputs observer_ports_distinct by blast
qed

section \<open>Values\<close>

text \<open>
  C6: Storing is idempotent: a value stored into a variable of a declared type is unchanged when
  it is stored into that type again, through arrays, records and aliases.
\<close>

theorem stored_values_stable:
  "wf_records (cf_project cf) \<Longrightarrow> wf_val v \<Longrightarrow> fit_to cf t v = Some w \<Longrightarrow> fit_to cf t w = Some w"
  by (rule fit_to_stable)

lemma stored_values_stable_witness:
  "fit_to (mk_config []) (TArray TUint8 2) (VArray [VInt 44, VInt 1]) = Some (VArray [VInt 44, VInt 1])"
proof (rule stored_values_stable [where v = "VArray [VInt 300, VInt 1]"])
  show "wf_records (cf_project (mk_config []))"
    by (simp add: wf_records_def fixture_defs all_types_def)
  show "fit_to (mk_config []) (TArray TUint8 2) (VArray [VInt 300, VInt 1]) = Some (VArray [VInt 44, VInt 1])"
    by code_simp
qed simp

text \<open>
  C7: C's narrowing of a 64-bit value to a sized integer type gives a value of that type's range,
  and leaves a value of the range as it is.
\<close>

theorem narrowing_stays_in_range:
  "int_values t = Some (lo, hi) \<Longrightarrow>
   lo \<le> sint (narrow_int t i) \<and> sint (narrow_int t i) \<le> hi \<and>
   (lo \<le> sint i \<and> sint i \<le> hi \<longrightarrow> narrow_int t i = i)"
  using narrow_int_range narrow_int_in_range by blast

lemma narrowing_stays_in_range_witness:
  "- 128 \<le> sint (narrow_int TInt8 200) \<and> narrow_int TInt8 100 = 100"
  using narrowing_stays_in_range [of TInt8 "- 128" 127 200] narrowing_stays_in_range [of TInt8 "- 128" 127 100]
  by simp

text \<open>
  C8: In a build with overflow checks, an integer operator that returns a value returns the
  mathematical result: addition, subtraction, multiplication, and the truncating quotient and
  remainder.
\<close>

theorem integer_operators_exact:
  "eval_binary True op (VInt a) (VInt b) = Ok (VInt c) \<Longrightarrow>
   exact_result op (sint a) (sint b) = Some k \<Longrightarrow> sint c = k"
  by (rule eval_binary_exact)

lemma integer_operators_exact_witness: "sint (- 3 :: i64) = tdiv (- 7) 2"
proof -
  have "eval_binary True BDiv (VInt (- 7)) (VInt 2) = Ok (VInt (- 3))" by code_simp
  moreover have "exact_result BDiv (sint (- 7 :: i64)) (sint (2 :: i64)) = Some (tdiv (- 7) 2)" by simp
  ultimately show ?thesis by (rule integer_operators_exact)
qed

text \<open>
  C9: In a build without overflow checks a binary operator ends the program exactly for the
  smallest integer divided by, or taken modulo, minus one.
\<close>

theorem release_build_crashes:
  "eval_binary False op l r = Crash c \<longleftrightarrow>
     c = ArithOverflow \<and> op \<in> {BDiv, BMod} \<and> l = VInt min_i64 \<and> r = VInt (- 1)"
  by (rule eval_binary_release_crash)

section \<open>The simulator\<close>

text \<open>
  C10: No cycle of a constructed simulator reaches the unreachable branch of a call, whatever the
  inputs, the model and its coverage settings are.
\<close>

theorem step_never_unreachable:
  "sim_ok cf s \<Longrightarrow> fst (step_env cf inputs s) \<noteq> Crash Unreachable"
  by (rule step_env_reachable)

lemma step_never_unreachable_witness:
  "fst (step_env (mk_config demo_nodes) demo_inputs demo_sim) \<noteq> Crash Unreachable"
  by (rule step_never_unreachable [OF demo_sim_ok])

text \<open>
  C11: When no node calls itself through others and no type contains itself, a stack deeper than
  the nesting of calls and of types is never exhausted: a cycle ends with the values of all
  variables, with one of the simulator's errors, or with one of the two panics that depend on
  the values computed, an overflow of integer arithmetic or a fold over no array.
\<close>

theorem step_within_stack:
  "sim_ok cf s \<Longrightarrow> ranked_types (cf_project cf) tr \<Longrightarrow>
   \<forall>t\<in>set (all_types (cf_project cf)). tr (td_name t) < n \<Longrightarrow> n < cf_stack cf \<Longrightarrow>
   ranked_calls (cf_project cf) rk \<Longrightarrow> rk (nd_name (si_node s)) < cf_stack cf \<Longrightarrow>
   case fst (step_env cf inputs s) of
     Ok env \<Rightarrow> True
   | Err e \<Rightarrow> True
   | Crash k \<Rightarrow> k = ArithOverflow \<or> k = IndexPanic"
  using step_env_bounded [of cf s rk inputs] types_fit_ranked [of cf tr n] step_env_reachable [of cf s inputs]
  by (auto split: outcome.split intro: crash.exhaust)

lemma step_within_stack_witness:
  "case fst (step_env (mk_config demo_nodes) demo_inputs demo_sim) of
     Ok env \<Rightarrow> True
   | Err e \<Rightarrow> True
   | Crash k \<Rightarrow> k = ArithOverflow \<or> k = IndexPanic"
  by (rule step_within_stack [where tr = "\<lambda>_. 0" and rk = "\<lambda>_. 0" and n = 0, OF demo_sim_ok _ _ _ demo_calls])
    (simp_all add: ranked_types_def all_types_def fixture_defs)

text \<open>
  C12: A successful cycle of a simulation whose clock chains have pairwise different keys counts
  itself, makes the values of the cycle the previous values of the next one, counts a tick of
  exactly the clock chains that are active in it, and leaves the simulator well formed.
\<close>

theorem step_advances_cycle:
  "sim_ok cf s \<Longrightarrow> step_env cf inputs s = (Ok env, s') \<Longrightarrow>
   distinct (map clock_key (chains (si_clock_info s))) \<Longrightarrow>
   in_cycle (cx_state (si_ctx s')) = Suc (in_cycle (cx_state (si_ctx s))) \<and>
   in_prev (cx_state (si_ctx s')) = in_prev (cx_state (si_ctx s)) ++ env \<and>
   (\<forall>ck\<in>set (chains (si_clock_info s)).
      ticks_of ck (cx_state (si_ctx s')) =
        (if clock_active ck env = Ok True then Suc (ticks_of ck (cx_state (si_ctx s)))
         else ticks_of ck (cx_state (si_ctx s)))) \<and>
   sim_ok cf s'"
  by (rule step_env_advances)

lemma step_advances_cycle_witness: "in_cycle (cx_state (si_ctx (snd demo_step))) = 1"
proof -
  obtain env s' where step: "step_env (mk_config demo_nodes) demo_inputs demo_sim = (Ok env, s')"
    using demo_step_ok by blast
  have "distinct (map clock_key (chains (si_clock_info demo_sim)))" by code_simp
  from step_advances_cycle [OF demo_sim_ok step this] show ?thesis
    using sim_new_ok(3) [OF demo_sim_new] step by (simp add: demo_step_def)
qed

text \<open>
  C13: A variable whose clock is not active in a cycle keeps its previous value, provided nothing
  else defines it and the variables of its clock are computed before its equation.
\<close>

theorem clocked_variable_holds:
  assumes "sim_ok cf s" and "step_env cf inputs s = (Ok env, s')"
    and "si_eq_order s = before @ j # after"
    and "j < length (equation_clocks (si_clock_info s))"
      "clock_active (equation_clocks (si_clock_info s) ! j) env = Ok False"
    and "\<forall>i\<in>set (j # after). \<forall>v\<in>fst ` set (conditions (equation_clocks (si_clock_info s) ! j)).
        v \<notin> set (eq_lhs (nd_equations (si_node s) ! i))"
    and "\<forall>i\<in>set (before @ after). x \<notin> set (eq_lhs (nd_equations (si_node s) ! i))"
    and "x \<in> fst ` set (own_vars (si_node s))" "(si_consts s ++ inputs) x = None"
      "in_prev (cx_state (si_ctx s)) x = Some v"
  shows "env x = Some v"
  by (rule clocked_hold [OF assms])

lemma clocked_variable_holds_witness:
  "map_option (\<lambda>env. env ''y'') (case step_env (mk_config demo_nodes)
     [''i'' \<mapsto> VBool False, ''k'' \<mapsto> VInt 6] (snd demo_step) of (Ok env, _) \<Rightarrow> Some env | _ \<Rightarrow> None) =
   Some (Some (VInt 9))"
proof -
  let ?in = "[''i'' \<mapsto> VBool False, ''k'' \<mapsto> VInt 6]"
  have run: "(case step_env (mk_config demo_nodes) ?in (snd demo_step) of
      (Ok env, _) \<Rightarrow> env ''c'' = Some (VBool False) | _ \<Rightarrow> False)"
    by code_simp
  then obtain env s' where step: "step_env (mk_config demo_nodes) ?in (snd demo_step) = (Ok env, s')"
    and c: "env ''c'' = Some (VBool False)"
    by (auto split: outcome.splits prod.splits)
  obtain env1 s1 where first: "step_env (mk_config demo_nodes) demo_inputs demo_sim = (Ok env1, s1)"
    using demo_step_ok by blast
  have dist: "distinct (map clock_key (chains (si_clock_info demo_sim)))" by code_simp
  have ok: "sim_ok (mk_config demo_nodes) (snd demo_step)"
    using step_env_advances [OF demo_sim_ok first dist] first by (simp add: demo_step_def)
  have clocks: "equation_clocks (si_clock_info (snd demo_step)) =
      [Base, On ''c'' True Base, On ''c'' True Base, Base]" by code_simp
  have order: "si_eq_order (snd demo_step) = [0, 1] @ 2 # [3]" by code_simp
  have lhs: "map eq_lhs (nd_equations (si_node (snd demo_step))) = [[''c''], [''x''], [''y''], [''o'']]"
    by code_simp
  have idx: "eq_lhs (nd_equations (si_node (snd demo_step)) ! i) = map eq_lhs (nd_equations (si_node (snd demo_step))) ! i"
    if "i < 4" for i
    using that arg_cong [OF lhs, of length] by simp
  have vars: "''y'' \<in> fst ` set (own_vars (si_node (snd demo_step)))" by code_simp
  have fresh: "(si_consts (snd demo_step) ++ ?in) ''y'' = None" by code_simp
  have prev: "in_prev (cx_state (si_ctx (snd demo_step))) ''y'' = Some (VInt 9)" by code_simp
  have "env ''y'' = Some (VInt 9)"
    by (rule clocked_variable_holds [OF ok step order _ _ _ _ vars fresh prev])
      (simp_all add: clocks idx lhs clock_active_def c)
  with step show ?thesis by simp
qed

text \<open>
  C14: Enabling coverage registers exactly the conditions of the `if`s of the node that is
  simulated and of the nodes it reaches through calls, and as decisions these conditions and
  the equations that combine conditions with a boolean connective. Every registered index is
  the index of an entry, so that recording never indexes out of range. The functions that only
  iterators apply are not reached.
\<close>

theorem coverage_registers_called_nodes:
  assumes "sim_new from_value cf name = Ok s"
  shows "\<exists>cov. cx_cov (si_ctx (enable_coverage cf s)) = Some cov \<and> indexed cov \<and>
    dom (cov_index cov) = (\<Union>node\<in>{n. (calls_node (cf_project cf))\<^sup>*\<^sup>* (si_node s) n}. condition_sites node) \<and>
    dom (cov_roots cov) =
      (\<Union>node\<in>{n. (calls_node (cf_project cf))\<^sup>*\<^sup>* (si_node s) n}. combined_equations node \<union> condition_sites node)"
proof -
  have "nd_name (si_node s) \<in> nd_name ` set (all_nodes (cf_project cf))"
    using sim_new_ok(1) [OF assms] by (simp add: sim_ok_def)
  from registered_reached [OF this] show ?thesis
    by (simp add: enable_coverage_def reached_called [OF new_found [OF assms]] if_conditions_sites logic_roots_combined)
qed

lemma coverage_registers_called_nodes_witness:
  "\<exists>cov. cx_cov (si_ctx (enable_coverage pick_config pick_sim)) = Some cov \<and> indexed cov \<and>
    dom (cov_index cov) = (\<Union>node\<in>{n. (calls_node (cf_project pick_config))\<^sup>*\<^sup>* (si_node pick_sim) n}. condition_sites node)"
  using coverage_registers_called_nodes [OF pick_new] by blast

text \<open>
  C15: A cycle never loses coverage data, even when it fails: no collector appears or disappears,
  registered decisions and sites stay, outcomes already seen stay seen, trials are only
  appended, each distinct one once, and indices stay indices of entries.
\<close>

theorem coverage_only_grows:
  "sim_ok cf s \<Longrightarrow>
   case cx_cov (si_ctx s) of
     None \<Rightarrow> cx_cov (si_ctx (snd (step_env cf inputs s))) = None
   | Some cov \<Rightarrow> \<exists>cov'. cx_cov (si_ctx (snd (step_env cf inputs s))) = Some cov' \<and> coverage_le cov cov' \<and>
       (indexed cov \<longrightarrow> indexed cov')"
  using step_env_coverage [of cf s inputs] indexed_grown by (cases "cx_cov (si_ctx s)") fastforce+

lemma coverage_only_grows_witness:
  "\<exists>cov cov'. cx_cov (si_ctx pick_covered) = Some cov \<and>
     cx_cov (si_ctx (snd (step_env pick_config (pick_inputs True False) pick_covered))) = Some cov' \<and> coverage_le cov cov'"
proof -
  obtain cov where cov: "cx_cov (si_ctx pick_covered) = Some cov" by (simp add: pick_covered_def enable_coverage_def)
  with coverage_only_grows [OF pick_covered_ok, of "pick_inputs True False"] show ?thesis by auto
qed

text \<open>
  C16: Measuring does not disturb: a simulation with coverage runs the same cycles with the same
  values of every signal as the simulation without it. Decisions are then taken apart into
  their conditions and recorded, but return what the expression returns.
\<close>

theorem coverage_is_transparent:
  "sim_new from_value cf name = Ok s \<Longrightarrow>
   run_cycles cf ins (enable_coverage cf s) = Ok vs \<longleftrightarrow> run_cycles cf ins s = Ok vs"
  by (rule new_covered)

lemma coverage_is_transparent_witness:
  "run_cycles pick_config [pick_inputs True False, pick_inputs True True] (enable_coverage pick_config pick_sim) =
     Ok [[(''a'', VBool True), (''b'', VBool False), (''y'', VInt 1)], [(''a'', VBool True), (''b'', VBool True), (''y'', VInt 2)]]"
  using coverage_is_transparent [OF pick_new] pick_runs by blast

text \<open>
  C17: The search for independence pairs is exact and sound. On trials that evaluations of a
  decision recorded, a pair it returns differs in the outcome and in the value of that
  condition alone, so the decision's value depends on the condition; when it returns none, no
  pair of the trials shows it.
\<close>

theorem independence_pairs_decide:
  assumes "dd_cond_ptrs d = map fst (decision_conditions e a)" "\<forall>t\<in>set trials. recorded_trial d e a t"
    and "i < length (dd_cond_ptrs d)"
  shows "case mcdc_independence (length (dd_cond_ptrs d)) trials ! i of
      Some (x, y) \<Rightarrow> x < y \<and> y < length trials \<and> shows_independence (length (dd_cond_ptrs d)) i (trials ! x) (trials ! y) \<and>
        (\<exists>v. decision_value e a (v(dd_cond_ptrs d ! i := True)) \<noteq> decision_value e a (v(dd_cond_ptrs d ! i := False)))
    | None \<Rightarrow> \<forall>y<length trials. \<forall>x<y. \<not> shows_independence (length (dd_cond_ptrs d)) i (trials ! x) (trials ! y)"
proof (cases "mcdc_independence (length (dd_cond_ptrs d)) trials ! i")
  case None
  with independence_exact [OF assms(3), of trials] show ?thesis by simp
next
  case (Some xy)
  obtain x y where xy: "xy = (x, y)" by force
  have rows: "\<forall>t\<in>set trials. truth_row e a t" using recorded_truth [OF _ assms(1)] assms(2) by blast
  show ?thesis
    using independence_exact [OF assms(3), of trials] independence_sound [OF rows, of i x y] assms Some xy by simp
qed

lemma independence_pairs_decide_witness:
  "mcdc_independence 2 [guard_trial True False, guard_trial True True] ! 1 = Some (0, 1) \<and>
   (\<exists>v. decision_value guard_e guard_addr (v(child (child guard_addr 1) 0 := True)) \<noteq>
        decision_value guard_e guard_addr (v(child (child guard_addr 1) 0 := False)))"
proof -
  have pair: "mcdc_independence 2 [guard_trial True False, guard_trial True True] ! 1 = Some (0, 1)" by code_simp
  have conds: "dd_cond_ptrs guard_data = [child guard_addr 0, child (child guard_addr 1) 0]"
    by (simp add: guard_data_def new_decision_def guard_conditions)
  then have nth: "dd_cond_ptrs guard_data ! 1 = child (child guard_addr 1) 0" and len: "length (dd_cond_ptrs guard_data) = 2" by simp_all
  have "dd_cond_ptrs guard_data = map fst (decision_conditions guard_e guard_addr)" by (simp add: conds guard_conditions)
  moreover have "\<forall>t\<in>set [guard_trial True False, guard_trial True True]. recorded_trial guard_data guard_e guard_addr t"
    by (simp add: guard_recorded)
  ultimately show ?thesis
    using independence_pairs_decide [of guard_data guard_e guard_addr "[guard_trial True False, guard_trial True True]" 1, unfolded len nth pair]
      pair unfolding option.case prod.case by simp
qed

text \<open>
  C18: An equation that is evaluated before the variables of its own clock are computed is gated by
  what these variables were in the previous cycle: when the clock was off then, the variable
  that only this equation defines keeps its value, whatever the clock is in the present cycle.
  The evaluation order allows this, because the variables of an equation's clock need not
  occur in the equation.
\<close>

theorem late_gate_reads_previous_cycle:
  assumes "sim_ok cf s" and "step_env cf inputs s = (Ok env, s')"
    and "si_eq_order s = before @ j # after"
    and "j < length (equation_clocks (si_clock_info s))"
      "clock_active (equation_clocks (si_clock_info s) ! j) (in_prev (cx_state (si_ctx s))) = Ok False"
    and "\<forall>v\<in>fst ` set (conditions (equation_clocks (si_clock_info s) ! j)).
        v \<in> fst ` set (own_vars (si_node s)) \<and> (si_consts s ++ inputs) v = None \<and> in_prev (cx_state (si_ctx s)) v \<noteq> None \<and>
        (\<forall>i\<in>set before. v \<notin> set (eq_lhs (nd_equations (si_node s) ! i)))"
    and "\<forall>i\<in>set (before @ after). x \<notin> set (eq_lhs (nd_equations (si_node s) ! i))"
    and "x \<in> fst ` set (own_vars (si_node s))" "(si_consts s ++ inputs) x = None"
      "in_prev (cx_state (si_ctx s)) x = Some v"
  shows "env x = Some v"
  by (rule late_gate [OF assms])

lemma late_gate_reads_previous_cycle_witness:
  "map_option (\<lambda>env. (env ''c'', env ''y'')) (case step_env (mk_config late_nodes)
     [''i'' \<mapsto> VBool True, ''k'' \<mapsto> VInt 6] (snd late_step) of (Ok env, _) \<Rightarrow> Some env | _ \<Rightarrow> None) =
   Some (Some (VBool True), Some (VInt 0))"
proof -
  let ?in = "[''i'' \<mapsto> VBool True, ''k'' \<mapsto> VInt 6]"
  have run: "(case step_env (mk_config late_nodes) ?in (snd late_step) of
      (Ok env, _) \<Rightarrow> env ''c'' = Some (VBool True) | _ \<Rightarrow> False)"
    by code_simp
  then obtain env s' where step: "step_env (mk_config late_nodes) ?in (snd late_step) = (Ok env, s')"
    and c: "env ''c'' = Some (VBool True)"
    by (auto split: outcome.splits prod.splits)
  have clocks: "equation_clocks (si_clock_info (snd late_step)) =
      [On ''c'' True Base, On ''c'' True Base, Base, Base]" by code_simp
  have order: "si_eq_order (snd late_step) = [] @ 0 # [2, 3, 1]" by code_simp
  have lhs: "map eq_lhs (nd_equations (si_node (snd late_step))) = [[''y''], [''x''], [''c''], [''o'']]"
    by code_simp
  have idx: "eq_lhs (nd_equations (si_node (snd late_step)) ! i) = map eq_lhs (nd_equations (si_node (snd late_step))) ! i"
    if "i < 4" for i
    using that arg_cong [OF lhs, of length] by simp
  have vars: "''y'' \<in> fst ` set (own_vars (si_node (snd late_step)))" "''c'' \<in> fst ` set (own_vars (si_node (snd late_step)))"
    by code_simp+
  have fresh: "(si_consts (snd late_step) ++ ?in) ''y'' = None" "(si_consts (snd late_step) ++ ?in) ''c'' = None" by code_simp+
  have prev: "in_prev (cx_state (si_ctx (snd late_step))) ''y'' = Some (VInt 0)"
    "in_prev (cx_state (si_ctx (snd late_step))) ''c'' = Some (VBool False)" by code_simp+
  have "env ''y'' = Some (VInt 0)"
    by (rule late_gate_reads_previous_cycle [OF late_step_ok step order _ _ _ _ vars(1) fresh(1) prev(1)])
      (simp_all add: clocks idx lhs clock_active_def prev(2) vars(2) fresh(2) del: fun_upd_apply map_add_upd)
  with step c show ?thesis by simp
qed

section \<open>State machines\<close>


text \<open>
  C20: Inlining always ends: it succeeds exactly when every machine reached through references is
  declared, is not the machine itself and does not reach itself, and fails otherwise.
\<close>

theorem refinements_resolved_unless_cyclic:
  "(\<exists>sm'. resolve_refines sm by_name = Inr sm') \<longleftrightarrow>
     (refers by_name)\<^sup>* `` (\<Union> (state_refs ` set (sm_states sm))) \<subseteq>
       {t. t \<noteq> sm_name sm \<and> map_of by_name t \<noteq> None \<and> (t, t) \<notin> (refers by_name)\<^sup>+}"
  using resolve_refines_defined [of sm by_name] by (simp add: resolvable_def)

text \<open>
  C21: A machine whose references are inlined refers to no machine in any of its nested states, and
  differs from the original in its states only.
\<close>

theorem inlined_machine_has_no_references:
  "resolve_refines sm by_name = Inr sm' \<Longrightarrow>
     list_all unrefined_state (sm_states sm') \<and> sm'\<lparr>sm_states := sm_states sm\<rparr> = sm"
  by (auto simp: resolve_refines_def rbind_eq_Inr dest: resolve_states_unrefined)

lemma inlined_machine_has_no_references_witness:
  "list_all unrefined_state (sm_states (case resolve_refines light_host [(''light'', light)] of Inr sm' \<Rightarrow> sm'))"
proof -
  have "(case resolve_refines light_host [(''light'', light)] of Inr _ \<Rightarrow> True | _ \<Rightarrow> False)" by code_simp
  then obtain sm' where sm': "resolve_refines light_host [(''light'', light)] = Inr sm'" by (auto split: sum.splits)
  from inlined_machine_has_no_references [OF this] show ?thesis by (simp add: sm')
qed

text \<open>
  C22: In a lowered machine whose outputs have pairwise different names, none of them of the form
  of a generated name, no variable is defined twice, and the variables defined are the
  generated locals and the outputs.
\<close>

theorem lowered_variables_defined_once:
  "lower_machine sm = Inr m \<Longrightarrow> distinct (map p_name (sm_outputs sm)) \<Longrightarrow>
   list_all (\<lambda>p. \<not> generated_name (p_name p)) (sm_outputs sm) \<Longrightarrow>
   distinct (concat (map eq_lhs (nd_equations (lm_node m)))) \<and>
   set (concat (map eq_lhs (nd_equations (lm_node m)))) =
     set (map l_name (drop (length (sm_locals sm)) (nd_locals (lm_node m)))) \<union> set (map p_name (sm_outputs sm))"
  using lower_machine_defines by blast

lemma lowered_variables_defined_once_witness:
  "distinct (concat (map eq_lhs (nd_equations (lm_node light_lowered))))"
  using lowered_variables_defined_once [OF light_low] by (simp add: light_def mk_machine_def mk_port_def generated_name_def)

text \<open>
  C23: In a run of the simulator on a lowered machine, from its first cycle on, the state variable
  of each region goes through a run of the region's automaton: it starts in the initial state
  and stays or follows a declared transition in every cycle; a nested region may also restart
  in its initial state. The machine's expressions sample nothing, its outputs have pairwise
  different names that are not generated ones, and no input, variable or constant has the name
  of a state of the region.
\<close>

theorem lowered_machine_refines_automaton:
  assumes "lower_machine sm = Inr m" and "sim_ok cf s" "si_node s = lm_node m" "in_cycle (cx_state (si_ctx s)) = 0"
    and "\<not> node_uses_clocks (lm_node m)" and "distinct (map p_name (sm_outputs sm))"
      "list_all (\<lambda>p. \<not> generated_name (p_name p)) (sm_outputs sm)"
    and "k < length (regions_of (sm_initial_state sm) (sm_states sm))"
      "regions_of (sm_initial_state sm) (sm_states sm) ! k = (initial, states)"
    and "own_variants cf s ins (st_name ` set states)" and "run_envs cf ins s = Some envs"
  shows "\<exists>qs. map (\<lambda>env. env (region_state_var k)) envs = map (Some \<circ> VEnum) qs \<and>
    automaton_run initial states (k \<noteq> 0) qs"
  by (rule machine_run [OF assms])

lemma lowered_machine_refines_automaton_witness:
  "automaton_run ''Red'' light_states False [''Red'', ''Green'', ''Green'', ''Red'']"
proof -
  obtain envs where envs: "run_envs light_config light_inputs light_sim = Some envs"
    and states: "map (\<lambda>env. env (region_state_var 0)) envs =
      map (Some \<circ> VEnum) [''Red'', ''Green'', ''Green'', ''Red'']"
    using light_trace by (auto simp: light_trace_def)
  have outs: "distinct (map p_name (sm_outputs light))"
    "list_all (\<lambda>p. \<not> generated_name (p_name p)) (sm_outputs light)"
    by (simp_all add: light_def mk_machine_def mk_port_def generated_name_def)
  have regions: "0 < length (regions_of (sm_initial_state light) (sm_states light))"
    "regions_of (sm_initial_state light) (sm_states light) ! 0 = (''Red'', light_states)"
    by (subst regions_of.simps, simp add: light_def mk_machine_def)+
  have "\<not> node_uses_clocks (lm_node light_lowered)" by code_simp
  moreover have "own_variants light_config light_sim light_inputs (st_name ` set light_states)"
    using light_own by (auto simp: own_variants_def light_states_def mk_state_def)
  ultimately obtain qs where "map (\<lambda>env. env (region_state_var 0)) envs = map (Some \<circ> VEnum) qs"
    "automaton_run ''Red'' light_states (0 \<noteq> (0::nat)) qs"
    using lowered_machine_refines_automaton [OF light_low sim_new_ok(1) [OF light_sim_new] light_node
        sim_new_ok(3) [OF light_sim_new] _ outs regions _ envs] by blast
  moreover have "inj (Some \<circ> VEnum)" by (auto intro!: injI)
  ultimately have "qs = [''Red'', ''Green'', ''Green'', ''Red'']"
    using states by (metis inj_map_eq_map)
  with \<open>automaton_run ''Red'' light_states (0 \<noteq> (0::nat)) qs\<close> show ?thesis by simp
qed



section \<open>Activations and lowering\<close>

text \<open>
  C25: When the equations of the branch flags hold and each guard equals its flag wherever it
  ticks, the merge of an output has the value of the scope of the first condition that holds,
  of the else scope when none does; a float is at most widened to double.
\<close>

theorem activation_output_selected:
  assumes "defs_hold cf ev env sc x (flag_defs a cs 0 None)"
    and "list_all2 (decided cf ev env sc x) cs hs"
    and "\<forall>k. 0 < k \<and> k < length cs \<and> (\<forall>j<k. env (clock_var a j) = Some (VBool False)) \<longrightarrow>
      env (clock_var a k) = env (branch_flag a k)"
    and "\<forall>k. env (scope_var a (length cs) k v) \<noteq> None"
    and "eval cf ev (merge_chain a (length cs) v) b env sc y = (Ok w, y')"
  shows "\<exists>u. env (scope_var a (length cs) (selected_scope hs) v) = Some u \<and> widened u w"
  by (rule merge_chain_selects [OF assms])

lemma activation_output_selected_witness:
  "\<exists>u. limiter_env (scope_var ''Lim'' 1 (selected_scope [True]) ''o'') = Some u \<and> widened u (VInt 9)"
proof -
  let ?cf = "mk_config [limiter_owner]" and ?a = "root_addr ConditionRoot"
  have "nat_digits (Suc 0) \<noteq> ''e''" by code_simp
  then have flag: "limiter_env (branch_flag ''Lim'' 0) = Some (VBool True)"
    and scopes: "limiter_env (scope_var ''Lim'' 1 0 ''o'') = Some (VInt 9)"
      "limiter_env (scope_var ''Lim'' 1 (Suc k) ''o'') = Some (VInt 7)"
      "limiter_env ''c'' = Some (VBool True)" for k
    by (simp_all add: limiter_env_def branch_flag_def scope_var_def scope_tag_def act_name_of_def)
  have "limiter_env (scope_var ''Lim'' 1 k ''o'') \<noteq> None" for k
    using scopes by (cases k) auto
  moreover have "defs_hold ?cf (evaluator_of ?cf) limiter_env None fresh_ctx (flag_defs ''Lim'' [Var ''c''] 0 None)"
    using flag scopes(3) by (simp add: defs_hold_def eval_var_def)
  moreover have "list_all2 (decided ?cf (evaluator_of ?cf) limiter_env None fresh_ctx) [Var ''c''] [True]"
    using scopes(3) by (simp add: decided_var)
  moreover have "eval ?cf (evaluator_of ?cf) (merge_chain ''Lim'' 1 ''o'') ?a limiter_env None fresh_ctx = (Ok (VInt 9), fresh_ctx)"
    using flag scopes(1) by (simp add: merge_chain_def clock_var_def eval_var_def sbind_app common_real_def)
  ultimately show ?thesis
    using activation_output_selected [of ?cf "evaluator_of ?cf" limiter_env None fresh_ctx "''Lim''" "[Var ''c'']" "[True]"
        "''o''" ?a fresh_ctx "VInt 9" fresh_ctx] by simp
qed

text \<open>
  C26: An activation without last whose equations all define a variable is lowered exactly when it
  has branches with different names and outputs, and every branch and the else scope assign
  every output.
\<close>

theorem activation_accepted:
  "plain_activation act \<Longrightarrow>
     (\<exists>l. lower_activation act own fv = Inr l) \<longleftrightarrow>
     act_branches act \<noteq> [] \<and> act_outputs act \<noteq> [] \<and> distinct (map ab_name (act_branches act)) \<and>
     list_all (complete_scope act) (map ab_equations (act_branches act) @ [act_else_equations act])"
  by (simp only: plain_accepted check_activation_ok)

lemma activation_accepted_witness: "\<exists>l. lower_activation limiter limiter_owner Map.empty = Inr l"
  using activation_accepted [OF limiter_plain]
  by (simp add: limiter_def complete_scope_def scope_assigns_def mk_eq_def mk_port_def)

text \<open>
  C27: Lowering the state machines of a project leaves none, also when some are refused: every node
  keeps its declarations and equations and only gains new ones at the end, and each new entry
  of the provenance list is a range of equations of the node it names.
\<close>

theorem project_lowered_to_dataflow:
  "case lower_state_machines p of (p', errors) \<Rightarrow>
     list_all (\<lambda>b. pk_state_machines b = []) (pj_packages p') \<and>
     (\<exists>new. pj_origins p' = pj_origins p @ new \<and> packages_lowered (pj_packages p) (pj_packages p') new)"
  by (auto split: prod.split elim: lower_state_machines_lowered)

section \<open>Clock elimination\<close>

text \<open>
  C28: A node that clock elimination rewrites samples and merges nothing: no when and no merge is
  left in any equation, including the flags, the first-tick flags and the holds it adds.
\<close>

theorem rewritten_node_has_no_clocks:
  "declock_node stack node p = Inr m \<Longrightarrow> \<not> node_uses_clocks m"
  by (rule declocked_base_clock)

lemma rewritten_node_has_no_clocks_witness: "\<not> node_uses_clocks unclocked_node"
  by (rule rewritten_node_has_no_clocks [OF clocked_node_rewritten])

text \<open>
  C29: Clock elimination never panics: the expectations that a clock other than the base clock has
  a flag, that every flag has a clock and that every first-tick flag has an activation flag
  always hold.
\<close>

theorem clock_elimination_never_panics: "declock_node stack node p \<noteq> Inl DeclockPanic"
  by (rule declock_never_panics)

text \<open>
  C30: The locals that clock elimination adds have new and pairwise different names, each is
  defined by exactly one new equation, and the interface, the names of the declared locals and
  the variables that the node's equations define stay as they are, in their order.
\<close>

theorem new_names_are_fresh:
  "declock_node stack node p = Inr m \<Longrightarrow>
     \<exists>new. map l_name (nd_locals m) = map l_name (nd_locals node) @ new \<and>
       concat (map eq_lhs (nd_equations m)) = new @ concat (map eq_lhs (nd_equations node)) \<and>
       distinct new \<and> set new \<inter> set (declared_names node) = {} \<and>
       nd_inputs m = nd_inputs node \<and> nd_outputs m = nd_outputs node"
  by (erule declocked_names) blast

lemma new_names_are_fresh_witness:
  "\<exists>new. map l_name (nd_locals unclocked_node) = map l_name (nd_locals clocked_node) @ new \<and> distinct new"
  using new_names_are_fresh [OF clocked_node_rewritten] by blast

section \<open>Expression text\<close>

text \<open>
  C31: Printing and parsing are inverse: the text that the printer writes for an expression parses
  to this same expression, for every expression with a text of its own in the surface syntax.
  Excluded are negative number literals, infinities and NaN, characters above ASCII, names
  that are keywords, tuples and bit operators, a field of an integer literal, and an
  implication, a comparison or an arrow whose left operand is another one.
\<close>

theorem printed_expressions_read_back: "printable e \<Longrightarrow> parse_expr (format_expr e) = Inr e"
  by (rule parse_format)

lemma printed_expressions_read_back_witness:
  "parse_expr (format_expr
      (IfThenElse (Binary BLt (Var ''x'') (Const (LInt 3))) (Arrow (Var ''y'') (Pre (Index (Var ''z'') (Const (LInt 0)))))
        (Unary UNot (When (Var ''w'') ''c'' True)))) =
   Inr (IfThenElse (Binary BLt (Var ''x'') (Const (LInt 3))) (Arrow (Var ''y'') (Pre (Index (Var ''z'') (Const (LInt 0)))))
        (Unary UNot (When (Var ''w'') ''c'' True)))"
  by (rule printed_expressions_read_back)
    (simp add: is_name_def ident_def is_ident_char_def is_alnum_def is_alpha_def literal_ok_def)

text \<open>
  C32: The parser always returns an expression or one of the errors of the source: the nesting and
  the loops of the recursive descent are bounded by the number of tokens, so the bounds of the
  model are never reached.
\<close>

theorem parser_always_returns:
  "(\<exists>e. parse_expr s = Inr e) \<or> (\<exists>f. parse_expr s = Inl (Syntax f))"
  using parse_expr_returns [of s]
  by (cases "parse_expr s") (auto intro: parse_failure.exhaust)

text \<open>
  C33: The printer writes no brackets around an implication that is the left operand of another
  one, and the parser groups implications to the right: the text of (a => b) => c parses to a
  => (b => c), another formula.
\<close>

theorem implications_regrouped:
  "printable a \<Longrightarrow> printable b \<Longrightarrow> printable c \<Longrightarrow> prec_of a \<noteq> 18 \<Longrightarrow>
     parse_expr (format_expr (e_implies (e_implies a b) c)) = Inr (e_implies a (e_implies b c))"
  by (rule implication_chain_regrouped)

lemma implications_regrouped_witness:
  "parse_expr (format_expr (e_implies (e_implies (Var ''a'') (Var ''b'')) (Var ''c''))) =
     Inr (e_implies (Var ''a'') (e_implies (Var ''b'') (Var ''c'')))"
  by (rule implications_regrouped)
    (simp_all add: is_name_def ident_def is_ident_char_def is_alnum_def is_alpha_def)

text \<open>
  C34: The printer writes no brackets around a comparison that is the left operand of another one,
  and the parser reads one comparison only: the text of (a = b) = c is rejected, with the
  second operator and its operand as the trailing tokens.
\<close>

theorem comparison_chains_rejected:
  "printable a \<Longrightarrow> printable b \<Longrightarrow> printable c \<Longrightarrow> prec_of a \<noteq> 30 \<Longrightarrow>
   snd (bin_op_syntax p) = 30 \<Longrightarrow> snd (bin_op_syntax q) = 30 \<Longrightarrow>
     parse_expr (format_expr (Binary q (Binary p a b) c)) =
       Inl (Syntax (Trailing (join_with '' '' (map describe (op_tok q # toks 31 c)))))"
  by (rule comparison_chain_rejected)

lemma comparison_chains_rejected_witness:
  "parse_expr (format_expr (Binary BEq (Binary BEq (Var ''a'') (Var ''b'')) (Var ''c''))) = Inl (Syntax (Trailing ''= c''))"
  using comparison_chains_rejected [of "Var ''a''" "Var ''b''" "Var ''c''" BEq BEq]
  by (simp add: is_name_def ident_def is_ident_char_def is_alnum_def is_alpha_def toks.simps)

section \<open>Inputs\<close>

text \<open>
  C35: A value that the input parser accepts has the declared type: every integer lies in its
  range, every float is finite, every array has its length, every enumeration value is a
  variant and every struct has exactly its fields. The simulator stores such a value as it is;
  narrowing to the declared type never changes it. The structs of the project have pairwise
  different field names, no type contains itself, and the stack is deeper than the nesting of
  types.
\<close>

theorem parsed_inputs_fit:
  assumes "distinct_fields (cf_project cf)" "ranked_types (cf_project cf) tr"
    and "\<forall>t\<in>set (all_types (cf_project cf)). tr (td_name t) < n" "n < cf_stack cf"
    and "parse_value from_json (cf_project cf) raw t path = Inr v"
  shows "typed (cf_project cf) t v \<and> fit_to cf t v = Some v"
proof -
  have "fit_to cf t v \<noteq> None" using types_fit_ranked [OF assms(2-4)] unfolding types_fit_def by blast
  with parse_value_fits [OF assms(1,5)] show ?thesis by blast
qed

lemma parsed_inputs_fit_witness:
  "typed gains_project (TNamed ''Gains'') gains_value \<and>
   fit_to \<lparr>cf_project = gains_project, cf_stack = 4, cf_checks = True\<rparr> (TNamed ''Gains'') gains_value = Some gains_value"
proof -
  let ?cf = "\<lparr>cf_project = gains_project, cf_stack = 4, cf_checks = True\<rparr>"
  have "ranked_types (cf_project ?cf) (\<lambda>_. 0)" "\<forall>t\<in>set (all_types (cf_project ?cf)). 0 < (1::nat)" "1 < cf_stack ?cf"
    by (simp_all add: ranked_types_def below_def body_names_def all_types_def gains_project_def gains_body_def mk_project_def mk_package_def)
  from parsed_inputs_fit [of ?cf, OF _ this, of "\<lambda>_. Inl ''no JSON''" "''{on=[true;0];k=-128}''" "TNamed ''Gains''" "''g''" gains_value]
  show ?thesis using gains_parsed gains_distinct by simp
qed

section \<open>Slicing\<close>

text \<open>
  C36: When constants have pairwise different names, the slice of a project for a root node
  consists, in the order of the project, of exactly the declarations reached from the root by
  these references: the calls and iterated functions in a node's equations, in the contract
  the node names and in the values of constants; that contract and, from contract to contract,
  the imported ones; the constants whose names occur in an equation, in a clause of a contract
  that is reached or in the value of a constant; the types of ports, locals, ghost variables
  and constants, the enumerations whose variants occur, and the types these are made of. Not
  among the references are the type of a struct literal and the calls in a contract that is
  only imported.
\<close>

theorem slice_keeps_exactly_what_is_used:
  "unique_constants p \<Longrightarrow> slice_for_root d p root = Inr q \<Longrightarrow>
     \<exists>r. selected_node_name p root = Some r \<and> pj_main q = Some r \<and>
       all_nodes q = filter (\<lambda>n. reached d p r (ANode (nd_name n))) (all_nodes p) \<and>
       all_constants q = filter (\<lambda>c. reached d p r (AConst (c_name_of c))) (all_constants p) \<and>
       all_types q = filter (\<lambda>t. reached_type d p r (td_name t)) (all_types p) \<and>
       concat (map pk_contracts (pj_packages q)) =
         filter (\<lambda>raw. \<exists>c. j_name raw = Some c \<and> reached d p r (AContract c)) (concat (map pk_contracts (pj_packages p)))"
  unfolding reached_used reached_used_type by (rule slice_exact)

lemma slice_keeps_exactly_what_is_used_witness:
  "filter (\<lambda>n. reached no_json gain_project ''Main'' (ANode (nd_name n))) (all_nodes gain_project) = [gain_main, gain_scale]"
proof -
  obtain q where q: "slice_for_root no_json gain_project ''Main'' = Inr q" "all_nodes q = [gain_main, gain_scale]"
    using gain_slice by blast
  have root: "selected_node_name gain_project ''Main'' = Some ''Main''"
    by (simp add: selected_node_name_def resolved_node_name_def all_nodes_def gain_project_def gain_main_def fixture_defs)
  show ?thesis
    using slice_keeps_exactly_what_is_used [OF gain_unique q(1)] root q(2) by auto
qed

section \<open>The type checker\<close>

text \<open>
  C37: The search for combinational cycles is exact. An equation depends on the names that occur in
  its right-hand side outside pre and outside the bodies of arrows. A path that the search
  returns runs along such dependencies of the node's equations and ends where it starts, and
  when it returns none the dependencies have no cycle at all.
\<close>

theorem cycle_check_exact:
  "case detect_combinational_cycle node of
     Some cycle \<Rightarrow> successively (edge node) cycle \<and> 2 \<le> length cycle \<and> hd cycle = last cycle
   | None \<Rightarrow> acyclic {(v, s). edge node v s}"
  by (rule cycle_search)

text \<open>
  C38: An operator that the type checker accepts has an evaluation order, provided that every name
  that occurs in the body of an arrow also occurs, in the same right-hand side, outside pre
  and outside the bodies of arrows: the scheduler counts the body of an arrow, the cycle check
  does not.
\<close>

theorem accepted_node_is_scheduled:
  "\<not> has_errors (check_node sigs tc node) \<Longrightarrow> nd_kind node = Operator \<Longrightarrow>
     \<forall>eq\<in>set (nd_equations node). \<forall>x. occurs True (eq_rhs eq) x \<longrightarrow> occurs False (eq_rhs eq) x \<Longrightarrow>
     \<exists>order. evaluation_order node = Inr order"
  by (rule acyclic_scheduled)
    (auto simp: check_node_def Let_def is_imported_def is_function_def arrows_open_def split: prod.splits option.splits)

lemma accepted_node_is_scheduled_witness: "\<exists>order. evaluation_order ratio_node = Inr order"
  by (rule accepted_node_is_scheduled [OF ratio_node_accepted ratio_kind ratio_open [unfolded arrows_open_def]])

text \<open>
  C39: Type soundness of the operators: in a project that the type checker accepts and that
  declares no type of the checker's internal name for results of calls, the right-hand side of
  an equation without memory, calls, iterators and tuples is evaluated, in an environment that
  holds for every variable and constant a value shaped like its type, to a value shaped like
  the type its target is declared with, or the evaluation stops at an overflow, an index out
  of range, a division by zero, a remainder of reals or a shift out of range. Shaped like a
  type means: of its kind, arrays of its length, enumeration values among its variants,
  records with its fields; integers may leave the range of their type, and reals have either
  width, until the value is stored. Unknown names, missing fields, conditions that are no
  booleans and operators on values of other types do not occur.
\<close>

theorem accepted_equations_evaluate:
  assumes "\<not> has_errors (check_project p)" "node \<in> set (all_nodes p)" "\<not> is_imported node"
    and "''__tuple__'' \<notin> td_name ` set (all_types p)"
    and "i < length (nd_equations node)" "eq_lhs (nd_equations node ! i) = [x]" "operators_only (eq_rhs (nd_equations node ! i))"
    and "variables_typed (equation_checker (fst (signatures (all_nodes p))) (from_project p) node i) env" "cf_project cf = p"
  shows "\<exists>want. fst (node_env (''node '' @ nd_name node) node) x = Some want \<and>
    (\<forall>ev a sc c. case fst (eval cf ev (eq_rhs (nd_equations node ! i)) a env sc c) of
       Ok v \<Rightarrow> shaped (from_project p) want v
     | r \<Rightarrow> run_time_failure r)"
proof -
  let ?ck = "equation_checker (fst (signatures (all_nodes p))) (from_project p) node i"
  have tc: "ck_types ?ck = from_project p" by (simp add: equation_checker_def)
  have "names_apart p (from_project p)" "\<not> has_errors (check_node (fst (signatures (all_nodes p))) (from_project p) node)"
    using assms(1,2) by (auto simp: check_project_def Let_def checked_names_apart split: prod.splits)
  note checked = this
  obtain want t where t: "ck_env ?ck x = Some want" "infer_expr_type ?ck (eq_rhs (nd_equations node ! i)) (Some want) = (Some t, [])"
    "resolve (from_project p) want = resolve (from_project p) t \<or> is_tuple_type t"
    by (rule accepted_equation [OF checked(2) assms(3,5-7)])
  have "evaluates cf ev ?ck env sc (eq_rhs (nd_equations node ! i))" for ev sc
    using operators_evaluate [of cf ?ck env "eq_rhs (nd_equations node ! i)" ev sc] checked(1) assms(7-9) tc by simp
  from evaluatesD [OF this t(2)] have safe_run: "proper (shaped (from_project p) t) (fst (eval cf ev (eq_rhs (nd_equations node ! i)) a env sc c))" for ev a sc c
    unfolding safe_def tc by blast
  have want: "shaped (from_project p) want v" if "shaped (from_project p) t v" for v
    using t(3) that tuple_empty [OF assms(4)] shaped_cong [of "from_project p" t want v] by auto
  have "\<forall>ev a sc c. case fst (eval cf ev (eq_rhs (nd_equations node ! i)) a env sc c) of
      Ok v \<Rightarrow> shaped (from_project p) want v | r \<Rightarrow> run_time_failure r"
  proof (intro allI)
    fix ev a sc c
    show "case fst (eval cf ev (eq_rhs (nd_equations node ! i)) a env sc c) of
      Ok v \<Rightarrow> shaped (from_project p) want v | r \<Rightarrow> run_time_failure r"
      using safe_run [of ev a sc c] want
      by (cases "fst (eval cf ev (eq_rhs (nd_equations node ! i)) a env sc c)") (simp_all add: proper_def)
  qed
  moreover have "fst (node_env (''node '' @ nd_name node) node) x = Some want"
    using t(1) by (simp add: equation_checker_def)
  ultimately show ?thesis by blast
qed

lemma accepted_equations_evaluate_witness:
  "\<exists>want. fst (node_env ''node ratio'' ratio_node) ''y'' = Some want \<and>
    (\<forall>ev a sc c. case fst (eval ((mk_config [])\<lparr>cf_project := ratio_project\<rparr>) ev (eq_rhs ratio_y) a (ratio_env 7 2) sc c) of
       Ok v \<Rightarrow> shaped (from_project ratio_project) want v
     | r \<Rightarrow> run_time_failure r)"
  using accepted_equations_evaluate [of ratio_project ratio_node 0 "''y''" "ratio_env 7 2" "(mk_config [])\<lparr>cf_project := ratio_project\<rparr>",
      OF ratio_accepted ratio_member] ratio_variables [of 7 2] ratio_shape ratio_no_tuple
  by simp

end
